(* ===== verification/Prelude.thy ===== *)
theory Prelude
  imports Main "HOL-Library.Word"
begin

text \<open>
  Shared vocabulary of the development: the machine types of the C code, the size
  arithmetic of \<open>size_t\<close>, byte strings seen as big-endian numbers, sub-ranges of a
  buffer, and the lemmas on them that every component uses. The collection
  \<open>byte_simps\<close> holds the rewrite rules that move from bytes and words to numbers.
\<close>

unbundle bit_operations_syntax

type_synonym byte = "8 word"
type_synonym u16 = "16 word"
type_synonym u32 = "32 word"
type_synonym u64 = "64 word"

named_theorems byte_simps \<open>bytes and words as numbers\<close>

section \<open>size\_t\<close>

text \<open>
  \<open>size_t\<close> is 64 bits wide on the platforms the pods are built for. Sizes are natural
  numbers; where the code adds or doubles sizes and tests for wrap-around the wrap-around is
  written out with \<open>size_add\<close> and \<open>size_mul\<close>.
\<close>

definition SIZE_MOD :: nat where
  "SIZE_MOD = 2 ^ 64"

definition size_add :: "nat \<Rightarrow> nat \<Rightarrow> nat" where
  "size_add a b = (a + b) mod SIZE_MOD"

definition size_mul :: "nat \<Rightarrow> nat \<Rightarrow> nat" where
  "size_mul a b = (a * b) mod SIZE_MOD"

text \<open>No object is larger than \<open>PTRDIFF_MAX\<close> bytes.\<close>

definition PTRDIFF_MAX :: nat where
  "PTRDIFF_MAX = 2 ^ 63 - 1"

definition INT_MAX :: nat where
  "INT_MAX = 2 ^ 31 - 1"

lemma PTRDIFF_MAX_less: "PTRDIFF_MAX < SIZE_MOD"
  by (simp add: PTRDIFF_MAX_def SIZE_MOD_def)

lemma size_add_no_wrap: "a + b < SIZE_MOD \<Longrightarrow> size_add a b = a + b"
  by (simp add: size_add_def)

lemma size_add_wraps:
  assumes "a < SIZE_MOD" "b < SIZE_MOD" "SIZE_MOD \<le> a + b"
  shows "size_add a b < a"
proof -
  have "(a + b) mod SIZE_MOD = a + b - SIZE_MOD"
    using assms by (simp add: mod_if)
  with assms show ?thesis by (simp add: size_add_def)
qed

text \<open>The overflow test of the code, \<open>a + b < a\<close>, is exact.\<close>

lemma size_add_overflow_iff:
  "a < SIZE_MOD \<Longrightarrow> b < SIZE_MOD \<Longrightarrow> size_add a b < a \<longleftrightarrow> SIZE_MOD \<le> a + b"
  by (metis size_add_no_wrap size_add_wraps le_add1 linorder_not_less)

lemma size_add_ok:
  "a < SIZE_MOD \<Longrightarrow> b < SIZE_MOD \<Longrightarrow> \<not> size_add a b < a \<Longrightarrow> size_add a b = a + b"
  by (simp add: size_add_overflow_iff size_add_no_wrap)

section \<open>Byte strings as big-endian numbers\<close>

definition be_value :: "byte list \<Rightarrow> nat" where
  "be_value bs = foldl (\<lambda>v b. v * 256 + unat b) 0 bs"

primrec be_bytes :: "nat \<Rightarrow> nat \<Rightarrow> byte list" where
  "be_bytes 0 v = []"
| "be_bytes (Suc n) v = be_bytes n (v div 256) @ [of_nat v]"

lemma be_value_Nil [simp]: "be_value [] = 0"
  by (simp add: be_value_def)

lemma be_value_snoc [simp]: "be_value (bs @ [b]) = be_value bs * 256 + unat b"
  by (simp add: be_value_def)

lemma be_value_single [simp]: "be_value [b] = unat b"
  by (simp add: be_value_def)

lemma unat_byte_less [simp]: "unat (b :: byte) < 256"
  using unsigned_less [of b] by simp

lemma unat_of_nat_byte [byte_simps]: "unat (of_nat v :: byte) = v mod 256"
  by (simp add: unat_of_nat)

lemma of_nat_byte_mod [simp]: "(of_nat (v mod 256) :: byte) = of_nat v"
  by (rule word_unat_eq_iff [THEN iffD2]) (simp add: byte_simps)

lemma be_value_append: "be_value (xs @ ys) = be_value xs * 256 ^ length ys + be_value ys"
  by (induction ys rule: rev_induct) (simp_all add: algebra_simps flip: append_assoc)

lemma be_value_Cons: "be_value (b # bs) = unat b * 256 ^ length bs + be_value bs"
  using be_value_append [of "[b]" bs] by simp

lemma be_value_less: "be_value bs < 256 ^ length bs"
proof (induction bs rule: rev_induct)
  case Nil
  show ?case by simp
next
  case (snoc b bs)
  have "be_value bs * 256 + unat b < (be_value bs + 1) * 256"
    by simp
  also have "\<dots> \<le> 256 ^ length bs * 256"
    using snoc by (intro mult_le_mono1) simp
  finally show ?case by (simp add: mult.commute)
qed

lemma length_be_bytes [simp]: "length (be_bytes n v) = n"
  by (induction n arbitrary: v) simp_all

lemma be_value_be_bytes: "be_value (be_bytes n v) = v mod 256 ^ n"
proof (induction n arbitrary: v)
  case 0
  show ?case by simp
next
  case (Suc n)
  have "(v div 256) mod 256 ^ n * 256 + v mod 256 = v mod (256 * 256 ^ n)"
    by (metis mod_mult2_eq mult.commute add.commute)
  then show ?case
    by (simp add: Suc byte_simps)
qed

lemma be_bytes_be_value [simp]: "be_bytes (length bs) (be_value bs) = bs"
proof (induction bs rule: rev_induct)
  case Nil
  show ?case by simp
next
  case (snoc b bs)
  have "(be_value bs * 256 + unat b) div 256 = be_value bs"
    by simp
  moreover have "of_nat (be_value bs * 256 + unat b) = b"
    using of_nat_byte_mod [of "be_value bs * 256 + unat b"] by (simp del: of_nat_byte_mod)
  ultimately show ?case
    using snoc by simp
qed

lemma be_bytes_eq_iff:
  "length bs = n \<Longrightarrow> v < 256 ^ n \<Longrightarrow> be_bytes n v = bs \<longleftrightarrow> be_value bs = v"
  by (metis be_bytes_be_value be_value_be_bytes mod_less)

lemma be_bytes_div: "be_bytes n (v div 256 ^ k) = take n (be_bytes (n + k) v)"
proof (induction k arbitrary: v)
  case 0
  show ?case by simp
next
  case (Suc k)
  have "be_bytes n (v div 256 ^ Suc k) = be_bytes n ((v div 256) div 256 ^ k)"
    by (simp add: div_mult2_eq)
  with Suc show ?case by simp
qed

lemma be_value_0_iff: "be_value bs = 0 \<longleftrightarrow> (\<forall>b \<in> set bs. b = 0)"
  by (induction bs rule: rev_induct) (auto simp: unat_eq_zero)

lemma be_value_Cons_ge: "b \<noteq> 0 \<Longrightarrow> 256 ^ length bs \<le> be_value (b # bs)"
  using unat_gt_0 [of b] by (simp add: be_value_Cons trans_le_add1 Suc_le_eq)

section \<open>Shift-and-or accumulation\<close>

text \<open>
  The loops of the code read a big-endian number with \<open>r = (r << 8) | b\<close>. On a word of
  \<open>8 * n\<close> bits the accumulator holds the number read so far modulo the word size.
\<close>

definition shift_or :: "'a::len word \<Rightarrow> byte \<Rightarrow> 'a word" where
  "shift_or r b = push_bit 8 r OR ucast b"

lemma shift_or_add: "shift_or r b = push_bit 8 r + ucast b"
proof -
  have "push_bit 8 r AND (ucast b :: 'a word) = 0"
    by (rule bit_word_eqI) (auto simp: bit_simps dest: bit_imp_le_length)
  then show ?thesis
    by (simp add: shift_or_def disjunctive_add_eq_or)
qed

lemma shift_or_of_nat: "shift_or (of_nat v :: 'a::len word) b = of_nat (v * 256 + unat b)"
  by (simp add: shift_or_add push_bit_eq_mult)

lemma fold_shift_or: "foldl shift_or (of_nat v :: 'a::len word) bs = of_nat (v * 256 ^ length bs + be_value bs)"
proof (induction bs rule: rev_induct)
  case Nil
  show ?case by simp
next
  case (snoc b bs)
  then have "foldl shift_or (of_nat v :: 'a word) (bs @ [b]) =
      of_nat ((v * 256 ^ length bs + be_value bs) * 256 + unat b)"
    by (simp only: foldl_append foldl_Cons foldl_Nil shift_or_of_nat)
  then show ?case
    by (simp add: algebra_simps)
qed

lemma fold_shift_or_0: "foldl shift_or (0 :: 'a::len word) bs = of_nat (be_value bs)"
  using fold_shift_or [of 0 bs] by simp

section \<open>Sub-ranges of a buffer\<close>

definition slice :: "'a list \<Rightarrow> nat \<Rightarrow> nat \<Rightarrow> 'a list" where
  "slice xs i n = take n (drop i xs)"

lemma length_slice [simp]: "length (slice xs i n) = min n (length xs - i)"
  by (simp add: slice_def)

lemma slice_0 [simp]: "slice xs i 0 = []"
  by (simp add: slice_def)

lemma take_slice [simp]: "take k (slice xs i n) = slice xs i (min k n)"
  by (simp add: slice_def)

lemma drop_slice [simp]: "drop k (slice xs i n) = slice xs (i + k) (n - k)"
  by (simp add: slice_def drop_take add.commute)

lemma slice_append: "slice xs i m @ slice xs (i + m) n = slice xs i (m + n)"
  by (simp add: slice_def take_add add.commute)

lemma nth_slice: "k < n \<Longrightarrow> i + n \<le> length xs \<Longrightarrow> slice xs i n ! k = xs ! (i + k)"
  by (simp add: slice_def)

lemma slice_Suc: "i < length xs \<Longrightarrow> slice xs i (Suc n) = xs ! i # slice xs (Suc i) n"
  by (simp add: slice_def flip: Cons_nth_drop_Suc)

lemma slice_full [simp]: "slice xs 0 (length xs) = xs"
  by (simp add: slice_def)

text \<open>Overwriting a range, as \<open>memcpy\<close> does.\<close>

definition splice :: "'a list \<Rightarrow> nat \<Rightarrow> 'a list \<Rightarrow> 'a list" where
  "splice xs i ys = take i xs @ ys @ drop (i + length ys) xs"

lemma length_splice [simp]: "i + length ys \<le> length xs \<Longrightarrow> length (splice xs i ys) = length xs"
  by (simp add: splice_def)

lemma splice_Nil [simp]: "splice xs i [] = xs"
  by (simp add: splice_def)

lemma take_splice: "i \<le> length xs \<Longrightarrow> take i (splice xs i ys) = take i xs"
  by (simp add: splice_def)

lemma take_splice_end: "i \<le> length xs \<Longrightarrow> take (i + length ys) (splice xs i ys) = take i xs @ ys"
  by (simp add: splice_def)

lemma take_splice_less: "k \<le> i \<Longrightarrow> i \<le> length xs \<Longrightarrow> take k (splice xs i ys) = take k xs"
  by (simp add: splice_def min_def)

lemma take_splice_inside:
  assumes "i + length ys \<le> n" "n \<le> length xs"
  shows "take n (splice xs i ys) = splice (take n xs) i ys"
proof -
  have "min i n = i" "min n i = i" "take (n - i) ys = ys" using assms by simp_all
  then show ?thesis using assms by (simp add: splice_def drop_take)
qed

lemma or_shift:
  "d < 2 ^ k \<Longrightarrow> push_bit k (of_nat v :: 'a::len word) OR of_nat d = of_nat (v * 2 ^ k + d)"
proof -
  assume "d < 2 ^ k"
  then have "(of_nat d :: 'a word) = take_bit k (of_nat d)"
    by (simp add: take_bit_of_nat take_bit_nat_eq_self)
  moreover have "push_bit k w AND take_bit k x = 0" for w x :: "'a word"
    by (rule bit_word_eqI) (auto simp: bit_simps)
  ultimately have "push_bit k (of_nat v :: 'a word) AND of_nat d = 0" by metis
  then show ?thesis by (simp add: disjunctive_add_eq_or [symmetric] push_bit_eq_mult)
qed

section \<open>Single bytes\<close>

lemma byte_high_bit_iff [byte_simps]: "(b AND 0x80 \<noteq> 0) \<longleftrightarrow> 128 \<le> unat (b :: byte)"
proof -
  have "b AND 0x80 = 0 \<longleftrightarrow> \<not> bit b 7"
    using and_exp_eq_0_iff_not_bit [of b 7] by simp
  also have "bit b 7 \<longleftrightarrow> bit (unat b) 7"
    by (simp add: bit_simps)
  also have "\<dots> \<longleftrightarrow> odd (unat b div 128)"
    by (simp add: bit_iff_odd)
  also have "odd (unat b div 128) \<longleftrightarrow> 128 \<le> unat b"
  proof -
    have "unat b div 128 \<le> 1"
      using unat_byte_less [of b] by linarith
    then have "unat b div 128 = 0 \<or> unat b div 128 = 1" by linarith
    then show ?thesis by (auto simp: div_eq_0_iff)
  qed
  finally show ?thesis by simp
qed

lemma byte_and_7f [byte_simps]: "unat (b AND 0x7f :: byte) = unat b mod 128"
proof -
  have "b AND 0x7f = take_bit 7 b"
    by (simp add: take_bit_eq_mask mask_eq_exp_minus_1)
  then show ?thesis
    by (simp add: take_bit_eq_mod unat_mod_distrib)
qed

lemma unat_ucast_up:
  assumes "LENGTH('a) \<le> LENGTH('b)"
  shows "unat (ucast (w :: 'a::len word) :: 'b::len word) = unat w"
proof -
  have "unat w < 2 ^ LENGTH('a)" by simp
  also have "\<dots> \<le> 2 ^ LENGTH('b)" using assms by (intro power_increasing) auto
  finally show ?thesis by (simp add: unsigned_ucast_eq take_bit_nat_eq_self)
qed

lemma unat_ucast_byte: "8 \<le> LENGTH('a) \<Longrightarrow> unat (ucast (b :: byte) :: 'a::len word) = unat b"
  by (simp add: unat_ucast_up)

text \<open>Appending seven bits to a 64-bit accumulator, when the top seven bits are free.\<close>

lemma drop_top_7_iff: "drop_bit 57 (v :: u64) \<noteq> 0 \<longleftrightarrow> 2 ^ 57 \<le> unat v"
proof -
  have "drop_bit 57 v = 0 \<longleftrightarrow> unat (drop_bit 57 v) = 0"
    by (simp add: unat_eq_zero)
  also have "\<dots> \<longleftrightarrow> unat v div 2 ^ 57 = 0"
    by (simp only: unat_drop_bit_eq drop_bit_eq_div [where 'a = nat])
  finally show ?thesis by (simp add: div_eq_0_iff not_less)
qed

lemma shift_or_7:
  assumes "unat (v :: u64) < 2 ^ 57"
  shows "unat (push_bit 7 v OR ucast (b AND 0x7f :: byte)) = unat v * 128 + unat b mod 128"
proof -
  have "push_bit 7 v AND ucast (b AND 0x7f) = 0"
  proof -
    have "b AND 0x7f = take_bit 7 b"
      by (simp add: take_bit_eq_mask mask_eq_exp_minus_1)
    then show ?thesis by (simp only:, intro bit_word_eqI) (auto simp: bit_simps)
  qed
  then have "push_bit 7 v OR ucast (b AND 0x7f) = push_bit 7 v + ucast (b AND 0x7f)"
    by (simp add: disjunctive_add_eq_or)
  also have "\<dots> = of_nat (unat v * 128 + unat b mod 128)"
    by (simp add: push_bit_eq_mult flip: byte_and_7f)
  finally have "push_bit 7 v OR ucast (b AND 0x7f) = of_nat (unat v * 128 + unat b mod 128)" .
  moreover have "unat v * 128 + unat b mod 128 < 2 ^ 64"
    using assms mod_less_divisor [of 128 "unat b"] by simp
  ultimately show ?thesis by (simp add: unat_of_nat del: of_nat_add of_nat_mult)
qed

section \<open>Overlapping writes and shifted words\<close>

lemma splice_splice:
  "i \<le> length xs \<Longrightarrow> splice (splice xs i ys) (i + length ys) zs = splice xs i (ys @ zs)"
  by (simp add: splice_def add.commute add.left_commute)

lemma unat_and_7f: "7 < LENGTH('a) \<Longrightarrow> unat (v AND 0x7f :: 'a::len word) = unat v mod 128"
proof -
  have "unat (v AND mask 7) = unat v mod 2 ^ 7" by (metis take_bit_eq_mask unsigned_take_bit_eq take_bit_eq_mod)
  then show ?thesis by (simp add: mask_eq_exp_minus_1)
qed

lemma unat_drop_bit: "unat (drop_bit k (u :: 'a::len word)) = unat u div 2 ^ k"
proof -
  have "unat u < 2 ^ LENGTH('a)" by simp
  then show ?thesis by (simp only: unsigned_drop_bit_eq) (simp add: drop_bit_eq_div take_bit_nat_eq_self)
qed

end
