(* ===== verification/Mem.thy ===== *)
theory Mem
  imports Prelude
begin

text \<open>
  The memory helpers of \<open>crypto/mem.c\<close> and \<open>crypto/internal.h\<close>. The C library's
  \<open>malloc\<close> is a parameter: it returns \<open>None\<close> for \<open>NULL\<close> and otherwise the bytes of a
  fresh block, whose contents are arbitrary and whose length is the one asked for
  (\<open>malloc_law\<close>). A block handed out by \<open>OPENSSL_malloc\<close> is the list of its user bytes;
  the size that the code keeps in the eight bytes in front of it is the length of that list.
  A C string is the list of its bytes before the terminating zero, and \<open>char\<close> is signed.
\<close>

type_synonym libc_malloc = "nat \<Rightarrow> byte list option"

definition malloc_law :: "libc_malloc \<Rightarrow> bool" where
  "malloc_law malloc \<longleftrightarrow> (\<forall>n blk. malloc n = Some blk \<longrightarrow> length blk = n)"

section \<open>Allocation\<close>

definition OPENSSL_MALLOC_PREFIX :: nat where
  "OPENSSL_MALLOC_PREFIX = 8"

definition OPENSSL_malloc :: "libc_malloc \<Rightarrow> nat \<Rightarrow> byte list option" where
  "OPENSSL_malloc malloc sz =
     (if size_add sz OPENSSL_MALLOC_PREFIX < sz then None
      else case malloc (size_add sz OPENSSL_MALLOC_PREFIX) of
             None \<Rightarrow> None
           | Some ptr \<Rightarrow> Some (drop OPENSSL_MALLOC_PREFIX ptr))"

text \<open>\<open>orig_ptr = None\<close> is the null pointer.\<close>

definition OPENSSL_realloc :: "libc_malloc \<Rightarrow> byte list option \<Rightarrow> nat \<Rightarrow> byte list option" where
  "OPENSSL_realloc malloc orig_ptr new_size =
     (case orig_ptr of
        None \<Rightarrow> OPENSSL_malloc malloc new_size
      | Some blk \<Rightarrow>
          (case OPENSSL_malloc malloc new_size of
             None \<Rightarrow> None
           | Some ret \<Rightarrow>
               (let old_size = length blk;
                    to_copy = (if old_size < new_size then old_size else new_size)
                in Some (splice ret 0 (take to_copy blk)))))"

definition OPENSSL_memdup :: "libc_malloc \<Rightarrow> byte list \<Rightarrow> nat \<Rightarrow> byte list option" where
  "OPENSSL_memdup malloc data sz =
     (if sz = 0 then None
      else case OPENSSL_malloc malloc sz of
             None \<Rightarrow> None
           | Some ret \<Rightarrow> Some (splice ret 0 (take sz data)))"

section \<open>Comparison and hashing\<close>

definition CRYPTO_memcmp :: "byte list \<Rightarrow> byte list \<Rightarrow> nat \<Rightarrow> byte" where
  "CRYPTO_memcmp a b len = fold (\<lambda>i x. x OR (a ! i XOR b ! i)) [0..<len] 0"

text \<open>
  \<open>OPENSSL_memcmp\<close> guards \<open>memcmp\<close> against a zero length. \<open>memcmp\<close> compares as unsigned
  bytes; only the sign of its result is specified, and the model returns -1, 0 or 1.
\<close>

fun memcmp :: "byte list \<Rightarrow> byte list \<Rightarrow> nat \<Rightarrow> int" where
  "memcmp (a # as) (b # bs) (Suc n) =
     (if a < b then -1 else if b < a then 1 else memcmp as bs n)"
| "memcmp _ _ _ = 0"

definition OPENSSL_memcmp :: "byte list \<Rightarrow> byte list \<Rightarrow> nat \<Rightarrow> int" where
  "OPENSSL_memcmp s1 s2 n = (if n = 0 then 0 else memcmp s1 s2 n)"

text \<open>\<open>memchr\<close> returns the index of the first match, \<open>None\<close> for the null pointer.\<close>

fun memchr :: "byte list \<Rightarrow> byte \<Rightarrow> nat \<Rightarrow> nat option" where
  "memchr (x # xs) c (Suc n) = (if x = c then Some 0 else map_option Suc (memchr xs c n))"
| "memchr _ c _ = None"

definition OPENSSL_memchr :: "byte list \<Rightarrow> byte \<Rightarrow> nat \<Rightarrow> nat option" where
  "OPENSSL_memchr s c n = (if n = 0 then None else memchr s c n)"

definition OPENSSL_hash32 :: "byte list \<Rightarrow> nat \<Rightarrow> u32" where
  "OPENSSL_hash32 in' len =
     fold (\<lambda>i h. (h XOR ucast (in' ! i)) * 16777619) [0..<len] 2166136261"

definition OPENSSL_strhash :: "byte list \<Rightarrow> u32" where
  "OPENSSL_strhash s = OPENSSL_hash32 s (length s)"

section \<open>Strings\<close>

text \<open>\<open>OPENSSL_strnlen\<close> reads a buffer, not a C string: it stops at the first zero byte.\<close>

fun OPENSSL_strnlen :: "byte list \<Rightarrow> nat \<Rightarrow> nat" where
  "OPENSSL_strnlen (c # s) (Suc len) = (if c = 0 then 0 else Suc (OPENSSL_strnlen s len))"
| "OPENSSL_strnlen [] (Suc len) = 0"
| "OPENSSL_strnlen s 0 = 0"

definition OPENSSL_strdup :: "libc_malloc \<Rightarrow> byte list option \<Rightarrow> byte list option" where
  "OPENSSL_strdup malloc s' =
     (case s' of
        None \<Rightarrow> None
      | Some s \<Rightarrow>
          (let len = size_add (length s) 1
           in case OPENSSL_malloc malloc len of
                None \<Rightarrow> None
              | Some ret \<Rightarrow> Some (splice ret 0 (take len (s @ [0])))))"

definition OPENSSL_strndup :: "libc_malloc \<Rightarrow> byte list \<Rightarrow> nat \<Rightarrow> byte list option" where
  "OPENSSL_strndup malloc str size' =
     (let sz = OPENSSL_strnlen str size';
          alloc_size = size_add sz 1
      in if alloc_size < sz then None
         else case OPENSSL_malloc malloc alloc_size of
                None \<Rightarrow> None
              | Some ret \<Rightarrow> Some ((splice ret 0 (take sz str))[sz := 0]))"

definition OPENSSL_tolower :: "int \<Rightarrow> int" where
  "OPENSSL_tolower c = (if c \<ge> 65 \<and> c \<le> 90 then c + (97 - 65) else c)"

text \<open>Reading a C string at or after its end: the terminating zero.\<close>

definition char_at :: "byte list \<Rightarrow> int" where
  "char_at s = (case s of [] \<Rightarrow> 0 | c # _ \<Rightarrow> sint c)"

function OPENSSL_strcasecmp :: "byte list \<Rightarrow> byte list \<Rightarrow> int" where
  "OPENSSL_strcasecmp a b =
     (let aa = OPENSSL_tolower (char_at a); bb = OPENSSL_tolower (char_at b)
      in if aa < bb then -1 else if aa > bb then 1 else if aa = 0 then 0
         else OPENSSL_strcasecmp (tl a) (tl b))"
  by pat_completeness auto
termination
  by (relation "measure (\<lambda>(a, b). length a)")
    (auto simp: char_at_def OPENSSL_tolower_def split: list.splits if_splits)

fun OPENSSL_strncasecmp :: "byte list \<Rightarrow> byte list \<Rightarrow> nat \<Rightarrow> int" where
  "OPENSSL_strncasecmp a b 0 = 0"
| "OPENSSL_strncasecmp a b (Suc n) =
     (let aa = OPENSSL_tolower (char_at a); bb = OPENSSL_tolower (char_at b)
      in if aa < bb then -1 else if aa > bb then 1 else if aa = 0 then 0
         else OPENSSL_strncasecmp (tl a) (tl b) n)"

text \<open>
  \<open>OPENSSL_strlcpy dst src dst_size\<close> returns the bytes written from \<open>dst\<close> on and the
  length the code returns; \<open>OPENSSL_strlcat\<close> takes the C string already in \<open>dst\<close>.
\<close>

fun strlcpy_loop :: "byte list \<Rightarrow> nat \<Rightarrow> nat \<Rightarrow> byte list \<times> nat" where
  "strlcpy_loop src dst_size l =
     (case src of
        c # src' \<Rightarrow>
          if dst_size > 1 then
            (let (out, r) = strlcpy_loop src' (dst_size - 1) (l + 1) in (c # out, r))
          else ((if dst_size \<noteq> 0 then [0] else []), l + length src)
      | [] \<Rightarrow> ((if dst_size \<noteq> 0 then [0] else []), l + length src))"

definition OPENSSL_strlcpy :: "byte list \<Rightarrow> nat \<Rightarrow> byte list \<times> nat" where
  "OPENSSL_strlcpy src dst_size = strlcpy_loop src dst_size 0"

fun OPENSSL_strlcat :: "byte list \<Rightarrow> byte list \<Rightarrow> nat \<Rightarrow> byte list \<times> nat" where
  "OPENSSL_strlcat (d # dst) src (Suc dst_size) =
     (let (out, r) = OPENSSL_strlcat dst src dst_size in (d # out, Suc r))"
| "OPENSSL_strlcat _ src dst_size = OPENSSL_strlcpy src dst_size"

declare strlcpy_loop.simps [simp del] OPENSSL_strcasecmp.simps [simp del]

section \<open>Laws of the allocator\<close>

lemma malloc_law_length: "malloc_law malloc \<Longrightarrow> malloc n = Some blk \<Longrightarrow> length blk = n"
  by (simp add: malloc_law_def)

lemma OPENSSL_malloc_length:
  assumes "malloc_law malloc" "n < SIZE_MOD" "OPENSSL_malloc malloc n = Some blk"
  shows "length blk = n"
proof -
  from assms(3) have no: "\<not> size_add n OPENSSL_MALLOC_PREFIX < n"
    by (auto simp: OPENSSL_malloc_def split: if_splits)
  then have "size_add n OPENSSL_MALLOC_PREFIX = n + 8"
    using assms(2) by (subst size_add_ok) (auto simp: OPENSSL_MALLOC_PREFIX_def SIZE_MOD_def)
  with assms no show ?thesis
    by (auto simp: OPENSSL_malloc_def OPENSSL_MALLOC_PREFIX_def
        dest: malloc_law_length split: option.splits)
qed

lemma OPENSSL_realloc_length:
  assumes "malloc_law malloc" "n < SIZE_MOD" "OPENSSL_realloc malloc p n = Some blk"
  shows "length blk = n"
  using assms
  by (auto simp: OPENSSL_realloc_def Let_def dest!: OPENSSL_malloc_length split: option.splits)

text \<open>Growing a block keeps its contents.\<close>

lemma OPENSSL_realloc_keeps:
  assumes "malloc_law malloc" "n < SIZE_MOD" "length old \<le> n"
    "OPENSSL_realloc malloc (Some old) n = Some blk"
  shows "take (length old) blk = old"
  using assms by (auto simp: OPENSSL_realloc_def Let_def splice_def split: option.splits if_splits)

lemma OPENSSL_memdup_Some:
  assumes "malloc_law malloc" "length data < SIZE_MOD"
    "OPENSSL_memdup malloc data (length data) = Some blk"
  shows "blk = data"
  using assms
  by (auto simp: OPENSSL_memdup_def splice_def dest!: OPENSSL_malloc_length split: option.splits if_splits)

section \<open>Comparison\<close>

lemma fold_or_eq_0:
  "fold (\<lambda>i x. x OR f i) is (x :: 'a::len word) = 0 \<longleftrightarrow> x = 0 \<and> (\<forall>i \<in> set is. f i = 0)"
  by (induction "is" arbitrary: x) (auto simp: or_eq_0_iff)

lemma word_xor_eq_0_iff: "a XOR b = 0 \<longleftrightarrow> a = (b :: 'a::len word)"
  by (auto simp: bit_eq_iff bit_simps)

lemma CRYPTO_memcmp_0_iff:
  assumes "len \<le> length a" "len \<le> length b"
  shows "CRYPTO_memcmp a b len = 0 \<longleftrightarrow> take len a = take len b"
  using assms by (auto simp: CRYPTO_memcmp_def fold_or_eq_0 list_eq_iff_nth_eq word_xor_eq_0_iff)

lemma memcmp_0_iff:
  "length a = n \<Longrightarrow> length b = n \<Longrightarrow> memcmp a b n = 0 \<longleftrightarrow> a = b"
  by (induction a b n rule: memcmp.induct) auto

lemma memchr_Some:
  "memchr s c n = Some i \<Longrightarrow> i < n \<and> i < length s \<and> s ! i = c \<and> c \<notin> set (take i s)"
  by (induction s c n arbitrary: i rule: memchr.induct) (auto split: if_splits)

lemma memchr_None: "memchr s c n = None \<Longrightarrow> c \<notin> set (take n s)"
  by (induction s c n rule: memchr.induct) (auto split: if_splits)

lemma OPENSSL_memchr_eq: "OPENSSL_memchr s c n = memchr s c n"
  by (cases n) (auto simp: OPENSSL_memchr_def)

section \<open>Strings\<close>

lemma OPENSSL_strnlen_eq:
  "OPENSSL_strnlen s n = min (length (takeWhile (\<lambda>c. c \<noteq> 0) s)) n"
  by (induction s n rule: OPENSSL_strnlen.induct) auto

lemma strlcpy_loop_eq:
  "strlcpy_loop src n l =
     (if n = 0 then [] else take (n - 1) src @ [0], l + length src)"
proof (induction src n l rule: strlcpy_loop.induct)
  case (1 src n l)
  show ?case
  proof (cases src)
    case Nil
    then show ?thesis by (simp add: strlcpy_loop.simps)
  next
    case (Cons c src')
    show ?thesis
    proof (cases "n > 1")
      case True
      then obtain k where k: "n = Suc (Suc k)"
        by (auto dest: less_imp_Suc_add)
      have "strlcpy_loop src' (n - 1) (l + 1) = (take (n - 2) src' @ [0], l + 1 + length src')"
        using "1.IH" [OF Cons True] k by simp
      then show ?thesis
        by (subst strlcpy_loop.simps) (simp add: Cons k)
    next
      case False
      then consider "n = 0" | "n = 1" by linarith
      then show ?thesis using Cons by cases (simp_all add: strlcpy_loop.simps)
    qed
  qed
qed

text \<open>An allocator that serves blocks up to a limit, for concrete runs.\<close>

definition bounded_malloc :: "nat \<Rightarrow> libc_malloc" where
  "bounded_malloc lim n = (if n \<le> lim then Some (replicate n 0) else None)"

lemma bounded_malloc_law: "malloc_law (bounded_malloc lim)"
  by (simp add: malloc_law_def bounded_malloc_def)

lemma OPENSSL_strlcat_eq:
  "OPENSSL_strlcat dst src n =
     (if n \<le> length dst then (take n dst, n + length src)
      else (dst @ take (n - length dst - 1) src @ [0], length dst + length src))"
  by (induction dst src n rule: OPENSSL_strlcat.induct)
    (auto simp: OPENSSL_strlcpy_def strlcpy_loop_eq split: prod.splits)

section \<open>Properties\<close>

text \<open>\<open>CRYPTO_memcmp\<close> returns zero exactly when the two buffers agree on the compared bytes.\<close>

lemma CRYPTO_memcmp_correct:
  assumes "n \<le> length a" "n \<le> length b"
  shows "CRYPTO_memcmp a b n = 0 \<longleftrightarrow> take n a = take n b"
  using assms by (rule CRYPTO_memcmp_0_iff)

lemma CRYPTO_memcmp_correct_witness:
  "(3 :: nat) \<le> length [1, 2, 3 :: byte] \<and> (3 :: nat) \<le> length [1, 2, 4 :: byte] \<and>
   (CRYPTO_memcmp [1, 2, 3] [1, 2, 4] 3 = 0 \<longleftrightarrow> take 3 [1, 2, 3 :: byte] = take 3 [1, 2, 4])"
  using CRYPTO_memcmp_correct [of 3 "[1, 2, 3]" "[1, 2, 4]"] by simp

text \<open>
  C8: \<open>OPENSSL_strlcpy\<close> and \<open>OPENSSL_strlcat\<close> with a buffer of \<open>n\<close> bytes. \<open>OPENSSL_strlcpy\<close> leaves the longest
  prefix of \<open>src\<close> that fits with its terminator (nothing at all when \<open>n\<close> is 0) and returns the length of
  \<open>src\<close>. \<open>OPENSSL_strlcat\<close> leaves the longest such prefix of \<open>dst @ src\<close> and returns the length of
  \<open>dst @ src\<close>, provided \<open>dst\<close> ends within its \<open>n\<close> bytes; if it does not, the \<open>n\<close> bytes stay as they are,
  without a terminator, and \<open>n + length src\<close> is returned. In all cases at most \<open>n\<close> bytes are occupied,
  and the value returned is below \<open>n\<close> exactly when the whole string and its terminator are there, so
  that truncation is detectable.
\<close>

theorem OPENSSL_strlcat_correct:
  "OPENSSL_strlcpy src n = (if n = 0 then [] else take (n - 1) src @ [0], length src) \<and>
   OPENSSL_strlcat dst src n =
     (if n \<le> length dst then (take n dst, n + length src)
      else (take (n - 1) (dst @ src) @ [0], length (dst @ src))) \<and>
   length (fst (OPENSSL_strlcpy src n)) \<le> n \<and> length (fst (OPENSSL_strlcat dst src n)) \<le> n \<and>
   (snd (OPENSSL_strlcpy src n) < n \<longleftrightarrow> fst (OPENSSL_strlcpy src n) = src @ [0]) \<and>
   (snd (OPENSSL_strlcat dst src n) < n \<longleftrightarrow> fst (OPENSSL_strlcat dst src n) = dst @ src @ [0])"
proof -
  have cut: "take (n - 1) xs @ [0] = xs @ [0] \<longleftrightarrow> length xs < n" if "0 < n" for xs :: "byte list"
    using that by (auto dest: arg_cong [of _ _ length])
  have long: "take n dst \<noteq> dst @ src @ [0]" by (auto dest: arg_cong [of _ _ length])
  have "OPENSSL_strlcpy src n = (if n = 0 then [] else take (n - 1) src @ [0], length src)"
    by (simp add: OPENSSL_strlcpy_def strlcpy_loop_eq)
  then show ?thesis using cut [of src] cut [of "dst @ src"] long by (auto simp: OPENSSL_strlcat_eq)
qed

end
