(* ===== verification/Der.thy ===== *)
theory Der
  imports Prelude
begin

text \<open>
  The abstract specification of the part of DER (ITU-T X.690) that the reader \<open>CBS\<close> and the
  builder \<open>CBB\<close> implement: base-128 integers, identifier octets, length octets and whole
  elements as byte lists, and parsers for them on lists that are proved to accept exactly
  the encodings. The reader is shown to refine the parsers, the builder to write the
  encodings.
\<close>

section \<open>Base-128 integers\<close>

text \<open>Big-endian groups of seven bits; all but the last byte have the high bit set.\<close>

fun base128_hi :: "nat \<Rightarrow> byte list" where
  "base128_hi n = (if n = 0 then [] else base128_hi (n div 128) @ [of_nat (128 + n mod 128)])"

declare base128_hi.simps [simp del]

definition base128 :: "nat \<Rightarrow> byte list" where
  "base128 n = base128_hi (n div 128) @ [of_nat (n mod 128)]"

fun spec_base128 :: "nat \<Rightarrow> byte list \<Rightarrow> (nat \<times> byte list) option" where
  "spec_base128 v [] = None"
| "spec_base128 v (b # bs) =
     (if 2 ^ 57 \<le> v \<or> v = 0 \<and> b = 0x80 then None
      else if 128 \<le> unat b then spec_base128 (v * 128 + unat b mod 128) bs
      else Some (v * 128 + unat b mod 128, bs))"

lemma spec_base128_more:
  "v < 2 ^ 57 \<Longrightarrow> v \<noteq> 0 \<or> b \<noteq> 0x80 \<Longrightarrow> 128 \<le> unat b \<Longrightarrow>
     spec_base128 v (b # bs) = spec_base128 (v * 128 + unat b mod 128) bs"
  by auto

lemma spec_base128_last:
  "v < 2 ^ 57 \<Longrightarrow> unat b < 128 \<Longrightarrow> spec_base128 v (b # bs) = Some (v * 128 + unat b, bs)"
  by auto

lemma base128_hi_0 [simp]: "base128_hi 0 = []"
  by (simp add: base128_hi.simps)

lemma base128_hi_step:
  assumes "128 \<le> unat (b :: byte)" "v \<noteq> 0 \<or> b \<noteq> 0x80"
  shows "base128_hi (v * 128 + unat b mod 128) = base128_hi v @ [b]"
proof -
  have b: "unat b = 128 + unat b mod 128"
  proof -
    have "unat b - 128 < 128"
      using unat_byte_less [of b] by linarith
    with assms(1) show ?thesis by (simp add: le_mod_geq)
  qed
  have "v * 128 + unat b mod 128 \<noteq> 0"
  proof
    assume "v * 128 + unat b mod 128 = 0"
    with b have "v = 0" "unat b = unat (0x80 :: byte)" by simp_all
    with assms(2) show False by (simp only: word_unat_eq_iff) simp
  qed
  moreover have "(of_nat (128 + unat b mod 128) :: byte) = b"
    by (simp only: b [symmetric]) simp
  ultimately show ?thesis
    by (subst base128_hi.simps) simp
qed

lemma spec_base128_sound:
  "spec_base128 v bs = Some (n, rest) \<Longrightarrow> base128_hi v @ bs = base128 n @ rest \<and> n < 2 ^ 64"
proof (induction v bs rule: spec_base128.induct)
  case (1 v)
  then show ?case by simp
next
  case (2 v b bs)
  from "2.prems" have g: "\<not> (2 ^ 57 \<le> v \<or> v = 0 \<and> b = 0x80)"
    by (auto split: if_splits)
  show ?case
  proof (cases "128 \<le> unat b")
    case True
    then have "spec_base128 (v * 128 + unat b mod 128) bs = Some (n, rest)"
      using "2.prems" g spec_base128_more [of v b bs] by (simp only: not_le de_Morgan_disj de_Morgan_conj)
    then have "base128_hi (v * 128 + unat b mod 128) @ bs = base128 n @ rest \<and> n < 2 ^ 64"
      by (rule "2.IH" [OF g True])
    with g True show ?thesis
      by (simp add: base128_hi_step)
  next
    case False
    with "2.prems" g have n: "n = v * 128 + unat b" "rest = bs"
      by auto
    with False g show ?thesis
      by (simp add: base128_def)
  qed
qed

lemma base128_hi_parse: "v < 2 ^ 57 \<Longrightarrow> spec_base128 0 (base128_hi v @ bs) = spec_base128 v bs"
proof (induction v arbitrary: bs rule: base128_hi.induct)
  case (1 v)
  show ?case
  proof (cases "v = 0")
    case True
    then show ?thesis by simp
  next
    case False
    let ?b = "of_nat (128 + v mod 128) :: byte"
    have ub: "unat ?b = 128 + v mod 128"
      by (simp only: byte_simps) simp
    have nz: "\<not> (v div 128 = 0 \<and> ?b = 0x80)"
    proof
      assume a: "v div 128 = 0 \<and> ?b = 0x80"
      then have "unat ?b = unat (0x80 :: byte)" by (simp only:)
      then have "v mod 128 = 0" unfolding ub by simp
      with a False show False by (metis div_mult_mod_eq mult_0 add_0)
    qed
    have "spec_base128 0 (base128_hi v @ bs) = spec_base128 0 (base128_hi (v div 128) @ ?b # bs)"
      using False by (subst base128_hi.simps) simp
    also have "\<dots> = spec_base128 (v div 128) (?b # bs)"
      using "1.prems" by (intro "1.IH" [OF False]) simp
    also have "\<dots> = spec_base128 (v div 128 * 128 + unat ?b mod 128) bs"
      using nz "1.prems" ub by (intro spec_base128_more) auto
    also have "v div 128 * 128 + unat ?b mod 128 = v"
      by (simp only: ub) simp
    finally show ?thesis .
  qed
qed

theorem spec_base128_iff:
  "spec_base128 0 bs = Some (n, rest) \<longleftrightarrow> bs = base128 n @ rest \<and> n < 2 ^ 64"
proof
  assume "spec_base128 0 bs = Some (n, rest)"
  from spec_base128_sound [OF this] show "bs = base128 n @ rest \<and> n < 2 ^ 64" by simp
next
  assume n: "bs = base128 n @ rest \<and> n < 2 ^ 64"
  let ?b = "of_nat (n mod 128) :: byte"
  have ub: "unat ?b = n mod 128"
    by (simp only: byte_simps) simp
  have "spec_base128 0 bs = spec_base128 (n div 128) (?b # rest)"
    using n by (simp add: base128_def base128_hi_parse less_mult_imp_div_less del: spec_base128.simps)
  also have "\<dots> = Some (n, rest)"
    using n ub by (subst spec_base128_last) auto
  finally show "spec_base128 0 bs = Some (n, rest)" .
qed

lemma base128_nonempty [simp]: "base128 n \<noteq> []"
  by (simp add: base128_def)

section \<open>Length octets\<close>

fun octets :: "nat \<Rightarrow> nat" where
  "octets n = (if n < 256 then 1 else Suc (octets (n div 256)))"

declare octets.simps [simp del]

definition der_length :: "nat \<Rightarrow> byte list" where
  "der_length n = (if n < 128 then [of_nat n] else of_nat (128 + octets n) # be_bytes (octets n) n)"

lemma octets_pos [simp]: "0 < octets n"
  by (subst octets.simps) simp

lemma octets_upper: "n < 256 ^ octets n"
proof (induction n rule: octets.induct)
  case (1 n)
  show ?case
  proof (cases "n < 256")
    case True
    then show ?thesis by (subst octets.simps) simp
  next
    case False
    have "n < 256 * (n div 256) + 256"
      by (metis div_mult_mod_eq add_less_cancel_left mod_less_divisor mult.commute zero_less_numeral)
    also have "\<dots> \<le> 256 * 256 ^ octets (n div 256)"
      using "1.IH" [OF False] by simp
    finally show ?thesis using False by (subst octets.simps) simp
  qed
qed

lemma octets_lower: "256 \<le> n \<Longrightarrow> 256 ^ (octets n - 1) \<le> n"
proof (induction n rule: octets.induct)
  case (1 n)
  have lower: "256 ^ (octets (n div 256) - 1) \<le> n div 256"
  proof (cases "n div 256 < 256")
    case True
    then have "octets (n div 256) = 1" by (subst octets.simps) simp
    with "1.prems" div_le_mono [of 256 n 256] show ?thesis by simp
  next
    case False
    with "1.IH" "1.prems" show ?thesis by simp
  qed
  have "256 ^ octets (n div 256) = 256 * 256 ^ (octets (n div 256) - 1)"
    using octets_pos [of "n div 256"] by (cases "octets (n div 256)") simp_all
  also have "\<dots> \<le> 256 * (n div 256)"
    using lower by simp
  also have "\<dots> \<le> n" by simp
  finally show ?case
    using "1.prems" by (subst octets.simps) simp
qed

lemma octets_unique:
  assumes "0 < k" "n < 256 ^ k" "k = 1 \<or> 256 ^ (k - 1) \<le> n"
  shows "octets n = k"
proof (rule antisym)
  show "octets n \<le> k"
  proof (rule ccontr)
    assume "\<not> octets n \<le> k"
    then have "256 ^ k \<le> (256 :: nat) ^ (octets n - 1)"
      by (intro power_increasing) auto
    moreover have "256 \<le> n"
      using \<open>\<not> octets n \<le> k\<close> assms(1) by (subst (asm) octets.simps) (auto split: if_splits)
    ultimately show False using octets_lower [of n] assms(2) by linarith
  qed
  show "k \<le> octets n"
  proof (rule ccontr)
    assume a: "\<not> k \<le> octets n"
    with octets_pos [of n] have "k \<noteq> 1" by linarith
    from a have "256 ^ octets n \<le> (256 :: nat) ^ (k - 1)"
      by (intro power_increasing) auto
    with assms(3) \<open>k \<noteq> 1\<close> octets_upper [of n] show False by linarith
  qed
qed

lemma octets_le_4: "n < 2 ^ 32 \<Longrightarrow> octets n \<le> 4"
proof (rule ccontr)
  assume n: "n < 2 ^ 32" and "\<not> octets n \<le> 4"
  then have "256 ^ 4 \<le> (256 :: nat) ^ (octets n - 1)"
    by (intro power_increasing) auto
  moreover have "256 \<le> n"
    using \<open>\<not> octets n \<le> 4\<close> by (subst (asm) octets.simps) (auto split: if_splits)
  ultimately show False using octets_lower [of n] n by simp
qed

text \<open>
  The length octets the reader accepts: the short form, or at most four octets that are
  both needed (the value is at least 128) and minimal (the first octet is not zero).
\<close>

fun spec_der_length :: "byte list \<Rightarrow> (nat \<times> byte list) option" where
  "spec_der_length [] = None"
| "spec_der_length (b # bs) =
     (if unat b < 128 then Some (unat b, bs)
      else let k = unat b - 128 in
        if k = 0 \<or> 4 < k \<or> length bs < k then None
        else let n = be_value (take k bs) in
          if n < 128 \<or> n div 256 ^ (k - 1) = 0 then None else Some (n, drop k bs))"

lemma spec_der_length_iff:
  "spec_der_length bs = Some (n, rest) \<longleftrightarrow> bs = der_length n @ rest \<and> n < 2 ^ 32"
proof
  assume a: "spec_der_length bs = Some (n, rest)"
  then obtain b bs' where bs: "bs = b # bs'"
    by (cases bs) auto
  show "bs = der_length n @ rest \<and> n < 2 ^ 32"
  proof (cases "unat b < 128")
    case True
    with a bs show ?thesis by (auto simp: der_length_def)
  next
    case False
    define k where "k = unat b - 128"
    from a bs False have k: "k \<noteq> 0" "k \<le> 4" "k \<le> length bs'"
      and n: "n = be_value (take k bs')" "128 \<le> n" "n div 256 ^ (k - 1) \<noteq> 0" and r: "rest = drop k bs'"
      by (auto simp: Let_def k_def split: if_splits)
    have lt: "n < 256 ^ k"
      using be_value_less [of "take k bs'"] k(3) n(1) by (simp add: min.absorb2)
    have "256 ^ (k - 1) \<le> n"
      using n(3) by (meson div_less linorder_not_le)
    then have oct: "octets n = k"
      using k lt by (intro octets_unique) auto
    have "be_bytes k n = take k bs'"
      using k(3) n(1) lt by (subst be_bytes_eq_iff) auto
    moreover have "(of_nat (128 + k) :: byte) = b"
      using False by (simp add: k_def)
    moreover have "n < 2 ^ 32"
    proof -
      have "(256 :: nat) ^ k \<le> 256 ^ 4" using k by (intro power_increasing) auto
      with lt show ?thesis by simp
    qed
    ultimately show ?thesis
      using n(2) oct bs r by (simp add: der_length_def)
  qed
next
  assume a: "bs = der_length n @ rest \<and> n < 2 ^ 32"
  show "spec_der_length bs = Some (n, rest)"
  proof (cases "n < 128")
    case True
    then have "unat (of_nat n :: byte) = n" by (simp only: byte_simps) simp
    with a True show ?thesis by (simp add: der_length_def)
  next
    case False
    define k where "k = octets n"
    have k: "0 < k" "k \<le> 4" and lt: "n < 256 ^ k"
      using a octets_le_4 [of n] octets_upper [of n] by (simp_all add: k_def)
    let ?b = "of_nat (128 + k) :: byte"
    have b: "unat ?b = 128 + k"
      using k by (simp only: byte_simps) simp
    have v: "be_value (be_bytes k n) = n"
      using lt by (simp add: be_value_be_bytes)
    have min: "n div 256 ^ (k - 1) \<noteq> 0"
    proof (cases "n < 256")
      case True
      then have "k = 1" unfolding k_def by (subst octets.simps) simp
      with False show ?thesis by simp
    next
      case f: False
      with octets_lower [of n] show ?thesis by (simp add: k_def div_eq_0_iff)
    qed
    have "bs = ?b # be_bytes k n @ rest"
      using a False by (simp add: der_length_def k_def)
    then show ?thesis
      using b k v min False by (simp only: spec_der_length.simps) (simp add: Let_def)
  qed
qed

section \<open>Identifier octets\<close>

text \<open>
  A tag is 32 bits wide: class and constructed bit in the three top bits, the tag number in
  the other 29.
\<close>

definition der_tag :: "u32 \<Rightarrow> byte list" where
  "der_tag t =
     (let bits = ucast (drop_bit 24 t) AND 0xe0; num = t AND 0x1fffffff
      in if 0x1f \<le> num then (bits OR 0x1f) # base128 (unat num) else [bits OR ucast num])"

definition mk_tag :: "byte \<Rightarrow> nat \<Rightarrow> u32" where
  "mk_tag b n = push_bit 24 (ucast (b AND 0xe0)) OR of_nat n"

fun spec_der_tag :: "byte list \<Rightarrow> (u32 \<times> byte list) option" where
  "spec_der_tag [] = None"
| "spec_der_tag (b # bs) =
     (if b AND 0x1f = 0x1f then
        (case spec_base128 0 bs of
           None \<Rightarrow> None
         | Some (v, rest) \<Rightarrow>
             if 0x1fffffff < v \<or> v < 0x1f then None else Some (mk_tag b v, rest))
      else Some (mk_tag b (unat (b AND 0x1f)), bs))"

lemma mask_29: "(0x1fffffff :: u32) = mask 29"
  by (simp add: mask_eq_exp_minus_1)

lemma mask_5: "(0x1f :: byte) = mask 5"
  by (simp add: mask_eq_exp_minus_1)

lemma high_3: "(0xe0 :: byte) = push_bit 5 (mask 3)"
  by (simp add: mask_eq_exp_minus_1)

lemma of_nat_below_29: "n < 2 ^ 29 \<Longrightarrow> (of_nat n :: u32) = take_bit 29 (of_nat n)"
  by (simp add: take_bit_of_nat take_bit_nat_eq_self)

lemma mk_tag_number:
  assumes "n < 2 ^ 29"
  shows "mk_tag b n AND 0x1fffffff = of_nat n"
  unfolding mk_tag_def mask_29 high_3
  by (subst (2) of_nat_below_29 [OF assms], subst of_nat_below_29 [OF assms], rule bit_word_eqI)
    (auto simp: bit_simps)

lemma mk_tag_bits:
  assumes "n < 2 ^ 29"
  shows "(ucast (drop_bit 24 (mk_tag b n)) :: byte) AND 0xe0 = b AND 0xe0"
  unfolding mk_tag_def high_3
  by (subst of_nat_below_29 [OF assms], rule bit_word_eqI) (auto simp: bit_simps)

lemma mk_tag_split: "mk_tag (ucast (drop_bit 24 t)) (unat (t AND 0x1fffffff)) = t"
proof -
  have "mk_tag (ucast (drop_bit 24 t)) (unat (t AND 0x1fffffff)) =
      push_bit 24 (ucast ((ucast (drop_bit 24 t) :: byte) AND 0xe0)) OR (t AND 0x1fffffff)"
    by (simp add: mk_tag_def)
  also have "\<dots> = t"
    unfolding mask_29 high_3 by (rule bit_word_eqI) (auto simp: bit_simps not_less)
  finally show ?thesis .
qed

lemma byte_split: "(b AND 0xe0) OR (b AND 0x1f) = (b :: byte)"
  unfolding high_3 mask_5 by (rule bit_word_eqI) (auto simp: bit_simps)

lemma byte_join_high: "y = y AND 0x1f \<Longrightarrow> ((x AND 0xe0) OR y) AND 0xe0 = x AND (0xe0 :: byte)"
  unfolding high_3 mask_5 by (erule ssubst, rule bit_word_eqI) (auto simp: bit_simps)

lemma byte_join_low: "y = y AND 0x1f \<Longrightarrow> ((x AND 0xe0) OR y) AND 0x1f = (y :: byte)"
  unfolding high_3 mask_5 by (erule ssubst, rule bit_word_eqI) (auto simp: bit_simps)

lemma mk_tag_cong: "b AND 0xe0 = c AND 0xe0 \<Longrightarrow> mk_tag b n = mk_tag c n"
  by (simp add: mk_tag_def)

lemma low_5_bound: "unat (b AND (0x1f :: byte)) \<le> 0x1f"
proof -
  have "b AND 0x1f \<le> (0x1f :: byte)" by (rule word_and_le1)
  then show ?thesis by (simp add: word_le_nat_alt)
qed

lemma low_29_bound: "unat (t AND (0x1fffffff :: u32)) \<le> 0x1fffffff"
proof -
  have "t AND 0x1fffffff \<le> (0x1fffffff :: u32)" by (rule word_and_le1)
  then show ?thesis by (simp add: word_le_nat_alt)
qed

lemma unat_of_nat_29: "n < 2 ^ 29 \<Longrightarrow> unat (of_nat n :: u32) = n"
  by (simp add: unat_of_nat)

lemma der_tag_mk_tag:
  assumes "n < 2 ^ 29"
  shows "der_tag (mk_tag b n) =
    (if 0x1f \<le> n then ((b AND 0xe0) OR 0x1f) # base128 n else [(b AND 0xe0) OR of_nat n])"
proof -
  have "(0x1f :: u32) \<le> of_nat n \<longleftrightarrow> 0x1f \<le> n"
    using assms by (simp add: word_le_nat_alt unat_of_nat_29)
  moreover have "(ucast (of_nat n :: u32) :: byte) = of_nat n"
    by (metis assms of_nat_unat unat_of_nat_29)
  ultimately show ?thesis
    using assms by (simp add: der_tag_def mk_tag_number mk_tag_bits unat_of_nat_29)
qed

theorem spec_der_tag_iff: "spec_der_tag bs = Some (t, rest) \<longleftrightarrow> bs = der_tag t @ rest"
proof
  assume a: "spec_der_tag bs = Some (t, rest)"
  then obtain b bs' where bs: "bs = b # bs'" by (cases bs) auto
  show "bs = der_tag t @ rest"
  proof (cases "b AND 0x1f = 0x1f")
    case True
    with a bs obtain v where "spec_base128 0 bs' = Some (v, rest)" and v: "0x1f \<le> v" "v \<le> 0x1fffffff"
      and t: "t = mk_tag b v"
      by (auto split: option.splits if_splits)
    then have "bs' = base128 v @ rest" by (simp add: spec_base128_iff)
    with bs v t True byte_split [of b] show ?thesis
      by (simp add: der_tag_mk_tag)
  next
    case False
    with a bs have t: "t = mk_tag b (unat (b AND 0x1f))" "rest = bs'" by auto
    from False have "unat (b AND 0x1f) \<noteq> 0x1f"
      by (auto simp: word_unat_eq_iff)
    with low_5_bound [of b] have "unat (b AND 0x1f) < 0x1f" by linarith
    with bs t byte_split [of b] show ?thesis
      by (simp add: der_tag_mk_tag)
  qed
next
  assume a: "bs = der_tag t @ rest"
  define c n where "c = (ucast (drop_bit 24 t) :: byte)" and "n = unat (t AND 0x1fffffff)"
  have t: "t = mk_tag c n" by (simp only: c_def n_def mk_tag_split)
  have n: "n \<le> 0x1fffffff" unfolding n_def by (rule low_29_bound)
  show "spec_der_tag bs = Some (t, rest)"
  proof (cases "0x1f \<le> n")
    case True
    define b where "b = (c AND 0xe0) OR 0x1f"
    have "b AND 0x1f = 0x1f" "b AND 0xe0 = c AND 0xe0"
      unfolding b_def by (rule byte_join_low, simp, rule byte_join_high, simp)
    moreover have "bs = b # base128 n @ rest"
      using a t n True by (simp add: der_tag_mk_tag b_def)
    moreover have "spec_base128 0 (base128 n @ rest) = Some (n, rest)"
      using n by (simp add: spec_base128_iff)
    ultimately show ?thesis
      using True n t mk_tag_cong [of b c n] by simp
  next
    case False
    define b where "b = (c AND 0xe0) OR of_nat n"
    have "n = n mod 256" using False by simp
    then have un: "unat (of_nat n :: byte) = n" by (simp only: byte_simps)
    have "(of_nat n :: byte) = of_nat n AND 0x1f"
      using False unfolding mask_5 take_bit_eq_mask [symmetric]
      by (simp add: take_bit_of_nat take_bit_nat_eq_self)
    then have "b AND 0x1f = of_nat n" "b AND 0xe0 = c AND 0xe0"
      unfolding b_def by (rule byte_join_low, rule byte_join_high)
    moreover have "(of_nat n :: byte) \<noteq> 0x1f"
      using un False by auto
    moreover have "bs = b # rest"
      using a t n False by (simp add: der_tag_mk_tag b_def)
    ultimately show ?thesis
      using un t mk_tag_cong [of b c n] by simp
  qed
qed

end
