(* ===== verification/Cbb.thy ===== *)
theory Cbb
  imports Mem Der
begin

text \<open>
  The byte-string builder \<open>CBB\<close> of \<open>crypto/bytestring/cbb.c\<close>. A top-level \<open>CBB\<close> owns a
  growing (or fixed) buffer; opening a length-prefixed or ASN.1 child reserves room for the
  length, and the prefix is written when the child is flushed. All the \<open>CBB\<close>s that write to
  one buffer form a chain, because every \<open>CBB\<close> has at most one child: the record \<open>CBB\<close> is
  the buffer (\<open>None\<close> for the null pointer) with the chain of the open children, outermost
  first. A pointer to one of them is its depth: 0 is the top-level \<open>CBB\<close>, and the child of
  the \<open>CBB\<close> at depth \<open>d\<close> is \<open>children ! d\<close>. A child that has been flushed or discarded has a
  null \<open>base\<close>; its depth is beyond the end of the chain.

  Functions return the C return value and the new state. \<open>malloc\<close> is the C library's
  (theory \<open>Mem\<close>).
\<close>

record cbb_buffer_st =
  buf :: "byte list"
  len :: nat
  cap :: nat
  can_resize :: bool
  error :: bool

record cbb_child =
  offset :: nat
  pending_len_len :: nat
  pending_is_asn1 :: bool

record CBB =
  base :: "cbb_buffer_st option"
  children :: "cbb_child list"

section \<open>Creation and destruction\<close>

definition CBB_zero :: CBB where
  "CBB_zero = \<lparr>base = None, children = []\<rparr>"

definition sizeof_cbb_buffer_st :: nat where
  "sizeof_cbb_buffer_st = 32"

definition cbb_init :: "libc_malloc \<Rightarrow> CBB \<Rightarrow> byte list \<Rightarrow> nat \<Rightarrow> bool \<times> CBB" where
  "cbb_init malloc cbb b c =
     (case OPENSSL_malloc malloc sizeof_cbb_buffer_st of
        None \<Rightarrow> (False, cbb)
      | Some _ \<Rightarrow>
          (True, cbb\<lparr>base := Some \<lparr>buf = b, len = 0, cap = c, can_resize = True, error = False\<rparr>\<rparr>))"

text \<open>A null \<open>buf\<close>, possible only when the capacity is 0, is the empty block.\<close>

definition CBB_init :: "libc_malloc \<Rightarrow> nat \<Rightarrow> bool \<times> CBB" where
  "CBB_init malloc initial_capacity =
     (case OPENSSL_malloc malloc initial_capacity of
        None \<Rightarrow> if initial_capacity > 0 then (False, CBB_zero) else cbb_init malloc CBB_zero [] 0
      | Some b \<Rightarrow> cbb_init malloc CBB_zero b initial_capacity)"

definition CBB_init_fixed :: "libc_malloc \<Rightarrow> byte list \<Rightarrow> nat \<Rightarrow> bool \<times> CBB" where
  "CBB_init_fixed malloc b n =
     (case cbb_init malloc CBB_zero b n of
        (False, cbb) \<Rightarrow> (False, cbb)
      | (True, cbb) \<Rightarrow> (True, cbb\<lparr>base := map_option (\<lambda>bs. bs\<lparr>can_resize := False\<rparr>) (base cbb)\<rparr>))"

text \<open>\<open>CBB_cleanup\<close> of the top-level \<open>CBB\<close>: the buffer is freed and every child is dead.\<close>

definition CBB_cleanup :: "CBB \<Rightarrow> CBB" where
  "CBB_cleanup cbb = cbb\<lparr>base := None, children := []\<rparr>"

section \<open>The buffer\<close>

definition cbb_buffer_reserve :: "libc_malloc \<Rightarrow> cbb_buffer_st \<Rightarrow> nat \<Rightarrow> bool \<times> cbb_buffer_st" where
  "cbb_buffer_reserve malloc b n =
     (let err = (False, b\<lparr>error := True\<rparr>);
          newlen = size_add (len b) n
      in if newlen < len b then err
         else if newlen > cap b then
           (let newcap0 = size_mul (cap b) 2 in
            if \<not> can_resize b then err
            else
              (let newcap = (if newcap0 < cap b \<or> newcap0 < newlen then newlen else newcap0) in
               case OPENSSL_realloc malloc (Some (buf b)) newcap of
                 None \<Rightarrow> err
               | Some newbuf \<Rightarrow> (True, b\<lparr>buf := newbuf, cap := newcap\<rparr>)))
         else (True, b))"

definition cbb_buffer_add :: "libc_malloc \<Rightarrow> cbb_buffer_st \<Rightarrow> nat \<Rightarrow> bool \<times> cbb_buffer_st" where
  "cbb_buffer_add malloc b n =
     (case cbb_buffer_reserve malloc b n of
        (False, b') \<Rightarrow> (False, b')
      | (True, b') \<Rightarrow> (True, b'\<lparr>len := len b' + n\<rparr>))"

text \<open>The loop \<open>for (i = n - 1; i < n; i--) { buf[off + i] = v; v >>= 8; }\<close>.\<close>

fun write_be :: "byte list \<Rightarrow> nat \<Rightarrow> nat \<Rightarrow> nat \<Rightarrow> byte list \<times> nat" where
  "write_be bs off 0 v = (bs, v)"
| "write_be bs off (Suc i) v = write_be (bs[off + i := of_nat v]) off i (v div 256)"

definition cbb_buffer_add_u :: "libc_malloc \<Rightarrow> cbb_buffer_st \<Rightarrow> u64 \<Rightarrow> nat \<Rightarrow> bool \<times> cbb_buffer_st" where
  "cbb_buffer_add_u malloc b v len_len =
     (if len_len = 0 then (True, b)
      else case cbb_buffer_add malloc b len_len of
             (False, b') \<Rightarrow> (False, b')
           | (True, b') \<Rightarrow>
               (let (bytes, v') = write_be (buf b') (len b) len_len (unat v)
                in if v' \<noteq> 0 then (False, b'\<lparr>buf := bytes, error := True\<rparr>)
                   else (True, b'\<lparr>buf := bytes\<rparr>)))"

section \<open>Flushing\<close>

text \<open>
  \<open>cbb_write_prefix\<close> is the part of \<open>CBB_flush\<close> after the recursive call, with the buffer
  after it and the child whose prefix is pending: \<open>None\<close> is the jump to \<open>err\<close>, with the
  buffer as it is then.
\<close>

definition asn1_length_form :: "nat \<Rightarrow> (nat \<times> nat \<times> nat) option" where
  "asn1_length_form n =
     (if n > 0xfffffffe then None
      else if n > 0xffffff then Some (5, 0x80 + 4, n)
      else if n > 0xffff then Some (4, 0x80 + 3, n)
      else if n > 0xff then Some (3, 0x80 + 2, n)
      else if n > 0x7f then Some (2, 0x80 + 1, n)
      else Some (1, n, 0))"

definition cbb_write_prefix ::
    "libc_malloc \<Rightarrow> cbb_buffer_st \<Rightarrow> cbb_child \<Rightarrow> nat \<Rightarrow> bool \<times> cbb_buffer_st" where
  "cbb_write_prefix malloc b child child_start =
     (let n = len b - child_start in
      if pending_is_asn1 child then
        (case asn1_length_form n of
           None \<Rightarrow> (False, b)
         | Some (len_len, initial_length_byte, n') \<Rightarrow>
             (let extra_bytes = len_len - 1;
                  moved = (if len_len \<noteq> 1 then
                             (case cbb_buffer_add malloc b extra_bytes of
                                (False, b1) \<Rightarrow> (False, b1)
                              | (True, b1) \<Rightarrow>
                                  (True, b1\<lparr>buf := splice (buf b1) (child_start + extra_bytes)
                                                    (slice (buf b1) child_start n')\<rparr>))
                           else (True, b))
              in case moved of
                   (False, b1) \<Rightarrow> (False, b1)
                 | (True, b1) \<Rightarrow>
                     (let bytes1 = (buf b1)[offset child := of_nat initial_length_byte];
                          (bytes2, rem) = write_be bytes1 (offset child + 1) extra_bytes n'
                      in (rem = 0, b1\<lparr>buf := bytes2\<rparr>))))
      else
        (let (bytes, rem) = write_be (buf b) (offset child) (pending_len_len child) n
         in (rem = 0, b\<lparr>buf := bytes\<rparr>)))"

function CBB_flush :: "libc_malloc \<Rightarrow> CBB \<Rightarrow> nat \<Rightarrow> bool \<times> CBB" where
  "CBB_flush malloc cbb d =
     (if d > length (children cbb) then (False, cbb)
      else case base cbb of
        None \<Rightarrow> (False, cbb)
      | Some b \<Rightarrow>
          if error b then (False, cbb)
          else if d = length (children cbb) \<or> pending_len_len (children cbb ! d) = 0 then (True, cbb)
          else
            (let child = children cbb ! d;
                 child_start = size_add (offset child) (pending_len_len child);
                 (ok, cbb1) = CBB_flush malloc cbb (Suc d);
                 err = (\<lambda>c. (False, c\<lparr>base := map_option (\<lambda>x. x\<lparr>error := True\<rparr>) (base c)\<rparr>))
             in case base cbb1 of
                  None \<Rightarrow> (False, cbb1)
                | Some b1 \<Rightarrow>
                    if \<not> ok \<or> child_start < offset child \<or> len b1 < child_start then err cbb1
                    else (case cbb_write_prefix malloc b1 child child_start of
                            (False, b2) \<Rightarrow> err (cbb1\<lparr>base := Some b2\<rparr>)
                          | (True, b2) \<Rightarrow>
                              (True, cbb1\<lparr>base := Some b2, children := take d (children cbb1)\<rparr>))))"
  by pat_completeness auto
termination
  by (relation "measure (\<lambda>(m, cbb, d). Suc (length (children cbb)) - d)") auto

declare CBB_flush.simps [simp del]

text \<open>
  Only the top-level \<open>CBB\<close> may be finished. The result is the data handed to the caller; the
  flags say whether \<open>out_data\<close> and \<open>out_len\<close> were given.
\<close>

definition CBB_finish :: "libc_malloc \<Rightarrow> CBB \<Rightarrow> nat \<Rightarrow> bool \<Rightarrow> bool \<Rightarrow> byte list option \<times> CBB" where
  "CBB_finish malloc cbb d has_data has_len =
     (if d \<noteq> 0 then (None, cbb)
      else case CBB_flush malloc cbb 0 of
             (False, cbb1) \<Rightarrow> (None, cbb1)
           | (True, cbb1) \<Rightarrow>
               (case base cbb1 of
                  None \<Rightarrow> (None, cbb1)
                | Some b \<Rightarrow>
                    if can_resize b \<and> (\<not> has_data \<or> \<not> has_len) then (None, cbb1)
                    else (Some (take (len b) (buf b)), CBB_cleanup cbb1)))"

section \<open>Reading a builder\<close>

text \<open>Where the contents of the \<open>CBB\<close> at depth \<open>d\<close> start.\<close>

definition cbb_start :: "CBB \<Rightarrow> nat \<Rightarrow> nat" where
  "cbb_start cbb d =
     (if d = 0 then 0
      else offset (children cbb ! (d - 1)) + pending_len_len (children cbb ! (d - 1)))"

text \<open>\<open>CBB_data\<close> and \<open>CBB_len\<close> are for a \<open>CBB\<close> without a pending child.\<close>

definition CBB_len :: "CBB \<Rightarrow> nat \<Rightarrow> nat" where
  "CBB_len cbb d = (case base cbb of None \<Rightarrow> 0 | Some b \<Rightarrow> len b - cbb_start cbb d)"

definition CBB_data :: "CBB \<Rightarrow> nat \<Rightarrow> byte list" where
  "CBB_data cbb d = (case base cbb of None \<Rightarrow> [] | Some b \<Rightarrow> drop (cbb_start cbb d) (buf b))"

section \<open>Writing bytes and integers\<close>

text \<open>
  Every operation first flushes the \<open>CBB\<close> it is called on, then changes the buffer.
  \<open>cbb_then\<close> is that shape: \<open>f\<close> is the buffer operation.
\<close>

definition cbb_then :: "libc_malloc \<Rightarrow> CBB \<Rightarrow> nat \<Rightarrow>
    (cbb_buffer_st \<Rightarrow> bool \<times> cbb_buffer_st) \<Rightarrow> bool \<times> CBB" where
  "cbb_then malloc cbb d f =
     (case CBB_flush malloc cbb d of
        (False, cbb1) \<Rightarrow> (False, cbb1)
      | (True, cbb1) \<Rightarrow>
          (case base cbb1 of
             None \<Rightarrow> (False, cbb1)
           | Some b \<Rightarrow> (case f b of (ok, b') \<Rightarrow> (ok, cbb1\<lparr>base := Some b'\<rparr>))))"

definition CBB_add_bytes :: "libc_malloc \<Rightarrow> CBB \<Rightarrow> nat \<Rightarrow> byte list \<Rightarrow> bool \<times> CBB" where
  "CBB_add_bytes malloc cbb d data =
     cbb_then malloc cbb d (\<lambda>b.
       case cbb_buffer_add malloc b (length data) of
         (False, b') \<Rightarrow> (False, b')
       | (True, b') \<Rightarrow> (True, b'\<lparr>buf := splice (buf b') (len b) data\<rparr>))"

text \<open>\<open>CBB_add_space\<close> leaves the new bytes as they are; the caller writes them.\<close>

definition CBB_add_space :: "libc_malloc \<Rightarrow> CBB \<Rightarrow> nat \<Rightarrow> nat \<Rightarrow> bool \<times> CBB" where
  "CBB_add_space malloc cbb d n = cbb_then malloc cbb d (\<lambda>b. cbb_buffer_add malloc b n)"

definition CBB_add_zeros :: "libc_malloc \<Rightarrow> CBB \<Rightarrow> nat \<Rightarrow> nat \<Rightarrow> bool \<times> CBB" where
  "CBB_add_zeros malloc cbb d n =
     (case CBB_add_space malloc cbb d n of
        (False, cbb1) \<Rightarrow> (False, cbb1)
      | (True, cbb1) \<Rightarrow>
          (True, cbb1\<lparr>base := map_option
             (\<lambda>b. b\<lparr>buf := splice (buf b) (len b - n) (replicate n 0)\<rparr>) (base cbb1)\<rparr>))"

definition CBB_reserve :: "libc_malloc \<Rightarrow> CBB \<Rightarrow> nat \<Rightarrow> nat \<Rightarrow> bool \<times> CBB" where
  "CBB_reserve malloc cbb d n = cbb_then malloc cbb d (\<lambda>b. cbb_buffer_reserve malloc b n)"

definition CBB_did_write :: "CBB \<Rightarrow> nat \<Rightarrow> nat \<Rightarrow> bool \<times> CBB" where
  "CBB_did_write cbb d n =
     (case base cbb of
        None \<Rightarrow> (False, cbb)
      | Some b \<Rightarrow>
          (let newlen = size_add (len b) n in
           if d < length (children cbb) \<or> newlen < len b \<or> newlen > cap b then (False, cbb)
           else (True, cbb\<lparr>base := Some (b\<lparr>len := newlen\<rparr>)\<rparr>)))"

definition cbb_add_u :: "libc_malloc \<Rightarrow> CBB \<Rightarrow> nat \<Rightarrow> u64 \<Rightarrow> nat \<Rightarrow> bool \<times> CBB" where
  "cbb_add_u malloc cbb d v n = cbb_then malloc cbb d (\<lambda>b. cbb_buffer_add_u malloc b v n)"

definition CBB_add_u8 :: "libc_malloc \<Rightarrow> CBB \<Rightarrow> nat \<Rightarrow> byte \<Rightarrow> bool \<times> CBB" where
  "CBB_add_u8 malloc cbb d v = cbb_add_u malloc cbb d (ucast v) 1"

definition CBB_add_u16 :: "libc_malloc \<Rightarrow> CBB \<Rightarrow> nat \<Rightarrow> u16 \<Rightarrow> bool \<times> CBB" where
  "CBB_add_u16 malloc cbb d v = cbb_add_u malloc cbb d (ucast v) 2"

definition CBB_add_u24 :: "libc_malloc \<Rightarrow> CBB \<Rightarrow> nat \<Rightarrow> u32 \<Rightarrow> bool \<times> CBB" where
  "CBB_add_u24 malloc cbb d v = cbb_add_u malloc cbb d (ucast v) 3"

definition CBB_add_u32 :: "libc_malloc \<Rightarrow> CBB \<Rightarrow> nat \<Rightarrow> u32 \<Rightarrow> bool \<times> CBB" where
  "CBB_add_u32 malloc cbb d v = cbb_add_u malloc cbb d (ucast v) 4"

definition CBB_add_u64 :: "libc_malloc \<Rightarrow> CBB \<Rightarrow> nat \<Rightarrow> u64 \<Rightarrow> bool \<times> CBB" where
  "CBB_add_u64 malloc cbb d v = cbb_add_u malloc cbb d v 8"

definition CBB_discard_child :: "CBB \<Rightarrow> nat \<Rightarrow> CBB" where
  "CBB_discard_child cbb d =
     (if length (children cbb) \<le> d then cbb
      else cbb\<lparr>base := map_option (\<lambda>b. b\<lparr>len := offset (children cbb ! d)\<rparr>) (base cbb),
               children := take d (children cbb)\<rparr>)"

section \<open>Opening children\<close>

definition cbb_add_length_prefixed :: "libc_malloc \<Rightarrow> CBB \<Rightarrow> nat \<Rightarrow> nat \<Rightarrow> bool \<times> CBB" where
  "cbb_add_length_prefixed malloc cbb d len_len =
     (case CBB_flush malloc cbb d of
        (False, cbb1) \<Rightarrow> (False, cbb1)
      | (True, cbb1) \<Rightarrow>
          (case base cbb1 of
             None \<Rightarrow> (False, cbb1)
           | Some b \<Rightarrow>
               (let off = len b in
                case cbb_buffer_add malloc b len_len of
                  (False, b1) \<Rightarrow> (False, cbb1\<lparr>base := Some b1\<rparr>)
                | (True, b1) \<Rightarrow>
                    (True, cbb1\<lparr>base := Some (b1\<lparr>buf := splice (buf b1) off (replicate len_len 0)\<rparr>),
                       children := take d (children cbb1) @
                         [\<lparr>offset = off, pending_len_len = len_len, pending_is_asn1 = False\<rparr>]\<rparr>))))"

definition CBB_add_u8_length_prefixed :: "libc_malloc \<Rightarrow> CBB \<Rightarrow> nat \<Rightarrow> bool \<times> CBB" where
  "CBB_add_u8_length_prefixed malloc cbb d = cbb_add_length_prefixed malloc cbb d 1"

definition CBB_add_u16_length_prefixed :: "libc_malloc \<Rightarrow> CBB \<Rightarrow> nat \<Rightarrow> bool \<times> CBB" where
  "CBB_add_u16_length_prefixed malloc cbb d = cbb_add_length_prefixed malloc cbb d 2"

definition CBB_add_u24_length_prefixed :: "libc_malloc \<Rightarrow> CBB \<Rightarrow> nat \<Rightarrow> bool \<times> CBB" where
  "CBB_add_u24_length_prefixed malloc cbb d = cbb_add_length_prefixed malloc cbb d 3"

fun base128_len :: "nat \<Rightarrow> nat" where
  "base128_len copy = (if copy > 0 then Suc (base128_len (copy div 128)) else 0)"

declare base128_len.simps [simp del]

text \<open>The loop over \<open>i = len_len - 1, ..., 0\<close>.\<close>

fun add_base128_loop :: "libc_malloc \<Rightarrow> CBB \<Rightarrow> nat \<Rightarrow> u64 \<Rightarrow> nat \<Rightarrow> bool \<times> CBB" where
  "add_base128_loop malloc cbb d v 0 = (True, cbb)"
| "add_base128_loop malloc cbb d v (Suc i) =
     (let byte0 = ucast (drop_bit (7 * i) v) AND 0x7f :: byte;
          byte1 = (if i \<noteq> 0 then byte0 OR 0x80 else byte0)
      in case CBB_add_u8 malloc cbb d byte1 of
           (False, cbb1) \<Rightarrow> (False, cbb1)
         | (True, cbb1) \<Rightarrow> add_base128_loop malloc cbb1 d v i)"

definition add_base128_integer :: "libc_malloc \<Rightarrow> CBB \<Rightarrow> nat \<Rightarrow> u64 \<Rightarrow> bool \<times> CBB" where
  "add_base128_integer malloc cbb d v =
     (let len_len0 = base128_len (unat v);
          len_len = (if len_len0 = 0 then 1 else len_len0)
      in add_base128_loop malloc cbb d v len_len)"

definition CBB_add_asn1 :: "libc_malloc \<Rightarrow> CBB \<Rightarrow> nat \<Rightarrow> u32 \<Rightarrow> bool \<times> CBB" where
  "CBB_add_asn1 malloc cbb d tag =
     (case CBB_flush malloc cbb d of
        (False, cbb1) \<Rightarrow> (False, cbb1)
      | (True, cbb1) \<Rightarrow>
          (let tag_bits = ucast (drop_bit 24 tag) AND 0xe0 :: byte;
               tag_number = tag AND 0x1fffffff;
               tagged = (if tag_number \<ge> 0x1f then
                           (case CBB_add_u8 malloc cbb1 d (tag_bits OR 0x1f) of
                              (False, c) \<Rightarrow> (False, c)
                            | (True, c) \<Rightarrow> add_base128_integer malloc c d (ucast tag_number))
                         else CBB_add_u8 malloc cbb1 d (tag_bits OR ucast tag_number))
           in case tagged of
                (False, cbb2) \<Rightarrow> (False, cbb2)
              | (True, cbb2) \<Rightarrow>
                  (let off = (case base cbb2 of None \<Rightarrow> 0 | Some b \<Rightarrow> len b) in
                   case CBB_add_u8 malloc cbb2 d 0 of
                     (False, cbb3) \<Rightarrow> (False, cbb3)
                   | (True, cbb3) \<Rightarrow>
                       (True, cbb3\<lparr>children := take d (children cbb3) @
                          [\<lparr>offset = off, pending_len_len = 1, pending_is_asn1 = True\<rparr>]\<rparr>))))"

end
