(* ===== verification/Cbb_Correct.thy ===== *)
theory Cbb_Correct
  imports Cbb
begin

text \<open>
  Correctness of the builder. The invariant \<open>cbb_inv\<close> relates the offsets of the pending
  prefixes to the buffer; \<open>views\<close> is the abstract state, the contents of every open \<open>CBB\<close> of
  the chain; \<open>collapse\<close> is what flushing means on that abstraction: the contents of the
  children with their length prefixes are appended to their parent. \<open>CBB_flush\<close> and the
  writers are shown to refine these operations.
\<close>

section \<open>The buffer\<close>

definition buffer_inv :: "cbb_buffer_st \<Rightarrow> bool" where
  "buffer_inv b \<longleftrightarrow> len b \<le> cap b \<and> length (buf b) = cap b \<and> cap b < SIZE_MOD"

definition used :: "cbb_buffer_st \<Rightarrow> byte list" where
  "used b = take (len b) (buf b)"

lemma length_used [simp]: "buffer_inv b \<Longrightarrow> length (used b) = len b"
  by (simp add: buffer_inv_def used_def)

lemma size_mul_less [simp]: "size_mul a b < SIZE_MOD"
  by (simp add: size_mul_def SIZE_MOD_def)

lemma size_add_less [simp]: "size_add a b < SIZE_MOD"
  by (simp add: size_add_def SIZE_MOD_def)

text \<open>Reserving room changes neither the contents nor the flags.\<close>

lemma cbb_buffer_reserve_True:
  assumes m: "malloc_law malloc" and inv: "buffer_inv b" and n: "n < SIZE_MOD"
    and run: "cbb_buffer_reserve malloc b n = (True, b')"
  shows "buffer_inv b'" "used b' = used b" "len b' = len b" "len b + n \<le> cap b'" "error b' = error b"
    "can_resize b' = can_resize b"
proof -
  have lt: "len b < SIZE_MOD" using inv by (simp add: buffer_inv_def)
  from run have ok: "\<not> size_add (len b) n < len b"
    by (auto simp: cbb_buffer_reserve_def Let_def split: if_splits)
  then have sum: "size_add (len b) n = len b + n" using lt n by (intro size_add_ok)
  have "buffer_inv b' \<and> used b' = used b \<and> len b' = len b \<and> len b + n \<le> cap b' \<and> error b' = error b \<and>
      can_resize b' = can_resize b"
  proof (cases "len b + n > cap b")
    case False
    with run ok sum have "b' = b" by (simp add: cbb_buffer_reserve_def Let_def)
    with False inv show ?thesis by simp
  next
    case True
    define newcap where "newcap = (if size_mul (cap b) 2 < cap b \<or> size_mul (cap b) 2 < len b + n
      then len b + n else size_mul (cap b) 2)"
    from run ok sum True obtain nb where nb: "OPENSSL_realloc malloc (Some (buf b)) newcap = Some nb"
      and b': "b' = b\<lparr>buf := nb, cap := newcap\<rparr>"
      by (auto simp: cbb_buffer_reserve_def Let_def newcap_def split: if_splits option.splits)
    have newcap: "newcap < SIZE_MOD" "len b + n \<le> newcap" "cap b \<le> newcap"
      using sum True size_add_less [of "len b" n] by (auto simp: newcap_def)
    then have nb_len: "length nb = newcap" using m nb OPENSSL_realloc_length by blast
    have "take (length (buf b)) nb = buf b"
      using m nb newcap inv by (intro OPENSSL_realloc_keeps) (auto simp: buffer_inv_def)
    then have "take (len b) nb = take (len b) (buf b)"
      using inv by (metis buffer_inv_def min.absorb1 take_take)
    with b' newcap nb_len inv show ?thesis
      by (simp add: buffer_inv_def used_def)
  qed
  then show "buffer_inv b'" "used b' = used b" "len b' = len b" "len b + n \<le> cap b'" "error b' = error b"
    "can_resize b' = can_resize b" by blast+
qed

lemma cbb_buffer_add_True:
  assumes "malloc_law malloc" "buffer_inv b" "n < SIZE_MOD" "cbb_buffer_add malloc b n = (True, b')"
  shows "buffer_inv b'" "take (len b) (used b') = used b" "len b' = len b + n" "error b' = error b"
    "can_resize b' = can_resize b"
proof -
  from assms(4) obtain b1 where r: "cbb_buffer_reserve malloc b n = (True, b1)"
    and b': "b' = b1\<lparr>len := len b1 + n\<rparr>"
    by (auto simp: cbb_buffer_add_def split: prod.splits bool.splits)
  note res = cbb_buffer_reserve_True [OF assms(1-3) r]
  then show "buffer_inv b'" "len b' = len b + n" "error b' = error b" "can_resize b' = can_resize b"
    by (simp_all add: b' buffer_inv_def)
  show "take (len b) (used b') = used b"
    using res b' by (simp add: used_def min_def)
qed

lemma cbb_buffer_add_False:
  assumes "cbb_buffer_add malloc b n = (False, b')"
  shows "error b'"
  using assms
  by (auto simp: cbb_buffer_add_def cbb_buffer_reserve_def Let_def split: prod.splits bool.splits if_splits option.splits)

text \<open>Overwriting used bytes.\<close>

lemma used_write:
  assumes "buffer_inv b" "i + length bs \<le> len b"
  shows "buffer_inv (b\<lparr>buf := splice (buf b) i bs\<rparr>)" "used (b\<lparr>buf := splice (buf b) i bs\<rparr>) = splice (used b) i bs"
  using assms by (simp_all add: buffer_inv_def used_def take_splice_inside)

lemma splice_update: "i < length bs \<Longrightarrow> bs[i := x] = splice bs i [x]"
  by (simp add: splice_def upd_conv_take_nth_drop)

lemma write_be_eq:
  "off + n \<le> length bs \<Longrightarrow> write_be bs off n v = (splice bs off (be_bytes n v), v div 256 ^ n)"
proof (induction n arbitrary: bs v)
  case 0
  then show ?case by simp
next
  case (Suc n)
  let ?bs = "bs[off + n := of_nat v]"
  have "splice ?bs off (be_bytes n (v div 256)) = splice bs off (be_bytes (Suc n) v)"
    using Suc.prems by (simp add: splice_def drop_update_swap take_update_cancel flip: Cons_nth_drop_Suc)
  moreover have "v div 256 div 256 ^ n = v div 256 ^ Suc n"
    by (simp add: div_mult2_eq)
  ultimately show ?case using Suc by simp
qed

section \<open>The chain of children\<close>

fun chain_ok :: "nat \<Rightarrow> nat \<Rightarrow> cbb_child list \<Rightarrow> bool" where
  "chain_ok s n [] \<longleftrightarrow> s \<le> n"
| "chain_ok s n (ch # chs) \<longleftrightarrow>
     s \<le> offset ch \<and> 0 < pending_len_len ch \<and> pending_len_len ch \<le> 8 \<and>
     (pending_is_asn1 ch \<longrightarrow> pending_len_len ch = 1) \<and>
     chain_ok (offset ch + pending_len_len ch) n chs"

text \<open>The contents of the open \<open>CBB\<close>s, the outermost first.\<close>

fun views :: "byte list \<Rightarrow> nat \<Rightarrow> cbb_child list \<Rightarrow> byte list list" where
  "views u s [] = [drop s u]"
| "views u s (ch # chs) =
     slice u s (offset ch - s) # views u (offset ch + pending_len_len ch) chs"

text \<open>The prefix that a child with \<open>n\<close> bytes of contents gets, if it fits.\<close>

definition prefix_of :: "cbb_child \<Rightarrow> nat \<Rightarrow> byte list option" where
  "prefix_of ch n =
     (if pending_is_asn1 ch then (if n \<le> 0xfffffffe then Some (der_length n) else None)
      else if n < 256 ^ pending_len_len ch then Some (be_bytes (pending_len_len ch) n) else None)"

fun collapse :: "cbb_child list \<Rightarrow> byte list list \<Rightarrow> byte list option" where
  "collapse [] [c] = Some c"
| "collapse (ch # chs) (c # cs) =
     (case collapse chs cs of
        None \<Rightarrow> None
      | Some body \<Rightarrow> map_option (\<lambda>p. c @ p @ body) (prefix_of ch (length body)))"
| "collapse _ _ = None"

definition cbb_inv :: "CBB \<Rightarrow> bool" where
  "cbb_inv cbb \<longleftrightarrow>
     (case base cbb of
        None \<Rightarrow> True
      | Some b \<Rightarrow> buffer_inv b \<and> chain_ok 0 (len b) (children cbb))"

lemma chain_ok_le: "chain_ok s n chs \<Longrightarrow> s \<le> n"
  by (induction s n chs rule: chain_ok.induct) auto

section \<open>Writing one prefix\<close>

lemma asn1_length_form_eq:
  "asn1_length_form n =
     (if n > 0xfffffffe then None
      else if n < 128 then Some (1, n, 0) else Some (Suc (octets n), 128 + octets n, n))"
proof -
  have "octets n = k" if "0 < k" "n < 256 ^ k" "k = 1 \<or> 256 ^ (k - 1) \<le> n" for k
    using that by (rule octets_unique)
  from this [of 1] this [of 2] this [of 3] this [of 4] show ?thesis
    by (auto simp: asn1_length_form_def)
qed

lemma long_prefix_splices:
  assumes "length u1 = off + 1 + length p + length d"
  shows "splice (splice (splice u1 (off + 1 + length p) d) off [x]) (off + 1) p = take off u1 @ (x # p) @ d"
  using assms by (simp add: splice_def)

lemma write_long_prefix:
  assumes m: "malloc_law malloc" and inv: "buffer_inv b" and s: "s = off + 1" "s \<le> len b"
    and n: "n = len b - s" "n \<le> 0xfffffffe" and k: "k = octets n"
    and add: "cbb_buffer_add malloc b k = (True, b1)"
    and b2: "b2 = b1\<lparr>buf := splice (buf b1) (s + k) (slice (buf b1) s n)\<rparr>"
    and wr: "write_be ((buf b2)[off := x]) (off + 1) k n = (bytes, r)"
  shows "r = 0" "buffer_inv (b2\<lparr>buf := bytes\<rparr>)"
    "used (b2\<lparr>buf := bytes\<rparr>) = take off (used b) @ (x # be_bytes k n) @ drop s (used b)"
    "error (b2\<lparr>buf := bytes\<rparr>) = error b" "can_resize (b2\<lparr>buf := bytes\<rparr>) = can_resize b"
proof -
  have k4: "k \<le> 4" "n < 256 ^ k" using n k octets_le_4 [of n] octets_upper [of n] by simp_all
  then have "k < SIZE_MOD" by (simp add: SIZE_MOD_def)
  note ad = cbb_buffer_add_True [OF m inv this add]
  let ?d = "drop s (used b)"
  have len_d: "length ?d = n" using inv n s by simp
  have d: "slice (buf b1) s n = ?d"
  proof -
    have "used b = take (len b) (buf b1)"
      using ad(2,3) by (simp add: used_def min_def)
    then show ?thesis using n s by (simp add: slice_def drop_take)
  qed
  have len1: "len b1 = off + 1 + k + n" using ad(3) n s by simp
  note w1 = used_write [OF ad(1), of "s + k" ?d]
  have b2': "b2 = b1\<lparr>buf := splice (buf b1) (s + k) ?d\<rparr>" using b2 d by simp
  have i2: "buffer_inv b2" and u2: "used b2 = splice (used b1) (s + k) ?d" and l2: "len b2 = len b1"
    using w1 len_d len1 s by (simp_all add: b2')
  have "off < length (buf b2)" using i2 l2 len1 by (auto simp: buffer_inv_def)
  then have upd: "(buf b2)[off := x] = splice (buf b2) off [x]" by (rule splice_update)
  define b3 where "b3 = b2\<lparr>buf := splice (buf b2) off [x]\<rparr>"
  have i3: "buffer_inv b3" and u3: "used b3 = splice (used b2) off [x]" and l3: "len b3 = len b1"
    using used_write [OF i2, of off "[x]"] l2 len1 by (simp_all add: b3_def)
  have fits: "off + 1 + k \<le> length (buf b3)" using i3 l3 len1 by (auto simp: buffer_inv_def)
  have "write_be (buf b3) (off + 1) k n = (splice (buf b3) (off + 1) (be_bytes k n), n div 256 ^ k)"
    using fits by (rule write_be_eq)
  then have bytes: "bytes = splice (buf b3) (off + 1) (be_bytes k n)" and r: "r = n div 256 ^ k"
    using wr by (simp_all add: upd b3_def)
  show "r = 0" using r k4 by simp
  have eq: "b2\<lparr>buf := bytes\<rparr> = b3\<lparr>buf := splice (buf b3) (off + 1) (be_bytes k n)\<rparr>"
    by (simp add: b3_def bytes)
  show "buffer_inv (b2\<lparr>buf := bytes\<rparr>)"
    unfolding eq using used_write [OF i3, of "off + 1" "be_bytes k n"] l3 len1 by simp
  have "used (b2\<lparr>buf := bytes\<rparr>) = splice (splice (splice (used b1) (s + k) ?d) off [x]) (off + 1) (be_bytes k n)"
    unfolding eq using used_write [OF i3, of "off + 1" "be_bytes k n"] l3 len1 u3 u2 by simp
  also have "\<dots> = take off (used b1) @ (x # be_bytes k n) @ ?d"
    using long_prefix_splices [of "used b1" off "be_bytes k n" ?d x] ad(1) len1 len_d s by simp
  also have "take off (used b1) = take off (used b)"
    using ad(2) s by (metis add_leD1 min.absorb1 take_take)
  finally show "used (b2\<lparr>buf := bytes\<rparr>) = take off (used b) @ (x # be_bytes k n) @ ?d" .
  show "error (b2\<lparr>buf := bytes\<rparr>) = error b" "can_resize (b2\<lparr>buf := bytes\<rparr>) = can_resize b"
    using ad(4,5) by (simp_all add: b2')
qed

lemma cbb_write_prefix_True:
  assumes m: "malloc_law malloc" and inv: "buffer_inv b"
    and s: "s = offset ch + pending_len_len ch" "s \<le> len b"
    and asn1: "pending_is_asn1 ch \<Longrightarrow> pending_len_len ch = 1"
    and run: "cbb_write_prefix malloc b ch s = (True, b')"
  obtains p where "prefix_of ch (len b - s) = Some p"
    "used b' = take (offset ch) (used b) @ p @ drop s (used b)"
    "buffer_inv b'" "error b' = error b" "can_resize b' = can_resize b"
proof (cases "pending_is_asn1 ch")
  case False
  let ?n = "len b - s" and ?k = "pending_len_len ch"
  have "offset ch + ?k \<le> length (buf b)" using inv s by (auto simp: buffer_inv_def)
  then have w: "write_be (buf b) (offset ch) ?k ?n =
      (splice (buf b) (offset ch) (be_bytes ?k ?n), ?n div 256 ^ ?k)"
    by (rule write_be_eq)
  with False run have b': "b' = b\<lparr>buf := splice (buf b) (offset ch) (be_bytes ?k ?n)\<rparr>"
    and r: "?n div 256 ^ ?k = 0"
    by (auto simp: cbb_write_prefix_def Let_def)
  have u: "offset ch + length (be_bytes ?k ?n) \<le> len b" using s by simp
  show thesis
  proof (rule that)
    show "prefix_of ch ?n = Some (be_bytes ?k ?n)"
      using False r by (simp add: prefix_of_def div_eq_0_iff)
    show "used b' = take (offset ch) (used b) @ be_bytes ?k ?n @ drop s (used b)"
      using used_write(2) [OF inv u] s by (simp add: b' splice_def)
    show "buffer_inv b'" using used_write(1) [OF inv u] by (simp add: b')
  qed (simp_all add: b')
next
  case True
  then have k1: "s = offset ch + 1" using asn1 s by simp
  let ?n = "len b - s"
  have n: "?n \<le> 0xfffffffe" using run True
    by (auto simp: cbb_write_prefix_def asn1_length_form_eq Let_def split: if_splits)
  show thesis
  proof (cases "?n < 128")
    case short: True
    let ?x = "of_nat ?n :: byte"
    have "offset ch < length (buf b)" using inv s k1 by (auto simp: buffer_inv_def)
    with run True short n have b': "b' = b\<lparr>buf := splice (buf b) (offset ch) [?x]\<rparr>"
      by (auto simp: cbb_write_prefix_def asn1_length_form_eq Let_def splice_update)
    have u: "offset ch + length [?x] \<le> len b" using k1 s(2) by simp
    show thesis
    proof (rule that)
      show "prefix_of ch ?n = Some [?x]"
        using True n short by (simp add: prefix_of_def der_length_def)
      show "used b' = take (offset ch) (used b) @ [?x] @ drop s (used b)"
        using used_write(2) [OF inv u] k1 by (simp add: b' splice_def)
      show "buffer_inv b'" using used_write(1) [OF inv u] by (simp add: b')
    qed (simp_all add: b')
  next
    case long: False
    let ?k = "octets ?n" and ?x = "of_nat (128 + octets ?n) :: byte"
    from run True long n octets_pos [of ?n] obtain b1 bytes r where
      add: "cbb_buffer_add malloc b ?k = (True, b1)" and
      wr: "write_be ((splice (buf b1) (s + ?k) (slice (buf b1) s ?n))[offset ch := ?x]) (offset ch + 1) ?k ?n = (bytes, r)"
      and b': "b' = b1\<lparr>buf := bytes\<rparr>"
      by (auto simp: cbb_write_prefix_def asn1_length_form_eq Let_def split: prod.splits bool.splits)
    define b2 where "b2 = b1\<lparr>buf := splice (buf b1) (s + ?k) (slice (buf b1) s ?n)\<rparr>"
    have eq: "b' = b2\<lparr>buf := bytes\<rparr>" by (simp add: b' b2_def)
    note wl = write_long_prefix [OF m inv k1 s(2) refl n refl add b2_def, of ?x bytes r]
    show thesis
      using wl wr by (intro that [of "?x # be_bytes ?k ?n"])
        (simp_all add: eq b2_def prefix_of_def True n long der_length_def)
  qed
qed

section \<open>Flushing\<close>

lemma take_slice_append: "s \<le> t \<Longrightarrow> take s u @ slice u s (t - s) = take t u"
  by (metis slice_def le_add_diff_inverse take_add)

text \<open>
  \<open>flushed d s cbb cbb'\<close>: the chain of \<open>cbb\<close> below depth \<open>d\<close>, whose contents start at \<open>s\<close>, has
  been collapsed into its \<open>CBB\<close> in \<open>cbb'\<close>, and nothing before \<open>s\<close> has changed.
\<close>

definition flushed :: "nat \<Rightarrow> nat \<Rightarrow> cbb_buffer_st \<Rightarrow> cbb_child list \<Rightarrow> CBB \<Rightarrow> bool" where
  "flushed d s b chs cbb' \<longleftrightarrow>
     (\<exists>b' body. base cbb' = Some b' \<and> children cbb' = take d chs \<and> buffer_inv b' \<and>
        \<not> error b' \<and> can_resize b' = can_resize b \<and>
        collapse (drop d chs) (views (used b) s (drop d chs)) = Some body \<and>
        used b' = take s (used b) @ body)"

lemma CBB_flush_step:
  assumes "d < length (children cbb)" "base cbb = Some b" "\<not> error b"
    "0 < pending_len_len (children cbb ! d)" "CBB_flush malloc cbb d = (True, cbb')"
  obtains cbb1 b1 b2 where "CBB_flush malloc cbb (Suc d) = (True, cbb1)" "base cbb1 = Some b1"
    "cbb_write_prefix malloc b1 (children cbb ! d)
       (size_add (offset (children cbb ! d)) (pending_len_len (children cbb ! d))) = (True, b2)"
    "cbb' = cbb1\<lparr>base := Some b2, children := take d (children cbb1)\<rparr>"
  using assms
  by (simp add: CBB_flush.simps [of malloc cbb d] Let_def split: prod.splits option.splits if_splits bool.splits)

lemma CBB_flush_refines:
  assumes "malloc_law malloc" "d \<le> length (children cbb)" "base cbb = Some b" "buffer_inv b"
    "chain_ok s (len b) (drop d (children cbb))" "CBB_flush malloc cbb d = (True, cbb')"
  shows "flushed d s b (children cbb) cbb'"
  using assms
proof (induction malloc cbb d arbitrary: s cbb' rule: CBB_flush.induct)
  case (1 malloc cbb d)
  let ?chs = "children cbb"
  have err: "\<not> error b"
    using "1.prems" by (auto simp: CBB_flush.simps [of malloc cbb d] split: if_splits)
  show ?case
  proof (cases "d = length ?chs")
    case True
    with "1.prems" err have "cbb' = cbb" by (simp add: CBB_flush.simps [of malloc cbb "length ?chs"])
    with True "1.prems" err show ?thesis by (simp add: flushed_def)
  next
    case False
    with "1.prems"(2) have d: "d < length ?chs" by simp
    define ch where "ch = ?chs ! d"
    let ?s' = "offset ch + pending_len_len ch"
    have split: "drop d ?chs = ch # drop (Suc d) ?chs"
      using d by (simp add: ch_def Cons_nth_drop_Suc)
    with "1.prems"(5) have ok: "s \<le> offset ch" "0 < pending_len_len ch"
      "pending_is_asn1 ch \<Longrightarrow> pending_len_len ch = 1" "chain_ok ?s' (len b) (drop (Suc d) ?chs)"
      by auto
    from chain_ok_le [OF ok(4)] have s': "?s' \<le> len b" .
    then have nowrap: "size_add (offset ch) (pending_len_len ch) = ?s'"
      using "1.prems"(4) by (intro size_add_no_wrap) (auto simp: buffer_inv_def)
    obtain cbb1 b1 b2 where f1: "CBB_flush malloc cbb (Suc d) = (True, cbb1)" and b1: "base cbb1 = Some b1"
      and w: "cbb_write_prefix malloc b1 ch ?s' = (True, b2)"
      and cbb': "cbb' = cbb1\<lparr>base := Some b2, children := take d (children cbb1)\<rparr>"
      using CBB_flush_step [OF d "1.prems"(3) err _ "1.prems"(6)] ok(2)
      unfolding ch_def [symmetric] nowrap by blast
    have "flushed (Suc d) ?s' b ?chs cbb1"
      using "1.prems" err d ok f1 by (intro "1.IH") (auto simp: ch_def)
    then obtain body where fl: "children cbb1 = take (Suc d) ?chs" "buffer_inv b1" "\<not> error b1"
      "can_resize b1 = can_resize b"
      "collapse (drop (Suc d) ?chs) (views (used b) ?s' (drop (Suc d) ?chs)) = Some body"
      "used b1 = take ?s' (used b) @ body"
      using b1 by (auto simp: flushed_def)
    have lb: "len b1 = ?s' + length body"
      using fl(2,6) s' "1.prems"(4) by (metis length_append length_take length_used min.absorb2)
    obtain p where p: "prefix_of ch (len b1 - ?s') = Some p"
      "used b2 = take (offset ch) (used b1) @ p @ drop ?s' (used b1)"
      "buffer_inv b2" "error b2 = error b1" "can_resize b2 = can_resize b1"
      using cbb_write_prefix_True [OF "1.prems"(1) fl(2) refl _ ok(3) w] lb by auto
    have "collapse (drop d ?chs) (views (used b) s (drop d ?chs)) =
        Some (slice (used b) s (offset ch - s) @ p @ body)"
      using p(1) fl(5) lb by (simp add: split)
    moreover have "used b2 = take s (used b) @ slice (used b) s (offset ch - s) @ p @ body"
    proof -
      have "take (offset ch) (used b1) = take (offset ch) (used b)" "drop ?s' (used b1) = body"
        using fl(6) s' "1.prems"(4) by (simp_all add: min_def)
      with p(2) ok(1) show ?thesis by (simp flip: append_assoc add: take_slice_append)
    qed
    moreover have "children cbb' = take d ?chs" using fl(1) d by (simp add: cbb' min_def)
    ultimately show ?thesis
      unfolding flushed_def using fl(3,4) p(3-5)
      by (intro exI [of _ b2] exI [of _ "slice (used b) s (offset ch - s) @ p @ body"]) (simp add: cbb')
  qed
qed

section \<open>The abstract state of a builder\<close>

text \<open>Where the contents of the \<open>CBB\<close> at depth \<open>d\<close> of a chain start.\<close>

fun start_at :: "nat \<Rightarrow> nat \<Rightarrow> cbb_child list \<Rightarrow> nat" where
  "start_at s (Suc d) (ch # chs) = start_at (offset ch + pending_len_len ch) d chs"
| "start_at s _ _ = s"

lemma length_views [simp]: "length (views u s chs) = Suc (length chs)"
  by (induction u s chs rule: views.induct) auto

lemma drop_views: "d \<le> length chs \<Longrightarrow> drop d (views u s chs) = views u (start_at s d chs) (drop d chs)"
proof (induction s d chs rule: start_at.induct [case_names cons zero nil])
  case (nil s chs)
  then show ?case by simp
qed auto

lemma chain_ok_drop:
  "chain_ok s n chs \<Longrightarrow> d \<le> length chs \<Longrightarrow>
     s \<le> start_at s d chs \<and> start_at s d chs \<le> n \<and> chain_ok (start_at s d chs) n (drop d chs)"
proof (induction s d chs rule: start_at.induct [case_names cons zero nil])
  case (cons s d ch chs)
  then show ?case by fastforce
qed (auto dest: chain_ok_le)

lemma chain_ok_take:
  "chain_ok s n chs \<Longrightarrow> d \<le> length chs \<Longrightarrow> start_at s d chs \<le> k \<Longrightarrow> chain_ok s k (take d chs)"
  by (induction s d chs rule: start_at.induct) auto

lemma start_at_take: "start_at s d (take d chs) = start_at s d chs"
  by (induction s d chs rule: start_at.induct) auto

lemma views_take:
  "chain_ok s (length u) chs \<Longrightarrow> d \<le> length chs \<Longrightarrow>
     views (take (start_at s d chs) u @ x) s (take d chs) = take d (views u s chs) @ [x]"
proof (induction s d chs rule: start_at.induct [case_names cons zero nil])
  case (cons s d ch chs)
  let ?t = "start_at (offset ch + pending_len_len ch) d chs"
  from cons.prems have ok: "chain_ok (offset ch + pending_len_len ch) (length u) chs" "d \<le> length chs" "s \<le> offset ch"
    by auto
  from chain_ok_drop [OF ok(1,2)] have t: "offset ch + pending_len_len ch \<le> ?t" "?t \<le> length u" by auto
  have "slice (take ?t u @ x) s (offset ch - s) = slice u s (offset ch - s)"
    using t ok(3) by (simp add: slice_def drop_take min_def)
  with cons.IH ok show ?case by simp
next
  case (zero s uu)
  then have "s \<le> length u" by (cases uu) (auto dest: chain_ok_le)
  then show ?case by simp
next
  case (nil s v)
  then show ?case by simp
qed

definition cbb_views :: "CBB \<Rightarrow> byte list list" where
  "cbb_views cbb = (case base cbb of None \<Rightarrow> [] | Some b \<Rightarrow> views (used b) 0 (children cbb))"

text \<open>
  \<open>appended d data cbb cbb'\<close>: the children of the \<open>CBB\<close> at depth \<open>d\<close> have been closed, with their
  length prefixes, and \<open>data\<close> has been written after them; the enclosing \<open>CBB\<close>s are unchanged.
\<close>

definition appended :: "nat \<Rightarrow> byte list \<Rightarrow> CBB \<Rightarrow> CBB \<Rightarrow> bool" where
  "appended d data cbb cbb' \<longleftrightarrow>
     cbb_inv cbb' \<and> base cbb' \<noteq> None \<and> d \<le> length (children cbb) \<and> children cbb' = take d (children cbb) \<and>
     (\<exists>body. collapse (drop d (children cbb)) (drop d (cbb_views cbb)) = Some body \<and>
        cbb_views cbb' = take d (cbb_views cbb) @ [body @ data])"

lemma CBB_flush_base: "CBB_flush malloc cbb d = (True, cbb') \<Longrightarrow> d \<le> length (children cbb) \<and> base cbb \<noteq> None"
  by (subst (asm) CBB_flush.simps) (auto split: if_splits option.splits)

lemma flushed_append:
  assumes inv: "cbb_inv cbb" "base cbb = Some b" and d: "d \<le> length (children cbb)"
    and fl: "flushed d (start_at 0 d (children cbb)) b (children cbb) cbb1" and b1: "base cbb1 = Some b1"
    and b2: "buffer_inv b2" "used b2 = used b1 @ data"
  shows "appended d data cbb (cbb1\<lparr>base := Some b2\<rparr>)"
proof -
  let ?chs = "children cbb" and ?t = "start_at 0 d (children cbb)"
  from inv have ok: "buffer_inv b" "chain_ok 0 (length (used b)) ?chs" by (simp_all add: cbb_inv_def)
  from fl b1 obtain body where body: "children cbb1 = take d ?chs"
    "collapse (drop d ?chs) (views (used b) ?t (drop d ?chs)) = Some body" "used b1 = take ?t (used b) @ body"
    by (auto simp: flushed_def)
  have u2: "used b2 = take ?t (used b) @ (body @ data)" using b2(2) body(3) by simp
  have "?t \<le> len b2"
    using chain_ok_drop [OF ok(2) d] length_used [OF b2(1)] u2 by simp
  then have "chain_ok 0 (len b2) (take d ?chs)" by (rule chain_ok_take [OF ok(2) d])
  moreover have "views (used b2) 0 (take d ?chs) = take d (views (used b) 0 ?chs) @ [body @ data]"
    unfolding u2 by (rule views_take [OF ok(2) d])
  ultimately show ?thesis
    using body b2 d inv by (simp add: appended_def cbb_inv_def cbb_views_def drop_views)
qed

lemma CBB_flush_flushed:
  assumes "malloc_law malloc" "cbb_inv cbb" "CBB_flush malloc cbb d = (True, cbb')" "base cbb = Some b"
  shows "flushed d (start_at 0 d (children cbb)) b (children cbb) cbb'"
proof -
  have d: "d \<le> length (children cbb)" using CBB_flush_base [OF assms(3)] by simp
  from assms have ok: "buffer_inv b" "chain_ok 0 (len b) (children cbb)" by (simp_all add: cbb_inv_def)
  show ?thesis
    using chain_ok_drop [OF ok(2) d] assms ok d by (intro CBB_flush_refines) auto
qed

lemma cbb_then_appended:
  assumes m: "malloc_law malloc" and inv: "cbb_inv cbb" and run: "cbb_then malloc cbb d f = (True, cbb')"
    and f: "\<And>b b'. buffer_inv b \<Longrightarrow> f b = (True, b') \<Longrightarrow> buffer_inv b' \<and> used b' = used b @ data"
  shows "appended d data cbb cbb'"
proof -
  from run obtain cbb1 b1 b2 where fl: "CBB_flush malloc cbb d = (True, cbb1)" and b1: "base cbb1 = Some b1"
    and f1: "f b1 = (True, b2)" and cbb': "cbb' = cbb1\<lparr>base := Some b2\<rparr>"
    by (auto simp: cbb_then_def split: prod.splits bool.splits option.splits)
  from CBB_flush_base [OF fl] obtain b where d: "d \<le> length (children cbb)" and b: "base cbb = Some b" by auto
  have flu: "flushed d (start_at 0 d (children cbb)) b (children cbb) cbb1"
    using CBB_flush_flushed [OF m inv fl b] .
  then have "buffer_inv b1" using b1 by (auto simp: flushed_def)
  with f f1 have "buffer_inv b2 \<and> used b2 = used b1 @ data" by blast
  then show ?thesis
    unfolding cbb' using flushed_append [OF inv b d flu b1] by blast
qed

section \<open>Writers\<close>

text \<open>What an operation that appends fixed bytes promises.\<close>

locale cbb_writer =
  fixes run :: "libc_malloc \<Rightarrow> CBB \<Rightarrow> nat \<Rightarrow> bool \<times> CBB"
    and written :: "byte list"
  assumes writes: "malloc_law malloc \<Longrightarrow> cbb_inv cbb \<Longrightarrow> run malloc cbb d = (True, cbb') \<Longrightarrow>
    appended d written cbb cbb'"
begin

lemma keeps_inv: "malloc_law malloc \<Longrightarrow> cbb_inv cbb \<Longrightarrow> run malloc cbb d = (True, cbb') \<Longrightarrow> cbb_inv cbb'"
  using writes by (auto simp: appended_def)

text \<open>On a \<open>CBB\<close> without pending children the bytes go to the end of its contents.\<close>

lemma extends:
  assumes "malloc_law malloc" "cbb_inv cbb" "run malloc cbb (length (children cbb)) = (True, cbb')"
  shows "cbb_views cbb' = butlast (cbb_views cbb) @ [last (cbb_views cbb) @ written]"
proof -
  let ?d = "length (children cbb)"
  have a: "appended ?d written cbb cbb'" using assms by (rule writes)
  then obtain body where c: "collapse [] (drop ?d (cbb_views cbb)) = Some body"
    and v: "cbb_views cbb' = take ?d (cbb_views cbb) @ [body @ written]"
    by (auto simp: appended_def)
  from c have "drop ?d (cbb_views cbb) = [body]"
    by (auto elim: collapse.elims)
  then have "cbb_views cbb = take ?d (cbb_views cbb) @ [body]" by (metis append_take_drop_id)
  then show ?thesis using v by (metis butlast_snoc last_snoc)
qed

end

lemma appended_trans:
  assumes "appended d x cbb cbb1" "appended d y cbb1 cbb2"
  shows "appended d (x @ y) cbb cbb2"
proof -
  from assms(1) obtain body where b: "collapse (drop d (children cbb)) (drop d (cbb_views cbb)) = Some body"
    "cbb_views cbb1 = take d (cbb_views cbb) @ [body @ x]" "children cbb1 = take d (children cbb)"
    "d \<le> length (children cbb)"
    by (auto simp: appended_def)
  have "length (take d (cbb_views cbb)) = d"
  proof -
    have "drop d (cbb_views cbb) \<noteq> []" using b(1) by (cases "drop d (children cbb)") auto
    then show ?thesis by simp
  qed
  then have v1: "drop d (cbb_views cbb1) = [body @ x]" "take d (cbb_views cbb1) = take d (cbb_views cbb)"
    by (simp_all add: b(2))
  from assms(2) b(3,4) v1 have "cbb_views cbb2 = take d (cbb_views cbb) @ [(body @ x) @ y]"
    by (auto simp: appended_def)
  with assms b show ?thesis by (auto simp: appended_def)
qed

text \<open>Two writers in sequence on the same \<open>CBB\<close> are one writer.\<close>

lemma writer_seq:
  assumes w1: "cbb_writer run1 x" and w2: "cbb_writer run2 y"
    and run: "\<And>m c d. run m c d = (case run1 m c d of (False, c') \<Rightarrow> (False, c') | (True, c') \<Rightarrow> run2 m c' d)"
  shows "cbb_writer run (x @ y)"
proof
  fix malloc cbb d cbb' assume a: "malloc_law malloc" "cbb_inv cbb" "run malloc cbb d = (True, cbb')"
  then obtain c1 where c1: "run1 malloc cbb d = (True, c1)" "run2 malloc c1 d = (True, cbb')"
    by (auto simp: run split: prod.splits bool.splits)
  have "appended d x cbb c1" using w1 a c1 by (blast intro: cbb_writer.writes)
  moreover have "appended d y c1 cbb'"
    using w1 w2 a c1 by (blast intro: cbb_writer.writes cbb_writer.keeps_inv)
  ultimately show "appended d (x @ y) cbb cbb'" by (rule appended_trans)
qed

lemma writer_nop: "cbb_writer CBB_flush []"
proof
  fix malloc cbb d cbb' assume a: "malloc_law malloc" "cbb_inv cbb" "CBB_flush malloc cbb d = (True, cbb')"
  from CBB_flush_base [OF a(3)] obtain b where d: "d \<le> length (children cbb)" and b: "base cbb = Some b" by auto
  note fl = CBB_flush_flushed [OF a b]
  then obtain b' where b': "base cbb' = Some b'" "buffer_inv b'" by (auto simp: flushed_def)
  have "appended d [] cbb (cbb'\<lparr>base := Some b'\<rparr>)"
    using flushed_append [OF a(2) b d fl b'(1) b'(2)] by simp
  moreover have "cbb'\<lparr>base := Some b'\<rparr> = cbb'" using b' by simp
  ultimately show "appended d [] cbb cbb'" by simp
qed

interpretation wr_flush: cbb_writer CBB_flush "[]"
  by (rule writer_nop)

lemma splice_at_end: "splice (xs @ ys) (length xs) zs = xs @ zs @ drop (length zs) ys"
  by (simp add: splice_def)

lemma buffer_append:
  assumes m: "malloc_law malloc" and inv: "buffer_inv b" and n: "length data < SIZE_MOD"
    and add: "cbb_buffer_add malloc b (length data) = (True, b')"
  shows "buffer_inv (b'\<lparr>buf := splice (buf b') (len b) data\<rparr>)"
    "used (b'\<lparr>buf := splice (buf b') (len b) data\<rparr>) = used b @ data"
proof -
  note ad = cbb_buffer_add_True [OF m inv n add]
  have fit: "len b + length data \<le> len b'" using ad(3) by simp
  show "buffer_inv (b'\<lparr>buf := splice (buf b') (len b) data\<rparr>)"
    using used_write(1) [OF ad(1) fit] .
  have "used b' = used b @ drop (len b) (used b')" using ad(2) by (metis append_take_drop_id)
  moreover have "length (drop (len b) (used b')) = length data" using ad(1,3) by simp
  ultimately have "splice (used b') (len b) data = used b @ data"
    using splice_at_end [of "used b" "drop (len b) (used b')" data] inv by simp
  then show "used (b'\<lparr>buf := splice (buf b') (len b) data\<rparr>) = used b @ data"
    using used_write(2) [OF ad(1) fit] by simp
qed

lemma CBB_add_bytes_writer:
  assumes "length data < SIZE_MOD"
  shows "cbb_writer (\<lambda>m c d. CBB_add_bytes m c d data) data"
proof
  fix malloc cbb d cbb'
  assume a: "malloc_law malloc" "cbb_inv cbb" "CBB_add_bytes malloc cbb d data = (True, cbb')"
  show "appended d data cbb cbb'"
    by (rule cbb_then_appended [OF a(1,2) a(3) [unfolded CBB_add_bytes_def]])
      (use buffer_append [OF a(1) _ assms] in \<open>auto split: prod.splits bool.splits\<close>)
qed

lemma cbb_buffer_add_u_True:
  assumes m: "malloc_law malloc" and inv: "buffer_inv b" and n: "n \<le> 8"
    and run: "cbb_buffer_add_u malloc b v n = (True, b')"
  shows "buffer_inv b' \<and> used b' = used b @ be_bytes n (unat v)"
proof (cases "n = 0")
  case True
  with run inv show ?thesis by (simp add: cbb_buffer_add_u_def)
next
  case False
  from run False obtain b1 where add: "cbb_buffer_add malloc b n = (True, b1)"
    by (auto simp: cbb_buffer_add_u_def split: prod.splits bool.splits)
  have nn: "n < SIZE_MOD" using n by (simp add: SIZE_MOD_def)
  note ad = cbb_buffer_add_True [OF m inv nn add]
  have "len b + n \<le> length (buf b1)" using ad(1,3) by (simp add: buffer_inv_def)
  from write_be_eq [OF this, of "unat v"] run False add
  have "b' = b1\<lparr>buf := splice (buf b1) (len b) (be_bytes n (unat v))\<rparr>"
    by (auto simp: cbb_buffer_add_u_def split: if_splits)
  with buffer_append [OF m inv, of "be_bytes n (unat v)" b1] add nn show ?thesis by simp
qed

lemma cbb_add_u_writer:
  "n \<le> 8 \<Longrightarrow> cbb_writer (\<lambda>m c d. cbb_add_u m c d v n) (be_bytes n (unat v))"
  unfolding cbb_add_u_def
  by unfold_locales (rule cbb_then_appended, auto intro: cbb_buffer_add_u_True [THEN conjunct1]
      cbb_buffer_add_u_True [THEN conjunct2])

interpretation wr_u8: cbb_writer "\<lambda>m c d. CBB_add_u8 m c d v" "[v]" for v
  using cbb_add_u_writer [of 1 "ucast v"] by (simp add: CBB_add_u8_def unat_ucast_byte)

interpretation wr_u16: cbb_writer "\<lambda>m c d. CBB_add_u16 m c d v" "be_bytes 2 (unat v)" for v
  using cbb_add_u_writer [of 2 "ucast v"] by (simp add: CBB_add_u16_def unat_ucast_up)

interpretation wr_u24: cbb_writer "\<lambda>m c d. CBB_add_u24 m c d v" "be_bytes 3 (unat v)" for v
  using cbb_add_u_writer [of 3 "ucast v"] by (simp add: CBB_add_u24_def unat_ucast_up)

interpretation wr_u32: cbb_writer "\<lambda>m c d. CBB_add_u32 m c d v" "be_bytes 4 (unat v)" for v
  using cbb_add_u_writer [of 4 "ucast v"] by (simp add: CBB_add_u32_def unat_ucast_up)

interpretation wr_u64: cbb_writer "\<lambda>m c d. CBB_add_u64 m c d v" "be_bytes 8 (unat v)" for v
  using cbb_add_u_writer [of 8 v] by (simp add: CBB_add_u64_def)

section \<open>Opening children\<close>

text \<open>
  \<open>opened d k asn1 pre cbb cbb'\<close>: as \<open>appended\<close> with the bytes \<open>pre\<close>, and then a new empty child
  of the \<open>CBB\<close> at depth \<open>d\<close> with a pending prefix of \<open>k\<close> bytes has been opened at depth \<open>Suc d\<close>.
\<close>

definition opened :: "nat \<Rightarrow> nat \<Rightarrow> bool \<Rightarrow> byte list \<Rightarrow> CBB \<Rightarrow> CBB \<Rightarrow> bool" where
  "opened d k asn1 pre cbb cbb' \<longleftrightarrow>
     cbb_inv cbb' \<and> base cbb' \<noteq> None \<and> d \<le> length (children cbb) \<and>
     (\<exists>off. children cbb' = take d (children cbb) @
        [\<lparr>offset = off, pending_len_len = k, pending_is_asn1 = asn1\<rparr>]) \<and>
     (\<exists>body. collapse (drop d (children cbb)) (drop d (cbb_views cbb)) = Some body \<and>
        cbb_views cbb' = take d (cbb_views cbb) @ [body @ pre, []])"

lemma last_views: "last (views u s chs) = drop (start_at s (length chs) chs) u"
proof -
  have "drop (length chs) (views u s chs) = [drop (start_at s (length chs) chs) u]"
    by (subst drop_views) simp_all
  then show ?thesis by (metis append_take_drop_id last_snoc)
qed

lemma views_snoc:
  "views u s (chs @ [ch]) = butlast (views u s chs) @
     [slice u (start_at s (length chs) chs) (offset ch - start_at s (length chs) chs),
      drop (offset ch + pending_len_len ch) u]"
proof (induction chs arbitrary: s)
  case (Cons c chs)
  then show ?case by (cases chs) auto
qed simp

lemma chain_ok_snoc:
  "chain_ok s n (chs @ [ch]) \<longleftrightarrow>
     chain_ok s (offset ch) chs \<and> 0 < pending_len_len ch \<and> pending_len_len ch \<le> 8 \<and>
     (pending_is_asn1 ch \<longrightarrow> pending_len_len ch = 1) \<and> offset ch + pending_len_len ch \<le> n"
  by (induction chs arbitrary: s) auto

lemma appended_opened:
  assumes ap: "appended d (pre @ junk) cbb cbb1" and b1: "base cbb1 = Some b1" and k: "length junk = k" "0 < k" "k \<le> 8"
    and asn1: "asn1 \<Longrightarrow> k = 1"
    and b2: "buffer_inv b2" "used b2 = take (len b1 - k) (used b1) @ pad" "length pad = k"
  shows "opened d k asn1 pre cbb
    (cbb1\<lparr>base := Some b2, children := take d (children cbb1) @
      [\<lparr>offset = len b1 - k, pending_len_len = k, pending_is_asn1 = asn1\<rparr>]\<rparr>)"
proof -
  let ?chs = "take d (children cbb)"
  let ?ch = "\<lparr>offset = len b1 - k, pending_len_len = k, pending_is_asn1 = asn1\<rparr>"
  from ap b1 obtain body where inv1: "buffer_inv b1" "chain_ok 0 (len b1) ?chs" and d: "d \<le> length (children cbb)"
    and ch1: "children cbb1 = ?chs" and col: "collapse (drop d (children cbb)) (drop d (cbb_views cbb)) = Some body"
    and v1: "views (used b1) 0 ?chs = take d (cbb_views cbb) @ [body @ pre @ junk]"
    by (auto simp: appended_def cbb_inv_def cbb_views_def)
  let ?t = "start_at 0 (length ?chs) ?chs"
  have tail: "drop ?t (used b1) = body @ pre @ junk"
    using last_views [of "used b1" 0 ?chs] v1 by simp
  have t: "?t \<le> len b1" using chain_ok_drop [OF inv1(2), of "length ?chs"] by simp
  have "length (body @ pre @ junk) = len b1 - ?t"
    using inv1(1) tail by (metis length_drop length_used)
  then have len1: "len b1 = ?t + length body + length pre + k" using t k(1) by simp
  have off: "?t \<le> len b1 - k" using len1 by simp
  have u2: "length (used b2) = len b1" "take (len b1 - k) (used b2) = take (len b1 - k) (used b1)"
    using b2 inv1(1) len1 by simp_all
  have l2: "len b2 = len b1" using u2 b2(1) by simp
  have "chain_ok 0 (len b1 - k) (take (length ?chs) ?chs)"
    by (rule chain_ok_take [OF inv1(2)]) (use off in simp_all)
  then have ok: "chain_ok 0 (len b2) (?chs @ [?ch])"
    using k asn1 len1 l2 d by (auto simp: chain_ok_snoc min_absorb2)
  have vb: "views (used b2) 0 ?chs = take d (cbb_views cbb) @ [drop ?t (used b2)]"
  proof -
    have "views (take ?t (used b1) @ drop ?t (used b2)) 0 (take (length ?chs) ?chs) =
        take (length ?chs) (views (used b1) 0 ?chs) @ [drop ?t (used b2)]"
      using inv1 by (intro views_take) auto
    moreover have "take ?t (used b1) @ drop ?t (used b2) = used b2"
    proof -
      have "take ?t (used b2) = take ?t (take (len b1 - k) (used b2))" using off by (simp add: min_absorb1)
      also have "\<dots> = take ?t (used b1)" using off by (simp add: u2(2) min_absorb1)
      finally show ?thesis by (metis append_take_drop_id)
    qed
    moreover have "take (length ?chs) (views (used b1) 0 ?chs) = take d (cbb_views cbb)"
    proof -
      have "length (views (used b1) 0 ?chs) = Suc (length ?chs)" by simp
      then have "length (take d (cbb_views cbb)) = length ?chs" using v1 by simp
      with v1 d show ?thesis by (simp add: min_absorb2)
    qed
    ultimately show ?thesis using d by (simp add: min_absorb2)
  qed
  have "slice (used b2) ?t (len b1 - k - ?t) = slice (used b1) ?t (len b1 - k - ?t)"
    using u2(2) off by (metis drop_take slice_def)
  also have "\<dots> = take (len b1 - k - ?t) (body @ pre @ junk)" by (simp only: slice_def tail)
  also have "\<dots> = body @ pre" using len1 by simp
  finally have mid: "slice (used b2) ?t (len b1 - k - ?t) = body @ pre" .
  have "views (used b2) 0 (?chs @ [?ch]) = take d (cbb_views cbb) @ [body @ pre, []]"
    using mid u2(1) len1 by (simp add: views_snoc vb)
  with d col ok b2(1) ch1 show ?thesis
    by (auto simp: opened_def cbb_inv_def cbb_views_def)
qed

lemma cbb_add_length_prefixed_opens:
  assumes m: "malloc_law malloc" and inv: "cbb_inv cbb" and k: "0 < k" "k \<le> 8"
    and run: "cbb_add_length_prefixed malloc cbb d k = (True, cbb')"
  shows "opened d k False [] cbb cbb'"
proof -
  from run obtain cbb1 b b1 where fl: "CBB_flush malloc cbb d = (True, cbb1)" and b: "base cbb1 = Some b"
    and add: "cbb_buffer_add malloc b k = (True, b1)"
    and cbb': "cbb' = cbb1\<lparr>base := Some (b1\<lparr>buf := splice (buf b1) (len b) (replicate k 0)\<rparr>),
       children := take d (children cbb1) @ [\<lparr>offset = len b, pending_len_len = k, pending_is_asn1 = False\<rparr>]\<rparr>"
    by (auto simp: cbb_add_length_prefixed_def Let_def split: prod.splits bool.splits option.splits)
  let ?z = "replicate k 0 :: byte list"
  let ?b2 = "b1\<lparr>buf := splice (buf b1) (len b) ?z\<rparr>"
  have ap0: "appended d [] cbb cbb1" using wr_flush.writes [OF m inv fl] .
  then have invb: "buffer_inv b" using b by (auto simp: appended_def cbb_inv_def)
  have kk: "length ?z < SIZE_MOD" using k by (simp add: SIZE_MOD_def)
  have b2: "buffer_inv ?b2" "used ?b2 = used b @ ?z"
    using buffer_append [OF m invb kk] add by simp_all
  from CBB_flush_base [OF fl] obtain b0 where d: "d \<le> length (children cbb)" and b0: "base cbb = Some b0" by auto
  have ap: "appended d ([] @ ?z) cbb (cbb1\<lparr>base := Some ?b2\<rparr>)"
    using flushed_append [OF inv b0 d CBB_flush_flushed [OF m inv fl b0] b b2] by simp
  have l1: "len ?b2 = len b + k"
    using length_used [OF b2(1)] b2(2) length_used [OF invb] by simp
  have "used ?b2 = take (len ?b2 - k) (used ?b2) @ ?z"
    using b2(2) l1 length_used [OF invb] by simp
  then have "opened d k False [] cbb
      ((cbb1\<lparr>base := Some ?b2\<rparr>)\<lparr>base := Some ?b2, children := take d (children (cbb1\<lparr>base := Some ?b2\<rparr>)) @
        [\<lparr>offset = len ?b2 - k, pending_len_len = k, pending_is_asn1 = False\<rparr>]\<rparr>)"
    using k b2(1) by (intro appended_opened [OF ap, where pad = ?z]) simp_all
  then show ?thesis
    using l1 by (simp add: cbb')
qed

end
