(* ===== verification/Cbs.thy ===== *)
theory Cbs
  imports Mem
begin

text \<open>
  The byte-string reader \<open>CBS\<close> of \<open>crypto/bytestring/cbs.c\<close>. A \<open>CBS\<close> is a pointer and a
  length: the record keeps the object the pointer points into (\<open>cbs_mem\<close>), the position of
  the pointer in it (\<open>cbs_data\<close>) and the length (\<open>cbs_len\<close>). The well-formedness invariant
  \<open>cbs_inv\<close> says that the range lies inside the object, which is at most \<open>PTRDIFF_MAX\<close> bytes; \<open>cbs_bytes\<close> is the range as a list.

  A function \<open>int f(CBS *cbs, T *out)\<close> becomes a function from the reader to
  \<open>T option \<times> CBS\<close>: \<open>None\<close> is the return value 0, and the second component is the reader after
  the call, which the code may have advanced also when it fails. The value an out-parameter
  is left with by a call that returns 0 is not part of the model.
\<close>

record CBS =
  cbs_mem :: "byte list"
  cbs_data :: nat
  cbs_len :: nat

type_synonym 'a cbs_result = "'a option \<times> CBS"

definition CBS_init :: "byte list \<Rightarrow> CBS" where
  "CBS_init data = \<lparr>cbs_mem = data, cbs_data = 0, cbs_len = length data\<rparr>"

text \<open>\<open>CBS_init\<close> on a pointer into the object another reader reads from.\<close>

definition CBS_init_at :: "CBS \<Rightarrow> nat \<Rightarrow> nat \<Rightarrow> CBS" where
  "CBS_init_at cbs p n = cbs\<lparr>cbs_data := p, cbs_len := n\<rparr>"

definition cbs_inv :: "CBS \<Rightarrow> bool" where
  "cbs_inv c \<longleftrightarrow> cbs_data c + cbs_len c \<le> length (cbs_mem c) \<and> length (cbs_mem c) \<le> PTRDIFF_MAX"

definition cbs_bytes :: "CBS \<Rightarrow> byte list" where
  "cbs_bytes c = slice (cbs_mem c) (cbs_data c) (cbs_len c)"

section \<open>Fixed-size reads\<close>

definition cbs_get :: "CBS \<Rightarrow> nat \<Rightarrow> nat cbs_result" where
  "cbs_get cbs n =
     (if cbs_len cbs < n then (None, cbs)
      else (Some (cbs_data cbs),
            cbs\<lparr>cbs_data := cbs_data cbs + n, cbs_len := cbs_len cbs - n\<rparr>))"

definition CBS_skip :: "CBS \<Rightarrow> nat \<Rightarrow> unit cbs_result" where
  "CBS_skip cbs n = (case cbs_get cbs n of (None, c) \<Rightarrow> (None, c) | (Some _, c) \<Rightarrow> (Some (), c))"

definition CBS_data :: "CBS \<Rightarrow> byte list" where
  "CBS_data cbs = drop (cbs_data cbs) (cbs_mem cbs)"

definition CBS_len :: "CBS \<Rightarrow> nat" where
  "CBS_len cbs = cbs_len cbs"

text \<open>The result of \<open>CBS_stow\<close> is the return value, the pointer and the length stored.\<close>

definition CBS_stow :: "libc_malloc \<Rightarrow> CBS \<Rightarrow> bool \<times> byte list option \<times> nat" where
  "CBS_stow malloc cbs =
     (if cbs_len cbs = 0 then (True, None, 0)
      else case OPENSSL_memdup malloc (CBS_data cbs) (cbs_len cbs) of
             None \<Rightarrow> (False, None, 0)
           | Some p \<Rightarrow> (True, Some p, cbs_len cbs))"

definition CBS_strdup :: "libc_malloc \<Rightarrow> CBS \<Rightarrow> byte list option" where
  "CBS_strdup malloc cbs = OPENSSL_strndup malloc (CBS_data cbs) (cbs_len cbs)"

definition CBS_contains_zero_byte :: "CBS \<Rightarrow> bool" where
  "CBS_contains_zero_byte cbs \<longleftrightarrow> OPENSSL_memchr (CBS_data cbs) 0 (cbs_len cbs) \<noteq> None"

definition CBS_mem_equal :: "CBS \<Rightarrow> byte list \<Rightarrow> nat \<Rightarrow> bool" where
  "CBS_mem_equal cbs data n \<longleftrightarrow>
     (if n \<noteq> cbs_len cbs then False else CRYPTO_memcmp (CBS_data cbs) data n = 0)"

definition cbs_get_u :: "CBS \<Rightarrow> nat \<Rightarrow> u64 cbs_result" where
  "cbs_get_u cbs n =
     (case cbs_get cbs n of
        (None, c) \<Rightarrow> (None, c)
      | (Some data, c) \<Rightarrow> (Some (foldl shift_or 0 (slice (cbs_mem c) data n)), c))"

definition CBS_get_u8 :: "CBS \<Rightarrow> byte cbs_result" where
  "CBS_get_u8 cbs =
     (case cbs_get cbs 1 of
        (None, c) \<Rightarrow> (None, c)
      | (Some v, c) \<Rightarrow> (Some (cbs_mem c ! v), c))"

definition CBS_get_u16 :: "CBS \<Rightarrow> u16 cbs_result" where
  "CBS_get_u16 cbs =
     (case cbs_get_u cbs 2 of (None, c) \<Rightarrow> (None, c) | (Some v, c) \<Rightarrow> (Some (ucast v), c))"

definition CRYPTO_bswap2 :: "u16 \<Rightarrow> u16" where
  "CRYPTO_bswap2 x = drop_bit 8 x OR push_bit 8 x"

definition CRYPTO_bswap4 :: "u32 \<Rightarrow> u32" where
  "CRYPTO_bswap4 x' =
     (let x = drop_bit 16 x' OR push_bit 16 x'
      in drop_bit 8 (x AND 0xff00ff00) OR push_bit 8 (x AND 0x00ff00ff))"

definition CRYPTO_bswap8 :: "u64 \<Rightarrow> u64" where
  "CRYPTO_bswap8 x =
     ucast (CRYPTO_bswap4 (ucast (drop_bit 32 x))) OR push_bit 32 (ucast (CRYPTO_bswap4 (ucast x)))"

definition CBS_get_u16le :: "CBS \<Rightarrow> u16 cbs_result" where
  "CBS_get_u16le cbs =
     (case CBS_get_u16 cbs of
        (None, c) \<Rightarrow> (None, c) | (Some out, c) \<Rightarrow> (Some (CRYPTO_bswap2 out), c))"

definition CBS_get_u24 :: "CBS \<Rightarrow> u32 cbs_result" where
  "CBS_get_u24 cbs =
     (case cbs_get_u cbs 3 of (None, c) \<Rightarrow> (None, c) | (Some v, c) \<Rightarrow> (Some (ucast v), c))"

definition CBS_get_u32 :: "CBS \<Rightarrow> u32 cbs_result" where
  "CBS_get_u32 cbs =
     (case cbs_get_u cbs 4 of (None, c) \<Rightarrow> (None, c) | (Some v, c) \<Rightarrow> (Some (ucast v), c))"

definition CBS_get_u32le :: "CBS \<Rightarrow> u32 cbs_result" where
  "CBS_get_u32le cbs =
     (case CBS_get_u32 cbs of
        (None, c) \<Rightarrow> (None, c) | (Some out, c) \<Rightarrow> (Some (CRYPTO_bswap4 out), c))"

definition CBS_get_u64 :: "CBS \<Rightarrow> u64 cbs_result" where
  "CBS_get_u64 cbs = cbs_get_u cbs 8"

definition CBS_get_u64le :: "CBS \<Rightarrow> u64 cbs_result" where
  "CBS_get_u64le cbs =
     (case cbs_get_u cbs 8 of
        (None, c) \<Rightarrow> (None, c) | (Some out, c) \<Rightarrow> (Some (CRYPTO_bswap8 out), c))"

definition CBS_get_last_u8 :: "CBS \<Rightarrow> byte cbs_result" where
  "CBS_get_last_u8 cbs =
     (if cbs_len cbs = 0 then (None, cbs)
      else (Some (cbs_mem cbs ! (cbs_data cbs + (cbs_len cbs - 1))),
            cbs\<lparr>cbs_len := cbs_len cbs - 1\<rparr>))"

section \<open>Ranges\<close>

definition CBS_get_bytes :: "CBS \<Rightarrow> nat \<Rightarrow> CBS cbs_result" where
  "CBS_get_bytes cbs n =
     (case cbs_get cbs n of
        (None, c) \<Rightarrow> (None, c)
      | (Some v, c) \<Rightarrow> (Some (CBS_init_at c v n), c))"

definition CBS_copy_bytes :: "CBS \<Rightarrow> nat \<Rightarrow> byte list cbs_result" where
  "CBS_copy_bytes cbs n =
     (case cbs_get cbs n of
        (None, c) \<Rightarrow> (None, c)
      | (Some v, c) \<Rightarrow> (Some (slice (cbs_mem c) v n), c))"

definition cbs_get_length_prefixed :: "CBS \<Rightarrow> nat \<Rightarrow> CBS cbs_result" where
  "cbs_get_length_prefixed cbs len_len =
     (case cbs_get_u cbs len_len of
        (None, c) \<Rightarrow> (None, c)
      | (Some n, c) \<Rightarrow> CBS_get_bytes c (unat n))"

definition CBS_get_u8_length_prefixed :: "CBS \<Rightarrow> CBS cbs_result" where
  "CBS_get_u8_length_prefixed cbs = cbs_get_length_prefixed cbs 1"

definition CBS_get_u16_length_prefixed :: "CBS \<Rightarrow> CBS cbs_result" where
  "CBS_get_u16_length_prefixed cbs = cbs_get_length_prefixed cbs 2"

definition CBS_get_u24_length_prefixed :: "CBS \<Rightarrow> CBS cbs_result" where
  "CBS_get_u24_length_prefixed cbs = cbs_get_length_prefixed cbs 3"

definition CBS_get_until_first :: "CBS \<Rightarrow> byte \<Rightarrow> CBS cbs_result" where
  "CBS_get_until_first cbs c =
     (case OPENSSL_memchr (CBS_data cbs) c (CBS_len cbs) of
        None \<Rightarrow> (None, cbs)
      | Some split \<Rightarrow> CBS_get_bytes cbs split)"

section \<open>Moving through a range\<close>

text \<open>
  \<open>cbs_advances c' c\<close>: the reader \<open>c'\<close> is \<open>c\<close> moved forward over some bytes, with the same
  end. \<open>cbs_within c' c\<close>: the range of \<open>c'\<close> is part of the range of \<open>c\<close>. Both are memory
  safety statements: neither reader can leave the range its caller was given.
\<close>

definition cbs_advances :: "CBS \<Rightarrow> CBS \<Rightarrow> bool" where
  "cbs_advances c' c \<longleftrightarrow> cbs_mem c' = cbs_mem c \<and> cbs_data c \<le> cbs_data c' \<and>
     cbs_data c' + cbs_len c' = cbs_data c + cbs_len c"

definition cbs_within :: "CBS \<Rightarrow> CBS \<Rightarrow> bool" where
  "cbs_within c' c \<longleftrightarrow> cbs_mem c' = cbs_mem c \<and> cbs_data c \<le> cbs_data c' \<and>
     cbs_data c' + cbs_len c' \<le> cbs_data c + cbs_len c"

lemma cbs_advances_refl [simp]: "cbs_advances c c"
  by (simp add: cbs_advances_def)

lemma cbs_advances_trans: "cbs_advances a b \<Longrightarrow> cbs_advances b c \<Longrightarrow> cbs_advances a c"
  by (auto simp: cbs_advances_def)

lemma cbs_within_refl [simp]: "cbs_within c c"
  by (simp add: cbs_within_def)

lemma cbs_within_trans: "cbs_within a b \<Longrightarrow> cbs_within b c \<Longrightarrow> cbs_within a c"
  by (auto simp: cbs_within_def)

lemma cbs_advances_within: "cbs_advances a b \<Longrightarrow> cbs_within a b"
  by (simp add: cbs_advances_def cbs_within_def)

lemma cbs_within_inv: "cbs_within a b \<Longrightarrow> cbs_inv b \<Longrightarrow> cbs_inv a"
  by (auto simp: cbs_within_def cbs_inv_def)

lemma cbs_advances_inv: "cbs_advances a b \<Longrightarrow> cbs_inv b \<Longrightarrow> cbs_inv a"
  by (blast intro: cbs_within_inv cbs_advances_within)

lemma length_cbs_bytes [simp]: "cbs_inv c \<Longrightarrow> length (cbs_bytes c) = cbs_len c"
  by (auto simp: cbs_inv_def cbs_bytes_def)

lemma CBS_len_pos: "cbs_inv c \<Longrightarrow> CBS_len c > 0 \<longleftrightarrow> cbs_bytes c \<noteq> []"
  by (simp add: CBS_len_def flip: length_greater_0_conv)

lemma cbs_inv_len: "cbs_inv c \<Longrightarrow> cbs_len c \<le> PTRDIFF_MAX"
  by (simp add: cbs_inv_def)

lemma cbs_init_inv: "length bs \<le> PTRDIFF_MAX \<Longrightarrow> cbs_inv (CBS_init bs)"
  by (simp add: CBS_init_def cbs_inv_def)

lemma cbs_init_bytes [simp]: "cbs_bytes (CBS_init bs) = bs"
  by (simp add: CBS_init_def cbs_bytes_def)

lemma cbs_init_len [simp]: "cbs_len (CBS_init bs) = length bs"
  by (simp add: CBS_init_def)

lemma cbs_advances_suffix:
  assumes "cbs_inv c" "cbs_advances c' c"
  shows "cbs_bytes c = take (cbs_data c' - cbs_data c) (cbs_bytes c) @ cbs_bytes c'"
proof -
  let ?k = "cbs_data c' - cbs_data c"
  have "cbs_mem c' = cbs_mem c" "cbs_data c' = cbs_data c + ?k" "cbs_len c' = cbs_len c - ?k"
    using assms(2) by (auto simp: cbs_advances_def)
  then have "cbs_bytes c' = drop ?k (cbs_bytes c)"
    by (simp add: cbs_bytes_def)
  then show ?thesis by (metis append_take_drop_id)
qed

section \<open>The list-level specification of a reader\<close>

text \<open>
  What a reader promises, on lists: parse a value off the front of the remaining bytes and
  give back the rest, or fail. The locale relates a reader of the code to such a
  specification; \<open>view\<close> reads its result as a specification-level value.
\<close>

locale cbs_reader =
  fixes run :: "CBS \<Rightarrow> 'a cbs_result"
    and view :: "'a \<Rightarrow> 'b"
    and spec :: "byte list \<Rightarrow> ('b \<times> byte list) option"
  assumes advances: "cbs_inv c \<Longrightarrow> cbs_advances (snd (run c)) c"
    and run_Some: "cbs_inv c \<Longrightarrow> run c = (Some a, c') \<Longrightarrow>
      spec (cbs_bytes c) = Some (view a, cbs_bytes c')"
    and run_None: "cbs_inv c \<Longrightarrow> run c = (None, c') \<Longrightarrow> spec (cbs_bytes c) = None"
begin

lemma advancesD: "cbs_inv c \<Longrightarrow> run c = (r, c') \<Longrightarrow> cbs_advances c' c"
  using advances [of c] by simp

lemma keeps_inv: "cbs_inv c \<Longrightarrow> run c = (r, c') \<Longrightarrow> cbs_inv c'"
  by (blast intro: advancesD cbs_advances_inv)

lemma succeeds_iff: "cbs_inv c \<Longrightarrow> fst (run c) \<noteq> None \<longleftrightarrow> spec (cbs_bytes c) \<noteq> None"
  by (cases "run c"; cases "fst (run c)") (auto dest: run_Some run_None)

lemma reads:
  assumes "cbs_inv c" "spec (cbs_bytes c) = Some (b, rest)"
  obtains a c' where "run c = (Some a, c')" "view a = b" "cbs_bytes c' = rest" "cbs_inv c'"
    "cbs_advances c' c"
proof -
  obtain r c' where r: "run c = (r, c')" by fastforce
  with assms obtain a where a: "r = Some a"
    by (cases r) (auto dest: run_None)
  with r assms have "view a = b \<and> cbs_bytes c' = rest"
    using run_Some by fastforce
  with that a r assms(1) show thesis
    by (auto intro: advancesD keeps_inv)
qed

lemma consumes_prefix:
  assumes "cbs_inv c" "run c = (Some a, c')"
  shows "\<exists>used. cbs_bytes c = used @ cbs_bytes c'"
  using assms advancesD cbs_advances_suffix by blast

end

text \<open>The three laws at once, for readers given by one case analysis.\<close>

lemma cbs_readerI:
  assumes "\<And>c r c'. cbs_inv c \<Longrightarrow> run c = (r, c') \<Longrightarrow>
    cbs_advances c' c \<and> spec (cbs_bytes c) = map_option (\<lambda>a. (view a, cbs_bytes c')) r"
  shows "cbs_reader run view spec"
proof
  fix c assume "cbs_inv c"
  then show "cbs_advances (snd (run c)) c" using assms [of c "fst (run c)" "snd (run c)"] by simp
qed (auto dest: assms)

definition spec_bytes :: "nat \<Rightarrow> byte list \<Rightarrow> (byte list \<times> byte list) option" where
  "spec_bytes n bs = (if length bs < n then None else Some (take n bs, drop n bs))"

definition spec_uint :: "nat \<Rightarrow> byte list \<Rightarrow> (nat \<times> byte list) option" where
  "spec_uint n bs = map_option (map_prod be_value id) (spec_bytes n bs)"

definition spec_uint_le :: "nat \<Rightarrow> byte list \<Rightarrow> (nat \<times> byte list) option" where
  "spec_uint_le n bs = map_option (map_prod (be_value \<circ> rev) id) (spec_bytes n bs)"

definition spec_prefixed :: "nat \<Rightarrow> byte list \<Rightarrow> (byte list \<times> byte list) option" where
  "spec_prefixed k bs = Option.bind (spec_uint k bs) (\<lambda>(n, rest). spec_bytes n rest)"

section \<open>The primitive read\<close>

lemma cbs_get_Some:
  "cbs_get c n = (Some p, c') \<longleftrightarrow>
     n \<le> cbs_len c \<and> p = cbs_data c \<and>
     c' = c\<lparr>cbs_data := cbs_data c + n, cbs_len := cbs_len c - n\<rparr>"
  by (auto simp: cbs_get_def)

lemma cbs_get_None: "cbs_get c n = (None, c') \<longleftrightarrow> cbs_len c < n \<and> c' = c"
  by (auto simp: cbs_get_def)

lemma cbs_move_advances:
  "n \<le> cbs_len c \<Longrightarrow> cbs_advances (c\<lparr>cbs_data := cbs_data c + n, cbs_len := cbs_len c - n\<rparr>) c"
  by (simp add: cbs_advances_def)

lemma cbs_move_bytes:
  "cbs_bytes (c\<lparr>cbs_data := cbs_data c + n, cbs_len := cbs_len c - n\<rparr>) = drop n (cbs_bytes c)"
  by (simp add: cbs_bytes_def)

lemma cbs_front_bytes: "n \<le> cbs_len c \<Longrightarrow> slice (cbs_mem c) (cbs_data c) n = take n (cbs_bytes c)"
  by (simp add: cbs_bytes_def min_def)

lemmas cbs_get_simps = cbs_get_Some cbs_get_None cbs_move_advances cbs_move_bytes cbs_front_bytes

text \<open>A read of \<open>n\<close> bytes at the front followed by a pure computation on them.\<close>

lemma cbs_get_reader:
  assumes run: "\<And>c. run c = (case cbs_get c n of (None, c') \<Rightarrow> (None, c')
      | (Some p, c') \<Rightarrow> (Some (f c' p), c'))"
    and f: "\<And>c. cbs_inv c \<Longrightarrow> n \<le> cbs_len c \<Longrightarrow>
      view (f (c\<lparr>cbs_data := cbs_data c + n, cbs_len := cbs_len c - n\<rparr>) (cbs_data c)) =
      g (take n (cbs_bytes c))"
  shows "cbs_reader run view (\<lambda>bs. map_option (map_prod g id) (spec_bytes n bs))"
proof
  fix c assume c: "cbs_inv c"
  show "cbs_advances (snd (run c)) c"
    by (auto simp: run cbs_get_simps split: prod.split option.split)
next
  fix c a c' assume c: "cbs_inv c" and "run c = (Some a, c')"
  then show "map_option (map_prod g id) (spec_bytes n (cbs_bytes c)) = Some (view a, cbs_bytes c')"
    by (auto simp: run cbs_get_simps f spec_bytes_def split: prod.splits option.splits)
next
  fix c c' assume c: "cbs_inv c" and "run c = (None, c')"
  then show "map_option (map_prod g id) (spec_bytes n (cbs_bytes c)) = None"
    by (auto simp: run cbs_get_simps spec_bytes_def split: prod.splits option.splits)
qed

section \<open>Byte swaps\<close>

lemma word_as_bytes:
  assumes "8 * n = LENGTH('a)"
  shows "(w :: 'a::len word) = foldl shift_or 0 (be_bytes n (unat w))"
proof -
  have "(256 :: nat) ^ n = 2 ^ LENGTH('a)"
    by (simp add: power_mult flip: assms)
  then show ?thesis
    by (simp add: fold_shift_or_0 be_value_be_bytes)
qed

lemma unat_shift_or:
  assumes "length bs * 8 = LENGTH('a)"
  shows "unat (foldl shift_or 0 bs :: 'a::len word) = be_value bs"
proof -
  have "(256 :: nat) ^ length bs = 2 ^ (8 * length bs)"
    by (simp add: power_mult)
  also have "\<dots> = 2 ^ LENGTH('a)"
    using assms by (simp add: mult.commute)
  finally have "(256 :: nat) ^ length bs = 2 ^ LENGTH('a)" .
  then show ?thesis
    using be_value_less [of bs] by (simp add: fold_shift_or_0 unat_of_nat)
qed

lemma bswap2_bytes: "CRYPTO_bswap2 (foldl shift_or 0 [a, b]) = foldl shift_or 0 [b, a]"
  by (rule bit_word_eqI)
    (auto simp: CRYPTO_bswap2_def shift_or_def bit_simps dest: bit_imp_le_length)

lemma less_32_cases:
  "(n::nat) < 32 \<longleftrightarrow> n \<in> {0, 1, 2, 3, 4, 5, 6, 7, 8, 9, 10, 11, 12, 13, 14, 15, 16, 17, 18, 19,
     20, 21, 22, 23, 24, 25, 26, 27, 28, 29, 30, 31}"
  by (simp; presburger)

lemma bswap4_bytes: "CRYPTO_bswap4 (foldl shift_or 0 [a, b, c, d]) = foldl shift_or 0 [d, c, b, a]"
proof (rule bit_word_eqI)
  fix n assume "n < LENGTH(32)"
  then have "n < 32" by simp
  then show "bit (CRYPTO_bswap4 (foldl shift_or 0 [a, b, c, d])) n \<longleftrightarrow>
      bit (foldl shift_or 0 [d, c, b, a] :: u32) n"
    unfolding less_32_cases
    by (simp; elim disjE; simp add: CRYPTO_bswap4_def Let_def shift_or_def bit_simps;
        (auto dest: bit_imp_le_length)?)
qed

lemma bswap8_bytes:
  assumes "length xs = 4" "length ys = 4"
  shows "CRYPTO_bswap8 (foldl shift_or 0 (xs @ ys)) = foldl shift_or 0 (rev ys @ rev xs)"
proof -
  have bound: "be_value zs < 2 ^ 32" if "length zs = 4" for zs
    using be_value_less [of zs] that by simp
  let ?w = "foldl shift_or 0 (xs @ ys) :: u64"
  have "be_value xs * 2 ^ 32 + be_value ys < 2 ^ 64"
    using bound [OF assms(1)] bound [OF assms(2)] by simp
  then have w: "unat ?w = be_value xs * 2 ^ 32 + be_value ys"
    using assms by (simp add: fold_shift_or_0 unat_of_nat be_value_append del: foldl_append of_nat_add of_nat_mult)
  have "unat (drop_bit 32 ?w) = be_value xs"
    using bound [OF assms(2)]
    by (simp only: unat_drop_bit_eq w drop_bit_eq_div [where 'a = nat]) simp
  then have hi: "(ucast (drop_bit 32 ?w) :: u32) = foldl shift_or 0 xs"
    by (metis fold_shift_or_0 of_nat_unat)
  have "(ucast ?w :: u32) = of_nat (unat ?w)"
    by (simp only: of_nat_unat)
  also have "\<dots> = of_nat (be_value ys)"
    unfolding w by (rule word_unat_eq_iff [THEN iffD2]) (simp add: unat_of_nat del: of_nat_add of_nat_mult)
  finally have lo: "(ucast ?w :: u32) = foldl shift_or 0 ys"
    by (simp only: fold_shift_or_0)
  have swap4: "CRYPTO_bswap4 (foldl shift_or 0 zs) = foldl shift_or 0 (rev zs)" if "length zs = 4" for zs
    using that bswap4_bytes by (auto simp: length_Suc_conv numeral_eq_Suc)
  have cat: "(ucast x :: u64) OR push_bit 32 (ucast y) = ucast x + push_bit 32 (ucast y)" for x y :: u32
    by (rule disjunctive_add_eq_or [symmetric])
      (rule bit_word_eqI, auto simp: bit_simps dest: bit_imp_le_length)
  have wide: "(ucast (foldl shift_or 0 zs :: u32) :: u64) = of_nat (be_value zs)" if "length zs = 4" for zs
    using unat_shift_or [of zs, where 'a = 32] that
    by (subst of_nat_unat [symmetric]) simp
  have "CRYPTO_bswap8 ?w = of_nat (be_value (rev xs)) + push_bit 32 (of_nat (be_value (rev ys)))"
    using assms by (simp only: CRYPTO_bswap8_def hi lo swap4 cat) (simp only: wide length_rev)
  also have "\<dots> = of_nat (be_value (rev ys @ rev xs))"
    using assms by (simp add: be_value_append push_bit_eq_mult)
  finally show ?thesis
    by (simp only: fold_shift_or_0)
qed

section \<open>The readers meet their specifications\<close>

lemma cbs_get_u_reader:
  assumes "n \<le> 8"
  shows "cbs_reader (\<lambda>c. cbs_get_u c n) unat (spec_uint n)"
  unfolding spec_uint_def
proof (rule cbs_get_reader [where f = "\<lambda>c p. foldl shift_or 0 (slice (cbs_mem c) p n)"])
  fix c assume c: "cbs_inv c" "n \<le> cbs_len c"
  let ?bs = "take n (cbs_bytes c)"
  have "be_value ?bs < 256 ^ length ?bs" by (rule be_value_less)
  also have "\<dots> \<le> 256 ^ 8" using assms by (intro power_increasing) auto
  finally have "be_value ?bs < 2 ^ 64" by simp
  then have "unat (foldl shift_or 0 ?bs :: u64) = be_value ?bs"
    by (simp add: fold_shift_or_0 unat_of_nat)
  with c show "unat (foldl shift_or 0 (slice (cbs_mem (c\<lparr>cbs_data := cbs_data c + n, cbs_len := cbs_len c - n\<rparr>)) (cbs_data c) n) :: u64) = be_value ?bs"
    by (simp add: cbs_front_bytes)
qed (simp add: cbs_get_u_def)

interpretation rd_u8: cbs_reader CBS_get_u8 unat "spec_uint 1"
  unfolding spec_uint_def
proof (rule cbs_get_reader [where f = "\<lambda>c p. cbs_mem c ! p"])
  fix c assume "cbs_inv c" "1 \<le> cbs_len c"
  then show "unat (cbs_mem (c\<lparr>cbs_data := cbs_data c + 1, cbs_len := cbs_len c - 1\<rparr>) ! cbs_data c) =
      be_value (take 1 (cbs_bytes c))"
    by (simp add: slice_Suc cbs_inv_def flip: cbs_front_bytes)
qed (simp add: CBS_get_u8_def)

text \<open>Post-processing the result of a reader.\<close>

lemma reader_map:
  assumes rd: "cbs_reader run view spec"
    and run': "\<And>c. run' c = (case run c of (None, c') \<Rightarrow> (None, c') | (Some v, c') \<Rightarrow> (Some (f v), c'))"
    and f: "\<And>c v c'. cbs_inv c \<Longrightarrow> run c = (Some v, c') \<Longrightarrow> view' (f v) = g (view v)"
  shows "cbs_reader run' view' (\<lambda>bs. map_option (map_prod g id) (spec bs))"
proof
  fix c assume "cbs_inv c"
  with rd show "cbs_advances (snd (run' c)) c"
    by (cases "run c") (auto simp: run' dest: cbs_reader.advancesD split: option.split)
next
  fix c a c' assume c: "cbs_inv c" "run' c = (Some a, c')"
  then obtain v where v: "run c = (Some v, c')" "a = f v"
    by (auto simp: run' split: prod.splits option.splits)
  with c rd show "map_option (map_prod g id) (spec (cbs_bytes c)) = Some (view' a, cbs_bytes c')"
    by (simp add: f cbs_reader.run_Some)
next
  fix c c' assume c: "cbs_inv c" "run' c = (None, c')"
  then have "run c = (None, c')"
    by (auto simp: run' split: prod.splits option.splits)
  with c rd show "map_option (map_prod g id) (spec (cbs_bytes c)) = None"
    by (simp add: cbs_reader.run_None)
qed

lemma spec_uint_less: "spec_uint n bs = Some (v, rest) \<Longrightarrow> v < 256 ^ n"
  using be_value_less [of "take n bs"] by (auto simp: spec_uint_def spec_bytes_def min_def split: if_splits)

lemma narrow_reader:
  fixes run :: "CBS \<Rightarrow> 'a::len word cbs_result"
  assumes n: "n \<le> 8" "8 * n \<le> LENGTH('a)"
    and run: "\<And>c. run c = (case cbs_get_u c n of (None, c') \<Rightarrow> (None, c')
      | (Some v, c') \<Rightarrow> (Some (ucast v), c'))"
  shows "cbs_reader run unat (spec_uint n)"
proof -
  have "cbs_reader run unat (\<lambda>bs. map_option (map_prod id id) (spec_uint n bs))"
  proof (rule reader_map [OF cbs_get_u_reader [OF n(1)] run])
    fix c v c' assume "cbs_inv c" "cbs_get_u c n = (Some v, c')"
    then have "unat v < 256 ^ n"
      using cbs_reader.run_Some [OF cbs_get_u_reader [OF n(1)]] spec_uint_less by blast
    also have "(256 :: nat) ^ n = 2 ^ (8 * n)" by (simp add: power_mult)
    also have "\<dots> \<le> 2 ^ LENGTH('a)" using n(2) by (intro power_increasing) auto
    finally show "unat (ucast v :: 'a word) = id (unat v)"
      by (simp add: unsigned_ucast_eq take_bit_nat_eq_self)
  qed
  then show ?thesis
    by (simp add: prod.map_id0 option.map_id0 option.map_ident id_def)
qed

interpretation rd_u16: cbs_reader CBS_get_u16 unat "spec_uint 2"
  by (rule narrow_reader) (simp_all add: CBS_get_u16_def)

interpretation rd_u24: cbs_reader CBS_get_u24 unat "spec_uint 3"
  by (rule narrow_reader) (simp_all add: CBS_get_u24_def)

interpretation rd_u32: cbs_reader CBS_get_u32 unat "spec_uint 4"
  by (rule narrow_reader) (simp_all add: CBS_get_u32_def)

interpretation rd_u64: cbs_reader CBS_get_u64 unat "spec_uint 8"
  using cbs_get_u_reader [of 8] by (simp add: CBS_get_u64_def [abs_def])

interpretation rd_bytes: cbs_reader "\<lambda>c. CBS_get_bytes c n" cbs_bytes "spec_bytes n" for n
proof -
  have "cbs_reader (\<lambda>c. CBS_get_bytes c n) cbs_bytes (\<lambda>bs. map_option (map_prod id id) (spec_bytes n bs))"
    by (rule cbs_get_reader [where f = "\<lambda>c v. CBS_init_at c v n"])
      (simp_all add: CBS_get_bytes_def CBS_init_at_def cbs_bytes_def min_def)
  then show "cbs_reader (\<lambda>c. CBS_get_bytes c n) cbs_bytes (spec_bytes n)"
    by (simp add: prod.map_id0 option.map_id0 option.map_ident id_def)
qed

text \<open>The little-endian readers: a big-endian read followed by a byte swap.\<close>

lemma le_of_be: "spec_uint_le n bs = map_option (map_prod (\<lambda>v. be_value (rev (be_bytes n v))) id) (spec_uint n bs)"
proof -
  have "be_bytes n (be_value (take n bs)) = take n bs" if "n \<le> length bs"
    using be_bytes_be_value [of "take n bs"] that by (simp only: length_take min.absorb2)
  then show ?thesis
    by (simp add: spec_uint_def spec_uint_le_def spec_bytes_def)
qed

lemma length_2E: "length bs = 2 \<Longrightarrow> (\<And>a b. bs = [a, b] \<Longrightarrow> thesis) \<Longrightarrow> thesis"
  by (auto simp: length_Suc_conv numeral_2_eq_2)

lemma length_4E: "length bs = 4 \<Longrightarrow> (\<And>a b c d. bs = [a, b, c, d] \<Longrightarrow> thesis) \<Longrightarrow> thesis"
  by (auto simp: length_Suc_conv numeral_eq_Suc)

lemma bswap2_value: "unat (CRYPTO_bswap2 w) = be_value (rev (be_bytes 2 (unat w)))"
proof (rule length_2E [OF length_be_bytes])
  fix a b assume ab: "be_bytes 2 (unat w) = [a, b]"
  then have "w = foldl shift_or 0 [a, b]"
    using word_as_bytes [of 2 w] by simp
  then have "CRYPTO_bswap2 w = foldl shift_or 0 [b, a]"
    using bswap2_bytes by metis
  then show ?thesis
    using unat_shift_or [of "[b, a]", where 'a = 16] by (simp add: ab)
qed

lemma bswap4_value: "unat (CRYPTO_bswap4 w) = be_value (rev (be_bytes 4 (unat w)))"
proof (rule length_4E [OF length_be_bytes])
  fix a b c d assume ab: "be_bytes 4 (unat w) = [a, b, c, d]"
  then have "w = foldl shift_or 0 [a, b, c, d]"
    using word_as_bytes [of 4 w] by simp
  then have "CRYPTO_bswap4 w = foldl shift_or 0 [d, c, b, a]"
    using bswap4_bytes by metis
  then show ?thesis
    using unat_shift_or [of "[d, c, b, a]", where 'a = 32] by (simp add: ab)
qed

lemma bswap8_value: "unat (CRYPTO_bswap8 w) = be_value (rev (be_bytes 8 (unat w)))"
proof -
  define bs where "bs = be_bytes 8 (unat w)"
  have "w = foldl shift_or 0 (take 4 bs @ drop 4 bs)"
    using word_as_bytes [of 8 w] by (simp add: bs_def)
  then have "CRYPTO_bswap8 w = foldl shift_or 0 (rev (drop 4 bs) @ rev (take 4 bs))"
    using bswap8_bytes [of "take 4 bs" "drop 4 bs"] by (simp add: bs_def)
  also have "\<dots> = foldl shift_or 0 (rev bs)"
    by (metis append_take_drop_id rev_append)
  finally show ?thesis
    by (simp only: bs_def) (subst unat_shift_or, simp_all)
qed

interpretation rd_u16le: cbs_reader CBS_get_u16le unat "spec_uint_le 2"
  unfolding le_of_be
  by (rule reader_map [OF rd_u16.cbs_reader_axioms])
    (simp add: CBS_get_u16le_def, rule bswap2_value)

interpretation rd_u32le: cbs_reader CBS_get_u32le unat "spec_uint_le 4"
  unfolding le_of_be
  by (rule reader_map [OF rd_u32.cbs_reader_axioms])
    (simp add: CBS_get_u32le_def, rule bswap4_value)

interpretation rd_u64le: cbs_reader CBS_get_u64le unat "spec_uint_le 8"
  unfolding le_of_be
  by (rule reader_map [OF rd_u64.cbs_reader_axioms])
    (simp add: CBS_get_u64le_def CBS_get_u64_def, rule bswap8_value)

interpretation rd_copy: cbs_reader "\<lambda>c. CBS_copy_bytes c n" id "spec_bytes n" for n
proof -
  have "cbs_reader (\<lambda>c. CBS_copy_bytes c n) id (\<lambda>bs. map_option (map_prod id id) (spec_bytes n bs))"
    by (rule cbs_get_reader [where f = "\<lambda>c v. slice (cbs_mem c) v n"])
      (simp_all add: CBS_copy_bytes_def cbs_front_bytes)
  then show "cbs_reader (\<lambda>c. CBS_copy_bytes c n) id (spec_bytes n)"
    by (simp add: prod.map_id0 option.map_id0 option.map_ident id_def)
qed

text \<open>Running one reader after another, as the length-prefixed readers do.\<close>

lemma reader_bind:
  assumes r1: "cbs_reader run1 view1 spec1"
    and r2: "\<And>v. cbs_reader (run2 v) view2 (spec2 (view1 v))"
    and run: "\<And>c. run c = (case run1 c of (None, c') \<Rightarrow> (None, c') | (Some v, c') \<Rightarrow> run2 v c')"
  shows "cbs_reader run view2 (\<lambda>bs. Option.bind (spec1 bs) (\<lambda>(n, rest). spec2 n rest))"
proof
  fix c assume c: "cbs_inv c"
  obtain r c1 where rc: "run1 c = (r, c1)" by fastforce
  then have c1: "cbs_advances c1 c" "cbs_inv c1"
    using c r1 by (auto intro: cbs_reader.advancesD cbs_reader.keeps_inv)
  show "cbs_advances (snd (run c)) c"
    using rc c1 cbs_reader.advances [OF r2 c1(2)]
    by (auto simp: run intro: cbs_advances_trans split: option.split)
next
  fix c a c' assume c: "cbs_inv c" "run c = (Some a, c')"
  then obtain v c1 where v: "run1 c = (Some v, c1)" "run2 v c1 = (Some a, c')"
    by (auto simp: run split: prod.splits option.splits)
  then have "spec1 (cbs_bytes c) = Some (view1 v, cbs_bytes c1)" "cbs_inv c1"
    using c r1 by (auto intro: cbs_reader.run_Some cbs_reader.keeps_inv)
  with v(2) show "Option.bind (spec1 (cbs_bytes c)) (\<lambda>(n, rest). spec2 n rest) = Some (view2 a, cbs_bytes c')"
    using cbs_reader.run_Some [OF r2] by simp
next
  fix c c' assume c: "cbs_inv c" "run c = (None, c')"
  show "Option.bind (spec1 (cbs_bytes c)) (\<lambda>(n, rest). spec2 n rest) = None"
  proof (cases "run1 c")
    case (Pair r c1)
    show ?thesis
    proof (cases r)
      case None
      with Pair c r1 show ?thesis by (simp add: cbs_reader.run_None)
    next
      case (Some v)
      with Pair c r1 have "spec1 (cbs_bytes c) = Some (view1 v, cbs_bytes c1)" "cbs_inv c1"
        by (auto intro: cbs_reader.run_Some cbs_reader.keeps_inv)
      moreover from Pair Some c have "run2 v c1 = (None, c')" by (simp add: run)
      ultimately show ?thesis using cbs_reader.run_None [OF r2] by simp
    qed
  qed
qed

lemma prefixed_reader:
  "k \<le> 3 \<Longrightarrow> cbs_reader (\<lambda>c. cbs_get_length_prefixed c k) cbs_bytes (spec_prefixed k)"
  unfolding spec_prefixed_def [abs_def]
  by (rule reader_bind [OF cbs_get_u_reader rd_bytes.cbs_reader_axioms])
    (simp_all add: cbs_get_length_prefixed_def)

interpretation rd_p8: cbs_reader CBS_get_u8_length_prefixed cbs_bytes "spec_prefixed 1"
  using prefixed_reader [of 1] by (simp add: CBS_get_u8_length_prefixed_def [abs_def])

interpretation rd_p16: cbs_reader CBS_get_u16_length_prefixed cbs_bytes "spec_prefixed 2"
  using prefixed_reader [of 2] by (simp add: CBS_get_u16_length_prefixed_def [abs_def])

interpretation rd_p24: cbs_reader CBS_get_u24_length_prefixed cbs_bytes "spec_prefixed 3"
  using prefixed_reader [of 3] by (simp add: CBS_get_u24_length_prefixed_def [abs_def])

section \<open>Closed forms\<close>

definition cbs_advance :: "CBS \<Rightarrow> nat \<Rightarrow> CBS" where
  "cbs_advance c n = c\<lparr>cbs_data := cbs_data c + n, cbs_len := cbs_len c - n\<rparr>"

lemma cbs_get_u_eq:
  "cbs_get_u c n = (if cbs_len c < n then (None, c)
     else (Some (of_nat (be_value (take n (cbs_bytes c)))), cbs_advance c n))"
  by (simp add: cbs_get_u_def cbs_get_def cbs_advance_def fold_shift_or_0 cbs_front_bytes)

lemma ucast_of_nat_small: "n < 2 ^ 64 \<Longrightarrow> (ucast (of_nat n :: u64) :: 'a::len word) = of_nat n"
  by (simp add: unsigned_of_nat take_bit_nat_eq_self)

lemma be_value_take_64: "n \<le> 8 \<Longrightarrow> be_value (take n bs) < 2 ^ 64"
proof -
  assume "n \<le> 8"
  then have "(256 :: nat) ^ length (take n bs) \<le> 256 ^ 8" by (intro power_increasing) auto
  with be_value_less [of "take n bs"] show ?thesis by simp
qed

lemma ucast_be_value:
  "n \<le> 8 \<Longrightarrow> (ucast (of_nat (be_value (take n bs)) :: u64) :: 'a::len word) = of_nat (be_value (take n bs))"
  by (rule ucast_of_nat_small) (rule be_value_take_64)

lemma bswap_of_nat:
  assumes "\<And>w. unat (f w) = be_value (rev (be_bytes n (unat (w :: 'a::len word))))" "8 * n = LENGTH('a)" "length bs = n"
  shows "f (of_nat (be_value bs)) = of_nat (be_value (rev bs))"
proof -
  have p: "(256 :: nat) ^ n = 2 ^ LENGTH('a)" using assms(2) by (simp add: power_mult flip: assms(2))
  have "unat (of_nat (be_value bs) :: 'a word) = be_value bs"
    using be_value_less [of bs] assms(3) p by (simp add: unat_of_nat)
  then have "unat (f (of_nat (be_value bs))) = be_value (rev bs)"
    using assms(1) [of "of_nat (be_value bs)"] assms(3) by auto
  then show ?thesis by (metis of_nat_unat ucast_id)
qed

lemma CBS_get_until_first_eq:
  assumes "cbs_inv c"
  shows "CBS_get_until_first c b =
    (if b \<in> set (cbs_bytes c) then
       (let k = length (takeWhile (\<lambda>x. x \<noteq> b) (cbs_bytes c)) in (Some (CBS_init_at c (cbs_data c) k), cbs_advance c k))
     else (None, c))"
proof -
  have mem: "memchr (drop p m) b n = memchr (slice m p n) b n" for p m n
  proof -
    have "memchr xs b n = memchr (take n xs) b n" for xs
      by (induction xs b n rule: memchr.induct) auto
    then show ?thesis by (simp only: slice_def)
  qed
  have first: "memchr xs b (length xs) = (if b \<in> set xs then Some (length (takeWhile (\<lambda>x. x \<noteq> b) xs)) else None)" for xs
    by (induction xs) auto
  have "memchr (CBS_data c) b (cbs_len c) =
      (if b \<in> set (cbs_bytes c) then Some (length (takeWhile (\<lambda>x. x \<noteq> b) (cbs_bytes c))) else None)"
    using first [of "cbs_bytes c"] mem [of "cbs_data c" "cbs_mem c" "cbs_len c"] assms
    by (simp add: CBS_data_def cbs_bytes_def [symmetric])
  moreover have "length (takeWhile (\<lambda>x. x \<noteq> b) (cbs_bytes c)) \<le> cbs_len c"
    using length_takeWhile_le [of "\<lambda>x. x \<noteq> b" "cbs_bytes c"] assms by simp
  ultimately show ?thesis
    by (simp add: CBS_get_until_first_def OPENSSL_memchr_eq CBS_len_def CBS_get_bytes_def cbs_get_def
        CBS_init_at_def cbs_advance_def Let_def)
qed

lemma length_prefixed_exact:
  assumes "cbs_inv c" "k \<le> 3"
  shows "spec_prefixed k (cbs_bytes c) = Some (data, rest) \<longleftrightarrow>
    length data < 256 ^ k \<and> cbs_bytes c = be_bytes k (length data) @ data @ rest"
proof
  assume "spec_prefixed k (cbs_bytes c) = Some (data, rest)"
  then have n: "k \<le> cbs_len c" "be_value (take k (cbs_bytes c)) = length data"
    "data @ rest = drop k (cbs_bytes c)"
    using assms(1) by (auto simp: spec_prefixed_def spec_uint_def spec_bytes_def Option.bind_eq_Some_conv simp del: drop_drop split: if_splits)
  have "length (take k (cbs_bytes c)) = k" using n(1) assms(1) by simp
  with n(2) have "take k (cbs_bytes c) = be_bytes k (length data)" "length data < 256 ^ k"
    using be_bytes_be_value [of "take k (cbs_bytes c)"] be_value_less [of "take k (cbs_bytes c)"] by simp_all
  with n(3) show "length data < 256 ^ k \<and> cbs_bytes c = be_bytes k (length data) @ data @ rest"
    by (metis append_take_drop_id)
next
  assume a: "length data < 256 ^ k \<and> cbs_bytes c = be_bytes k (length data) @ data @ rest"
  then show "spec_prefixed k (cbs_bytes c) = Some (data, rest)"
    by (simp add: spec_prefixed_def spec_uint_def spec_bytes_def be_value_be_bytes)
qed

section \<open>Properties\<close>

text \<open>The fixed-size integer readers return the big-endian value of the bytes at the front and
  advance past them, and on a short input return failure and leave the reader as it was.
\<close>

lemma CBS_get_uint_big_endian:
  assumes "cbs_inv c"
  shows "CBS_get_u16 c = (if cbs_len c < 2 then (None, c)
      else (Some (of_nat (be_value (take 2 (cbs_bytes c)))), cbs_advance c 2)) \<and>
    CBS_get_u24 c = (if cbs_len c < 3 then (None, c)
      else (Some (of_nat (be_value (take 3 (cbs_bytes c)))), cbs_advance c 3)) \<and>
    CBS_get_u32 c = (if cbs_len c < 4 then (None, c)
      else (Some (of_nat (be_value (take 4 (cbs_bytes c)))), cbs_advance c 4)) \<and>
    CBS_get_u64 c = (if cbs_len c < 8 then (None, c)
      else (Some (of_nat (be_value (take 8 (cbs_bytes c)))), cbs_advance c 8))"
  by (simp add: CBS_get_u16_def CBS_get_u24_def CBS_get_u32_def CBS_get_u64_def cbs_get_u_eq
      ucast_be_value)

text \<open>The little-endian readers return the value of the bytes in reverse order.\<close>

lemma CBS_get_uint_little_endian:
  assumes "cbs_inv c"
  shows "CBS_get_u16le c = (if cbs_len c < 2 then (None, c)
      else (Some (of_nat (be_value (rev (take 2 (cbs_bytes c))))), cbs_advance c 2)) \<and>
    CBS_get_u32le c = (if cbs_len c < 4 then (None, c)
      else (Some (of_nat (be_value (rev (take 4 (cbs_bytes c))))), cbs_advance c 4)) \<and>
    CBS_get_u64le c = (if cbs_len c < 8 then (None, c)
      else (Some (of_nat (be_value (rev (take 8 (cbs_bytes c))))), cbs_advance c 8))"
proof -
  have "n \<le> cbs_len c \<Longrightarrow> length (take n (cbs_bytes c)) = n" for n using assms by simp
  then show ?thesis
    by (simp add: CBS_get_u16le_def CBS_get_u32le_def CBS_get_u64le_def CBS_get_u16_def CBS_get_u32_def
        cbs_get_u_eq ucast_be_value bswap_of_nat [OF bswap2_value]
        bswap_of_nat [OF bswap4_value] bswap_of_nat [OF bswap8_value])
qed

lemma CBS_get_uint_little_endian_witness:
  "cbs_inv (CBS_init [1, 2, 3]) \<and>
   CBS_get_u16le (CBS_init [1, 2, 3]) = (Some 513, cbs_advance (CBS_init [1, 2, 3]) 2)"
  using CBS_get_uint_little_endian [of "CBS_init [1, 2, 3]"]
  by (simp add: cbs_inv_def CBS_init_def PTRDIFF_MAX_def cbs_bytes_def slice_def be_value_def)

text \<open>A length-prefixed read with a prefix of one to three bytes succeeds exactly when the
  input starts with a big-endian length and that many bytes; the sub-reader then covers
  exactly these bytes, inside the range of the reader, and the reader continues after them.
\<close>

lemma CBS_get_length_prefixed_exact:
  assumes "cbs_inv c" "k \<le> 3"
  shows "case cbs_get_length_prefixed c k of
      (Some out, c') \<Rightarrow> cbs_bytes c = be_bytes k (cbs_len out) @ cbs_bytes out @ cbs_bytes c' \<and>
        cbs_within out c \<and> cbs_advances c' c
    | (None, c') \<Rightarrow> \<not> (\<exists>data rest. length data < 256 ^ k \<and> cbs_bytes c = be_bytes k (length data) @ data @ rest)"
proof (cases "cbs_get_length_prefixed c k")
  case (Pair r c')
  have adv: "cbs_advances c' c" using prefixed_reader [OF assms(2)] assms(1) Pair by (rule cbs_reader.advancesD)
  show ?thesis
  proof (cases r)
    case None
    then have "spec_prefixed k (cbs_bytes c) = None"
      using cbs_reader.run_None [OF prefixed_reader [OF assms(2)] assms(1)] Pair by simp
    with None Pair length_prefixed_exact [OF assms] show ?thesis by fastforce
  next
    case (Some out)
    then have sp: "spec_prefixed k (cbs_bytes c) = Some (cbs_bytes out, cbs_bytes c')"
      using cbs_reader.run_Some [OF prefixed_reader [OF assms(2)] assms(1)] Pair by simp
    have "cbs_within out c"
      using Pair Some
      by (auto simp: cbs_get_length_prefixed_def CBS_get_bytes_def cbs_get_u_def cbs_get_simps CBS_init_at_def
          cbs_within_def split: prod.splits option.splits)
    moreover then have "length (cbs_bytes out) = cbs_len out"
      using assms(1) cbs_within_inv length_cbs_bytes by blast
    ultimately show ?thesis using sp Some Pair adv length_prefixed_exact [OF assms] by simp
  qed
qed

text \<open>\<open>CBS_get_until_first\<close> returns the bytes before the first occurrence of the separator and
  leaves the reader at the separator; it fails exactly when the separator does not occur.
\<close>

lemma CBS_get_until_first_correct:
  assumes "cbs_inv c"
  shows "case CBS_get_until_first c b of
      (Some out, c') \<Rightarrow> (\<exists>rest. cbs_bytes c = cbs_bytes out @ b # rest \<and> b \<notin> set (cbs_bytes out) \<and>
        cbs_bytes c' = b # rest)
    | (None, c') \<Rightarrow> b \<notin> set (cbs_bytes c) \<and> c' = c"
proof (cases "b \<in> set (cbs_bytes c)")
  case True
  let ?t = "takeWhile (\<lambda>x. x \<noteq> b) (cbs_bytes c)" and ?d = "dropWhile (\<lambda>x. x \<noteq> b) (cbs_bytes c)"
  have le: "length ?t \<le> cbs_len c" using length_takeWhile_le [of "\<lambda>x. x \<noteq> b" "cbs_bytes c"] assms by simp
  have out: "cbs_bytes (CBS_init_at c (cbs_data c) (length ?t)) = ?t"
    using cbs_front_bytes [OF le] takeWhile_eq_take [of "\<lambda>x. x \<noteq> b" "cbs_bytes c"]
    by (simp add: CBS_init_at_def cbs_bytes_def [of "c\<lparr>cbs_len := n\<rparr>" for n])
  have rest: "cbs_bytes (cbs_advance c (length ?t)) = ?d"
    by (simp only: cbs_advance_def cbs_move_bytes dropWhile_eq_drop [symmetric])
  obtain r where "?d = b # r"
    using True by (metis (mono_tags, lifting) dropWhile_eq_Nil_conv hd_Cons_tl hd_dropWhile)
  moreover have "cbs_bytes c = ?t @ ?d" by simp
  moreover have "b \<notin> set ?t" by (auto dest: set_takeWhileD)
  ultimately show ?thesis using True out rest by (simp add: CBS_get_until_first_eq [OF assms] Let_def)
qed (simp add: CBS_get_until_first_eq [OF assms])
end
