(* ===== verification/Cbs_Asn1.thy ===== *)
theory Cbs_Asn1
  imports Cbs Der
begin

text \<open>
  The ASN.1 readers of \<open>crypto/bytestring/cbs.c\<close>: identifier and length octets, whole
  elements in DER and BER, integers, booleans, optional elements and bit strings. The
  lemmas show that the DER reader accepts exactly the encodings of the theory \<open>Der\<close>.
\<close>

definition CBS_ASN1_TAG_SHIFT :: nat where "CBS_ASN1_TAG_SHIFT = 24"
definition CBS_ASN1_CONSTRUCTED :: u32 where "CBS_ASN1_CONSTRUCTED = 0x20000000"
definition CBS_ASN1_TAG_NUMBER_MASK :: u32 where "CBS_ASN1_TAG_NUMBER_MASK = 0x1fffffff"
definition CBS_ASN1_BOOLEAN :: u32 where "CBS_ASN1_BOOLEAN = 0x1"
definition CBS_ASN1_INTEGER :: u32 where "CBS_ASN1_INTEGER = 0x2"
definition CBS_ASN1_OCTETSTRING :: u32 where "CBS_ASN1_OCTETSTRING = 0x4"

section \<open>Identifier octets\<close>

lemma CBS_get_u8_Some:
  assumes "cbs_inv c" "CBS_get_u8 c = (Some b, c')"
  shows "cbs_bytes c = b # cbs_bytes c'" "cbs_inv c'" "cbs_advances c' c" "cbs_len c = Suc (cbs_len c')"
proof -
  from assms(2) have n: "1 \<le> cbs_len c"
    by (auto simp: CBS_get_u8_def cbs_get_simps split: prod.splits option.splits)
  show "cbs_inv c'" "cbs_advances c' c"
    using assms rd_u8.keeps_inv rd_u8.advancesD by blast+
  show "cbs_len c = Suc (cbs_len c')"
    using assms n by (auto simp: CBS_get_u8_def cbs_get_simps split: prod.splits option.splits)
  have b: "b = cbs_mem c ! cbs_data c" "c' = c\<lparr>cbs_data := cbs_data c + 1, cbs_len := cbs_len c - 1\<rparr>"
    using assms n by (auto simp: CBS_get_u8_def cbs_get_simps split: prod.splits option.splits)
  obtain k where "cbs_len c = Suc k" using n by (cases "cbs_len c") auto
  with b assms(1) show "cbs_bytes c = b # cbs_bytes c'"
    by (simp add: cbs_bytes_def cbs_inv_def slice_Suc)
qed

lemma CBS_get_u8_None: "cbs_inv c \<Longrightarrow> CBS_get_u8 c = (None, c') \<longleftrightarrow> cbs_bytes c = [] \<and> c' = c"
  by (auto simp: CBS_get_u8_def cbs_get_simps simp flip: length_0_conv split: prod.splits option.splits)

function parse_base128_loop :: "CBS \<Rightarrow> u64 \<Rightarrow> u64 cbs_result" where
  "parse_base128_loop cbs v =
     (case CBS_get_u8 cbs of
        (None, c) \<Rightarrow> (None, c)
      | (Some b, c) \<Rightarrow>
          if drop_bit (64 - 7) v \<noteq> 0 then (None, c)
          else if v = 0 \<and> b = 0x80 then (None, c)
          else let v' = push_bit 7 v OR ucast (b AND 0x7f)
               in if b AND 0x80 \<noteq> 0 then parse_base128_loop c v' else (Some v', c))"
  by pat_completeness auto
termination
  by (relation "measure (\<lambda>(c, v). cbs_len c)")
    (auto simp: CBS_get_u8_def cbs_get_simps split: prod.splits option.splits)

declare parse_base128_loop.simps [simp del]

definition parse_base128_integer :: "CBS \<Rightarrow> u64 cbs_result" where
  "parse_base128_integer cbs = parse_base128_loop cbs 0"

definition parse_asn1_tag :: "CBS \<Rightarrow> u32 cbs_result" where
  "parse_asn1_tag cbs =
     (case CBS_get_u8 cbs of
        (None, c) \<Rightarrow> (None, c)
      | (Some tag_byte, c) \<Rightarrow>
          (let tag = push_bit CBS_ASN1_TAG_SHIFT ((ucast tag_byte :: u32) AND 0xe0);
               tag_number = ucast (tag_byte AND 0x1f) :: u32
           in if tag_number = 0x1f then
                (case parse_base128_integer c of
                   (None, c') \<Rightarrow> (None, c')
                 | (Some v, c') \<Rightarrow>
                     if v > ucast CBS_ASN1_TAG_NUMBER_MASK \<or> v < 0x1f then (None, c')
                     else (Some (tag OR ucast v), c'))
              else (Some (tag OR tag_number), c)))"

section \<open>Elements\<close>

text \<open>The result holds the element, its tag, the header length and \<open>*out_ber_found\<close>.\<close>

definition cbs_get_any_asn1_element :: "CBS \<Rightarrow> bool \<Rightarrow> (CBS \<times> u32 \<times> nat \<times> bool) cbs_result" where
  "cbs_get_any_asn1_element cbs ber_ok =
     (case parse_asn1_tag cbs of
        (None, _) \<Rightarrow> (None, cbs)
      | (Some tag, header') \<Rightarrow>
     (case CBS_get_u8 header' of
        (None, _) \<Rightarrow> (None, cbs)
      | (Some length_byte, header) \<Rightarrow>
     (let header_len = CBS_len cbs - CBS_len header;
          finish = (\<lambda>n hl ber_found.
            (case CBS_get_bytes cbs n of
               (None, c) \<Rightarrow> (None, c)
             | (Some out, c) \<Rightarrow> (Some (out, tag, hl, ber_found), c)))
      in if length_byte AND 0x80 = 0 then
           finish (size_add (unat length_byte) header_len) header_len False
         else
           (let num_bytes = unat (length_byte AND 0x7f) in
            if ber_ok \<and> tag AND CBS_ASN1_CONSTRUCTED \<noteq> 0 \<and> num_bytes = 0 then
              finish header_len header_len True
            else if num_bytes = 0 \<or> num_bytes > 4 then (None, cbs)
            else
              (case cbs_get_u header num_bytes of
                 (None, _) \<Rightarrow> (None, cbs)
               | (Some len64, _) \<Rightarrow>
                   (let long = len64 < 128;
                        padded = drop_bit ((num_bytes - 1) * 8) len64 = 0;
                        n = unat len64
                    in if \<not> ber_ok \<and> (long \<or> padded) then (None, cbs)
                       else if size_add (size_add n header_len) num_bytes < n then (None, cbs)
                       else finish (size_add n (size_add header_len num_bytes)) (size_add header_len num_bytes)
                              (long \<or> padded)))))))"

definition CBS_get_any_asn1_element :: "CBS \<Rightarrow> (CBS \<times> u32 \<times> nat) cbs_result" where
  "CBS_get_any_asn1_element cbs =
     (case cbs_get_any_asn1_element cbs False of
        (None, c) \<Rightarrow> (None, c)
      | (Some (out, tag, header_len, _), c) \<Rightarrow> (Some (out, tag, header_len), c))"

definition CBS_get_any_ber_asn1_element :: "CBS \<Rightarrow> (CBS \<times> u32 \<times> nat \<times> bool) cbs_result" where
  "CBS_get_any_ber_asn1_element cbs = cbs_get_any_asn1_element cbs True"

definition CBS_get_any_asn1 :: "CBS \<Rightarrow> (CBS \<times> u32) cbs_result" where
  "CBS_get_any_asn1 cbs =
     (case CBS_get_any_asn1_element cbs of
        (None, c) \<Rightarrow> (None, c)
      | (Some (out, tag, header_len), c) \<Rightarrow>
          (case CBS_skip out header_len of
             (None, _) \<Rightarrow> (None, c)
           | (Some _, out') \<Rightarrow> (Some (out', tag), c)))"

definition cbs_get_asn1 :: "CBS \<Rightarrow> u32 \<Rightarrow> bool \<Rightarrow> CBS cbs_result" where
  "cbs_get_asn1 cbs tag_value skip_header =
     (case CBS_get_any_asn1_element cbs of
        (None, c) \<Rightarrow> (None, c)
      | (Some (out, tag, header_len), c) \<Rightarrow>
          if tag \<noteq> tag_value then (None, c)
          else if skip_header then
            (case CBS_skip out header_len of
               (None, _) \<Rightarrow> (None, c)
             | (Some _, out') \<Rightarrow> (Some out', c))
          else (Some out, c))"

definition CBS_get_asn1 :: "CBS \<Rightarrow> u32 \<Rightarrow> CBS cbs_result" where
  "CBS_get_asn1 cbs tag_value = cbs_get_asn1 cbs tag_value True"

definition CBS_get_asn1_element :: "CBS \<Rightarrow> u32 \<Rightarrow> CBS cbs_result" where
  "CBS_get_asn1_element cbs tag_value = cbs_get_asn1 cbs tag_value False"

definition CBS_peek_asn1_tag :: "CBS \<Rightarrow> u32 \<Rightarrow> bool" where
  "CBS_peek_asn1_tag cbs tag_value \<longleftrightarrow>
     (if CBS_len cbs < 1 then False else fst (parse_asn1_tag cbs) = Some tag_value)"

section \<open>Integers and booleans\<close>

text \<open>\<open>Some is_negative\<close> when the contents are a minimal two's-complement integer.\<close>

definition CBS_is_valid_asn1_integer :: "CBS \<Rightarrow> bool option" where
  "CBS_is_valid_asn1_integer cbs =
     (case CBS_get_u8 cbs of
        (None, _) \<Rightarrow> None
      | (Some first_byte, copy) \<Rightarrow>
          (let is_negative = (first_byte AND 0x80 \<noteq> 0) in
           case CBS_get_u8 copy of
             (None, _) \<Rightarrow> Some is_negative
           | (Some second_byte, _) \<Rightarrow>
               if first_byte = 0x00 \<and> second_byte AND 0x80 = 0 \<or>
                  first_byte = 0xff \<and> second_byte AND 0x80 \<noteq> 0 then None
               else Some is_negative))"

definition CBS_is_unsigned_asn1_integer :: "CBS \<Rightarrow> bool" where
  "CBS_is_unsigned_asn1_integer cbs \<longleftrightarrow> CBS_is_valid_asn1_integer cbs = Some False"

fun uint64_loop :: "byte list \<Rightarrow> u64 \<Rightarrow> u64 option" where
  "uint64_loop [] out = Some out"
| "uint64_loop (b # bs) out =
     (if drop_bit 56 out \<noteq> 0 then None else uint64_loop bs (shift_or out b))"

definition CBS_get_asn1_uint64 :: "CBS \<Rightarrow> u64 cbs_result" where
  "CBS_get_asn1_uint64 cbs =
     (case CBS_get_asn1 cbs CBS_ASN1_INTEGER of
        (None, c) \<Rightarrow> (None, c)
      | (Some bytes, c) \<Rightarrow>
          if \<not> CBS_is_unsigned_asn1_integer bytes then (None, c)
          else (uint64_loop (cbs_bytes bytes) 0, c))"

text \<open>The union of an \<open>int64_t\<close> and its bytes is little-endian.\<close>

definition CBS_get_asn1_int64 :: "CBS \<Rightarrow> 64 word cbs_result" where
  "CBS_get_asn1_int64 cbs =
     (case CBS_get_asn1 cbs CBS_ASN1_INTEGER of
        (None, c) \<Rightarrow> (None, c)
      | (Some bytes, c) \<Rightarrow>
          (case CBS_is_valid_asn1_integer bytes of
             None \<Rightarrow> (None, c)
           | Some is_negative \<Rightarrow>
               (let n = CBS_len bytes in
                if n > 8 then (None, c)
                else
                  (let u0 = replicate 8 (if is_negative then 0xff else 0 :: byte);
                       u = fold (\<lambda>i u. u[i := cbs_bytes bytes ! (n - i - 1)]) [0..<n] u0
                   in (Some (foldr (\<lambda>b r. shift_or r b) u 0), c)))))"

definition CBS_get_asn1_bool :: "CBS \<Rightarrow> bool cbs_result" where
  "CBS_get_asn1_bool cbs =
     (case CBS_get_asn1 cbs CBS_ASN1_BOOLEAN of
        (None, c) \<Rightarrow> (None, c)
      | (Some bytes, c) \<Rightarrow>
          if CBS_len bytes \<noteq> 1 then (None, c)
          else (let v = hd (cbs_bytes bytes) in
                if v \<noteq> 0 \<and> v \<noteq> 0xff then (None, c) else (Some (v \<noteq> 0), c)))"

section \<open>Optional elements\<close>

text \<open>\<open>Some None\<close> when the element is absent.\<close>

definition CBS_get_optional_asn1 :: "CBS \<Rightarrow> u32 \<Rightarrow> CBS option cbs_result" where
  "CBS_get_optional_asn1 cbs tag =
     (if CBS_peek_asn1_tag cbs tag then
        (case CBS_get_asn1 cbs tag of (None, c) \<Rightarrow> (None, c) | (Some out, c) \<Rightarrow> (Some (Some out), c))
      else (Some None, cbs))"

definition CBS_get_optional_asn1_octet_string :: "CBS \<Rightarrow> u32 \<Rightarrow> (CBS \<times> bool) cbs_result" where
  "CBS_get_optional_asn1_octet_string cbs tag =
     (case CBS_get_optional_asn1 cbs tag of
        (None, c) \<Rightarrow> (None, c)
      | (Some (Some child), c) \<Rightarrow>
          (case CBS_get_asn1 child CBS_ASN1_OCTETSTRING of
             (None, _) \<Rightarrow> (None, c)
           | (Some out, child') \<Rightarrow>
               if CBS_len child' \<noteq> 0 then (None, c) else (Some (out, True), c))
      | (Some None, c) \<Rightarrow> (Some (CBS_init [], False), c))"

definition CBS_get_optional_asn1_uint64 :: "CBS \<Rightarrow> u32 \<Rightarrow> u64 \<Rightarrow> u64 cbs_result" where
  "CBS_get_optional_asn1_uint64 cbs tag default_value =
     (case CBS_get_optional_asn1 cbs tag of
        (None, c) \<Rightarrow> (None, c)
      | (Some (Some child), c) \<Rightarrow>
          (case CBS_get_asn1_uint64 child of
             (None, _) \<Rightarrow> (None, c)
           | (Some out, child') \<Rightarrow> if CBS_len child' \<noteq> 0 then (None, c) else (Some out, c))
      | (Some None, c) \<Rightarrow> (Some default_value, c))"

definition CBS_get_optional_asn1_bool :: "CBS \<Rightarrow> u32 \<Rightarrow> int \<Rightarrow> int cbs_result" where
  "CBS_get_optional_asn1_bool cbs tag default_value =
     (case CBS_get_optional_asn1 cbs tag of
        (None, c) \<Rightarrow> (None, c)
      | (Some (Some child), c) \<Rightarrow>
          (case CBS_get_asn1 child CBS_ASN1_BOOLEAN of
             (None, _) \<Rightarrow> (None, c)
           | (Some child2, child') \<Rightarrow>
               if CBS_len child2 \<noteq> 1 \<or> CBS_len child' \<noteq> 0 then (None, c)
               else (let boolean = hd (cbs_bytes child2) in
                     if boolean = 0 then (Some 0, c)
                     else if boolean = 0xff then (Some 1, c)
                     else (None, c)))
      | (Some None, c) \<Rightarrow> (Some default_value, c))"

section \<open>Bit strings\<close>

definition CBS_is_valid_asn1_bitstring :: "CBS \<Rightarrow> bool" where
  "CBS_is_valid_asn1_bitstring cbs \<longleftrightarrow>
     (case CBS_get_u8 cbs of
        (None, _) \<Rightarrow> False
      | (Some num_unused_bits, in') \<Rightarrow>
          if num_unused_bits > 7 then False
          else if num_unused_bits = 0 then True
          else (case CBS_get_last_u8 in' of
                  (None, _) \<Rightarrow> False
                | (Some last', _) \<Rightarrow>
                    (ucast last' :: u32) AND (push_bit (unat num_unused_bits) 1 - 1) = 0))"

definition CBS_asn1_bitstring_has_bit :: "CBS \<Rightarrow> u32 \<Rightarrow> bool" where
  "CBS_asn1_bitstring_has_bit cbs bit' \<longleftrightarrow>
     (if \<not> CBS_is_valid_asn1_bitstring cbs then False
      else (let byte_num = drop_bit 3 bit' + 1; bit_num = 7 - (bit' AND 7)
            in unat byte_num < CBS_len cbs \<and>
               (ucast (CBS_data cbs ! unat byte_num) :: u32) AND push_bit (unat bit_num) 1 \<noteq> 0))"

section \<open>Identifier octets are read exactly\<close>

lemma parse_base128_loop_spec:
  assumes "cbs_inv c" "parse_base128_loop c v = (r, c')"
  shows "cbs_advances c' c \<and>
    spec_base128 (unat v) (cbs_bytes c) = map_option (\<lambda>w. (unat w, cbs_bytes c')) r"
  using assms
proof (induction c v rule: parse_base128_loop.induct)
  case (1 c v)
  obtain ob c1 where g: "CBS_get_u8 c = (ob, c1)" by fastforce
  show ?case
  proof (cases ob)
    case None
    with g 1 CBS_get_u8_None [of c c1] show ?thesis
      by (simp add: parse_base128_loop.simps [of c v])
  next
    case (Some b)
    note rd = CBS_get_u8_Some [OF "1.prems"(1) g [unfolded Some]]
    let ?v' = "push_bit 7 v OR ucast (b AND 0x7f)"
    have loop: "parse_base128_loop c v =
        (if 2 ^ 57 \<le> unat v \<or> v = 0 \<and> b = 0x80 then (None, c1)
         else if 128 \<le> unat b then parse_base128_loop c1 ?v' else (Some ?v', c1))"
      using drop_top_7_iff [of v]
      by (simp add: parse_base128_loop.simps [of c v] g Some Let_def byte_high_bit_iff)
    have z: "v = 0 \<longleftrightarrow> unat v = 0" by (simp add: unat_eq_zero)
    show ?thesis
    proof (cases "2 ^ 57 \<le> unat v \<or> v = 0 \<and> b = 0x80")
      case True
      with loop "1.prems"(2) rd z show ?thesis by auto
    next
      case False
      then have v': "unat ?v' = unat v * 128 + unat b mod 128" by (intro shift_or_7) simp
      show ?thesis
      proof (cases "128 \<le> unat b")
        case True
        have "cbs_advances c' c1 \<and> spec_base128 (unat ?v') (cbs_bytes c1) =
            map_option (\<lambda>w. (unat w, cbs_bytes c')) r"
          using False True loop "1.prems"(2) rd g Some drop_top_7_iff [of v] byte_high_bit_iff [of b]
          by (intro "1.IH" [OF g [symmetric] Some _ _ refl]) auto
        moreover have "spec_base128 (unat v) (cbs_bytes c) = spec_base128 (unat ?v') (cbs_bytes c1)"
          using False True z by (simp only: rd(1) v') (rule spec_base128_more, auto)
        ultimately show ?thesis
          using rd(3) cbs_advances_trans by metis
      next
        case b: False
        then have "spec_base128 (unat v) (cbs_bytes c) = Some (unat ?v', cbs_bytes c1)"
          using False by (simp only: rd(1) v') (subst spec_base128_last, auto)
        with b False loop "1.prems"(2) rd show ?thesis by auto
      qed
    qed
  qed
qed

interpretation rd_base128: cbs_reader parse_base128_integer unat "spec_base128 0"
  by (rule cbs_readerI) (use parse_base128_loop_spec [of _ 0] in \<open>simp add: parse_base128_integer_def\<close>)

lemma tag_byte_eq: "push_bit CBS_ASN1_TAG_SHIFT ((ucast b :: u32) AND 0xe0) = mk_tag b 0"
proof -
  have "(ucast (b AND 0xe0) :: u32) = ucast b AND ucast (0xe0 :: byte)"
    by (rule unsigned_and_eq)
  then show ?thesis by (simp add: mk_tag_def CBS_ASN1_TAG_SHIFT_def)
qed

lemma tag_number_eq: "(ucast (b AND 0x1f :: byte) :: u32) = 0x1f \<longleftrightarrow> b AND 0x1f = 0x1f"
  by (simp add: word_unat_eq_iff unat_ucast_byte)

lemma parse_asn1_tag_byte:
  assumes "CBS_get_u8 c = (Some b, c1)"
  shows "parse_asn1_tag c =
    (if b AND 0x1f = 0x1f then
       (case parse_base128_integer c1 of
          (None, c') \<Rightarrow> (None, c')
        | (Some v, c') \<Rightarrow>
            if 0x1fffffff < unat v \<or> unat v < 0x1f then (None, c') else (Some (mk_tag b (unat v)), c'))
     else (Some (mk_tag b (unat (b AND 0x1f))), c1))"
proof -
  have "mk_tag b 0 OR ucast v = mk_tag b (unat v)" for v :: u64
    by (simp add: mk_tag_def)
  moreover have "mk_tag b 0 OR ucast v = mk_tag b (unat v)" for v :: byte
    by (simp add: mk_tag_def)
  moreover have "v > ucast CBS_ASN1_TAG_NUMBER_MASK \<longleftrightarrow> 0x1fffffff < unat v"
      "v < 0x1f \<longleftrightarrow> unat v < 0x1f" for v :: u64
    by (simp_all add: CBS_ASN1_TAG_NUMBER_MASK_def word_less_nat_alt)
  ultimately show ?thesis
    by (simp only: parse_asn1_tag_def assms Let_def prod.case option.case tag_byte_eq tag_number_eq)
qed

interpretation rd_tag: cbs_reader parse_asn1_tag id spec_der_tag
proof (rule cbs_readerI)
  fix c r c' assume c: "cbs_inv c" and run: "parse_asn1_tag c = (r, c')"
  obtain ob c1 where g: "CBS_get_u8 c = (ob, c1)" by fastforce
  show "cbs_advances c' c \<and> spec_der_tag (cbs_bytes c) = map_option (\<lambda>a. (id a, cbs_bytes c')) r"
  proof (cases ob)
    case None
    with g c run CBS_get_u8_None [of c c1] show ?thesis by (auto simp: parse_asn1_tag_def)
  next
    case (Some b)
    note rd = CBS_get_u8_Some [OF c g [unfolded Some]]
    show ?thesis
    proof (cases "b AND 0x1f = 0x1f")
      case False
      with run rd parse_asn1_tag_byte [OF g [unfolded Some]] show ?thesis by auto
    next
      case True
      obtain ov c2 where g2: "parse_base128_integer c1 = (ov, c2)" by fastforce
      then have adv: "cbs_advances c2 c"
        using rd rd_base128.advancesD cbs_advances_trans by blast
      show ?thesis
      proof (cases ov)
        case None
        with g2 rd have "spec_base128 0 (cbs_bytes c1) = None" by (simp add: rd_base128.run_None)
        with None True run g2 rd(1) adv parse_asn1_tag_byte [OF g [unfolded Some]] show ?thesis by auto
      next
        case v: (Some v)
        with g2 rd have sp: "spec_base128 0 (cbs_bytes c1) = Some (unat v, cbs_bytes c2)"
          by (simp add: rd_base128.run_Some)
        with v True run g2 rd(1) adv parse_asn1_tag_byte [OF g [unfolded Some]] show ?thesis
          by (auto split: if_splits)
      qed
    qed
  qed
qed

lemma parse_asn1_tag_Some_iff:
  "cbs_inv c \<Longrightarrow> fst (parse_asn1_tag c) = Some t \<longleftrightarrow> (\<exists>rest. cbs_bytes c = der_tag t @ rest)"
proof
  assume c: "cbs_inv c" "fst (parse_asn1_tag c) = Some t"
  then obtain c' where "parse_asn1_tag c = (Some t, c')" by (metis prod.collapse)
  with c show "\<exists>rest. cbs_bytes c = der_tag t @ rest"
    using rd_tag.run_Some spec_der_tag_iff by fastforce
next
  assume c: "cbs_inv c" and "\<exists>rest. cbs_bytes c = der_tag t @ rest"
  then obtain rest where "spec_der_tag (cbs_bytes c) = Some (t, rest)"
    using spec_der_tag_iff by blast
  with c show "fst (parse_asn1_tag c) = Some t"
    by (auto elim: rd_tag.reads)
qed

section \<open>DER elements are read exactly\<close>

definition spec_header :: "byte list \<Rightarrow> (u32 \<times> nat \<times> byte list) option" where
  "spec_header bs = Option.bind (spec_der_tag bs)
     (\<lambda>(t, r1). map_option (\<lambda>(n, r2). (t, n, r2)) (spec_der_length r1))"

lemma spec_header_iff:
  "spec_header bs = Some (t, n, rest) \<longleftrightarrow> bs = der_tag t @ der_length n @ rest \<and> n < 2 ^ 32"
  by (auto simp: spec_header_def Option.bind_eq_Some_conv spec_der_tag_iff spec_der_length_iff)

lemma drop_octets_0_iff:
  assumes "0 < k" "k \<le> 4"
  shows "drop_bit ((k - 1) * 8) (w :: u64) = 0 \<longleftrightarrow> unat w div 256 ^ (k - 1) = 0"
proof -
  have "unat (drop_bit ((k - 1) * 8) w) = unat w div 2 ^ ((k - 1) * 8)"
    by (simp only: unat_drop_bit_eq drop_bit_eq_div [where 'a = nat])
  also have "(2 :: nat) ^ ((k - 1) * 8) = 256 ^ (k - 1)"
    by (subst mult.commute, subst power_mult) simp
  finally show ?thesis by (simp add: unat_eq_zero [symmetric])
qed

text \<open>The part of the element reader after the identifier and the first length octet.\<close>

lemma der_element_eq:
  assumes c: "cbs_inv c"
  shows "cbs_get_any_asn1_element c False =
    (case spec_header (cbs_bytes c) of
       None \<Rightarrow> (None, c)
     | Some (t, n, r2) \<Rightarrow>
         (let hl = cbs_len c - length r2 in
          case CBS_get_bytes c (n + hl) of
            (None, c') \<Rightarrow> (None, c')
          | (Some out, c') \<Rightarrow> (Some (out, t, hl, False), c')))"
proof -
  obtain ot h1 where g1: "parse_asn1_tag c = (ot, h1)" by fastforce
  show ?thesis
  proof (cases ot)
    case None
    with c g1 rd_tag.run_None show ?thesis
      by (simp add: cbs_get_any_asn1_element_def spec_header_def)
  next
    case (Some t)
    then have t: "spec_der_tag (cbs_bytes c) = Some (t, cbs_bytes h1)"
      and h1: "cbs_inv h1" "cbs_advances h1 c"
      using c g1 rd_tag.run_Some rd_tag.keeps_inv rd_tag.advancesD by fastforce+
    obtain ol h where g2: "CBS_get_u8 h1 = (ol, h)" by fastforce
    show ?thesis
    proof (cases ol)
      case None
      with g2 h1 CBS_get_u8_None have "cbs_bytes h1 = []" by blast
      with None g1 g2 Some t show ?thesis
        by (simp add: cbs_get_any_asn1_element_def spec_header_def)
    next
      case lb: (Some lb)
      note rd = CBS_get_u8_Some [OF h1(1) g2 [unfolded lb]]
      have hl: "cbs_len c - cbs_len h \<le> PTRDIFF_MAX" using cbs_inv_len [OF c] by linarith
      show ?thesis
      proof (cases "unat lb < 128")
        case True
        then have "lb AND 0x80 = 0" using byte_high_bit_iff [of lb] by auto
        moreover have "size_add (unat lb) (cbs_len c - cbs_len h) = unat lb + (cbs_len c - cbs_len h)"
          using True hl by (intro size_add_no_wrap) (simp add: PTRDIFF_MAX_def SIZE_MOD_def)
        ultimately show ?thesis
          using True t rd g1 g2 Some lb
          by (simp add: cbs_get_any_asn1_element_def spec_header_def CBS_len_def Let_def
              split: prod.split option.split)
      next
        case False
        define k where "k = unat lb - 128"
        have "unat lb mod 128 = k"
        proof -
          have "k < 128" using unat_byte_less [of lb] unfolding k_def by linarith
          with False show ?thesis by (simp add: k_def le_mod_geq)
        qed
        then have k: "unat (lb AND 0x7f) = k" by (simp add: byte_and_7f)
        have hb: "lb AND 0x80 \<noteq> 0" using False by (simp add: byte_high_bit_iff)
        have elem: "cbs_get_any_asn1_element c False =
            (if k = 0 \<or> 4 < k then (None, c)
             else case cbs_get_u h k of
               (None, _) \<Rightarrow> (None, c)
             | (Some len64, _) \<Rightarrow>
                 (let n = unat len64; hl = cbs_len c - cbs_len h in
                  if n < 128 \<or> n div 256 ^ (k - 1) = 0 \<or> size_add (size_add n hl) k < n then (None, c)
                  else case CBS_get_bytes c (size_add n (size_add hl k)) of
                    (None, c') \<Rightarrow> (None, c')
                  | (Some out, c') \<Rightarrow> (Some (out, t, size_add hl k, False), c')))"
          using g1 g2 Some lb hb drop_octets_0_iff [of k]
          by (simp add: cbs_get_any_asn1_element_def CBS_len_def Let_def k word_less_nat_alt
              split: prod.split option.split)
        have spec: "spec_header (cbs_bytes c) =
            (if k = 0 \<or> 4 < k \<or> cbs_len h < k then None
             else let n = be_value (take k (cbs_bytes h)) in
               if n < 128 \<or> n div 256 ^ (k - 1) = 0 then None else Some (t, n, drop k (cbs_bytes h)))"
          using False t rd by (simp add: spec_header_def k_def Let_def)
        have len_h: "cbs_len h \<le> cbs_len c"
          using rd(3) h1(2) by (simp add: cbs_advances_def)
        show ?thesis
        proof (cases "k = 0 \<or> 4 < k \<or> cbs_len h < k")
          case True
          then show ?thesis
            unfolding elem spec by (auto simp: cbs_get_u_def cbs_get_def)
        next
          case k4: False
          let ?n = "be_value (take k (cbs_bytes h))" and ?hl = "cbs_len c - cbs_len h"
          from k4 have u: "spec_uint k (cbs_bytes h) = Some (?n, drop k (cbs_bytes h))"
            using rd(2) by (simp add: spec_uint_def spec_bytes_def)
          have rdu: "cbs_reader (\<lambda>c. cbs_get_u c k) unat (spec_uint k)"
            using k4 by (intro cbs_get_u_reader) simp
          obtain w h' where w: "cbs_get_u h k = (Some w, h')" "unat w = ?n"
            using cbs_reader.reads [OF rdu rd(2) u] by metis
          have "?n < 2 ^ 32"
          proof -
            have "?n < 256 ^ k" using spec_uint_less [OF u] .
            also have "\<dots> \<le> 256 ^ 4" using k4 by (intro power_increasing) auto
            finally show ?thesis by simp
          qed
          with hl k4 have sums: "size_add (size_add ?n ?hl) k = ?n + ?hl + k"
              "size_add ?n (size_add ?hl k) = ?n + (?hl + k)" "size_add ?hl k = ?hl + k"
            by (simp_all add: size_add_def PTRDIFF_MAX_def SIZE_MOD_def)
          have "?hl + k = cbs_len c - length (drop k (cbs_bytes h))"
            using k4 len_h rd(2) by simp
          with w k4 sums show ?thesis
            unfolding elem spec by (simp add: Let_def split: prod.split option.split)
        qed
      qed
    qed
  qed
qed

text \<open>
  What the DER reader specifies: an element is its identifier octets, its length octets and
  its contents; the reader returns the whole element, its tag and the length of its header.
\<close>

definition spec_element :: "byte list \<Rightarrow> ((byte list \<times> u32 \<times> nat) \<times> byte list) option" where
  "spec_element bs =
     (case spec_header bs of
        None \<Rightarrow> None
      | Some (t, n, r2) \<Rightarrow>
          (let hl = length bs - length r2 in
           if length bs < n + hl then None else Some ((take (n + hl) bs, t, hl), drop (n + hl) bs)))"

definition element_view :: "CBS \<times> u32 \<times> nat \<Rightarrow> byte list \<times> u32 \<times> nat" where
  "element_view = (\<lambda>(out, t, hl). (cbs_bytes out, t, hl))"

interpretation rd_element: cbs_reader CBS_get_any_asn1_element element_view spec_element
proof (rule cbs_readerI)
  fix c r c' assume c: "cbs_inv c" and run: "CBS_get_any_asn1_element c = (r, c')"
  show "cbs_advances c' c \<and>
      spec_element (cbs_bytes c) = map_option (\<lambda>a. (element_view a, cbs_bytes c')) r"
  proof (cases "spec_header (cbs_bytes c)")
    case None
    with c run show ?thesis
      by (auto simp: CBS_get_any_asn1_element_def der_element_eq spec_element_def)
  next
    case (Some thr)
    obtain t n r2 where thr: "thr = (t, n, r2)" by (cases thr)
    obtain ro c1 where g: "CBS_get_bytes c (n + (cbs_len c - length r2)) = (ro, c1)" by fastforce
    have adv: "cbs_advances c1 c" using g c rd_bytes.advancesD by blast
    show ?thesis
    proof (cases ro)
      case None
      with g c have "spec_bytes (n + (cbs_len c - length r2)) (cbs_bytes c) = None"
        by (simp add: rd_bytes.run_None)
      with None Some thr c run g adv show ?thesis
        by (auto simp: CBS_get_any_asn1_element_def der_element_eq spec_element_def Let_def
            spec_bytes_def split: if_splits)
    next
      case o: (Some out)
      with g c have "spec_bytes (n + (cbs_len c - length r2)) (cbs_bytes c) = Some (cbs_bytes out, cbs_bytes c1)"
        by (simp add: rd_bytes.run_Some)
      with o Some thr c run g adv show ?thesis
        by (auto simp: CBS_get_any_asn1_element_def der_element_eq spec_element_def Let_def
            spec_bytes_def element_view_def split: if_splits)
    qed
  qed
qed

definition der_element :: "u32 \<Rightarrow> byte list \<Rightarrow> byte list" where
  "der_element t body = der_tag t @ der_length (length body) @ body"

lemma spec_element_iff:
  "spec_element bs = Some ((el, t, hl), rest) \<longleftrightarrow>
     (\<exists>body. bs = der_element t body @ rest \<and> length body < 2 ^ 32 \<and>
        el = der_element t body \<and> hl = length (der_tag t @ der_length (length body)))"
  (is "?L \<longleftrightarrow> ?R")
proof
  assume ?L
  then obtain n r2 where h: "spec_header bs = Some (t, n, r2)" and hl: "hl = length bs - length r2"
    and fits: "n + hl \<le> length bs" and el: "el = take (n + hl) bs" and rest: "rest = drop (n + hl) bs"
    by (auto simp: spec_element_def Let_def split: option.splits if_splits)
  from h have bs: "bs = (der_tag t @ der_length n) @ r2" and n: "n < 2 ^ 32"
    by (simp_all add: spec_header_iff)
  have hl': "hl = length (der_tag t @ der_length n)" using bs hl by simp
  with fits bs have "n \<le> length r2" by simp
  then have "length (take n r2) = n" by simp
  moreover have "bs = der_tag t @ der_length n @ take n r2 @ rest"
    using bs rest hl' by (simp add: add.commute)
  moreover have "el = der_tag t @ der_length n @ take n r2"
    using bs el hl' by simp
  ultimately show ?R
    using n hl' by (intro exI [of _ "take n r2"]) (simp add: der_element_def)
next
  assume ?R
  then obtain body where bs: "bs = der_element t body @ rest" "length body < 2 ^ 32"
    and el: "el = der_element t body" and hl: "hl = length (der_tag t @ der_length (length body))"
    by blast
  then have "spec_header bs = Some (t, length body, body @ rest)"
    by (simp add: spec_header_iff der_element_def)
  with bs el hl show ?L
    by (simp add: spec_element_def Let_def der_element_def)
qed

end
