(* ===== verification/Cbb_Asn1.thy ===== *)
theory Cbb_Asn1
  imports Cbb_Correct Cbs_Asn1
begin

text \<open>
  The ASN.1 side of the builder: base-128 integers, opening children, the typed writers of
  \<open>cbb.c\<close> (integers, booleans, octet strings), and their correctness against the DER
  encodings of the theory \<open>Der\<close>.
\<close>

section \<open>Typed writers\<close>

definition CBB_add_u16le :: "libc_malloc \<Rightarrow> CBB \<Rightarrow> nat \<Rightarrow> u16 \<Rightarrow> bool \<times> CBB" where
  "CBB_add_u16le malloc cbb d v = CBB_add_u16 malloc cbb d (CRYPTO_bswap2 v)"

definition CBB_add_u32le :: "libc_malloc \<Rightarrow> CBB \<Rightarrow> nat \<Rightarrow> u32 \<Rightarrow> bool \<times> CBB" where
  "CBB_add_u32le malloc cbb d v = CBB_add_u32 malloc cbb d (CRYPTO_bswap4 v)"

definition CBB_add_u64le :: "libc_malloc \<Rightarrow> CBB \<Rightarrow> nat \<Rightarrow> u64 \<Rightarrow> bool \<times> CBB" where
  "CBB_add_u64le malloc cbb d v = CBB_add_u64 malloc cbb d (CRYPTO_bswap8 v)"

text \<open>
  The loop of \<open>CBB_add_asn1_uint64\<close> over \<open>i = 0, ..., 7\<close>; the argument counts the bytes left
  (\<open>8 - i\<close>), and the child is at depth \<open>d\<close>.
\<close>

fun add_uint64_loop :: "libc_malloc \<Rightarrow> CBB \<Rightarrow> nat \<Rightarrow> u64 \<Rightarrow> bool \<Rightarrow> nat \<Rightarrow> (bool \<times> bool) \<times> CBB" where
  "add_uint64_loop malloc cbb d v started 0 = ((True, started), cbb)"
| "add_uint64_loop malloc cbb d v started (Suc k) =
     (let byte' = ucast (drop_bit (8 * k) v) :: byte in
      if \<not> started \<and> byte' = 0 then add_uint64_loop malloc cbb d v started k
      else
        (case (if \<not> started \<and> byte' AND 0x80 \<noteq> 0 then CBB_add_u8 malloc cbb d 0 else (True, cbb)) of
           (False, cbb1) \<Rightarrow> ((False, True), cbb1)
         | (True, cbb1) \<Rightarrow>
             (case CBB_add_u8 malloc cbb1 d byte' of
                (False, cbb2) \<Rightarrow> ((False, True), cbb2)
              | (True, cbb2) \<Rightarrow> add_uint64_loop malloc cbb2 d v True k)))"

definition CBB_add_asn1_uint64 :: "libc_malloc \<Rightarrow> CBB \<Rightarrow> nat \<Rightarrow> u64 \<Rightarrow> bool \<times> CBB" where
  "CBB_add_asn1_uint64 malloc cbb d v =
     (case CBB_add_asn1 malloc cbb d CBS_ASN1_INTEGER of
        (False, cbb1) \<Rightarrow> (False, cbb1)
      | (True, cbb1) \<Rightarrow>
          (case add_uint64_loop malloc cbb1 (Suc d) v False 8 of
             ((False, _), cbb2) \<Rightarrow> (False, cbb2)
           | ((True, started), cbb2) \<Rightarrow>
               (case (if \<not> started then CBB_add_u8 malloc cbb2 (Suc d) 0 else (True, cbb2)) of
                  (False, cbb3) \<Rightarrow> (False, cbb3)
                | (True, cbb3) \<Rightarrow> CBB_flush malloc cbb3 d)))"

definition CBB_add_asn1_octet_string :: "libc_malloc \<Rightarrow> CBB \<Rightarrow> nat \<Rightarrow> byte list \<Rightarrow> bool \<times> CBB" where
  "CBB_add_asn1_octet_string malloc cbb d data =
     (case CBB_add_asn1 malloc cbb d CBS_ASN1_OCTETSTRING of
        (False, cbb1) \<Rightarrow> (False, cbb1)
      | (True, cbb1) \<Rightarrow>
          (case CBB_add_bytes malloc cbb1 (Suc d) data of
             (False, cbb2) \<Rightarrow> (False, cbb2)
           | (True, cbb2) \<Rightarrow> CBB_flush malloc cbb2 d))"

definition CBB_add_asn1_bool :: "libc_malloc \<Rightarrow> CBB \<Rightarrow> nat \<Rightarrow> int \<Rightarrow> bool \<times> CBB" where
  "CBB_add_asn1_bool malloc cbb d v =
     (case CBB_add_asn1 malloc cbb d CBS_ASN1_BOOLEAN of
        (False, cbb1) \<Rightarrow> (False, cbb1)
      | (True, cbb1) \<Rightarrow>
          (case CBB_add_u8 malloc cbb1 (Suc d) (if v \<noteq> 0 then 0xff else 0) of
             (False, cbb2) \<Rightarrow> (False, cbb2)
           | (True, cbb2) \<Rightarrow> CBB_flush malloc cbb2 d))"

section \<open>Base-128 integers\<close>

fun hi_septets :: "nat \<Rightarrow> nat \<Rightarrow> byte list" where
  "hi_septets m 0 = []"
| "hi_septets m (Suc i) = of_nat (128 + (m div 128 ^ i) mod 128) # hi_septets m i"

lemma hi_septets_snoc: "hi_septets m (Suc k) = hi_septets (m div 128) k @ [of_nat (128 + m mod 128)]"
proof (induction k)
  case 0
  show ?case by simp
next
  case (Suc k)
  have "m div 128 ^ Suc k = m div 128 div 128 ^ k" by (simp add: div_mult2_eq)
  then have "hi_septets m (Suc (Suc k)) =
      of_nat (128 + (m div 128 div 128 ^ k) mod 128) # hi_septets m (Suc k)" by simp
  with Suc show ?case by (simp only: hi_septets.simps append_Cons)
qed

lemma hi_septets_base128: "hi_septets m (base128_len m) = base128_hi m"
proof (induction m rule: base128_hi.induct)
  case (1 m)
  show ?case
  proof (cases "m = 0")
    case True
    then show ?thesis by (simp add: base128_len.simps)
  next
    case False
    then have "base128_len m = Suc (base128_len (m div 128))" by (simp add: base128_len.simps [of m])
    with 1 False show ?thesis
      by (simp only: hi_septets_snoc base128_hi.simps [of m] if_False simp_thms)
  qed
qed

text \<open>The bytes the loop of \<open>add_base128_integer\<close> writes.\<close>

lemma septet_byte: "(ucast (drop_bit (7 * i) (v :: u64)) AND 0x7f :: byte) = of_nat ((unat v div 128 ^ i) mod 128)"
proof -
  have "(ucast (drop_bit (7 * i) v) :: byte) = of_nat (unat (drop_bit (7 * i) v))" by simp
  also have "unat (drop_bit (7 * i) v) = unat v div 128 ^ i"
    by (simp only: unat_drop_bit_eq drop_bit_eq_div [where 'a = nat] power_mult) simp
  finally have "unat (ucast (drop_bit (7 * i) v) AND 0x7f :: byte) = (unat v div 128 ^ i) mod 128"
    by (simp only: byte_and_7f byte_simps) (simp add: mod_mod_cancel)
  moreover have "unat (of_nat ((unat v div 128 ^ i) mod 128) :: byte) = (unat v div 128 ^ i) mod 128"
    by (simp only: byte_simps) simp
  ultimately show ?thesis by (simp only: word_unat_eq_iff)
qed

lemma or_80: "n < 128 \<Longrightarrow> (of_nat n OR 0x80 :: byte) = of_nat (128 + n)"
proof -
  assume n: "n < 128"
  have e: "(of_nat n :: byte) = take_bit 7 (of_nat n)"
    using n by (simp add: take_bit_of_nat take_bit_nat_eq_self)
  have "(of_nat n :: byte) AND 0x80 = 0"
  proof -
    have "unat (of_nat n :: byte) = n" using n by (simp only: byte_simps) simp
    then show ?thesis using n byte_high_bit_iff [of "of_nat n"] by auto
  qed
  then have "(of_nat n OR 0x80 :: byte) = of_nat n + 0x80"
    by (simp add: disjunctive_add_eq_or)
  then show ?thesis by simp
qed

lemma add_base128_loop_writer:
  "cbb_writer (\<lambda>m c d. add_base128_loop m c d v (Suc k))
     (hi_septets (unat v div 128) k @ [of_nat (unat v mod 128)])"
proof (induction k)
  case 0
  have "cbb_writer (\<lambda>m c d. CBB_add_u8 m c d (of_nat (unat v mod 128))) [of_nat (unat v mod 128)]"
    by (rule wr_u8.cbb_writer_axioms)
  moreover have "add_base128_loop m c d v (Suc 0) = CBB_add_u8 m c d (of_nat (unat v mod 128))" for m c d
    using septet_byte [of 0 v] by (simp add: Let_def split: prod.split bool.split)
  ultimately show ?case by simp
next
  case (Suc k)
  let ?b = "of_nat (128 + (unat v div 128 div 128 ^ k) mod 128) :: byte"
  have "unat v div 128 ^ Suc k = unat v div 128 div 128 ^ k" by (simp add: div_mult2_eq)
  then have "(ucast (drop_bit (7 * Suc k) v) AND 0x7f :: byte) OR 0x80 = ?b"
    by (simp only: septet_byte) (rule or_80, simp)
  then have "add_base128_loop m c d v (Suc (Suc k)) =
      (case CBB_add_u8 m c d ?b of (False, c') \<Rightarrow> (False, c') | (True, c') \<Rightarrow> add_base128_loop m c' d v (Suc k))"
    for m c d
    by (subst add_base128_loop.simps) (simp only: Let_def nat.distinct not_False_eq_True if_True)
  from writer_seq [OF wr_u8.cbb_writer_axioms Suc this] show ?case
    by (simp only: hi_septets.simps append_Cons append_Nil)
qed

interpretation wr_base128: cbb_writer "\<lambda>m c d. add_base128_integer m c d v" "base128 (unat v)" for v
proof -
  have len: "(if base128_len n = 0 then 1 else base128_len n) = Suc (base128_len (n div 128))" for n
    by (cases "n = 0") (simp_all add: base128_len.simps [of n] base128_len.simps [of 0])
  have "base128 (unat v) = hi_septets (unat v div 128) (base128_len (unat v div 128)) @ [of_nat (unat v mod 128)]"
    by (simp only: base128_def hi_septets_base128)
  with add_base128_loop_writer [of v "base128_len (unat v div 128)"]
  show "cbb_writer (\<lambda>m c d. add_base128_integer m c d v) (base128 (unat v))"
    by (simp only: add_base128_integer_def Let_def len)
qed

section \<open>ASN.1 elements\<close>

lemma CBB_flush_leaf:
  "CBB_flush malloc cbb (length (children cbb)) = (True, cbb') \<Longrightarrow> cbb' = cbb"
  by (subst (asm) CBB_flush.simps) (auto split: option.splits if_splits)

lemma CBB_add_u8_leaf:
  assumes m: "malloc_law malloc" and inv: "cbb_inv cbb" and d: "length (children cbb) = d"
    and run: "CBB_add_u8 malloc cbb d v = (True, cbb')"
  obtains b b' where "base cbb = Some b" "cbb' = cbb\<lparr>base := Some b'\<rparr>" "buffer_inv b" "buffer_inv b'"
    "used b' = used b @ [v]" "len b' = len b + 1"
proof -
  from run obtain cbb1 b b' where fl: "CBB_flush malloc cbb d = (True, cbb1)" and b: "base cbb1 = Some b"
    and f: "cbb_buffer_add_u malloc b (ucast v) 1 = (True, b')" and cbb': "cbb' = cbb1\<lparr>base := Some b'\<rparr>"
    by (auto simp: CBB_add_u8_def cbb_add_u_def cbb_then_def split: prod.splits bool.splits option.splits)
  have same: "cbb1 = cbb" using fl d CBB_flush_leaf by blast
  then have ib: "buffer_inv b" using inv b by (simp add: cbb_inv_def)
  then have u: "buffer_inv b'" "used b' = used b @ [v]"
    using cbb_buffer_add_u_True [OF m ib _ f] by (simp_all add: unat_ucast_byte)
  have "len b' = len b + 1" using length_used [OF u(1)] length_used [OF ib] u(2) by simp
  with that b cbb' same ib u show thesis by blast
qed

text \<open>The identifier octets written by \<open>CBB_add_asn1\<close>.\<close>

definition cbb_add_tag :: "libc_malloc \<Rightarrow> CBB \<Rightarrow> nat \<Rightarrow> u32 \<Rightarrow> bool \<times> CBB" where
  "cbb_add_tag malloc cbb d tag =
     (let tag_bits = ucast (drop_bit 24 tag) AND 0xe0 :: byte; tag_number = tag AND 0x1fffffff
      in if tag_number \<ge> 0x1f then
           (case CBB_add_u8 malloc cbb d (tag_bits OR 0x1f) of
              (False, c) \<Rightarrow> (False, c)
            | (True, c) \<Rightarrow> add_base128_integer malloc c d (ucast tag_number))
         else CBB_add_u8 malloc cbb d (tag_bits OR ucast tag_number))"

interpretation wr_tag: cbb_writer "\<lambda>m c d. cbb_add_tag m c d tag" "der_tag tag" for tag
proof (cases "tag AND 0x1fffffff \<ge> 0x1f")
  case True
  have "cbb_writer (\<lambda>m c d. cbb_add_tag m c d tag)
      ([ucast (drop_bit 24 tag) AND 0xe0 OR 0x1f] @ base128 (unat (ucast (tag AND 0x1fffffff) :: u64)))"
    using True
    by (intro writer_seq [OF wr_u8.cbb_writer_axioms wr_base128.cbb_writer_axioms])
      (simp add: cbb_add_tag_def Let_def)
  with True show "cbb_writer (\<lambda>m c d. cbb_add_tag m c d tag) (der_tag tag)"
    by (simp add: der_tag_def Let_def unat_ucast_up)
next
  case False
  then show "cbb_writer (\<lambda>m c d. cbb_add_tag m c d tag) (der_tag tag)"
    using wr_u8.cbb_writer_axioms [of "ucast (drop_bit 24 tag) AND 0xe0 OR ucast (tag AND 0x1fffffff)"]
    by (simp add: cbb_add_tag_def der_tag_def Let_def)
qed

lemma CBB_add_asn1_opens:
  assumes m: "malloc_law malloc" and inv: "cbb_inv cbb" and run: "CBB_add_asn1 malloc cbb d tag = (True, cbb')"
  shows "opened d 1 True (der_tag tag) cbb cbb'"
proof -
  from run obtain cbb1 cbb2 cbb3 where fl: "CBB_flush malloc cbb d = (True, cbb1)"
    and tg: "cbb_add_tag malloc cbb1 d tag = (True, cbb2)" and z: "CBB_add_u8 malloc cbb2 d 0 = (True, cbb3)"
    and cbb': "cbb' = cbb3\<lparr>children := take d (children cbb3) @
       [\<lparr>offset = (case base cbb2 of None \<Rightarrow> 0 | Some b \<Rightarrow> len b), pending_len_len = 1, pending_is_asn1 = True\<rparr>]\<rparr>"
    by (auto simp: CBB_add_asn1_def cbb_add_tag_def Let_def split: prod.splits bool.splits if_splits)
  have a1: "appended d [] cbb cbb1" using wr_flush.writes [OF m inv fl] .
  then have a2: "appended d (der_tag tag) cbb1 cbb2"
    using wr_tag.writes [OF m _ tg] by (simp add: appended_def)
  then have inv2: "cbb_inv cbb2" and d2: "length (children cbb2) = d" by (auto simp: appended_def)
  have a3: "appended d [0] cbb2 cbb3" using wr_u8.writes [OF m inv2 z] .
  obtain b2 b3 where b: "base cbb2 = Some b2" "cbb3 = cbb2\<lparr>base := Some b3\<rparr>" "buffer_inv b2" "buffer_inv b3"
    "used b3 = used b2 @ [0]" "len b3 = len b2 + 1"
    using CBB_add_u8_leaf [OF m inv2 d2 z] by blast
  have ap: "appended d (der_tag tag @ [0]) cbb cbb3"
    using appended_trans [OF appended_trans [OF a1 a2] a3] by simp
  have "opened d 1 True (der_tag tag) cbb
      (cbb3\<lparr>base := Some b3, children := take d (children cbb3) @
        [\<lparr>offset = len b3 - 1, pending_len_len = 1, pending_is_asn1 = True\<rparr>]\<rparr>)"
    by (rule appended_opened [OF ap, where pad = "[0]"])
      (use b length_used [OF b(3)] in simp_all)
  with b show ?thesis by (simp add: cbb')
qed

text \<open>Opening an element, writing its contents and flushing the parent writes the element.\<close>

lemma opened_closed:
  assumes op: "opened d k asn1 pre cbb cbb1" and wr: "appended (Suc d) data cbb1 cbb2"
    and cl: "appended d [] cbb2 cbb3"
  obtains p where "prefix_of \<lparr>offset = 0, pending_len_len = k, pending_is_asn1 = asn1\<rparr> (length data) = Some p"
    "appended d (pre @ p @ data) cbb cbb3"
proof -
  let ?vs = "cbb_views cbb"
  from op obtain off body where d: "d \<le> length (children cbb)"
    and ch1: "children cbb1 = take d (children cbb) @ [\<lparr>offset = off, pending_len_len = k, pending_is_asn1 = asn1\<rparr>]"
    and col: "collapse (drop d (children cbb)) (drop d ?vs) = Some body"
    and v1: "cbb_views cbb1 = take d ?vs @ [body @ pre, []]"
    by (auto simp: opened_def)
  have "drop d ?vs \<noteq> []" using col by (cases "drop d (children cbb)") auto
  then have lv: "length (take d ?vs) = d" by simp
  have ch2: "children cbb2 = children cbb1" and v2: "cbb_views cbb2 = take d ?vs @ [body @ pre, data]"
    using wr d ch1 v1 lv by (auto simp: appended_def)
  let ?ch = "\<lparr>offset = off, pending_len_len = k, pending_is_asn1 = asn1\<rparr>"
  have dr: "drop d (children cbb2) = [?ch]" "drop d (cbb_views cbb2) = [body @ pre, data]"
    using ch1 ch2 v2 d lv by simp_all
  from cl dr obtain p where p: "prefix_of ?ch (length data) = Some p"
    and v3: "cbb_views cbb3 = take d (cbb_views cbb2) @ [(body @ pre) @ p @ data]"
    by (auto simp: appended_def)
  have "appended d (pre @ p @ data) cbb cbb3"
    using cl col d v3 v2 ch1 ch2 lv by (auto simp: appended_def)
  moreover have "prefix_of \<lparr>offset = 0, pending_len_len = k, pending_is_asn1 = asn1\<rparr> (length data) = Some p"
  proof -
    have "prefix_of \<lparr>offset = 0, pending_len_len = k, pending_is_asn1 = asn1\<rparr> n = prefix_of ?ch n" for n
      by (simp add: prefix_of_def)
    with p show ?thesis by simp
  qed
  ultimately show thesis by (rule that [rotated])
qed

lemma element_writer:
  assumes body: "cbb_writer body data"
    and run: "\<And>m c d. run m c d =
      (case CBB_add_asn1 m c d tag of
         (False, c1) \<Rightarrow> (False, c1)
       | (True, c1) \<Rightarrow>
           (case body m c1 (Suc d) of
              (False, c2) \<Rightarrow> (False, c2)
            | (True, c2) \<Rightarrow> CBB_flush m c2 d))"
  shows "cbb_writer run (der_element tag data)"
proof
  fix malloc cbb d cbb' assume a: "malloc_law malloc" "cbb_inv cbb" "run malloc cbb d = (True, cbb')"
  then obtain c1 c2 where c1: "CBB_add_asn1 malloc cbb d tag = (True, c1)"
    and c2: "body malloc c1 (Suc d) = (True, c2)" and c3: "CBB_flush malloc c2 d = (True, cbb')"
    by (auto simp: run split: prod.splits bool.splits)
  have op: "opened d 1 True (der_tag tag) cbb c1" using CBB_add_asn1_opens [OF a(1,2) c1] .
  then have wr: "appended (Suc d) data c1 c2"
    using cbb_writer.writes [OF body a(1) _ c2] by (simp add: opened_def)
  then have cl: "appended d [] c2 cbb'"
    using wr_flush.writes [OF a(1) _ c3] by (simp add: appended_def)
  obtain p where p: "prefix_of \<lparr>offset = 0, pending_len_len = 1, pending_is_asn1 = True\<rparr> (length data) = Some p"
    "appended d (der_tag tag @ p @ data) cbb cbb'"
    using opened_closed [OF op wr cl] by blast
  from p(1) have "p = der_length (length data)" by (simp add: prefix_of_def split: if_splits)
  with p(2) show "appended d (der_element tag data) cbb cbb'" by (simp add: der_element_def)
qed

lemma octet_string_writer:
  "length data < SIZE_MOD \<Longrightarrow>
     cbb_writer (\<lambda>m c d. CBB_add_asn1_octet_string m c d data) (der_element CBS_ASN1_OCTETSTRING data)"
  by (rule element_writer [OF CBB_add_bytes_writer]) (simp_all add: CBB_add_asn1_octet_string_def)

interpretation wr_bool: cbb_writer "\<lambda>m c d. CBB_add_asn1_bool m c d v"
    "der_element CBS_ASN1_BOOLEAN [if v \<noteq> 0 then 0xff else 0]" for v
  by (rule element_writer [OF wr_u8.cbb_writer_axioms]) (simp add: CBB_add_asn1_bool_def)

end
