(* ===== verification/Der_Int.thy ===== *)
theory Der_Int
  imports Der
begin

text \<open>
  The contents octets of a DER \<open>INTEGER\<close>: two's complement, big-endian, in as few octets as
  possible. \<open>der_int\<close> is the encoder, \<open>sbe_value\<close> the decoder and \<open>minimal_int\<close> the rule of
  X.690, 8.3.2 that makes the encoding unique.
\<close>

definition sbe_value :: "byte list \<Rightarrow> int" where
  "sbe_value bs = int (be_value bs) - (if bs \<noteq> [] \<and> 128 \<le> unat (hd bs) then 256 ^ length bs else 0)"

fun minimal_int :: "byte list \<Rightarrow> bool" where
  "minimal_int [] \<longleftrightarrow> False"
| "minimal_int [a] \<longleftrightarrow> True"
| "minimal_int (a # b # _) \<longleftrightarrow> \<not> (a = 0 \<and> unat b < 128) \<and> \<not> (a = 0xff \<and> 128 \<le> unat b)"

function der_int :: "int \<Rightarrow> byte list" where
  "der_int v = (if - 128 \<le> v \<and> v < 128 then [of_int v] else der_int (v div 256) @ [of_int v])"
  by pat_completeness auto
termination
  by (relation "measure (\<lambda>v. nat \<bar>v\<bar>)") auto

declare der_int.simps [simp del]

lemma der_int_short: "- 128 \<le> v \<and> v < 128 \<Longrightarrow> der_int v = [of_int v]"
  by (subst der_int.simps) (simp only: if_True simp_thms)

lemma der_int_long: "\<not> (- 128 \<le> v \<and> v < 128) \<Longrightarrow> der_int v = der_int (v div 256) @ [of_int v]"
  by (subst der_int.simps) (simp only: if_False)

lemma sbe_value_snoc: "xs \<noteq> [] \<Longrightarrow> sbe_value (xs @ [b]) = sbe_value xs * 256 + int (unat b)"
  by (simp add: sbe_value_def)

lemma sbe_value_single: "sbe_value [b] = (if 128 \<le> unat b then int (unat b) - 256 else int (unat b))"
  by (simp add: sbe_value_def)

lemma sbe_value_single_bounds: "- 128 \<le> sbe_value [b] \<and> sbe_value [b] < 128"
  using unat_byte_less [of b] unfolding sbe_value_single by (cases "128 \<le> unat b"; simp only: if_True if_False; linarith)

lemma byte_le_int_iff: "128 \<le> unat b \<longleftrightarrow> 128 \<le> int (unat (b :: byte))"
  by linarith

lemma int_unat_of_int_byte: "int (unat (of_int v :: byte)) = v mod 256"
proof -
  have "int (unat (of_int v :: byte)) = uint (of_int v :: byte)" by simp
  also have "\<dots> = v mod 256" by (simp add: unsigned_of_int take_bit_eq_mod)
  finally show ?thesis .
qed

lemma of_int_byte: "of_int (q * 256 + int (unat b)) = (b :: byte)"
proof -
  have "int (unat (of_int (q * 256 + int (unat b)) :: byte)) = int (unat b) mod 256"
    by (simp only: int_unat_of_int_byte) (simp only: mod_mult_self3 mult.commute)
  also have "\<dots> = int (unat b)" using unat_byte_less [of b] by (intro mod_pos_pos_trivial) linarith+
  finally show ?thesis by (simp only: of_nat_eq_iff word_unat_eq_iff)
qed

lemma der_int_nonempty [simp]: "der_int v \<noteq> []"
  by (subst der_int.simps) simp

theorem sbe_value_der_int: "sbe_value (der_int v) = v"
proof (induction v rule: der_int.induct)
  case (1 v)
  show ?case
  proof (cases "- 128 \<le> v \<and> v < 128")
    case True
    have m: "int (unat (of_int v :: byte)) = (if v < 0 then v + 256 else v)"
    proof (cases "v < 0")
      case neg: True
      have "v mod 256 = (v + 256) mod 256" by simp
      also have "\<dots> = v + 256" using neg True by (intro mod_pos_pos_trivial) auto
      finally show ?thesis using neg by (simp only: int_unat_of_int_byte) simp
    next
      case False
      with True show ?thesis by (simp only: int_unat_of_int_byte) (simp add: mod_pos_pos_trivial)
    qed
    then have "128 \<le> unat (of_int v :: byte) \<longleftrightarrow> v < 0" using True
      by (simp add: byte_le_int_iff del: of_nat_unat)
    with m True show ?thesis by (simp add: der_int.simps [of v] sbe_value_single)
  next
    case False
    then have "sbe_value (der_int v) = sbe_value (der_int (v div 256)) * 256 + int (unat (of_int v :: byte))"
      by (simp only: der_int_long sbe_value_snoc der_int_nonempty not_False_eq_True)
    with 1 False show ?thesis by (simp only: int_unat_of_int_byte) simp
  qed
qed

lemma minimal_int_butlast: "minimal_int (xs @ [b]) \<Longrightarrow> xs \<noteq> [] \<Longrightarrow> minimal_int xs"
  by (cases xs rule: minimal_int.cases) auto

lemma minimal_int_snoc:
  "minimal_int xs \<Longrightarrow> minimal_int (xs @ [b]) \<longleftrightarrow>
     \<not> (xs = [0] \<and> unat b < 128) \<and> \<not> (xs = [0xff] \<and> 128 \<le> unat b)"
  by (cases xs rule: minimal_int.cases) auto

lemma der_int_0: "der_int 0 = [0]" and der_int_m1: "der_int (- 1) = [0xff]"
  by (simp_all add: der_int.simps)

lemma small_iff:
  "- 128 \<le> q * 256 + r \<and> q * 256 + r < 128 \<longleftrightarrow> q = 0 \<and> r < 128 \<or> q = - 1 \<and> 128 \<le> r"
  if "0 \<le> r" "r < 256" for q r :: int
proof -
  consider "q = 0" | "q = - 1" | "1 \<le> q" | "q \<le> - 2" by linarith
  then show ?thesis using that by cases auto
qed

theorem der_int_sbe_value: "minimal_int bs \<Longrightarrow> der_int (sbe_value bs) = bs"
proof (induction bs rule: rev_induct)
  case Nil
  then show ?case by simp
next
  case (snoc b xs)
  show ?case
  proof (cases "xs = []")
    case True
    have "- 128 \<le> sbe_value [b] \<and> sbe_value [b] < 128"
      by (rule sbe_value_single_bounds)
    moreover have "of_int (sbe_value [b]) = b"
      using of_int_byte [of 0 b] of_int_byte [of "- 1" b] by (simp add: sbe_value_single)
    ultimately show ?thesis using True by (simp add: der_int.simps)
  next
    case False
    with snoc.prems have mx: "minimal_int xs" by (rule minimal_int_butlast)
    then have ih: "der_int (sbe_value xs) = xs" by (rule snoc.IH)
    let ?q = "sbe_value xs" and ?r = "int (unat b)"
    have r: "0 \<le> ?r" "?r < 256" using unat_byte_less [of b] by linarith+
    have v: "sbe_value (xs @ [b]) = ?q * 256 + ?r" using False by (rule sbe_value_snoc)
    have q: "?q = 0 \<Longrightarrow> xs = [0]" "?q = - 1 \<Longrightarrow> xs = [0xff]"
      using ih der_int_0 der_int_m1 by metis+
    have "\<not> (- 128 \<le> ?q * 256 + ?r \<and> ?q * 256 + ?r < 128)"
      unfolding small_iff [OF r] using q snoc.prems minimal_int_snoc [OF mx, of b]
      by (auto simp: byte_le_int_iff not_less simp flip: not_le)
    moreover have "(?q * 256 + ?r) div 256 = ?q" using r by simp
    moreover have "of_int (?q * 256 + ?r) = b" by (rule of_int_byte)
    ultimately show ?thesis unfolding v using ih by (subst der_int_long) simp_all
  qed
qed

lemma minimal_der_int: "minimal_int (der_int v)"
proof (induction v rule: der_int.induct)
  case (1 v)
  show ?case
  proof (cases "- 128 \<le> v \<and> v < 128")
    case True
    then show ?thesis by (simp add: der_int.simps [of v])
  next
    case False
    let ?xs = "der_int (v div 256)" and ?b = "of_int v :: byte"
    have m: "minimal_int ?xs" using 1 False by blast
    have r: "0 \<le> v mod 256" "v mod 256 < 256" by simp_all
    have n: "\<not> (v div 256 = 0 \<and> v mod 256 < 128)" "\<not> (v div 256 = - 1 \<and> 128 \<le> v mod 256)"
      using False small_iff [OF r, of "v div 256"] by (auto simp: div_mult_mod_eq)
    have s: "?xs = [0] \<Longrightarrow> v div 256 = 0" "?xs = [0xff] \<Longrightarrow> v div 256 = - 1"
      using sbe_value_der_int [of "v div 256"] by (auto simp: sbe_value_single)
    have b: "unat ?b < 128 \<longleftrightarrow> v mod 256 < 128" using int_unat_of_int_byte [of v] by linarith
    from m n s b have "minimal_int (?xs @ [?b])" by (subst minimal_int_snoc) auto
    with False show ?thesis by (simp add: der_int.simps [of v])
  qed
qed

lemma minimal_int_iff: "minimal_int bs \<longleftrightarrow> bs = der_int (sbe_value bs)"
  using der_int_sbe_value minimal_der_int by metis

lemma sbe_value_bounds:
  "bs \<noteq> [] \<Longrightarrow> - (256 ^ length bs) \<le> 2 * sbe_value bs \<and> 2 * sbe_value bs < 256 ^ length bs"
proof (induction bs rule: rev_induct)
  case Nil
  then show ?case by simp
next
  case (snoc b xs)
  show ?case
  proof (cases "xs = []")
    case True
    then show ?thesis using sbe_value_single_bounds [of b] by simp
  next
    case False
    with snoc.IH have ih: "- (256 ^ length xs) \<le> 2 * sbe_value xs" "2 * sbe_value xs < 256 ^ length xs" by auto
    obtain h where h: "(256 :: int) ^ length xs = 2 * h" using False by (cases xs) auto
    with ih(2) have "sbe_value xs + 1 \<le> h" by simp
    with h have "2 * sbe_value xs + 2 \<le> 256 ^ length xs" by simp
    moreover have "0 \<le> uint b" "uint b < 256" using uint_lt2p [of b] by simp_all
    ultimately show ?thesis using ih(1)
      by (simp add: sbe_value_snoc [OF False]) (use unsigned_greater_eq [of b, where 'a = int] in linarith)
  qed
qed

lemma sbe_value_neg_iff: "sbe_value bs < 0 \<longleftrightarrow> bs \<noteq> [] \<and> 128 \<le> unat (hd bs)"
proof (cases "bs \<noteq> [] \<and> 128 \<le> unat (hd bs)")
  case True
  have "int (be_value bs) < 256 ^ length bs"
    using be_value_less [of bs] by (metis of_nat_less_iff of_nat_power of_nat_numeral)
  with True show ?thesis by (simp add: sbe_value_def)
qed (auto simp: sbe_value_def)

text \<open>How many octets an integer needs.\<close>

lemma length_der_int:
  "0 < k \<Longrightarrow> length (der_int v) \<le> k \<longleftrightarrow> - (256 ^ k) \<le> 2 * v \<and> 2 * v < 256 ^ k"
proof (induction v arbitrary: k rule: der_int.induct)
  case (1 v)
  have small: "- (256 ^ k) \<le> 2 * v \<and> 2 * v < 256 ^ k" if "- 128 \<le> v \<and> v < 128"
  proof -
    have "(256 :: int) ^ 1 \<le> 256 ^ k" using "1.prems" by (intro power_increasing) auto
    with that show ?thesis by simp
  qed
  show ?case
  proof (cases "- 128 \<le> v \<and> v < 128")
    case True
    then show ?thesis using small "1.prems" by (simp add: der_int.simps [of v])
  next
    case False
    then have len: "length (der_int v) = Suc (length (der_int (v div 256)))"
      by (simp add: der_int.simps [of v])
    obtain j where k: "k = Suc j" using "1.prems" by (cases k) auto
    show ?thesis
    proof (cases "j = 0")
      case True
      with False len k show ?thesis by (auto simp: Suc_le_eq)
    next
      case j: False
      then have "(256 :: int) ^ j = 2 * (128 * 256 ^ (j - 1))"
        by (cases j) simp_all
      then obtain h where h: "(256 :: int) ^ j = 2 * h" by blast
      have "- h \<le> v div 256 \<and> v div 256 < h \<longleftrightarrow> - (256 * h) \<le> v \<and> v < 256 * h"
        using div_mult_mod_eq [of v 256] pos_mod_bound [of 256 v] pos_mod_sign [of 256 v] by linarith
      with len k 1(1) [OF False, of j] j h show ?thesis by simp
    qed
  qed
qed

end
