(* ===== verification/Cbs_Values.thy ===== *)
theory Cbs_Values
  imports Cbs_Asn1 Der_Int
begin

text \<open>
  Correctness of the typed ASN.1 readers of \<open>cbs.c\<close>: the contents of an element with a given
  tag, \<open>INTEGER\<close>s, \<open>BOOLEAN\<close>s and optional elements. Each is an instance of the reader
  interface whose specification accepts exactly the DER encodings.
\<close>

section \<open>Sub-readers stay inside their reader\<close>

lemma CBS_get_bytes_within: "CBS_get_bytes c n = (Some out, c') \<Longrightarrow> cbs_within out c"
  by (auto simp: CBS_get_bytes_def cbs_get_simps CBS_init_at_def cbs_within_def split: prod.splits option.splits)

lemma element_within:
  assumes "CBS_get_any_asn1_element c = (Some (out, t, hl), c')"
  shows "cbs_within out c"
  using assms
  by (auto simp: CBS_get_any_asn1_element_def cbs_get_any_asn1_element_def Let_def dest: CBS_get_bytes_within
      split: prod.splits option.splits if_splits)

lemma CBS_skip_within: "CBS_skip c n = (r, c') \<Longrightarrow> cbs_within c' c"
  by (auto simp: CBS_skip_def cbs_get_simps cbs_within_def split: prod.splits option.splits)

lemma CBS_skip_Some: "n \<le> cbs_len c \<Longrightarrow>
    CBS_skip c n = (Some (), c\<lparr>cbs_data := cbs_data c + n, cbs_len := cbs_len c - n\<rparr>)"
  by (simp add: CBS_skip_def cbs_get_def)

lemma cbs_get_asn1_within:
  assumes "cbs_get_asn1 c t skip = (Some out, c')"
  shows "cbs_within out c"
  using assms
  by (auto simp: cbs_get_asn1_def dest!: element_within CBS_skip_within intro: cbs_within_trans
      split: prod.splits option.splits if_splits)

section \<open>Elements with a given tag\<close>

definition spec_asn1 :: "u32 \<Rightarrow> byte list \<Rightarrow> (byte list \<times> byte list) option" where
  "spec_asn1 t bs =
     (case spec_element bs of
        Some ((el, t', hl), rest) \<Rightarrow> if t' = t then Some (drop hl el, rest) else None
      | None \<Rightarrow> None)"

lemma spec_asn1_iff:
  "spec_asn1 t bs = Some (body, rest) \<longleftrightarrow> bs = der_element t body @ rest \<and> length body < 2 ^ 32"
proof
  assume "spec_asn1 t bs = Some (body, rest)"
  then obtain el hl where "spec_element bs = Some ((el, t, hl), rest)" "body = drop hl el"
    by (auto simp: spec_asn1_def split: option.splits if_splits)
  then show "bs = der_element t body @ rest \<and> length body < 2 ^ 32"
    by (auto simp: spec_element_iff der_element_def)
next
  assume a: "bs = der_element t body @ rest \<and> length body < 2 ^ 32"
  then have "spec_element bs = Some ((der_element t body, t, length (der_tag t @ der_length (length body))), rest)"
    by (subst spec_element_iff) blast
  then show "spec_asn1 t bs = Some (body, rest)"
    by (simp add: spec_asn1_def der_element_def)
qed

lemma element_header_fits:
  assumes "cbs_inv c" "CBS_get_any_asn1_element c = (Some (out, t, hl), c')"
  shows "hl \<le> cbs_len out"
proof -
  have "cbs_inv out" using assms element_within cbs_within_inv by blast
  moreover have "spec_element (cbs_bytes c) = Some ((cbs_bytes out, t, hl), cbs_bytes c')"
    using rd_element.run_Some [OF assms] by (simp add: element_view_def)
  then have "hl \<le> length (cbs_bytes out)" by (auto simp: spec_element_iff der_element_def)
  ultimately show ?thesis by simp
qed

interpretation rd_asn1: cbs_reader "\<lambda>c. CBS_get_asn1 c t" cbs_bytes "spec_asn1 t" for t
proof (rule cbs_readerI)
  fix c r c' assume c: "cbs_inv c" and run: "CBS_get_asn1 c t = (r, c')"
  obtain oe c1 where g: "CBS_get_any_asn1_element c = (oe, c1)" by fastforce
  have c1: "c' = c1"
    using run g by (auto simp: CBS_get_asn1_def cbs_get_asn1_def split: option.splits if_splits prod.splits)
  have adv: "cbs_advances c1 c" using c g by (rule rd_element.advancesD)
  show "cbs_advances c' c \<and> spec_asn1 t (cbs_bytes c) = map_option (\<lambda>a. (cbs_bytes a, cbs_bytes c')) r"
  proof (cases oe)
    case None
    with c g run have "spec_element (cbs_bytes c) = None" "r = None"
      by (simp_all add: rd_element.run_None CBS_get_asn1_def cbs_get_asn1_def)
    with adv c1 show ?thesis by (simp add: spec_asn1_def)
  next
    case (Some e)
    obtain out t' hl where e: "e = (out, t', hl)" by (cases e)
    have sp: "spec_element (cbs_bytes c) = Some ((cbs_bytes out, t', hl), cbs_bytes c1)"
      using rd_element.run_Some [OF c] g Some e by (simp add: element_view_def)
    have hl: "hl \<le> cbs_len out" using element_header_fits [OF c] g Some e by blast
    show ?thesis
    proof (cases "t' = t")
      case False
      with sp run g Some e adv c1 show ?thesis
        by (auto simp: spec_asn1_def CBS_get_asn1_def cbs_get_asn1_def)
    next
      case True
      then have "r = Some (out\<lparr>cbs_data := cbs_data out + hl, cbs_len := cbs_len out - hl\<rparr>)"
        using run g Some e hl by (auto simp: CBS_get_asn1_def cbs_get_asn1_def CBS_skip_Some)
      with True sp adv c1 show ?thesis
        by (simp add: spec_asn1_def cbs_move_bytes)
    qed
  qed
qed

lemma CBS_get_asn1_inv: "cbs_inv c \<Longrightarrow> CBS_get_asn1 c t = (Some out, c') \<Longrightarrow> cbs_inv out"
  unfolding CBS_get_asn1_def using cbs_get_asn1_within cbs_within_inv by blast

text \<open>Decoding the contents of the element that a reader has found.\<close>

lemma reader_decode:
  assumes rd: "cbs_reader run view spec"
    and run': "\<And>c. run' c = (case run c of (None, c') \<Rightarrow> (None, c') | (Some a, c') \<Rightarrow> (h a, c'))"
    and h: "\<And>c a c'. cbs_inv c \<Longrightarrow> run c = (Some a, c') \<Longrightarrow> map_option view' (h a) = g (view a)"
  shows "cbs_reader run' view' (\<lambda>bs. Option.bind (spec bs) (\<lambda>(b, rest). map_option (\<lambda>v. (v, rest)) (g b)))"
proof (rule cbs_readerI)
  fix c r c' assume c: "cbs_inv c" and r: "run' c = (r, c')"
  obtain oa c1 where g1: "run c = (oa, c1)" by fastforce
  have adv: "cbs_advances c1 c" using rd c g1 by (rule cbs_reader.advancesD)
  show "cbs_advances c' c \<and> Option.bind (spec (cbs_bytes c)) (\<lambda>(b, rest). map_option (\<lambda>v. (v, rest)) (g b)) =
      map_option (\<lambda>a. (view' a, cbs_bytes c')) r"
  proof (cases oa)
    case None
    with g1 c r rd adv show ?thesis by (auto simp: run' cbs_reader.run_None)
  next
    case (Some a)
    then have "spec (cbs_bytes c) = Some (view a, cbs_bytes c1)" "r = h a" "c' = c1"
      using g1 c r cbs_reader.run_Some [OF rd] by (auto simp: run')
    moreover have "g (view a) = map_option view' (h a)" using h [OF c] g1 Some by simp
    ultimately show ?thesis using adv by (simp add: option.map_comp o_def)
  qed
qed

section \<open>Integers\<close>

lemma valid_asn1_integer_eq:
  assumes "cbs_inv c"
  shows "CBS_is_valid_asn1_integer c =
    (if minimal_int (cbs_bytes c) then Some (sbe_value (cbs_bytes c) < 0) else None)"
proof (cases "CBS_get_u8 c")
  case (Pair oa c1)
  show ?thesis
  proof (cases oa)
    case None
    with Pair assms have "cbs_bytes c = []" by (simp add: CBS_get_u8_None)
    with None Pair show ?thesis by (simp add: CBS_is_valid_asn1_integer_def)
  next
    case (Some a)
    note r1 = CBS_get_u8_Some [OF assms Pair [unfolded Some]]
    obtain ob c2 where g2: "CBS_get_u8 c1 = (ob, c2)" by fastforce
    show ?thesis
    proof (cases ob)
      case None
      with g2 r1 have "cbs_bytes c = [a]" by (simp add: CBS_get_u8_None)
      with None Some Pair g2 show ?thesis
        by (simp add: CBS_is_valid_asn1_integer_def sbe_value_neg_iff byte_high_bit_iff)
    next
      case b: (Some b)
      then have "cbs_bytes c = a # b # cbs_bytes c2"
        using r1 CBS_get_u8_Some(1) [OF r1(2) g2 [unfolded b]] by simp
      moreover have "b AND 0x80 = 0 \<longleftrightarrow> unat b < 128" "a AND 0x80 \<noteq> 0 \<longleftrightarrow> 128 \<le> unat a"
        using byte_high_bit_iff [of b] byte_high_bit_iff [of a] by auto
      ultimately show ?thesis
        using b Some Pair g2 by (auto simp: CBS_is_valid_asn1_integer_def sbe_value_neg_iff Let_def)
    qed
  qed
qed

lemma drop_top_8_iff: "drop_bit 56 (v :: u64) \<noteq> 0 \<longleftrightarrow> 2 ^ 56 \<le> unat v"
proof -
  have "drop_bit 56 v = 0 \<longleftrightarrow> unat (drop_bit 56 v) = 0" by (simp add: unat_eq_zero)
  also have "\<dots> \<longleftrightarrow> unat v div 2 ^ 56 = 0"
    by (simp only: unat_drop_bit_eq drop_bit_eq_div [where 'a = nat])
  finally show ?thesis by (simp add: div_eq_0_iff not_less)
qed

lemma uint64_loop_eq:
  "uint64_loop bs w =
     (let n = unat w * 256 ^ length bs + be_value bs in if n < 2 ^ 64 then Some (of_nat n) else None)"
proof (induction bs arbitrary: w)
  case Nil
  have "unat w < 2 ^ 64" using unsigned_less [of w] by simp
  then show ?case by simp
next
  case (Cons b bs)
  show ?case
  proof (cases "2 ^ 56 \<le> unat w")
    case True
    have "(2 :: nat) ^ 64 = 2 ^ 56 * 256 ^ 1" by simp
    also have "\<dots> \<le> unat w * 256 ^ Suc (length bs)" using True by (intro mult_le_mono power_increasing) auto
    finally have "\<not> unat w * 256 ^ length (b # bs) + be_value (b # bs) < 2 ^ 64" by simp
    with True show ?thesis using drop_top_8_iff [of w] by (simp only: uint64_loop.simps Let_def if_True if_False)
  next
    case False
    have "shift_or w b = of_nat (unat w * 256 + unat b)"
      using shift_or_of_nat [of "unat w" b, where 'a = 64] by simp
    moreover have "unat w * 256 + unat b < 2 ^ 64"
    proof -
      have "unat w * 256 + unat b < (unat w + 1) * 256" using unat_byte_less [of b] by simp
      also have "\<dots> \<le> 2 ^ 56 * 256" using False by (intro mult_le_mono1) simp
      finally show ?thesis by simp
    qed
    ultimately have "unat (shift_or w b) = unat w * 256 + unat b"
      by (simp add: unat_of_nat del: of_nat_add of_nat_mult)
    then have "unat (shift_or w b) * 256 ^ length bs + be_value bs =
        unat w * 256 ^ length (b # bs) + be_value (b # bs)"
      by (simp add: be_value_Cons algebra_simps)
    with False Cons show ?thesis using drop_top_8_iff [of w]
      by (simp only: uint64_loop.simps Let_def if_True if_False not_not)
  qed
qed

definition spec_asn1_int :: "int \<Rightarrow> int \<Rightarrow> byte list \<Rightarrow> (int \<times> byte list) option" where
  "spec_asn1_int lo hi bs = Option.bind (spec_asn1 CBS_ASN1_INTEGER bs)
     (\<lambda>(b, rest). map_option (\<lambda>v. (v, rest))
        (if minimal_int b \<and> lo \<le> sbe_value b \<and> sbe_value b < hi then Some (sbe_value b) else None))"

lemma spec_asn1_int_iff:
  assumes "- (2 ^ 63) \<le> lo" "hi \<le> 2 ^ 64"
  shows "spec_asn1_int lo hi bs = Some (v, rest) \<longleftrightarrow>
    bs = der_element CBS_ASN1_INTEGER (der_int v) @ rest \<and> lo \<le> v \<and> v < hi"
proof -
  have len: "length (der_int v) < 2 ^ 32" if "lo \<le> v" "v < hi"
  proof -
    have "- (256 ^ 9) \<le> 2 * v \<and> 2 * v < 256 ^ 9" using that assms by simp
    then have "length (der_int v) \<le> 9" by (subst length_der_int) simp_all
    then show ?thesis by simp
  qed
  have enc: "minimal_int b \<and> sbe_value b = v \<longleftrightarrow> b = der_int v" for b
    using minimal_der_int sbe_value_der_int der_int_sbe_value by metis
  have "spec_asn1_int lo hi bs = Some (v, rest) \<longleftrightarrow>
      (\<exists>b. spec_asn1 CBS_ASN1_INTEGER bs = Some (b, rest) \<and> (minimal_int b \<and> sbe_value b = v) \<and> lo \<le> v \<and> v < hi)"
    by (auto simp: spec_asn1_int_def Option.bind_eq_Some_conv split: if_splits)
  also have "\<dots> \<longleftrightarrow> spec_asn1 CBS_ASN1_INTEGER bs = Some (der_int v, rest) \<and> lo \<le> v \<and> v < hi"
    unfolding enc by blast
  finally show ?thesis using len unfolding spec_asn1_iff by blast
qed

lemma nonneg_value: "bs \<noteq> [] \<Longrightarrow> 0 \<le> sbe_value bs \<Longrightarrow> sbe_value bs = int (be_value bs)"
  using sbe_value_neg_iff [of bs] by (auto simp: sbe_value_def)

interpretation rd_uint64: cbs_reader CBS_get_asn1_uint64 uint "spec_asn1_int 0 (2 ^ 64)"
  unfolding spec_asn1_int_def
proof (rule reader_decode [OF rd_asn1.cbs_reader_axioms])
  show "CBS_get_asn1_uint64 c = (case CBS_get_asn1 c CBS_ASN1_INTEGER of (None, c') \<Rightarrow> (None, c')
      | (Some a, c') \<Rightarrow> (if \<not> CBS_is_unsigned_asn1_integer a then None else uint64_loop (cbs_bytes a) 0, c'))" for c
    by (auto simp: CBS_get_asn1_uint64_def split: prod.splits option.splits)
next
  fix c a c' assume "cbs_inv c" "CBS_get_asn1 c CBS_ASN1_INTEGER = (Some a, c')"
  then have a: "cbs_inv a" by (rule CBS_get_asn1_inv)
  let ?b = "cbs_bytes a"
  show "map_option uint (if \<not> CBS_is_unsigned_asn1_integer a then None else uint64_loop ?b 0) =
      (if minimal_int ?b \<and> 0 \<le> sbe_value ?b \<and> sbe_value ?b < 2 ^ 64 then Some (sbe_value ?b) else None)"
  proof (cases "minimal_int ?b \<and> 0 \<le> sbe_value ?b")
    case True
    then have "?b \<noteq> []" by auto
    with True have v: "sbe_value ?b = int (be_value ?b)" by (intro nonneg_value) auto
    have "uint (of_nat (be_value ?b) :: u64) = int (be_value ?b)" if "be_value ?b < 2 ^ 64"
      using that by (simp add: unsigned_of_nat take_bit_nat_eq_self)
    with True v a show ?thesis
      by (simp add: CBS_is_unsigned_asn1_integer_def valid_asn1_integer_eq uint64_loop_eq del: of_nat_unat)
  next
    case False
    with a show ?thesis by (auto simp: CBS_is_unsigned_asn1_integer_def valid_asn1_integer_eq)
  qed
qed

text \<open>The 64-bit signed reader: the bytes are placed in a little-endian array filled with the sign.\<close>

lemma fold_update_rev:
  "n \<le> length u \<Longrightarrow> fold (\<lambda>i u. u[i := f i]) [0..<n] u = map f [0..<n] @ drop n u"
proof (induction n)
  case (Suc n)
  then show ?case by (simp add: list_update_append split: nat.split) (simp add: Cons_nth_drop_Suc [symmetric])
qed simp

lemma foldr_shift_or: "foldr (\<lambda>b r. shift_or r b) u (0 :: u64) = of_nat (be_value (rev u))"
  using fold_shift_or_0 [of "rev u", where 'a = 64] by (simp add: foldl_conv_foldr)

lemma load_le:
  assumes "length bs \<le> 8"
  shows "foldr (\<lambda>b r. shift_or r b) (fold (\<lambda>i u. u[i := bs ! (length bs - i - 1)]) [0..<length bs] (replicate 8 x)) (0 :: u64) =
    of_nat (be_value (replicate (8 - length bs) x @ bs))"
proof -
  have "map (\<lambda>i. bs ! (length bs - i - 1)) [0..<length bs] = rev bs"
    by (rule nth_equalityI) (simp_all add: rev_nth)
  with assms show ?thesis by (simp only: foldr_shift_or fold_update_rev length_replicate) simp
qed

lemma sign_extend:
  assumes "bs \<noteq> []" "length bs \<le> 8"
  shows "sint (of_nat (be_value (replicate (8 - length bs) (if sbe_value bs < 0 then 0xff else 0) @ bs)) :: u64) =
    sbe_value bs"
proof -
  let ?fill = "if sbe_value bs < 0 then 0xff else 0 :: byte" and ?m = "8 - length bs"
  let ?ext = "replicate ?m ?fill @ bs"
  have ones: "int (be_value (replicate k (0xff :: byte))) = 256 ^ k - 1" for k
  proof (induction k)
    case (Suc k)
    have "replicate (Suc k) (0xff :: byte) = replicate k 0xff @ [0xff]" by (simp add: replicate_append_same)
    then have "be_value (replicate (Suc k) (0xff :: byte)) = be_value (replicate k (0xff :: byte)) * 256 + 255" by simp
    with Suc show ?case by simp
  qed simp
  have zeros: "be_value (replicate k (0 :: byte)) = 0" for k by (simp add: be_value_0_iff)
  have p: "(256 :: int) ^ ?m * 256 ^ length bs = 2 ^ 64" using assms(2) by (simp flip: power_add)
  have "int (be_value ?ext) = sbe_value bs + (if sbe_value bs < 0 then 2 ^ 64 else 0)"
  proof (cases "sbe_value bs < 0")
    case True
    then have "int (be_value ?ext) = (256 ^ ?m - 1) * 256 ^ length bs + int (be_value bs)"
      using ones [of ?m] by (simp add: be_value_append)
    also have "\<dots> = 2 ^ 64 - 256 ^ length bs + int (be_value bs)"
      unfolding p [symmetric] by (simp add: algebra_simps)
    finally show ?thesis using True sbe_value_neg_iff [of bs] by (simp add: sbe_value_def)
  next
    case False
    then show ?thesis using nonneg_value [OF assms(1)] by (simp add: be_value_append zeros)
  qed
  moreover have "- (2 ^ 63) \<le> sbe_value bs \<and> sbe_value bs < 2 ^ 63"
  proof -
    have "(256 :: int) ^ length bs \<le> 256 ^ 8" using assms by (intro power_increasing) auto
    with sbe_value_bounds [OF assms(1)] show ?thesis by simp
  qed
  moreover have "(27670116110564327424 + x) mod 18446744073709551616 = x + 9223372036854775808"
    if "- 9223372036854775808 \<le> x" "x < 0" for x :: int
  proof -
    have "(27670116110564327424 + x) mod 18446744073709551616 =
        ((x + 9223372036854775808) + 18446744073709551616) mod 18446744073709551616" by (simp add: add.commute)
    also have "\<dots> = (x + 9223372036854775808) mod 18446744073709551616" by (rule mod_add_self2)
    also have "\<dots> = x + 9223372036854775808" using that by (intro mod_pos_pos_trivial) auto
    finally show ?thesis .
  qed
  ultimately show ?thesis
    by (simp add: signed_of_nat signed_take_bit_eq_take_bit_shift take_bit_eq_mod del: of_nat_unat)
qed

interpretation rd_int64: cbs_reader CBS_get_asn1_int64 sint "spec_asn1_int (- (2 ^ 63)) (2 ^ 63)"
  unfolding spec_asn1_int_def
proof (rule reader_decode [OF rd_asn1.cbs_reader_axioms])
  let ?h = "\<lambda>a. case CBS_is_valid_asn1_integer a of None \<Rightarrow> None
    | Some neg \<Rightarrow> if CBS_len a > 8 then None
        else Some (foldr (\<lambda>b r. shift_or r b) (fold (\<lambda>i u. u[i := cbs_bytes a ! (CBS_len a - i - 1)])
          [0..<CBS_len a] (replicate 8 (if neg then 0xff else 0 :: byte))) (0 :: u64))"
  show "CBS_get_asn1_int64 c = (case CBS_get_asn1 c CBS_ASN1_INTEGER of (None, c') \<Rightarrow> (None, c')
      | (Some a, c') \<Rightarrow> (?h a, c'))" for c
    by (auto simp: CBS_get_asn1_int64_def Let_def split: prod.splits option.splits)
  fix c a c' assume "cbs_inv c" "CBS_get_asn1 c CBS_ASN1_INTEGER = (Some a, c')"
  then have a: "cbs_inv a" by (rule CBS_get_asn1_inv)
  let ?b = "cbs_bytes a"
  have len: "CBS_len a = length ?b" using a by (simp add: CBS_len_def)
  show "map_option sint (?h a) =
      (if minimal_int ?b \<and> - (2 ^ 63) \<le> sbe_value ?b \<and> sbe_value ?b < 2 ^ 63 then Some (sbe_value ?b) else None)"
  proof (cases "minimal_int ?b")
    case True
    then have ne: "?b \<noteq> []" by auto
    have "length ?b \<le> 8 \<longleftrightarrow> - (2 ^ 63) \<le> sbe_value ?b \<and> sbe_value ?b < 2 ^ 63"
      using length_der_int [of 8 "sbe_value ?b"] der_int_sbe_value [OF True] by simp
    moreover have "length ?b \<le> 8 \<Longrightarrow> ?h a = Some (of_nat (be_value
        (replicate (8 - length ?b) (if sbe_value ?b < 0 then 0xff else 0) @ ?b)))"
      unfolding len valid_asn1_integer_eq [OF a] using True
      by (simp only: if_True option.case not_le [symmetric] if_False load_le not_not simp_thms)
    moreover have "\<not> length ?b \<le> 8 \<Longrightarrow> ?h a = None"
      unfolding len valid_asn1_integer_eq [OF a] by (simp add: not_le)
    ultimately show ?thesis
      using True sign_extend [OF ne] by (cases "length ?b \<le> 8") (simp_all only: option.map if_True if_False simp_thms)
  qed (simp add: a valid_asn1_integer_eq)
qed

section \<open>Booleans\<close>

definition spec_asn1_bool :: "byte list \<Rightarrow> (bool \<times> byte list) option" where
  "spec_asn1_bool bs = Option.bind (spec_asn1 CBS_ASN1_BOOLEAN bs)
     (\<lambda>(b, rest). map_option (\<lambda>v. (v, rest))
        (if b = [0] then Some False else if b = [0xff] then Some True else None))"

lemma spec_asn1_bool_iff:
  "spec_asn1_bool bs = Some (v, rest) \<longleftrightarrow> bs = der_element CBS_ASN1_BOOLEAN [if v then 0xff else 0] @ rest"
proof -
  have "spec_asn1_bool bs = Some (v, rest) \<longleftrightarrow> spec_asn1 CBS_ASN1_BOOLEAN bs = Some ([if v then 0xff else 0], rest)"
    unfolding spec_asn1_bool_def
    by (cases "spec_asn1 CBS_ASN1_BOOLEAN bs"; cases v) (auto split: if_splits)
  then show ?thesis by (simp add: spec_asn1_iff)
qed

lemma single_byte_cases: "length bs = 1 \<Longrightarrow> bs = [hd bs]"
  by (cases bs) auto

interpretation rd_bool: cbs_reader CBS_get_asn1_bool id spec_asn1_bool
  unfolding spec_asn1_bool_def
proof (rule reader_decode [OF rd_asn1.cbs_reader_axioms])
  show "CBS_get_asn1_bool c = (case CBS_get_asn1 c CBS_ASN1_BOOLEAN of (None, c') \<Rightarrow> (None, c')
      | (Some a, c') \<Rightarrow> (if CBS_len a \<noteq> 1 then None
          else let v = hd (cbs_bytes a) in if v \<noteq> 0 \<and> v \<noteq> 0xff then None else Some (v \<noteq> 0), c'))" for c
    by (auto simp: CBS_get_asn1_bool_def Let_def split: prod.splits option.splits)
next
  fix c a c' assume "cbs_inv c" "CBS_get_asn1 c CBS_ASN1_BOOLEAN = (Some a, c')"
  then have a: "cbs_inv a" by (rule CBS_get_asn1_inv)
  show "map_option id (if CBS_len a \<noteq> 1 then None
      else let v = hd (cbs_bytes a) in if v \<noteq> 0 \<and> v \<noteq> 0xff then None else Some (v \<noteq> 0)) =
    (if cbs_bytes a = [0] then Some False else if cbs_bytes a = [0xff] then Some True else None)"
    using single_byte_cases [of "cbs_bytes a"] unfolding CBS_len_def length_cbs_bytes [OF a, symmetric]
    by (cases "length (cbs_bytes a) = 1") (auto simp: Let_def)
qed

section \<open>Optional elements\<close>

lemma CBS_peek_asn1_tag_iff:
  assumes "cbs_inv c"
  shows "CBS_peek_asn1_tag c t \<longleftrightarrow> (\<exists>rest. cbs_bytes c = der_tag t @ rest)"
proof (cases "CBS_len c < 1")
  case True
  then have "cbs_bytes c = []" by (simp add: CBS_len_def cbs_bytes_def)
  moreover have "der_tag t \<noteq> []" by (simp add: der_tag_def Let_def)
  ultimately show ?thesis using True by (simp add: CBS_peek_asn1_tag_def)
next
  case False
  with assms show ?thesis by (simp add: CBS_peek_asn1_tag_def parse_asn1_tag_Some_iff)
qed

definition spec_optional :: "u32 \<Rightarrow> byte list \<Rightarrow> (byte list option \<times> byte list) option" where
  "spec_optional t bs =
     (if \<exists>rest. bs = der_tag t @ rest then map_option (map_prod Some id) (spec_asn1 t bs) else Some (None, bs))"

interpretation rd_optional: cbs_reader "\<lambda>c. CBS_get_optional_asn1 c t" "map_option cbs_bytes" "spec_optional t" for t
proof (rule cbs_readerI)
  fix c r c' assume c: "cbs_inv c" and run: "CBS_get_optional_asn1 c t = (r, c')"
  show "cbs_advances c' c \<and> spec_optional t (cbs_bytes c) =
      map_option (\<lambda>a. (map_option cbs_bytes a, cbs_bytes c')) r"
  proof (cases "CBS_peek_asn1_tag c t")
    case False
    with run c show ?thesis
      by (auto simp: CBS_get_optional_asn1_def spec_optional_def CBS_peek_asn1_tag_iff)
  next
    case True
    obtain oa c1 where g: "CBS_get_asn1 c t = (oa, c1)" by fastforce
    have "cbs_advances c1 c" using c g by (rule rd_asn1.advancesD)
    with True run c g show ?thesis
      by (cases oa) (auto simp: CBS_get_optional_asn1_def spec_optional_def CBS_peek_asn1_tag_iff
          rd_asn1.run_None rd_asn1.run_Some)
  qed
qed

lemma CBS_get_optional_inv:
  "cbs_inv c \<Longrightarrow> CBS_get_optional_asn1 c t = (Some (Some out), c') \<Longrightarrow> cbs_inv out"
  by (auto simp: CBS_get_optional_asn1_def dest: CBS_get_asn1_inv split: if_splits prod.splits option.splits)

section \<open>DER and BER\<close>

text \<open>
  The BER reader agrees with the DER reader on DER, and says so: it reports no BER-only
  encoding exactly when the DER reader accepts.
\<close>

lemma der_of_ber:
  "cbs_get_any_asn1_element c False =
     (case cbs_get_any_asn1_element c True of
        (Some (out, t, hl, False), c') \<Rightarrow> (Some (out, t, hl, False), c')
      | (_, _) \<Rightarrow> (None, c))"
  by (auto simp: cbs_get_any_asn1_element_def Let_def CBS_get_bytes_def cbs_get_def
      split: prod.splits option.splits if_splits bool.splits)

section \<open>Properties\<close>

lemmas cbs_eval =
  CBS_get_asn1_uint64_def CBS_get_asn1_int64_def CBS_get_asn1_bool_def CBS_get_asn1_def cbs_get_asn1_def
  CBS_get_any_asn1_element_def cbs_get_any_asn1_element_def parse_asn1_tag_def CBS_get_u8_def cbs_get_def
  CBS_init_def Let_def CBS_ASN1_TAG_SHIFT_def CBS_len_def CBS_get_bytes_def size_add_def SIZE_MOD_def
  CBS_ASN1_INTEGER_def CBS_ASN1_BOOLEAN_def CBS_skip_def CBS_is_unsigned_asn1_integer_def
  CBS_is_valid_asn1_integer_def cbs_bytes_def slice_def shift_or_def CBS_init_at_def

lemma replicate_8: "replicate 8 x = [x, x, x, x, x, x, x, x]"
  by (simp add: numeral_eq_Suc)

lemma cbs_inv_small: "length bs \<le> 1000 \<Longrightarrow> cbs_inv (CBS_init bs)"
  by (rule cbs_init_inv) (simp add: PTRDIFF_MAX_def)

text \<open>
  C1: \<open>CBS_get_any_asn1_element\<close> accepts exactly the inputs that start with a DER element: minimal
  identifier octets, minimal definite length octets (at most four) and the contents. It
  returns that element, its tag and the length of its header; the element lies inside the
  range of the reader, and the reader continues right after it.
\<close>

theorem CBS_get_any_asn1_element_exact:
  assumes "cbs_inv c"
  shows "case CBS_get_any_asn1_element c of
      (Some (out, t, hl), c') \<Rightarrow>
        (\<exists>body. cbs_bytes c = der_element t body @ cbs_bytes c' \<and> length body < 2 ^ 32 \<and>
           cbs_bytes out = der_element t body \<and> hl = length (der_tag t @ der_length (length body))) \<and>
        cbs_within out c \<and> cbs_advances c' c
    | (None, c') \<Rightarrow> \<not> (\<exists>t body rest. cbs_bytes c = der_element t body @ rest \<and> length body < 2 ^ 32)"
proof (cases "CBS_get_any_asn1_element c")
  case (Pair r c')
  show ?thesis
  proof (cases r)
    case None
    then have "spec_element (cbs_bytes c) = None" using rd_element.run_None [OF assms] Pair by simp
    with None Pair show ?thesis using spec_element_iff [of "cbs_bytes c"] by fastforce
  next
    case (Some e)
    obtain out t hl where e: "e = (out, t, hl)" by (cases e)
    have "spec_element (cbs_bytes c) = Some ((cbs_bytes out, t, hl), cbs_bytes c')"
      using rd_element.run_Some [OF assms] Pair Some e by (simp add: element_view_def)
    moreover have "cbs_within out c" using Pair Some e element_within by blast
    moreover have "cbs_advances c' c" using assms Pair by (rule rd_element.advancesD)
    ultimately show ?thesis using Pair Some e by (auto simp: spec_element_iff)
  qed
qed

theorem CBS_get_any_asn1_element_exact_witness:
  "cbs_inv (CBS_init [0x30, 2, 5, 0, 9]) \<and>
   (\<exists>out c'. CBS_get_any_asn1_element (CBS_init [0x30, 2, 5, 0, 9]) = (Some (out, 0x20000010, 2), c') \<and>
      cbs_within out (CBS_init [0x30, 2, 5, 0, 9]) \<and> cbs_advances c' (CBS_init [0x30, 2, 5, 0, 9]))"
proof -
  let ?c = "CBS_init [0x30, 2, 5, 0, 9]"
  have inv: "cbs_inv ?c" by (rule cbs_inv_small) simp
  have "map_option snd (fst (CBS_get_any_asn1_element ?c)) = Some (0x20000010, 2)" by (simp add: cbs_eval)
  then obtain out c' where r: "CBS_get_any_asn1_element ?c = (Some (out, 0x20000010, 2), c')"
    by (cases "CBS_get_any_asn1_element ?c") auto
  with CBS_get_any_asn1_element_exact [OF inv] inv show ?thesis by auto
qed

text \<open>
  C6: the BER element reader extends the DER reader: on every input the DER reader behaves as the
  BER reader does when the latter reports no BER-only encoding, and fails otherwise.
\<close>

theorem CBS_get_any_ber_asn1_element_extends_der:
  "CBS_get_any_asn1_element c =
     (case CBS_get_any_ber_asn1_element c of
        (Some (out, t, hl, ber_found), c') \<Rightarrow> if ber_found then (None, c) else (Some (out, t, hl), c')
      | (None, _) \<Rightarrow> (None, c))"
  unfolding CBS_get_any_asn1_element_def CBS_get_any_ber_asn1_element_def
  by (subst der_of_ber) (auto split: prod.split option.split bool.split)

text \<open>\<open>CBS_get_asn1\<close> succeeds exactly when the input starts with a DER element of the given tag,
  and returns its contents.
\<close>

lemma CBS_get_asn1_exact:
  assumes "cbs_inv c"
  shows "case CBS_get_asn1 c t of
      (Some out, c') \<Rightarrow> cbs_bytes c = der_element t (cbs_bytes out) @ cbs_bytes c' \<and> cbs_within out c
    | (None, c') \<Rightarrow> \<not> (\<exists>body rest. cbs_bytes c = der_element t body @ rest \<and> length body < 2 ^ 32)"
proof (cases "CBS_get_asn1 c t")
  case (Pair r c')
  show ?thesis
  proof (cases r)
    case None
    then have "spec_asn1 t (cbs_bytes c) = None" using rd_asn1.run_None [OF assms] Pair by simp
    with None Pair show ?thesis using spec_asn1_iff [of t "cbs_bytes c"] by fastforce
  next
    case (Some out)
    then have "spec_asn1 t (cbs_bytes c) = Some (cbs_bytes out, cbs_bytes c')"
      using rd_asn1.run_Some [OF assms] Pair by simp
    moreover have "cbs_within out c" using Pair Some cbs_get_asn1_within by (simp add: CBS_get_asn1_def)
    ultimately show ?thesis using Pair Some by (simp add: spec_asn1_iff)
  qed
qed

text \<open>The contents that \<open>CBS_is_valid_asn1_integer\<close> accepts are exactly the shortest two's-complement
  encodings of the integers, and it reports the sign.
\<close>

lemma CBS_is_valid_asn1_integer_exact:
  assumes "cbs_inv c"
  shows "CBS_is_valid_asn1_integer c = Some neg \<longleftrightarrow> (\<exists>v. cbs_bytes c = der_int v \<and> neg = (v < 0))"
proof -
  have "minimal_int (cbs_bytes c) \<and> neg = (sbe_value (cbs_bytes c) < 0) \<longleftrightarrow> (\<exists>v. cbs_bytes c = der_int v \<and> neg = (v < 0))"
    using minimal_int_iff [of "cbs_bytes c"] minimal_der_int sbe_value_der_int by metis
  then show ?thesis by (auto simp: valid_asn1_integer_eq [OF assms])
qed

text \<open>
  C7: \<open>CBS_get_asn1_uint64\<close> accepts exactly the DER encodings of the integers from 0 to \<open>2^64 - 1\<close>
  and returns the integer.
\<close>

theorem CBS_get_asn1_uint64_exact:
  assumes "cbs_inv c"
  shows "case CBS_get_asn1_uint64 c of
      (Some v, c') \<Rightarrow> cbs_bytes c = der_element CBS_ASN1_INTEGER (der_int (uint v)) @ cbs_bytes c' \<and> cbs_advances c' c
    | (None, c') \<Rightarrow> \<not> (\<exists>v rest. 0 \<le> v \<and> v < 2 ^ 64 \<and> cbs_bytes c = der_element CBS_ASN1_INTEGER (der_int v) @ rest)"
proof (cases "CBS_get_asn1_uint64 c")
  case (Pair r c')
  have ex: "spec_asn1_int 0 (2 ^ 64) bs = Some (v, rest) \<longleftrightarrow>
      bs = der_element CBS_ASN1_INTEGER (der_int v) @ rest \<and> 0 \<le> v \<and> v < 2 ^ 64" for bs v rest
    by (rule spec_asn1_int_iff) simp_all
  show ?thesis
  proof (cases r)
    case None
    then have "spec_asn1_int 0 (2 ^ 64) (cbs_bytes c) = None" using rd_uint64.run_None [OF assms] Pair by simp
    then have "\<not> (\<exists>v rest. 0 \<le> v \<and> v < 2 ^ 64 \<and> cbs_bytes c = der_element CBS_ASN1_INTEGER (der_int v) @ rest)"
      using ex by (metis option.distinct(1))
    with None Pair show ?thesis by simp
  next
    case (Some v)
    then have "spec_asn1_int 0 (2 ^ 64) (cbs_bytes c) = Some (uint v, cbs_bytes c')"
      using rd_uint64.run_Some [OF assms] Pair by simp
    moreover have "cbs_advances c' c" using assms Pair by (rule rd_uint64.advancesD)
    ultimately show ?thesis using Pair Some unfolding ex by simp
  qed
qed

theorem CBS_get_asn1_uint64_exact_witness:
  "cbs_inv (CBS_init [2, 2, 0, 0x80]) \<and>
   (\<exists>c'. CBS_get_asn1_uint64 (CBS_init [2, 2, 0, 0x80]) = (Some 128, c') \<and> cbs_advances c' (CBS_init [2, 2, 0, 0x80]))"
proof -
  let ?c = "CBS_init [2, 2, 0, 0x80]"
  have inv: "cbs_inv ?c" by (rule cbs_inv_small) simp
  have "fst (CBS_get_asn1_uint64 ?c) = Some 128" by (simp add: cbs_eval)
  then obtain c' where "CBS_get_asn1_uint64 ?c = (Some 128, c')" by (metis prod.collapse)
  with CBS_get_asn1_uint64_exact [OF inv] inv show ?thesis by auto
qed

text \<open>\<open>CBS_get_asn1_int64\<close> accepts exactly the DER encodings of the integers from \<open>-2^63\<close> to
  \<open>2^63 - 1\<close> and returns the integer, sign-extended.
\<close>

lemma CBS_get_asn1_int64_exact:
  assumes "cbs_inv c"
  shows "case CBS_get_asn1_int64 c of
      (Some v, c') \<Rightarrow> cbs_bytes c = der_element CBS_ASN1_INTEGER (der_int (sint v)) @ cbs_bytes c' \<and> cbs_advances c' c
    | (None, c') \<Rightarrow> \<not> (\<exists>v rest. - (2 ^ 63) \<le> v \<and> v < 2 ^ 63 \<and>
        cbs_bytes c = der_element CBS_ASN1_INTEGER (der_int v) @ rest)"
proof (cases "CBS_get_asn1_int64 c")
  case (Pair r c')
  have ex: "spec_asn1_int (- (2 ^ 63)) (2 ^ 63) bs = Some (v, rest) \<longleftrightarrow>
      bs = der_element CBS_ASN1_INTEGER (der_int v) @ rest \<and> - (2 ^ 63) \<le> v \<and> v < 2 ^ 63" for bs v rest
    by (rule spec_asn1_int_iff) simp_all
  show ?thesis
  proof (cases r)
    case None
    then have "spec_asn1_int (- (2 ^ 63)) (2 ^ 63) (cbs_bytes c) = None" using rd_int64.run_None [OF assms] Pair by simp
    then have "\<not> (\<exists>v rest. - (2 ^ 63) \<le> v \<and> v < 2 ^ 63 \<and> cbs_bytes c = der_element CBS_ASN1_INTEGER (der_int v) @ rest)"
      using ex by (metis option.distinct(1))
    with None Pair show ?thesis by simp
  next
    case (Some v)
    then have "spec_asn1_int (- (2 ^ 63)) (2 ^ 63) (cbs_bytes c) = Some (sint v, cbs_bytes c')"
      using rd_int64.run_Some [OF assms] Pair by simp
    moreover have "cbs_advances c' c" using assms Pair by (rule rd_int64.advancesD)
    ultimately show ?thesis using Pair Some unfolding ex by simp
  qed
qed

text \<open>\<open>CBS_get_asn1_bool\<close> accepts exactly the two DER booleans, 00 for false and FF for true.\<close>

lemma CBS_get_asn1_bool_exact:
  assumes "cbs_inv c"
  shows "case CBS_get_asn1_bool c of
      (Some v, c') \<Rightarrow> cbs_bytes c = der_element CBS_ASN1_BOOLEAN [if v then 0xff else 0] @ cbs_bytes c'
    | (None, c') \<Rightarrow> \<not> (\<exists>v rest. cbs_bytes c = der_element CBS_ASN1_BOOLEAN [if v then 0xff else 0] @ rest)"
proof (cases "CBS_get_asn1_bool c")
  case (Pair r c')
  show ?thesis
  proof (cases r)
    case None
    then have "spec_asn1_bool (cbs_bytes c) = None" using rd_bool.run_None [OF assms] Pair by simp
    then have "\<not> (\<exists>v rest. cbs_bytes c = der_element CBS_ASN1_BOOLEAN [if v then 0xff else 0] @ rest)"
      using spec_asn1_bool_iff [of "cbs_bytes c"] by (metis option.distinct(1))
    with None Pair show ?thesis by simp
  next
    case (Some v)
    then have "spec_asn1_bool (cbs_bytes c) = Some (v, cbs_bytes c')"
      using rd_bool.run_Some [OF assms] Pair by simp
    with Pair Some show ?thesis unfolding spec_asn1_bool_iff by simp
  qed
qed

lemma CBS_get_asn1_bool_exact_witness:
  "cbs_inv (CBS_init [1, 1, 0xff, 8]) \<and>
   (\<exists>c'. CBS_get_asn1_bool (CBS_init [1, 1, 0xff, 8]) = (Some True, c') \<and>
      [1, 1, 0xff, 8] = der_element CBS_ASN1_BOOLEAN [0xff] @ cbs_bytes c')"
proof -
  let ?c = "CBS_init [1, 1, 0xff, 8]"
  have inv: "cbs_inv ?c" by (rule cbs_inv_small) simp
  have "fst (CBS_get_asn1_bool ?c) = Some True" by (simp add: cbs_eval)
  then obtain c' where "CBS_get_asn1_bool ?c = (Some True, c')" by (metis prod.collapse)
  with CBS_get_asn1_bool_exact [OF inv] inv show ?thesis by auto
qed

end
