(* ===== verification/Cbb_Int.thy ===== *)
theory Cbb_Int
  imports Cbb_Asn1 Cbs_Values
begin

text \<open>
  The \<open>INTEGER\<close> writers of \<open>cbb.c\<close>. Both write the unique DER encoding \<open>der_int\<close> of their
  argument, unsigned and signed.
\<close>

section \<open>Signed integers\<close>

text \<open>\<open>u.bytes[i]\<close> of the union of an \<open>int64_t\<close> and its little-endian bytes.\<close>

definition int64_byte :: "u64 \<Rightarrow> nat \<Rightarrow> byte" where
  "int64_byte v i = ucast (drop_bit (8 * i) v)"

text \<open>The loop that skips the sign-extension bytes that are not needed.\<close>

fun int64_start :: "u64 \<Rightarrow> nat \<Rightarrow> nat" where
  "int64_start v 0 = 0"
| "int64_start v (Suc start) =
     (if int64_byte v (Suc start) = 0xff \<and> int64_byte v start AND 0x80 \<noteq> 0
      then int64_start v start else Suc start)"

text \<open>The loop over \<open>i = start, ..., 0\<close>; the argument is \<open>i + 1\<close>.\<close>

fun add_int64_loop :: "libc_malloc \<Rightarrow> CBB \<Rightarrow> nat \<Rightarrow> u64 \<Rightarrow> nat \<Rightarrow> bool \<times> CBB" where
  "add_int64_loop malloc cbb d v 0 = (True, cbb)"
| "add_int64_loop malloc cbb d v (Suc i) =
     (case CBB_add_u8 malloc cbb d (int64_byte v i) of
        (False, cbb1) \<Rightarrow> (False, cbb1)
      | (True, cbb1) \<Rightarrow> add_int64_loop malloc cbb1 d v i)"

definition CBB_add_asn1_int64 :: "libc_malloc \<Rightarrow> CBB \<Rightarrow> nat \<Rightarrow> u64 \<Rightarrow> bool \<times> CBB" where
  "CBB_add_asn1_int64 malloc cbb d v =
     (if 0 \<le> sint v then CBB_add_asn1_uint64 malloc cbb d v
      else (let start = int64_start v 7 in
            case CBB_add_asn1 malloc cbb d CBS_ASN1_INTEGER of
              (False, cbb1) \<Rightarrow> (False, cbb1)
            | (True, cbb1) \<Rightarrow>
                (case add_int64_loop malloc cbb1 (Suc d) v (Suc start) of
                   (False, cbb2) \<Rightarrow> (False, cbb2)
                 | (True, cbb2) \<Rightarrow> CBB_flush malloc cbb2 d)))"

section \<open>Bytes of a word\<close>

lemma int64_byte_eq: "int64_byte v i = of_nat (unat v div 256 ^ i)"
proof -
  have "int64_byte v i = of_nat (unat (drop_bit (8 * i) v))" by (simp add: int64_byte_def)
  also have "unat (drop_bit (8 * i) v) = unat v div 256 ^ i"
    by (simp only: unat_drop_bit_eq drop_bit_eq_div [where 'a = nat] power_mult) simp
  finally show ?thesis .
qed

lemma be_bytes_Cons: "be_bytes (Suc k) n = of_nat (n div 256 ^ k) # be_bytes k n"
proof (induction k arbitrary: n)
  case (Suc k)
  have "be_bytes (Suc (Suc k)) n = be_bytes (Suc k) (n div 256) @ [of_nat n]" by simp
  also have "\<dots> = of_nat (n div 256 div 256 ^ k) # be_bytes k (n div 256) @ [of_nat n]"
    by (simp only: Suc append_Cons)
  finally show ?case by (simp add: div_mult2_eq)
qed simp

section \<open>Unsigned integers\<close>

lemma add_uint64_loop_started:
  "add_uint64_loop m c d v True k = ((ok, s), c') \<Longrightarrow> s"
  by (induction k arbitrary: c) (auto simp: Let_def split: prod.splits bool.splits)

text \<open>A positive integer in DER: its first non-zero octet, padded if its top bit is set, and the rest.\<close>

lemma der_int_pos:
  assumes "b \<noteq> 0"
  shows "der_int (int (be_value (b # bs))) = (if 128 \<le> unat b then [0] else []) @ b # bs"
    (is "_ = ?enc")
proof -
  have "minimal_int ?enc" using assms by (cases bs) (auto simp: word_unat_eq_iff)
  moreover have "sbe_value ?enc = int (be_value (b # bs))"
    by (simp add: sbe_value_def be_value_Cons [of 0])
  ultimately show ?thesis using der_int_sbe_value by metis
qed

definition add_uint64_body :: "u64 \<Rightarrow> nat \<Rightarrow> libc_malloc \<Rightarrow> CBB \<Rightarrow> nat \<Rightarrow> bool \<times> CBB" where
  "add_uint64_body v k m c d =
     (case add_uint64_loop m c d v False k of
        ((False, _), c2) \<Rightarrow> (False, c2)
      | ((True, started), c2) \<Rightarrow> if \<not> started then CBB_add_u8 m c2 d 0 else (True, c2))"

lemma CBB_add_asn1_uint64_eq:
  "CBB_add_asn1_uint64 m c d v =
     (case CBB_add_asn1 m c d CBS_ASN1_INTEGER of
        (False, c1) \<Rightarrow> (False, c1)
      | (True, c1) \<Rightarrow>
          (case add_uint64_body v 8 m c1 (Suc d) of
             (False, c2) \<Rightarrow> (False, c2)
           | (True, c2) \<Rightarrow> CBB_flush m c2 d))"
  by (auto simp: CBB_add_asn1_uint64_def add_uint64_body_def split: prod.splits bool.splits)

text \<open>Once a byte has been written the loop is a plain big-endian writer.\<close>

lemma add_int64_loop_writer: "cbb_writer (\<lambda>m c d. add_int64_loop m c d v (Suc k)) (be_bytes (Suc k) (unat v))"
proof (induction k)
  case 0
  have "add_int64_loop m c d v (Suc 0) = CBB_add_u8 m c d (int64_byte v 0)" for m c d
    by (simp split: prod.split bool.split)
  then show ?case using wr_u8.cbb_writer_axioms [of "int64_byte v 0"] by (simp add: int64_byte_eq)
next
  case (Suc k)
  have "cbb_writer (\<lambda>m c d. add_int64_loop m c d v (Suc (Suc k))) ([int64_byte v (Suc k)] @ be_bytes (Suc k) (unat v))"
    by (rule writer_seq [OF wr_u8.cbb_writer_axioms Suc]) simp
  then show ?case by (simp only: be_bytes_Cons [of "Suc k"] int64_byte_eq append_Cons append_Nil)
qed

lemma add_uint64_loop_eq_int64:
  "add_uint64_loop m c d v True k = (case add_int64_loop m c d v k of (ok, c') \<Rightarrow> ((ok, True), c'))"
  by (induction k arbitrary: c) (simp_all add: int64_byte_def Let_def split: prod.split bool.split)

lemma add_uint64_body_step:
  assumes "int64_byte v k \<noteq> 0"
  shows "add_uint64_body v (Suc k) m c d =
    (case (if 128 \<le> unat (int64_byte v k) then CBB_add_u8 m c d 0 else (True, c)) of
       (False, c1) \<Rightarrow> (False, c1) | (True, c1) \<Rightarrow> add_int64_loop m c1 d v (Suc k))"
  using assms byte_high_bit_iff [of "int64_byte v k"]
  by (simp add: add_uint64_body_def Let_def add_uint64_loop_eq_int64 int64_byte_def split: prod.split bool.split)

lemma add_uint64_body_writer:
  "cbb_writer (add_uint64_body v k) (der_int (int (unat v mod 256 ^ k)))"
proof (induction k)
  case 0
  have "add_uint64_body v 0 = (\<lambda>m c d. CBB_add_u8 m c d 0)" by (intro ext) (simp add: add_uint64_body_def)
  then show ?case using wr_u8.cbb_writer_axioms [of 0] by (simp add: der_int_0)
next
  case (Suc k)
  let ?b = "int64_byte v k" and ?n = "unat v mod 256 ^ Suc k"
  have n: "?n = unat ?b * 256 ^ k + unat v mod 256 ^ k"
    by (simp only: int64_byte_eq byte_simps) (metis mod_mult2_eq power_Suc2 mult.commute)
  show ?case
  proof (cases "?b = 0")
    case True
    have "add_uint64_body v (Suc k) = add_uint64_body v k"
      using True by (intro ext) (simp add: add_uint64_body_def int64_byte_def)
    moreover have "?n = unat v mod 256 ^ k" using n True by simp
    ultimately show ?thesis using Suc by (simp only:)
  next
    case False
    have be: "be_value (be_bytes (Suc k) (unat v)) = ?n" by (simp only: be_value_be_bytes)
    have bs: "?b # be_bytes k (unat v) = be_bytes (Suc k) (unat v)"
      by (simp only: be_bytes_Cons int64_byte_eq)
    note body = add_uint64_body_step [OF False]
    show ?thesis
    proof (cases "128 \<le> unat ?b")
      case True
      have "cbb_writer (add_uint64_body v (Suc k)) ([0] @ be_bytes (Suc k) (unat v))"
        by (rule writer_seq [OF wr_u8.cbb_writer_axioms add_int64_loop_writer]) (simp only: body True if_True)
      then show ?thesis using der_int_pos [OF False, of "be_bytes k (unat v)"] True by (simp only: bs be if_True)
    next
      case small: False
      have "add_uint64_body v (Suc k) = (\<lambda>m c d. add_int64_loop m c d v (Suc k))"
        by (intro ext) (simp only: body small if_False prod.case bool.case)
      then show ?thesis using add_int64_loop_writer [of v k] der_int_pos [OF False, of "be_bytes k (unat v)"] small
        by (simp only: bs be if_False append_Nil)
    qed
  qed
qed

interpretation wr_uint64: cbb_writer "\<lambda>m c d. CBB_add_asn1_uint64 m c d v"
    "der_element CBS_ASN1_INTEGER (der_int (uint v))" for v
proof -
  have "unat v < 256 ^ 8" using unsigned_less [of v] by simp
  then have "cbb_writer (add_uint64_body v 8) (der_int (uint v))"
    using add_uint64_body_writer [of v 8] by simp
  then show "cbb_writer (\<lambda>m c d. CBB_add_asn1_uint64 m c d v) (der_element CBS_ASN1_INTEGER (der_int (uint v)))"
    by (rule element_writer) (rule CBB_add_asn1_uint64_eq)
qed

section \<open>Signed integers\<close>

lemma sbe_value_sign_octet:
  assumes "128 \<le> unat b"
  shows "sbe_value (0xff # b # bs) = sbe_value (b # bs)"
proof -
  have "int (be_value (0xff # b # bs)) = 255 * 256 ^ length (b # bs) + int (be_value (b # bs))"
    by (simp add: be_value_Cons [of "0xff"])
  with assms show ?thesis by (simp add: sbe_value_def)
qed

lemma int64_start_bytes:
  assumes "128 \<le> unat (int64_byte v s)"
  shows "minimal_int (be_bytes (Suc (int64_start v s)) (unat v))"
    and "sbe_value (be_bytes (Suc (int64_start v s)) (unat v)) = sbe_value (be_bytes (Suc s) (unat v))"
  using assms
proof (induction s)
  case (Suc s)
  let ?n = "unat v"
  have bs: "be_bytes (Suc (Suc s)) ?n = int64_byte v (Suc s) # int64_byte v s # be_bytes s ?n"
    by (simp only: be_bytes_Cons int64_byte_eq)
  { case 1
    then show ?case using Suc byte_high_bit_iff [of "int64_byte v s"] by (auto simp: bs simp del: be_bytes.simps)
  next
    case 2
    show ?case
    proof (cases "int64_byte v (Suc s) = 0xff \<and> 128 \<le> unat (int64_byte v s)")
      case True
      have "sbe_value (be_bytes (Suc (Suc s)) ?n) = sbe_value (be_bytes (Suc s) ?n)"
        using True sbe_value_sign_octet [of "int64_byte v s" "be_bytes s ?n"]
        by (simp only: bs be_bytes_Cons [of s] int64_byte_eq [symmetric] simp_thms)
      with True Suc show ?thesis by (simp add: byte_high_bit_iff del: be_bytes.simps)
    next
      case False
      then have "int64_start v (Suc s) = Suc s" by (auto simp: byte_high_bit_iff)
      then show ?thesis by (simp only:)
    qed
  }
qed simp_all

lemma uint64_nat_less: "unat (v :: u64) < 256 ^ 8"
proof -
  have "unat v < 2 ^ LENGTH(64)" by (rule unsigned_less)
  then show ?thesis by simp
qed

lemma uint_eq_sint:
  assumes "0 \<le> sint (v :: u64)"
  shows "uint v = sint v"
proof -
  have "sint v < 2 ^ 63" using sint_lt [of v] by simp
  with assms show ?thesis by (simp add: uint_sint take_bit_int_eq_self)
qed

interpretation wr_int64: cbb_writer "\<lambda>m c d. CBB_add_asn1_int64 m c d v"
    "der_element CBS_ASN1_INTEGER (der_int (sint v))" for v
proof (cases "0 \<le> sint v")
  case True
  then have "uint v = sint v" by (rule uint_eq_sint)
  with True wr_uint64.cbb_writer_axioms [of v]
  show "cbb_writer (\<lambda>m c d. CBB_add_asn1_int64 m c d v) (der_element CBS_ASN1_INTEGER (der_int (sint v)))"
    by (simp add: CBB_add_asn1_int64_def)
next
  case False
  let ?bs = "be_bytes 8 (unat v)"
  have "be_value ?bs = unat v" using uint64_nat_less [of v] by (simp add: be_value_be_bytes)
  then have sv: "sbe_value ?bs = sint v"
    using sign_extend [of ?bs] length_0_conv [of ?bs] by simp
  with False have "128 \<le> unat (int64_byte v 7)"
    using sbe_value_neg_iff [of ?bs] be_bytes_Cons [of 7 "unat v"] by (simp add: int64_byte_eq)
  note st = int64_start_bytes [OF this]
  then have "be_bytes (Suc (int64_start v 7)) (unat v) = der_int (sint v)"
    using der_int_sbe_value [OF st(1)] sv by simp
  with add_int64_loop_writer [of v "int64_start v 7"]
  have "cbb_writer (\<lambda>m c d. add_int64_loop m c d v (Suc (int64_start v 7))) (der_int (sint v))" by simp
  then show "cbb_writer (\<lambda>m c d. CBB_add_asn1_int64 m c d v) (der_element CBS_ASN1_INTEGER (der_int (sint v)))"
    by (rule element_writer) (simp add: CBB_add_asn1_int64_def False Let_def)
qed

end
