(* ===== verification/Cbb_Total.thy ===== *)
theory Cbb_Total
  imports Cbb_Int
begin

text \<open>
  The builder returns. The other theories say what a successful call has done; here it is
  shown that calls succeed when the buffer may grow and the allocator serves the sizes that
  doubling can ask for (\<open>cbb_room\<close>), and that every failure is recorded: the error flag of
  the buffer is sticky.
\<close>

section \<open>Growing the buffer\<close>

text \<open>
  \<open>serves malloc n\<close>: the allocator serves every block the buffer can ask for while its contents
  are at most \<open>n\<close> bytes; the capacity is at most doubled, and \<open>OPENSSL_malloc\<close> adds a prefix.
\<close>

definition serves :: "libc_malloc \<Rightarrow> nat \<Rightarrow> bool" where
  "serves malloc n \<longleftrightarrow> 2 * n + OPENSSL_MALLOC_PREFIX < SIZE_MOD \<and> (\<forall>k \<le> 2 * n + OPENSSL_MALLOC_PREFIX. malloc k \<noteq> None)"

lemma serves_mono: "serves malloc n \<Longrightarrow> m \<le> n \<Longrightarrow> serves malloc m"
  by (auto simp: serves_def)

lemma OPENSSL_malloc_serves: "serves malloc n \<Longrightarrow> k \<le> 2 * n \<Longrightarrow> \<exists>blk. OPENSSL_malloc malloc k = Some blk"
proof -
  assume s: "serves malloc n" "k \<le> 2 * n"
  then have "size_add k OPENSSL_MALLOC_PREFIX = k + OPENSSL_MALLOC_PREFIX"
    by (intro size_add_no_wrap) (simp add: serves_def)
  moreover have "malloc (k + OPENSSL_MALLOC_PREFIX) \<noteq> None" using s by (simp add: serves_def)
  ultimately show ?thesis by (auto simp: OPENSSL_malloc_def)
qed

lemma cbb_buffer_reserve_succeeds:
  assumes inv: "buffer_inv b" and rs: "can_resize b" and s: "serves malloc (len b + n)"
  shows "\<exists>b'. cbb_buffer_reserve malloc b n = (True, b')"
proof -
  have sum: "size_add (len b) n = len b + n"
    using s by (intro size_add_no_wrap) (simp add: serves_def)
  have mul: "size_mul (cap b) 2 \<le> 2 * cap b" by (simp add: size_mul_def mult.commute)
  show ?thesis
  proof (cases "len b + n > cap b")
    case True
    let ?newcap = "if size_mul (cap b) 2 < cap b \<or> size_mul (cap b) 2 < len b + n then len b + n else size_mul (cap b) 2"
    have "?newcap \<le> 2 * (len b + n)" using mul True by auto
    then obtain blk where "OPENSSL_malloc malloc ?newcap = Some blk" using OPENSSL_malloc_serves [OF s] by blast
    with True sum rs show ?thesis
      by (auto simp: cbb_buffer_reserve_def Let_def OPENSSL_realloc_def split: if_splits)
  qed (simp add: cbb_buffer_reserve_def Let_def sum)
qed

lemma cbb_buffer_add_succeeds:
  assumes "buffer_inv b" "can_resize b" "serves malloc (len b + n)"
  shows "\<exists>b'. cbb_buffer_add malloc b n = (True, b')"
  using cbb_buffer_reserve_succeeds [OF assms] by (auto simp: cbb_buffer_add_def)

lemma cbb_write_prefix_succeeds:
  assumes m: "malloc_law malloc" and inv: "buffer_inv b" "can_resize b" and sv: "serves malloc (len b + 4)"
    and s: "s = offset ch + pending_len_len ch" "s \<le> len b"
    and asn1: "pending_is_asn1 ch \<Longrightarrow> pending_len_len ch = 1"
    and p: "prefix_of ch (len b - s) = Some p"
  shows "\<exists>b'. cbb_write_prefix malloc b ch s = (True, b')"
proof (cases "pending_is_asn1 ch")
  case False
  let ?n = "len b - s" and ?k = "pending_len_len ch"
  have "offset ch + ?k \<le> length (buf b)" using inv s by (auto simp: buffer_inv_def)
  from write_be_eq [OF this] False p show ?thesis
    by (auto simp: cbb_write_prefix_def Let_def prefix_of_def div_eq_0_iff split: if_splits)
next
  case True
  let ?n = "len b - s"
  have n: "?n \<le> 0xfffffffe" using True p by (auto simp: prefix_of_def split: if_splits)
  show ?thesis
  proof (cases "?n < 128")
    case short: True
    with True n show ?thesis by (simp add: cbb_write_prefix_def asn1_length_form_eq Let_def)
  next
    case False
    let ?k = "octets ?n"
    have k: "?k \<le> 4" using n octets_le_4 [of ?n] by simp
    obtain b1 where add: "cbb_buffer_add malloc b ?k = (True, b1)"
      using cbb_buffer_add_succeeds [OF inv] sv k serves_mono by (metis add_left_mono)
    define b2 where "b2 = b1\<lparr>buf := splice (buf b1) (s + ?k) (slice (buf b1) s ?n)\<rparr>"
    obtain bytes r where wr: "write_be ((buf b2)[offset ch := of_nat (128 + ?k)]) (offset ch + 1) ?k ?n = (bytes, r)"
      by fastforce
    have "r = 0"
      using write_long_prefix(1) [OF m inv(1) _ s(2) refl n refl add b2_def wr] asn1 [OF True] s by simp
    with True False n add wr octets_pos [of ?n] show ?thesis
      by (auto simp: cbb_write_prefix_def asn1_length_form_eq Let_def b2_def)
  qed
qed

section \<open>Flushing succeeds\<close>

definition cbb_room :: "libc_malloc \<Rightarrow> CBB \<Rightarrow> nat \<Rightarrow> bool" where
  "cbb_room malloc cbb n \<longleftrightarrow>
     (\<exists>b. base cbb = Some b \<and> \<not> error b \<and> can_resize b \<and> serves malloc (len b + 4 * length (children cbb) + n))"

lemma prefix_len: "prefix_of ch n = Some p \<Longrightarrow> (pending_is_asn1 ch \<longrightarrow> pending_len_len ch = 1) \<Longrightarrow>
    length p \<le> pending_len_len ch + 4"
  using octets_le_4 [of n] by (auto simp: prefix_of_def der_length_def split: if_splits)

lemma CBB_flush_succeeds_aux:
  assumes "malloc_law malloc" "d \<le> length (children cbb)" "base cbb = Some b" "buffer_inv b"
    "chain_ok s (len b) (drop d (children cbb))" "\<not> error b" "can_resize b"
    "serves malloc (len b + 4 * (length (children cbb) - d))"
    "collapse (drop d (children cbb)) (views (used b) s (drop d (children cbb))) \<noteq> None"
  shows "\<exists>cbb' b'. CBB_flush malloc cbb d = (True, cbb') \<and> base cbb' = Some b' \<and>
    len b' \<le> len b + 4 * (length (children cbb) - d)"
  using assms
proof (induction malloc cbb d arbitrary: s rule: CBB_flush.induct)
  case (1 malloc cbb d)
  let ?chs = "children cbb"
  show ?case
  proof (cases "d = length ?chs")
    case True
    with "1.prems" show ?thesis by (simp add: CBB_flush.simps [of malloc cbb "length ?chs"])
  next
    case False
    with "1.prems"(2) have d: "d < length ?chs" by simp
    define ch where "ch = ?chs ! d"
    let ?s' = "offset ch + pending_len_len ch"
    have split: "drop d ?chs = ch # drop (Suc d) ?chs" using d by (simp add: ch_def Cons_nth_drop_Suc)
    with "1.prems"(5) have ok: "s \<le> offset ch" "0 < pending_len_len ch"
      "pending_is_asn1 ch \<Longrightarrow> pending_len_len ch = 1" "chain_ok ?s' (len b) (drop (Suc d) ?chs)" by auto
    have s': "?s' \<le> len b" using chain_ok_le [OF ok(4)] .
    have nowrap: "size_add (offset ch) (pending_len_len ch) = ?s'"
      using s' "1.prems"(4) by (intro size_add_no_wrap) (auto simp: buffer_inv_def)
    obtain body p where body: "collapse (drop (Suc d) ?chs) (views (used b) ?s' (drop (Suc d) ?chs)) = Some body"
      and p: "prefix_of ch (length body) = Some p"
      using "1.prems"(9) by (auto simp: split split: option.splits)
    have four: "length ?chs - d = Suc (length ?chs - Suc d)" using d by simp
    have "\<exists>cbb' b'. CBB_flush malloc cbb (Suc d) = (True, cbb') \<and> base cbb' = Some b' \<and>
        len b' \<le> len b + 4 * (length ?chs - Suc d)"
      using "1.prems" d ok body serves_mono [OF "1.prems"(8), of "len b + 4 * (length ?chs - Suc d)"]
      by (intro "1.IH") (auto simp: ch_def)
    then obtain cbb1 b1 where f1: "CBB_flush malloc cbb (Suc d) = (True, cbb1)" and b1: "base cbb1 = Some b1"
      and l1: "len b1 \<le> len b + 4 * (length ?chs - Suc d)" by blast
    have "flushed (Suc d) ?s' b ?chs cbb1"
      using "1.prems" d ok f1 by (intro CBB_flush_refines) auto
    then have fl: "children cbb1 = take (Suc d) ?chs" "buffer_inv b1" "can_resize b1" "used b1 = take ?s' (used b) @ body"
      using b1 body "1.prems"(7) by (auto simp: flushed_def)
    have lb: "len b1 = ?s' + length body"
      using fl(2,4) s' "1.prems"(4) by (metis length_append length_take length_used min.absorb2)
    have sv: "serves malloc (len b1 + 4)" using "1.prems"(8) l1 four by (auto elim: serves_mono)
    have p': "prefix_of ch (len b1 - ?s') = Some p" using p lb by simp
    obtain b2 where w: "cbb_write_prefix malloc b1 ch ?s' = (True, b2)"
      using cbb_write_prefix_succeeds [OF "1.prems"(1) fl(2,3) sv refl _ ok(3) p'] lb by auto
    have u2: "used b2 = take (offset ch) (used b1) @ p @ drop ?s' (used b1)" "buffer_inv b2"
      using cbb_write_prefix_True [OF "1.prems"(1) fl(2) refl _ ok(3) w] lb p' by auto
    have "len b2 = offset ch + length p + (len b1 - ?s')"
      using length_used [OF u2(2)] fl(2) lb by (simp add: u2(1))
    then have l2: "len b2 \<le> len b + 4 * (length ?chs - d)"
      using prefix_len [OF p'] ok(3) l1 four lb by auto
    have "CBB_flush malloc cbb d = (True, cbb1\<lparr>base := Some b2, children := take d (children cbb1)\<rparr>)"
      using d "1.prems"(3,6) ok(2) f1 b1 w lb nowrap
      by (simp add: CBB_flush.simps [of malloc cbb d] Let_def flip: ch_def)
    with l2 show ?thesis by auto
  qed
qed

text \<open>The children of the \<open>CBB\<close> at depth \<open>d\<close> can be closed: every length fits its prefix.\<close>

definition cbb_closable :: "CBB \<Rightarrow> nat \<Rightarrow> bool" where
  "cbb_closable cbb d \<longleftrightarrow>
     d \<le> length (children cbb) \<and> collapse (drop d (children cbb)) (drop d (cbb_views cbb)) \<noteq> None"

lemma appended_closable:
  assumes "appended d x cbb cbb'"
  shows "cbb_closable cbb' d"
proof -
  obtain body where c: "children cbb' = take d (children cbb)" "d \<le> length (children cbb)"
    "collapse (drop d (children cbb)) (drop d (cbb_views cbb)) = Some body"
    "cbb_views cbb' = take d (cbb_views cbb) @ [body @ x]" using assms by (auto simp: appended_def)
  have "drop d (cbb_views cbb) \<noteq> []" using c(3) by (cases "drop d (children cbb)") auto
  then show ?thesis using c by (simp add: cbb_closable_def)
qed

lemma opened_closable: "opened d k asn1 pre cbb cbb' \<Longrightarrow> cbb_closable cbb' (Suc d)"
proof -
  assume "opened d k asn1 pre cbb cbb'"
  then obtain off body where c: "children cbb' = take d (children cbb) @ [\<lparr>offset = off, pending_len_len = k, pending_is_asn1 = asn1\<rparr>]"
    "d \<le> length (children cbb)" "collapse (drop d (children cbb)) (drop d (cbb_views cbb)) = Some body"
    "cbb_views cbb' = take d (cbb_views cbb) @ [body @ pre, []]" by (auto simp: opened_def)
  have "drop d (cbb_views cbb) \<noteq> []" using c(3) by (cases "drop d (children cbb)") auto
  then have "length (take d (cbb_views cbb)) = d" by simp
  with c show ?thesis by (simp add: cbb_closable_def)
qed

lemma CBB_flush_succeeds:
  assumes m: "malloc_law malloc" and inv: "cbb_inv cbb" and room: "cbb_room malloc cbb n" and cl: "cbb_closable cbb d"
  shows "\<exists>cbb'. CBB_flush malloc cbb d = (True, cbb') \<and> cbb_room malloc cbb' n"
proof -
  from room obtain b where b: "base cbb = Some b" "\<not> error b" "can_resize b"
    "serves malloc (len b + 4 * length (children cbb) + n)" by (auto simp: cbb_room_def)
  from inv b have ok: "buffer_inv b" "chain_ok 0 (len b) (children cbb)" by (simp_all add: cbb_inv_def)
  have d: "d \<le> length (children cbb)" using cl by (simp add: cbb_closable_def)
  let ?t = "start_at 0 d (children cbb)"
  have col: "collapse (drop d (children cbb)) (views (used b) ?t (drop d (children cbb))) \<noteq> None"
    using cl b d by (simp add: cbb_closable_def cbb_views_def drop_views)
  have "\<exists>cbb' b'. CBB_flush malloc cbb d = (True, cbb') \<and> base cbb' = Some b' \<and>
      len b' \<le> len b + 4 * (length (children cbb) - d)"
    using chain_ok_drop [OF ok(2) d] m d b ok col
    by (intro CBB_flush_succeeds_aux [where s = ?t]) (auto intro: serves_mono)
  then obtain cbb' b' where f: "CBB_flush malloc cbb d = (True, cbb')" "base cbb' = Some b'"
    "len b' \<le> len b + 4 * (length (children cbb) - d)" by blast
  have "flushed d ?t b (children cbb) cbb'" using CBB_flush_flushed [OF m inv f(1) b(1)] .
  then have "\<not> error b'" "can_resize b'" "length (children cbb') = d" using f(2) b(3) d by (auto simp: flushed_def)
  moreover have "serves malloc (len b' + 4 * d + n)" using b(4) f(3) d by (auto elim!: serves_mono)
  ultimately show ?thesis using f by (auto simp: cbb_room_def)
qed

section \<open>Writers succeed\<close>

locale cbb_total_writer = cbb_writer run written
  for run :: "libc_malloc \<Rightarrow> CBB \<Rightarrow> nat \<Rightarrow> bool \<times> CBB" and written :: "byte list" +
  fixes need :: nat
  assumes succeeds: "malloc_law malloc \<Longrightarrow> cbb_inv cbb \<Longrightarrow> cbb_closable cbb d \<Longrightarrow>
    cbb_room malloc cbb (need + extra) \<Longrightarrow> \<exists>cbb'. run malloc cbb d = (True, cbb') \<and> cbb_room malloc cbb' extra"
begin

lemma total:
  assumes "malloc_law malloc" "cbb_inv cbb" "cbb_closable cbb d" "cbb_room malloc cbb (need + extra)"
  shows "\<exists>cbb'. run malloc cbb d = (True, cbb') \<and> appended d written cbb cbb' \<and> cbb_room malloc cbb' extra"
  using succeeds [OF assms] writes [OF assms(1,2)] by blast

end

lemma total_writerI:
  assumes "cbb_writer run written"
    and "\<And>malloc cbb d extra. malloc_law malloc \<Longrightarrow> cbb_inv cbb \<Longrightarrow> cbb_closable cbb d \<Longrightarrow>
      cbb_room malloc cbb (need + extra) \<Longrightarrow> \<exists>cbb'. run malloc cbb d = (True, cbb') \<and> cbb_room malloc cbb' extra"
  shows "cbb_total_writer run written need"
  using assms by (simp add: cbb_total_writer_def cbb_total_writer_axioms_def)

interpretation tw_flush: cbb_total_writer CBB_flush "[]" 0
  by (rule total_writerI [OF wr_flush.cbb_writer_axioms]) (use CBB_flush_succeeds in simp)

lemma total_writer_seq:
  assumes w1: "cbb_total_writer run1 x n1" and w2: "cbb_total_writer run2 y n2"
    and run: "\<And>m c d. run m c d = (case run1 m c d of (False, c') \<Rightarrow> (False, c') | (True, c') \<Rightarrow> run2 m c' d)"
  shows "cbb_total_writer run (x @ y) (n1 + n2)"
proof (rule total_writerI)
  show "cbb_writer run (x @ y)"
    using cbb_total_writer.axioms(1) [OF w1] cbb_total_writer.axioms(1) [OF w2] run by (rule writer_seq)
  fix malloc cbb d extra assume a: "malloc_law malloc" "cbb_inv cbb" "cbb_closable cbb d" "cbb_room malloc cbb (n1 + n2 + extra)"
  then obtain c1 where c1: "run1 malloc cbb d = (True, c1)" "appended d x cbb c1" "cbb_room malloc c1 (n2 + extra)"
    using cbb_total_writer.total [OF w1, of malloc cbb d "n2 + extra"] by (auto simp: add.assoc)
  have "cbb_inv c1" using c1(2) by (simp add: appended_def)
  then show "\<exists>cbb'. run malloc cbb d = (True, cbb') \<and> cbb_room malloc cbb' extra"
    using cbb_total_writer.succeeds [OF w2 a(1) _ appended_closable [OF c1(2)] c1(3)] c1(1) by (auto simp: run)
qed

text \<open>A chain of calls of the same writer, stopping at the first that fails.\<close>

primrec cbb_each :: "(libc_malloc \<Rightarrow> CBB \<Rightarrow> nat \<Rightarrow> 'a \<Rightarrow> bool \<times> CBB) \<Rightarrow> libc_malloc \<Rightarrow> CBB \<Rightarrow> nat \<Rightarrow> 'a list \<Rightarrow> bool \<times> CBB" where
  "cbb_each f malloc cbb d [] = (True, cbb)"
| "cbb_each f malloc cbb d (x # xs) =
     (case f malloc cbb d x of (False, cbb) \<Rightarrow> (False, cbb) | (True, cbb) \<Rightarrow> cbb_each f malloc cbb d xs)"

lemma cbb_each_total:
  assumes w: "\<And>x. x \<in> set xs \<Longrightarrow> cbb_total_writer (\<lambda>m c d. f m c d x) (enc x) (length (enc x))" and ne: "xs \<noteq> []"
  shows "cbb_total_writer (\<lambda>m c d. cbb_each f m c d xs) (concat (map enc xs)) (length (concat (map enc xs)))"
  using ne w
proof (induction xs rule: list_nonempty_induct)
  case (single x)
  have "cbb_each f m c d [x] = f m c d x" for m c d by (simp split: prod.split bool.split)
  then show ?case using single by simp
next
  case (cons x xs)
  have "cbb_total_writer (\<lambda>m c d. f m c d x) (enc x) (length (enc x))" using cons.prems by simp
  from total_writer_seq [OF this cons.IH [OF cons.prems], of "\<lambda>m c d. cbb_each f m c d (x # xs)"]
  show ?case by simp
qed

lemma cbb_then_succeeds:
  assumes "malloc_law malloc" "cbb_inv cbb" "cbb_closable cbb d" "cbb_room malloc cbb (need + extra)"
    and f: "\<And>b. buffer_inv b \<Longrightarrow> can_resize b \<Longrightarrow> serves malloc (len b + need) \<Longrightarrow>
      \<exists>b'. f b = (True, b') \<and> error b' = error b \<and> can_resize b' \<and> len b' \<le> len b + need"
  shows "\<exists>cbb'. cbb_then malloc cbb d f = (True, cbb') \<and> cbb_room malloc cbb' extra"
proof -
  obtain c1 where c1: "CBB_flush malloc cbb d = (True, c1)" "appended d [] cbb c1" "cbb_room malloc c1 (need + extra)"
    using tw_flush.total assms(1-4) by (metis add_0)
  from c1(3) obtain b where b: "base c1 = Some b" "\<not> error b" "can_resize b"
    "serves malloc (len b + 4 * length (children c1) + (need + extra))" by (auto simp: cbb_room_def)
  have "buffer_inv b" using c1(2) b(1) by (auto simp: appended_def cbb_inv_def)
  then obtain b' where b': "f b = (True, b')" "error b' = error b" "can_resize b'" "len b' \<le> len b + need"
    using f b(3) serves_mono [OF b(4), of "len b + need"] by auto
  have "serves malloc (len b' + 4 * length (children c1) + extra)" using b(4) b'(4) by (auto elim!: serves_mono)
  with c1 b b' show ?thesis by (auto simp: cbb_then_def cbb_room_def)
qed

lemma CBB_add_bytes_total:
  assumes "length data < SIZE_MOD"
  shows "cbb_total_writer (\<lambda>m c d. CBB_add_bytes m c d data) data (length data)"
  unfolding CBB_add_bytes_def
proof (rule total_writerI)
  show "cbb_writer (\<lambda>m c d. cbb_then m c d (\<lambda>b. case cbb_buffer_add m b (length data) of (False, b') \<Rightarrow> (False, b')
      | (True, b') \<Rightarrow> (True, b'\<lparr>buf := splice (buf b') (len b) data\<rparr>))) data"
    using CBB_add_bytes_writer [OF assms] by (simp add: CBB_add_bytes_def)
  fix malloc cbb d extra
  assume a: "malloc_law malloc" "cbb_inv cbb" "cbb_closable cbb d" "cbb_room malloc cbb (length data + extra)"
  show "\<exists>cbb'. cbb_then malloc cbb d (\<lambda>b. case cbb_buffer_add malloc b (length data) of (False, b') \<Rightarrow> (False, b')
      | (True, b') \<Rightarrow> (True, b'\<lparr>buf := splice (buf b') (len b) data\<rparr>)) = (True, cbb') \<and> cbb_room malloc cbb' extra"
  proof (rule cbb_then_succeeds [OF a])
    fix b assume b: "buffer_inv b" "can_resize b" "serves malloc (len b + length data)"
    then obtain b1 where b1: "cbb_buffer_add malloc b (length data) = (True, b1)" using cbb_buffer_add_succeeds by blast
    from cbb_buffer_add_True [OF a(1) b(1) assms b1] b1 b(2)
    show "\<exists>b'. (case cbb_buffer_add malloc b (length data) of (False, b') \<Rightarrow> (False, b')
        | (True, b') \<Rightarrow> (True, b'\<lparr>buf := splice (buf b') (len b) data\<rparr>)) = (True, b') \<and>
      error b' = error b \<and> can_resize b' \<and> len b' \<le> len b + length data" by simp
  qed
qed

lemma cbb_add_u_total:
  assumes n: "n \<le> 8" "unat v < 256 ^ n"
  shows "cbb_total_writer (\<lambda>m c d. cbb_add_u m c d v n) (be_bytes n (unat v)) n"
proof (rule total_writerI)
  show "cbb_writer (\<lambda>m c d. cbb_add_u m c d v n) (be_bytes n (unat v))" using n(1) by (rule cbb_add_u_writer)
  fix malloc cbb d extra assume a: "malloc_law malloc" "cbb_inv cbb" "cbb_closable cbb d" "cbb_room malloc cbb (n + extra)"
  show "\<exists>cbb'. cbb_add_u malloc cbb d v n = (True, cbb') \<and> cbb_room malloc cbb' extra"
    unfolding cbb_add_u_def
  proof (rule cbb_then_succeeds [OF a])
    fix b assume b: "buffer_inv b" "can_resize b" "serves malloc (len b + n)"
    then obtain b1 where b1: "cbb_buffer_add malloc b n = (True, b1)" using cbb_buffer_add_succeeds by blast
    have nn: "n < SIZE_MOD" using n by (simp add: SIZE_MOD_def)
    note ad = cbb_buffer_add_True [OF a(1) b(1) nn b1]
    have "len b + n \<le> length (buf b1)" using ad by (simp add: buffer_inv_def)
    from write_be_eq [OF this, of "unat v"] ad b1 b(2) n(2)
    show "\<exists>b'. cbb_buffer_add_u malloc b v n = (True, b') \<and> error b' = error b \<and> can_resize b' \<and> len b' \<le> len b + n"
      by (cases "n = 0") (auto simp: cbb_buffer_add_u_def)
  qed
qed

interpretation tw_u8: cbb_total_writer "\<lambda>m c d. CBB_add_u8 m c d v" "[v]" 1 for v
  using cbb_add_u_total [of 1 "ucast v"] by (simp add: CBB_add_u8_def unat_ucast_byte)

interpretation tw_u16: cbb_total_writer "\<lambda>m c d. CBB_add_u16 m c d v" "be_bytes 2 (unat v)" 2 for v
  using cbb_add_u_total [of 2 "ucast v"] unsigned_less [of v, where 'a = nat] by (simp add: CBB_add_u16_def unat_ucast_up)

interpretation tw_u32: cbb_total_writer "\<lambda>m c d. CBB_add_u32 m c d v" "be_bytes 4 (unat v)" 4 for v
  using cbb_add_u_total [of 4 "ucast v"] unsigned_less [of v, where 'a = nat] by (simp add: CBB_add_u32_def unat_ucast_up)

interpretation tw_u64: cbb_total_writer "\<lambda>m c d. CBB_add_u64 m c d v" "be_bytes 8 (unat v)" 8 for v
  using cbb_add_u_total [of 8 v] uint64_nat_less [of v] by (simp add: CBB_add_u64_def)

lemma CBB_add_u24_total:
  "unat v < 2 ^ 24 \<Longrightarrow> cbb_total_writer (\<lambda>m c d. CBB_add_u24 m c d v) (be_bytes 3 (unat v)) 3"
  using cbb_add_u_total [of 3 "ucast v"] by (simp add: CBB_add_u24_def unat_ucast_up)

text \<open>Loops of single-byte writes.\<close>

lemma total_written_cong: "cbb_total_writer run x n \<Longrightarrow> cbb_writer run y \<Longrightarrow> cbb_total_writer run y n"
  by (simp add: cbb_total_writer_def)

lemma add_base128_loop_total:
  "\<exists>x. cbb_total_writer (\<lambda>m c d. add_base128_loop m c d v (Suc k)) x (Suc k)"
proof (induction k)
  case 0
  have "add_base128_loop m c d v (Suc 0) = CBB_add_u8 m c d (ucast v AND 0x7f)" for m c d
    by (simp add: Let_def split: prod.split bool.split)
  then show ?case using tw_u8.cbb_total_writer_axioms [of "ucast v AND 0x7f"] by auto
next
  case (Suc k)
  then obtain x where x: "cbb_total_writer (\<lambda>m c d. add_base128_loop m c d v (Suc k)) x (Suc k)" by blast
  have "cbb_total_writer (\<lambda>m c d. add_base128_loop m c d v (Suc (Suc k)))
      ([ucast (drop_bit (7 * Suc k) v) AND 0x7f OR 0x80] @ x) (1 + Suc k)"
    by (rule total_writer_seq [OF tw_u8.cbb_total_writer_axioms x])
      (simp only: add_base128_loop.simps(2) [of _ _ _ _ "Suc k"] Let_def nat.distinct not_False_eq_True if_True)
  then show ?case by (auto simp: add.commute)
qed

lemma base128_len_0 [simp]: "base128_len 0 = 0"
  by (subst base128_len.simps) simp

lemma base128_hi_length: "length (base128_hi n) = base128_len n"
proof (induction n rule: base128_hi.induct)
  case (1 n)
  then show ?case by (cases "n = 0") (simp_all add: base128_hi.simps [of n] base128_len.simps [of n] del: base128_hi.simps)
qed

lemma base128_length: "length (base128 n) = (if base128_len n = 0 then 1 else base128_len n)"
  by (cases "n = 0") (simp_all add: base128_def base128_hi_length base128_len.simps [of n])

interpretation tw_base128: cbb_total_writer "\<lambda>m c d. add_base128_integer m c d v" "base128 (unat v)"
    "length (base128 (unat v))" for v
proof -
  obtain k where k: "length (base128 (unat v)) = Suc k" by (cases "base128 (unat v)") auto
  obtain x where "cbb_total_writer (\<lambda>m c d. add_base128_loop m c d v (Suc k)) x (Suc k)"
    using add_base128_loop_total by blast
  then have "cbb_total_writer (\<lambda>m c d. add_base128_integer m c d v) x (length (base128 (unat v)))"
    using k by (simp only: add_base128_integer_def Let_def base128_length [symmetric])
  then show "cbb_total_writer (\<lambda>m c d. add_base128_integer m c d v) (base128 (unat v)) (length (base128 (unat v)))"
    using wr_base128.cbb_writer_axioms by (rule total_written_cong)
qed

interpretation tw_tag: cbb_total_writer "\<lambda>m c d. cbb_add_tag m c d tag" "der_tag tag" "length (der_tag tag)" for tag
proof (cases "tag AND 0x1fffffff \<ge> 0x1f")
  case True
  have "cbb_total_writer (\<lambda>m c d. cbb_add_tag m c d tag)
      ([ucast (drop_bit 24 tag) AND 0xe0 OR 0x1f] @ base128 (unat (ucast (tag AND 0x1fffffff) :: u64)))
      (1 + length (base128 (unat (ucast (tag AND 0x1fffffff) :: u64))))"
    using True
    by (intro total_writer_seq [OF tw_u8.cbb_total_writer_axioms tw_base128.cbb_total_writer_axioms])
      (simp add: cbb_add_tag_def Let_def)
  with True show "cbb_total_writer (\<lambda>m c d. cbb_add_tag m c d tag) (der_tag tag) (length (der_tag tag))"
    by (simp add: der_tag_def Let_def unat_ucast_up)
next
  case False
  then show "cbb_total_writer (\<lambda>m c d. cbb_add_tag m c d tag) (der_tag tag) (length (der_tag tag))"
    using tw_u8.cbb_total_writer_axioms [of "ucast (drop_bit 24 tag) AND 0xe0 OR ucast (tag AND 0x1fffffff)"]
    by (simp add: cbb_add_tag_def der_tag_def Let_def)
qed

section \<open>Children\<close>

lemma CBB_add_asn1_succeeds:
  assumes a: "malloc_law malloc" "cbb_inv cbb" "cbb_closable cbb d" "cbb_room malloc cbb (length (der_tag tag) + 5 + extra)"
  shows "\<exists>cbb'. CBB_add_asn1 malloc cbb d tag = (True, cbb') \<and> cbb_room malloc cbb' extra"
proof -
  let ?t = "length (der_tag tag)"
  have ai: "cbb_inv c'" if "appended d x c c'" for x c c' using that by (simp add: appended_def)
  obtain c1 where c1: "CBB_flush malloc cbb d = (True, c1)" "appended d [] cbb c1" "cbb_room malloc c1 (?t + 5 + extra)"
    using tw_flush.total [of malloc cbb d "?t + 5 + extra"] a by auto
  obtain c2 where c2: "cbb_add_tag malloc c1 d tag = (True, c2)" "appended d (der_tag tag) c1 c2" "cbb_room malloc c2 (1 + (4 + extra))"
    using tw_tag.total [OF a(1) ai [OF c1(2)] appended_closable [OF c1(2)], of tag "1 + (4 + extra)"] c1(3)
    by (auto simp: add.assoc)
  obtain c3 where c3: "CBB_add_u8 malloc c2 d 0 = (True, c3)" "appended d [0] c2 c3" "cbb_room malloc c3 (4 + extra)"
    using tw_u8.total [OF a(1) ai [OF c2(2)] appended_closable [OF c2(2)] c2(3)] by blast
  let ?off = "case base c2 of None \<Rightarrow> 0 | Some b \<Rightarrow> len b"
  let ?c = "c3\<lparr>children := take d (children c3) @ [\<lparr>offset = ?off, pending_len_len = 1, pending_is_asn1 = True\<rparr>]\<rparr>"
  have "CBB_add_asn1 malloc cbb d tag = (True, ?c)"
    using c1(1) c2(1) c3(1) by (auto simp: CBB_add_asn1_def cbb_add_tag_def Let_def split: if_splits)
  moreover have "length (children c3) = d" using c3(2) by (auto simp: appended_def)
  then have "cbb_room malloc ?c extra" using c3(3) by (auto simp: cbb_room_def elim!: serves_mono)
  ultimately show ?thesis by blast
qed

lemma closable_child:
  assumes op: "opened d k asn1 pre cbb c1" and wr: "appended (Suc d) data c1 c2"
    and p: "prefix_of \<lparr>offset = 0, pending_len_len = k, pending_is_asn1 = asn1\<rparr> (length data) \<noteq> None"
  shows "cbb_closable c2 d"
proof -
  let ?vs = "cbb_views cbb"
  from op obtain off body where d: "d \<le> length (children cbb)"
    and ch1: "children c1 = take d (children cbb) @ [\<lparr>offset = off, pending_len_len = k, pending_is_asn1 = asn1\<rparr>]"
    and col: "collapse (drop d (children cbb)) (drop d ?vs) = Some body"
    and v1: "cbb_views c1 = take d ?vs @ [body @ pre, []]" by (auto simp: opened_def)
  have "drop d ?vs \<noteq> []" using col by (cases "drop d (children cbb)") auto
  then have lv: "length (take d ?vs) = d" by simp
  have "children c2 = children c1" "cbb_views c2 = take d ?vs @ [body @ pre, data]"
    using wr d ch1 v1 lv by (auto simp: appended_def)
  moreover have "prefix_of \<lparr>offset = off, pending_len_len = k, pending_is_asn1 = asn1\<rparr> n =
      prefix_of \<lparr>offset = 0, pending_len_len = k, pending_is_asn1 = asn1\<rparr> n" for n by (simp add: prefix_of_def)
  ultimately show ?thesis using p d lv ch1 by (auto simp: cbb_closable_def)
qed

lemma element_total:
  assumes body: "cbb_total_writer body data n" and len: "length data \<le> 0xfffffffe"
    and run: "\<And>m c d. run m c d =
      (case CBB_add_asn1 m c d tag of
         (False, c1) \<Rightarrow> (False, c1)
       | (True, c1) \<Rightarrow>
           (case body m c1 (Suc d) of
              (False, c2) \<Rightarrow> (False, c2)
            | (True, c2) \<Rightarrow> CBB_flush m c2 d))"
  shows "cbb_total_writer run (der_element tag data) (length (der_tag tag) + 5 + n)"
proof (rule total_writerI)
  show "cbb_writer run (der_element tag data)"
    using cbb_total_writer.axioms(1) [OF body] run by (rule element_writer)
  fix malloc cbb d extra
  assume a: "malloc_law malloc" "cbb_inv cbb" "cbb_closable cbb d" "cbb_room malloc cbb (length (der_tag tag) + 5 + n + extra)"
  then obtain c1 where c1: "CBB_add_asn1 malloc cbb d tag = (True, c1)" "cbb_room malloc c1 (n + extra)"
    using CBB_add_asn1_succeeds [of malloc cbb d tag "n + extra"] by (auto simp: add.assoc)
  have op: "opened d 1 True (der_tag tag) cbb c1" using CBB_add_asn1_opens [OF a(1,2) c1(1)] .
  then have i1: "cbb_inv c1" by (simp add: opened_def)
  obtain c2 where c2: "body malloc c1 (Suc d) = (True, c2)" "appended (Suc d) data c1 c2" "cbb_room malloc c2 extra"
    using cbb_total_writer.total [OF body a(1) i1 opened_closable [OF op] c1(2)] by blast
  have "cbb_closable c2 d" using closable_child [OF op c2(2)] len by (simp add: prefix_of_def)
  moreover have "cbb_inv c2" using c2(2) by (simp add: appended_def)
  ultimately show "\<exists>cbb'. run malloc cbb d = (True, cbb') \<and> cbb_room malloc cbb' extra"
    using CBB_flush_succeeds [OF a(1) _ c2(3)] c1(1) c2(1) by (auto simp: run)
qed

lemma octet_string_total:
  "length data \<le> 0xfffffffe \<Longrightarrow>
     cbb_total_writer (\<lambda>m c d. CBB_add_asn1_octet_string m c d data) (der_element CBS_ASN1_OCTETSTRING data)
       (length (der_tag CBS_ASN1_OCTETSTRING) + 5 + length data)"
  by (rule element_total [OF CBB_add_bytes_total]) (simp_all add: CBB_add_asn1_octet_string_def SIZE_MOD_def)

interpretation tw_bool: cbb_total_writer "\<lambda>m c d. CBB_add_asn1_bool m c d v"
    "der_element CBS_ASN1_BOOLEAN [if v \<noteq> 0 then 0xff else 0]" "length (der_tag CBS_ASN1_BOOLEAN) + 5 + 1" for v
  by (rule element_total [OF tw_u8.cbb_total_writer_axioms]) (simp_all add: CBB_add_asn1_bool_def)

lemma add_int64_loop_total:
  "cbb_total_writer (\<lambda>m c d. add_int64_loop m c d v (Suc k)) (be_bytes (Suc k) (unat v)) (Suc k)"
proof (rule total_written_cong [OF _ add_int64_loop_writer])
  show "cbb_total_writer (\<lambda>m c d. add_int64_loop m c d v (Suc k)) (map (int64_byte v) (rev [0..<Suc k])) (Suc k)"
  proof (induction k)
    case 0
    have "add_int64_loop m c d v (Suc 0) = CBB_add_u8 m c d (int64_byte v 0)" for m c d
      by (simp split: prod.split bool.split)
    then show ?case using tw_u8.cbb_total_writer_axioms [of "int64_byte v 0"] by simp
  next
    case (Suc k)
    have "cbb_total_writer (\<lambda>m c d. add_int64_loop m c d v (Suc (Suc k)))
        ([int64_byte v (Suc k)] @ map (int64_byte v) (rev [0..<Suc k])) (1 + Suc k)"
      by (rule total_writer_seq [OF tw_u8.cbb_total_writer_axioms Suc]) simp
    then show ?case by simp
  qed
qed

lemma total_need_mono:
  assumes "cbb_total_writer run x n" "n \<le> m"
  shows "cbb_total_writer run x m"
proof (rule total_writerI)
  show "cbb_writer run x" using assms(1) by (rule cbb_total_writer.axioms(1))
  fix malloc cbb d extra assume a: "malloc_law malloc" "cbb_inv cbb" "cbb_closable cbb d" "cbb_room malloc cbb (m + extra)"
  then have "cbb_room malloc cbb (n + extra)" using assms(2) by (auto simp: cbb_room_def elim!: serves_mono)
  with a show "\<exists>cbb'. run malloc cbb d = (True, cbb') \<and> cbb_room malloc cbb' extra"
    using cbb_total_writer.succeeds [OF assms(1)] by blast
qed

lemma add_uint64_body_total:
  "cbb_total_writer (add_uint64_body v k) (der_int (int (unat v mod 256 ^ k))) (Suc k)"
proof (rule total_written_cong [OF _ add_uint64_body_writer])
  have "\<exists>x. cbb_total_writer (add_uint64_body v k) x (Suc k)"
  proof (induction k)
    case 0
    have "add_uint64_body v 0 = (\<lambda>m c d. CBB_add_u8 m c d 0)" by (intro ext) (simp add: add_uint64_body_def)
    then show ?case using tw_u8.cbb_total_writer_axioms [of 0] by auto
  next
    case (Suc k)
    then obtain x where x: "cbb_total_writer (add_uint64_body v k) x (Suc k)" by blast
    consider "int64_byte v k = 0" | "int64_byte v k \<noteq> 0" "128 \<le> unat (int64_byte v k)"
      | "int64_byte v k \<noteq> 0" "\<not> 128 \<le> unat (int64_byte v k)" by blast
    then show ?case
    proof cases
      case 1
      then have "add_uint64_body v (Suc k) = add_uint64_body v k"
        by (intro ext) (simp add: add_uint64_body_def int64_byte_def)
      with total_need_mono [OF x, of "Suc (Suc k)"] show ?thesis by auto
    next
      case 2
      have "cbb_total_writer (add_uint64_body v (Suc k)) ([0] @ be_bytes (Suc k) (unat v)) (1 + Suc k)"
        by (rule total_writer_seq [OF tw_u8.cbb_total_writer_axioms add_int64_loop_total])
          (simp only: add_uint64_body_step [OF 2(1)] 2(2) if_True)
      then show ?thesis by (auto simp: add.commute)
    next
      case 3
      have "add_uint64_body v (Suc k) = (\<lambda>m c d. add_int64_loop m c d v (Suc k))"
        by (intro ext) (simp only: add_uint64_body_step [OF 3(1)] 3(2) if_False prod.case bool.case)
      with total_need_mono [OF add_int64_loop_total [of v k], of "Suc (Suc k)"] show ?thesis by auto
    qed
  qed
  then show "cbb_total_writer (add_uint64_body v k) (SOME x. cbb_total_writer (add_uint64_body v k) x (Suc k)) (Suc k)"
    by (rule someI_ex)
qed

interpretation tw_uint64: cbb_total_writer "\<lambda>m c d. CBB_add_asn1_uint64 m c d v"
    "der_element CBS_ASN1_INTEGER (der_int (uint v))" "length (der_tag CBS_ASN1_INTEGER) + 5 + 9" for v
proof -
  have "cbb_total_writer (add_uint64_body v 8) (der_int (uint v)) 9"
    using add_uint64_body_total [of v 8] uint64_nat_less [of v] by simp
  moreover have "length (der_int (uint v)) \<le> 9"
  proof -
    obtain n where n: "uint v = n" "0 \<le> n" "n < 2 ^ 64" using uint_lt2p [of v] by auto
    then show ?thesis by (simp add: length_der_int)
  qed
  ultimately show "cbb_total_writer (\<lambda>m c d. CBB_add_asn1_uint64 m c d v) (der_element CBS_ASN1_INTEGER (der_int (uint v)))
      (length (der_tag CBS_ASN1_INTEGER) + 5 + 9)"
    by (intro element_total [OF _ _ CBB_add_asn1_uint64_eq]) simp_all
qed

lemma int64_start_le: "int64_start v s \<le> s"
  by (induction s) auto

interpretation tw_int64: cbb_total_writer "\<lambda>m c d. CBB_add_asn1_int64 m c d v"
    "der_element CBS_ASN1_INTEGER (der_int (sint v))" "length (der_tag CBS_ASN1_INTEGER) + 5 + 9" for v
proof (rule total_written_cong [OF _ wr_int64.cbb_writer_axioms])
  let ?s = "int64_start v 7"
  have "cbb_total_writer (\<lambda>m c d. add_int64_loop m c d v (Suc ?s)) (be_bytes (Suc ?s) (unat v)) 9"
    using total_need_mono [OF add_int64_loop_total] int64_start_le [of v 7] by fastforce
  then have "cbb_total_writer (\<lambda>m c d. case CBB_add_asn1 m c d CBS_ASN1_INTEGER of (False, c1) \<Rightarrow> (False, c1)
      | (True, c1) \<Rightarrow> (case add_int64_loop m c1 (Suc d) v (Suc ?s) of (False, c2) \<Rightarrow> (False, c2)
        | (True, c2) \<Rightarrow> CBB_flush m c2 d)) (der_element CBS_ASN1_INTEGER (be_bytes (Suc ?s) (unat v)))
      (length (der_tag CBS_ASN1_INTEGER) + 5 + 9)"
    using int64_start_le [of v 7] by (intro element_total) simp_all
  then show "cbb_total_writer (\<lambda>m c d. CBB_add_asn1_int64 m c d v) (if 0 \<le> sint v
      then der_element CBS_ASN1_INTEGER (der_int (uint v)) else der_element CBS_ASN1_INTEGER (be_bytes (Suc ?s) (unat v)))
      (length (der_tag CBS_ASN1_INTEGER) + 5 + 9)"
    using tw_uint64.cbb_total_writer_axioms [of v] by (simp add: CBB_add_asn1_int64_def Let_def del: be_bytes.simps)
qed

text \<open>Length-prefixed children.\<close>

lemma cbb_add_length_prefixed_succeeds:
  assumes a: "malloc_law malloc" "cbb_inv cbb" "cbb_closable cbb d" "cbb_room malloc cbb (k + 4 + extra)" and k: "k \<le> 8"
  shows "\<exists>cbb'. cbb_add_length_prefixed malloc cbb d k = (True, cbb') \<and> cbb_room malloc cbb' extra"
proof -
  obtain c1 where c1: "CBB_flush malloc cbb d = (True, c1)" "appended d [] cbb c1" "cbb_room malloc c1 (k + 4 + extra)"
    using tw_flush.total [of malloc cbb d "k + 4 + extra"] a by auto
  from c1(3) obtain b where b: "base c1 = Some b" "\<not> error b" "can_resize b"
    "serves malloc (len b + 4 * length (children c1) + (k + 4 + extra))" by (auto simp: cbb_room_def)
  have inv: "buffer_inv b" using c1(2) b(1) by (auto simp: appended_def cbb_inv_def)
  obtain b1 where b1: "cbb_buffer_add malloc b k = (True, b1)"
    using cbb_buffer_add_succeeds [OF inv b(3), of malloc k] serves_mono [OF b(4), of "len b + k"] by auto
  have ks: "k < SIZE_MOD" using k by (simp add: SIZE_MOD_def)
  note ad = cbb_buffer_add_True [OF a(1) inv ks b1]
  have d: "length (children c1) = d" using c1(2) by (auto simp: appended_def)
  have "serves malloc (len b + k + 4 * Suc d + extra)" using b(4) d by (auto elim!: serves_mono)
  with c1(1) b b1 ad d show ?thesis by (simp add: cbb_add_length_prefixed_def cbb_room_def Let_def)
qed

lemma prefixed_writer:
  assumes body: "cbb_writer body data" and k: "0 < k" "k \<le> 8"
    and run: "\<And>m c d. run m c d =
      (case cbb_add_length_prefixed m c d k of
         (False, c1) \<Rightarrow> (False, c1)
       | (True, c1) \<Rightarrow>
           (case body m c1 (Suc d) of
              (False, c2) \<Rightarrow> (False, c2)
            | (True, c2) \<Rightarrow> CBB_flush m c2 d))"
  shows "cbb_writer run (be_bytes k (length data) @ data)"
proof
  fix malloc cbb d cbb' assume a: "malloc_law malloc" "cbb_inv cbb" "run malloc cbb d = (True, cbb')"
  then obtain c1 c2 where c1: "cbb_add_length_prefixed malloc cbb d k = (True, c1)"
    and c2: "body malloc c1 (Suc d) = (True, c2)" and c3: "CBB_flush malloc c2 d = (True, cbb')"
    by (auto simp: run split: prod.splits bool.splits)
  have op: "opened d k False [] cbb c1" using cbb_add_length_prefixed_opens [OF a(1,2) k c1] .
  then have wr: "appended (Suc d) data c1 c2" using cbb_writer.writes [OF body a(1) _ c2] by (simp add: opened_def)
  then have cl: "appended d [] c2 cbb'" using wr_flush.writes [OF a(1) _ c3] by (simp add: appended_def)
  obtain p where p: "prefix_of \<lparr>offset = 0, pending_len_len = k, pending_is_asn1 = False\<rparr> (length data) = Some p"
    "appended d ([] @ p @ data) cbb cbb'" using opened_closed [OF op wr cl] by blast
  from p(1) have "p = be_bytes k (length data)" by (simp add: prefix_of_def split: if_splits)
  with p(2) show "appended d (be_bytes k (length data) @ data) cbb cbb'" by simp
qed

lemma prefixed_total:
  assumes body: "cbb_total_writer body data n" and k: "0 < k" "k \<le> 8" and len: "length data < 256 ^ k"
    and run: "\<And>m c d. run m c d =
      (case cbb_add_length_prefixed m c d k of
         (False, c1) \<Rightarrow> (False, c1)
       | (True, c1) \<Rightarrow>
           (case body m c1 (Suc d) of
              (False, c2) \<Rightarrow> (False, c2)
            | (True, c2) \<Rightarrow> CBB_flush m c2 d))"
  shows "cbb_total_writer run (be_bytes k (length data) @ data) (k + 4 + n)"
proof (rule total_writerI)
  show "cbb_writer run (be_bytes k (length data) @ data)"
    using cbb_total_writer.axioms(1) [OF body] k run by (rule prefixed_writer)
  fix malloc cbb d extra
  assume a: "malloc_law malloc" "cbb_inv cbb" "cbb_closable cbb d" "cbb_room malloc cbb (k + 4 + n + extra)"
  then obtain c1 where c1: "cbb_add_length_prefixed malloc cbb d k = (True, c1)" "cbb_room malloc c1 (n + extra)"
    using cbb_add_length_prefixed_succeeds [OF a(1-3) _ k(2), of "n + extra"] by (auto simp: add.assoc)
  have op: "opened d k False [] cbb c1" using cbb_add_length_prefixed_opens [OF a(1,2) k c1(1)] .
  then have i1: "cbb_inv c1" by (simp add: opened_def)
  obtain c2 where c2: "body malloc c1 (Suc d) = (True, c2)" "appended (Suc d) data c1 c2" "cbb_room malloc c2 extra"
    using cbb_total_writer.total [OF body a(1) i1 opened_closable [OF op] c1(2)] by blast
  have "cbb_closable c2 d" using closable_child [OF op c2(2)] len by (simp add: prefix_of_def)
  moreover have "cbb_inv c2" using c2(2) by (simp add: appended_def)
  ultimately show "\<exists>cbb'. run malloc cbb d = (True, cbb') \<and> cbb_room malloc cbb' extra"
    using CBB_flush_succeeds [OF a(1) _ c2(3)] c1(1) c2(1) by (auto simp: run)
qed

section \<open>A fresh builder\<close>

lemma CBB_init_ready:
  assumes m: "malloc_law malloc" and sv: "serves malloc n" and n: "c \<le> n" "16 \<le> n"
  shows "\<exists>cbb. CBB_init malloc c = (True, cbb) \<and> cbb_inv cbb \<and> cbb_room malloc cbb n \<and> cbb_closable cbb 0 \<and>
    cbb_views cbb = [[]] \<and> children cbb = []"
proof -
  obtain b where b: "OPENSSL_malloc malloc c = Some b" using OPENSSL_malloc_serves [OF sv, of c] n by auto
  obtain p where p: "OPENSSL_malloc malloc sizeof_cbb_buffer_st = Some p"
    using OPENSSL_malloc_serves [OF sv, of sizeof_cbb_buffer_st] n by (auto simp: sizeof_cbb_buffer_st_def)
  have c: "c < SIZE_MOD" using sv n by (simp add: serves_def)
  then have "length b = c" using OPENSSL_malloc_length [OF m _ b] by simp
  with b p sv c show ?thesis
    by (simp add: CBB_init_def cbb_init_def CBB_zero_def cbb_inv_def buffer_inv_def cbb_room_def
        cbb_closable_def cbb_views_def used_def)
qed

text \<open>Finishing a builder hands out its contents with every child closed.\<close>

lemma CBB_finish_collapse:
  assumes "malloc_law malloc" "cbb_inv cbb" "CBB_finish malloc cbb 0 True True = (Some out, cbb')"
  shows "collapse (children cbb) (cbb_views cbb) = Some out \<and> cbb' = CBB_zero"
proof -
  from assms(3) obtain c1 b where c1: "CBB_flush malloc cbb 0 = (True, c1)" "base c1 = Some b"
    and out: "out = used b" "cbb' = CBB_cleanup c1"
    by (auto simp: CBB_finish_def used_def split: prod.splits bool.splits option.splits)
  have "appended 0 [] cbb c1" using wr_flush.writes [OF assms(1,2) c1(1)] .
  then show ?thesis using c1(2) out by (auto simp: appended_def cbb_views_def CBB_cleanup_def CBB_zero_def)
qed

lemma CBB_finish_succeeds:
  assumes "malloc_law malloc" "cbb_inv cbb" "cbb_room malloc cbb n" "cbb_closable cbb 0"
  shows "\<exists>out. CBB_finish malloc cbb 0 True True = (Some out, CBB_zero) \<and> collapse (children cbb) (cbb_views cbb) = Some out"
proof -
  obtain c1 where c1: "CBB_flush malloc cbb 0 = (True, c1)" "cbb_room malloc c1 n"
    using CBB_flush_succeeds [OF assms] by blast
  then obtain b where b: "base c1 = Some b" by (auto simp: cbb_room_def)
  then have "CBB_finish malloc cbb 0 True True = (Some (take (len b) (buf b)), CBB_zero)"
    using c1(1) by (simp add: CBB_finish_def CBB_cleanup_def CBB_zero_def)
  then show ?thesis using CBB_finish_collapse [OF assms(1,2)] by blast
qed

text \<open>One total writer on a fresh builder: what it writes is what the caller gets.\<close>

lemma build_one:
  assumes w: "cbb_total_writer run written n" and m: "malloc_law malloc" and sv: "serves malloc (n + c + 16)"
  obtains cbb cbb1 where "CBB_init malloc c = (True, cbb)" "run malloc cbb 0 = (True, cbb1)"
    "CBB_finish malloc cbb1 0 True True = (Some written, CBB_zero)"
proof -
  obtain cbb where i: "CBB_init malloc c = (True, cbb)" "cbb_inv cbb" "cbb_room malloc cbb (n + (c + 16))" "cbb_closable cbb 0"
    "cbb_views cbb = [[]]" "children cbb = []"
    using CBB_init_ready [OF m, of "n + (c + 16)" c] sv by (auto simp: add.assoc)
  obtain cbb1 where r: "run malloc cbb 0 = (True, cbb1)" "appended 0 written cbb cbb1" "cbb_room malloc cbb1 (c + 16)"
    using cbb_total_writer.total [OF w m i(2,4,3)] by blast
  obtain out where o: "CBB_finish malloc cbb1 0 True True = (Some out, CBB_zero)"
    "collapse (children cbb1) (cbb_views cbb1) = Some out"
    using CBB_finish_succeeds [OF m _ r(3) appended_closable [OF r(2)]] r(2) by (auto simp: appended_def)
  have "out = written" using r(2) o(2) i(5,6) by (simp add: appended_def)
  with that i r o show thesis by blast
qed

text \<open>A writer on a fresh builder and the reader of the same format on the finished bytes.\<close>

lemma build_and_read:
  assumes w: "cbb_total_writer run written n" and rd: "cbs_reader rdr view spec"
    and sp: "spec (written @ rest) = Some (x, rest)"
    and m: "malloc_law malloc" and sv: "serves malloc (n + c + 16)" and len: "length (written @ rest) \<le> PTRDIFF_MAX"
  shows "\<exists>cbb cbb1 out a r. CBB_init malloc c = (True, cbb) \<and> run malloc cbb 0 = (True, cbb1) \<and>
    CBB_finish malloc cbb1 0 True True = (Some out, CBB_zero) \<and>
    rdr (CBS_init (out @ rest)) = (Some a, r) \<and> view a = x \<and> cbs_bytes r = rest"
proof -
  obtain cbb cbb1 where b: "CBB_init malloc c = (True, cbb)" "run malloc cbb 0 = (True, cbb1)"
    "CBB_finish malloc cbb1 0 True True = (Some written, CBB_zero)"
    using build_one [OF w m sv] by blast
  have "cbs_inv (CBS_init (written @ rest))" using len by (rule cbs_init_inv)
  then obtain a r where "rdr (CBS_init (written @ rest)) = (Some a, r)" "view a = x" "cbs_bytes r = rest"
    using cbs_reader.reads [OF rd, of "CBS_init (written @ rest)" x rest] sp by (metis cbs_init_bytes)
  with b show ?thesis by blast
qed

section \<open>Properties\<close>

text \<open>A builder with one open child of one-byte prefix, whose contents are a single byte.\<close>

definition sample_cbb :: CBB where
  "sample_cbb =
     \<lparr>base = Some \<lparr>buf = [0, 7, 0, 0], len = 2, cap = 4, can_resize = True, error = False\<rparr>,
      children = [\<lparr>offset = 0, pending_len_len = 1, pending_is_asn1 = False\<rparr>]\<rparr>"

lemma sample_cbb_inv: "cbb_inv sample_cbb"
  by (simp add: sample_cbb_def cbb_inv_def buffer_inv_def SIZE_MOD_def)

lemma sample_cbb_closable: "cbb_closable sample_cbb 0"
  by (simp add: sample_cbb_def cbb_closable_def cbb_views_def used_def slice_def prefix_of_def)

lemma bounded_serves: "2 * n + 8 \<le> lim \<Longrightarrow> lim < SIZE_MOD \<Longrightarrow> serves (bounded_malloc lim) n"
  by (simp add: serves_def bounded_malloc_def OPENSSL_MALLOC_PREFIX_def)

lemma sample_cbb_room: "cbb_room (bounded_malloc 1000) sample_cbb 100"
  by (simp add: cbb_room_def sample_cbb_def bounded_serves SIZE_MOD_def)

text \<open>
  C2: \<open>CBB_flush\<close> refines the abstract operation of closing the open children: when it returns
  success, the contents of the \<open>CBB\<close> it was called on are its old contents followed by its
  children's with their length prefixes (one to eight bytes big-endian, or DER lengths), the
  enclosing \<open>CBB\<close>s are untouched, and the invariant is kept.
\<close>

theorem CBB_flush_refines_collapse:
  assumes "malloc_law malloc" "cbb_inv cbb" "CBB_flush malloc cbb d = (True, cbb')"
  shows "cbb_inv cbb' \<and> children cbb' = take d (children cbb) \<and>
    (\<exists>body. collapse (drop d (children cbb)) (drop d (cbb_views cbb)) = Some body \<and>
       cbb_views cbb' = take d (cbb_views cbb) @ [body])"
  using wr_flush.writes [OF assms] by (simp add: appended_def)

theorem CBB_flush_refines_collapse_witness:
  "malloc_law (bounded_malloc 1000) \<and> cbb_inv sample_cbb \<and>
   (\<exists>cbb'. CBB_flush (bounded_malloc 1000) sample_cbb 0 = (True, cbb') \<and> children cbb' = [] \<and> cbb_views cbb' = [[1, 7]])"
proof -
  obtain cbb' where r: "CBB_flush (bounded_malloc 1000) sample_cbb 0 = (True, cbb')"
    using CBB_flush_succeeds [OF bounded_malloc_law sample_cbb_inv sample_cbb_room sample_cbb_closable] by blast
  show ?thesis
    using CBB_flush_refines_collapse [OF bounded_malloc_law sample_cbb_inv r] r sample_cbb_inv
    by (auto simp: bounded_malloc_law sample_cbb_def cbb_views_def used_def slice_def prefix_of_def)
qed

text \<open>
  C4: \<open>CBB_flush\<close> returns success whenever every child's length fits its prefix, the buffer may
  grow and the allocator serves the blocks the growth can ask for.
\<close>

theorem CBB_flush_total:
  assumes "malloc_law malloc" "cbb_inv cbb" "cbb_room malloc cbb n" "cbb_closable cbb d"
  shows "\<exists>cbb'. CBB_flush malloc cbb d = (True, cbb') \<and> cbb_inv cbb' \<and> cbb_room malloc cbb' n"
  using CBB_flush_succeeds [OF assms] wr_flush.keeps_inv [OF assms(1,2)] by blast

theorem CBB_flush_total_witness:
  "malloc_law (bounded_malloc 1000) \<and> cbb_inv sample_cbb \<and> cbb_room (bounded_malloc 1000) sample_cbb 100 \<and>
   cbb_closable sample_cbb 0 \<and> (\<exists>cbb'. CBB_flush (bounded_malloc 1000) sample_cbb 0 = (True, cbb') \<and> cbb_inv cbb')"
  using CBB_flush_total [OF bounded_malloc_law sample_cbb_inv sample_cbb_room sample_cbb_closable]
    sample_cbb_inv sample_cbb_room sample_cbb_closable bounded_malloc_law by blast

text \<open>With room and a successful allocator, \<open>CBB_add_bytes\<close> on any open \<open>CBB\<close> succeeds, closes
  its children and appends exactly the given bytes to its contents, and nothing else.
\<close>

lemma CBB_add_bytes_appends:
  assumes "malloc_law malloc" "cbb_inv cbb" "cbb_room malloc cbb (length data + n)" "cbb_closable cbb d" "length data < SIZE_MOD"
  shows "\<exists>cbb' body. CBB_add_bytes malloc cbb d data = (True, cbb') \<and> cbb_inv cbb' \<and> cbb_room malloc cbb' n \<and>
    collapse (drop d (children cbb)) (drop d (cbb_views cbb)) = Some body \<and>
    cbb_views cbb' = take d (cbb_views cbb) @ [body @ data]"
  using cbb_total_writer.total [OF CBB_add_bytes_total [OF assms(5)] assms(1,2,4,3)] by (auto simp: appended_def)
end
