(* ===== verification/Ber.thy ===== *)
theory Ber
  imports Cbb_Total
begin

text \<open>
  The BER-to-DER converter of \<open>crypto/bytestring/ber.c\<close>. \<open>cbs_find_ber\<close> walks an input and
  reports whether it needs conversion, \<open>cbs_convert_ber\<close> copies it to a builder, turning
  indefinite lengths into DER lengths and constructed strings into primitive ones.

  The walk is a total function: every element is at least two bytes long. The converter takes
  a counter of recursive calls and loop turns, because it recurses on the reader that it also
  loops over; \<open>None\<close> would be an exhausted counter, and it is shown that a counter larger than
  the number of bytes left is never exhausted.
\<close>

section \<open>String types\<close>

definition CBS_ASN1_UTF8STRING :: u32 where "CBS_ASN1_UTF8STRING = 0xc"
definition CBS_ASN1_NUMERICSTRING :: u32 where "CBS_ASN1_NUMERICSTRING = 0x12"
definition CBS_ASN1_PRINTABLESTRING :: u32 where "CBS_ASN1_PRINTABLESTRING = 0x13"
definition CBS_ASN1_T61STRING :: u32 where "CBS_ASN1_T61STRING = 0x14"
definition CBS_ASN1_VIDEOTEXSTRING :: u32 where "CBS_ASN1_VIDEOTEXSTRING = 0x15"
definition CBS_ASN1_IA5STRING :: u32 where "CBS_ASN1_IA5STRING = 0x16"
definition CBS_ASN1_GRAPHICSTRING :: u32 where "CBS_ASN1_GRAPHICSTRING = 0x19"
definition CBS_ASN1_VISIBLESTRING :: u32 where "CBS_ASN1_VISIBLESTRING = 0x1a"
definition CBS_ASN1_GENERALSTRING :: u32 where "CBS_ASN1_GENERALSTRING = 0x1b"
definition CBS_ASN1_UNIVERSALSTRING :: u32 where "CBS_ASN1_UNIVERSALSTRING = 0x1c"
definition CBS_ASN1_BMPSTRING :: u32 where "CBS_ASN1_BMPSTRING = 0x1e"

definition kMaxDepth :: nat where "kMaxDepth = 2048"

definition is_string_type :: "u32 \<Rightarrow> bool" where
  "is_string_type tag \<longleftrightarrow>
     tag AND NOT CBS_ASN1_CONSTRUCTED \<in>
       {CBS_ASN1_OCTETSTRING, CBS_ASN1_UTF8STRING, CBS_ASN1_NUMERICSTRING, CBS_ASN1_PRINTABLESTRING,
        CBS_ASN1_T61STRING, CBS_ASN1_VIDEOTEXSTRING, CBS_ASN1_IA5STRING, CBS_ASN1_GRAPHICSTRING,
        CBS_ASN1_VISIBLESTRING, CBS_ASN1_GENERALSTRING, CBS_ASN1_UNIVERSALSTRING, CBS_ASN1_BMPSTRING}"

section \<open>Every element consumes its header\<close>

lemma CBS_get_u8_len: "CBS_get_u8 c = (Some b, c') \<Longrightarrow> cbs_len c = Suc (cbs_len c')"
  by (auto simp: CBS_get_u8_def cbs_get_def split: if_splits)

lemma parse_base128_loop_len:
  "parse_base128_loop c v = (Some w, c') \<Longrightarrow> 2 ^ (7 * j) \<le> unat v \<Longrightarrow> j \<le> 9 \<Longrightarrow>
     cbs_len c' < cbs_len c \<and> cbs_len c \<le> cbs_len c' + (10 - j)"
proof (induction c v arbitrary: j rule: parse_base128_loop.induct)
  case (1 c v)
  from "1.prems"(1) obtain b c1 where g: "CBS_get_u8 c = (Some b, c1)"
    and top: "drop_bit 57 v = 0" and nz: "\<not> (v = 0 \<and> b = 0x80)"
    and rest: "(if b AND 0x80 \<noteq> 0 then parse_base128_loop c1 (push_bit 7 v OR ucast (b AND 0x7f))
      else (Some (push_bit 7 v OR ucast (b AND 0x7f)), c1)) = (Some w, c')"
    by (auto simp: parse_base128_loop.simps [of c v] Let_def split: prod.splits option.splits if_splits)
  have len: "cbs_len c = Suc (cbs_len c1)" using CBS_get_u8_len [OF g] .
  have small: "unat v < 2 ^ 57" using top drop_top_7_iff [of v] by auto
  have "(2 :: nat) ^ (7 * j) < 2 ^ 57" using "1.prems"(2) small by (rule le_less_trans)
  then have "7 * j < 57" by (rule power_less_imp_less_exp [rotated]) simp
  then have j: "j \<le> 8" by simp
  show ?case
  proof (cases "b AND 0x80 \<noteq> 0")
    case False
    with rest len j show ?thesis by auto
  next
    case True
    let ?v = "push_bit 7 v OR ucast (b AND 0x7f)"
    have "unat ?v = unat v * 128 + unat b mod 128" using small by (rule shift_or_7)
    moreover have "(2 :: nat) ^ (7 * Suc j) = 2 ^ (7 * j) * 128" by (simp add: power_add)
    ultimately have "2 ^ (7 * Suc j) \<le> unat ?v" using "1.prems"(2) by simp
    moreover have "parse_base128_loop c1 ?v = (Some w, c')" using rest True by simp
    ultimately have "cbs_len c' < cbs_len c1 \<and> cbs_len c1 \<le> cbs_len c' + (10 - Suc j)"
      using j True top nz by (intro "1.IH" [OF g [symmetric] refl _ _ refl]) (auto simp: Let_def)
    with len j show ?thesis by auto
  qed
qed

lemma parse_asn1_tag_len:
  assumes "parse_asn1_tag c = (Some t, c')"
  shows "cbs_len c' < cbs_len c \<and> cbs_len c \<le> cbs_len c' + 12"
proof -
  obtain b c1 where g: "CBS_get_u8 c = (Some b, c1)"
    using assms by (auto simp: parse_asn1_tag_def split: prod.splits option.splits)
  have len: "cbs_len c = Suc (cbs_len c1)" using CBS_get_u8_len [OF g] .
  consider "c' = c1" | w where "parse_base128_loop c1 0 = (Some w, c')"
    using assms g
    by (auto simp: parse_asn1_tag_def Let_def parse_base128_integer_def split: prod.splits option.splits if_splits)
  then show ?thesis
  proof cases
    case 1
    with len show ?thesis by simp
  next
    case (2 w)
    obtain b2 c2 where g2: "CBS_get_u8 c1 = (Some b2, c2)" and nz: "b2 \<noteq> 0x80"
      and rest: "(if b2 AND 0x80 \<noteq> 0 then parse_base128_loop c2 (ucast (b2 AND 0x7f)) else (Some (ucast (b2 AND 0x7f)), c2)) = (Some w, c')"
      using 2 by (auto simp: parse_base128_loop.simps [of c1 0] Let_def split: prod.splits option.splits if_splits)
    have len2: "cbs_len c1 = Suc (cbs_len c2)" using CBS_get_u8_len [OF g2] .
    show ?thesis
    proof (cases "b2 AND 0x80 \<noteq> 0")
      case False
      with rest len len2 show ?thesis by auto
    next
      case True
      then have "128 \<le> unat b2" by (simp add: byte_high_bit_iff)
      moreover have "unat b2 \<noteq> 128" using nz by (auto simp: word_unat_eq_iff)
      moreover have "unat b2 - 128 < 128" using unat_byte_less [of b2] by linarith
      ultimately have "unat b2 mod 128 \<noteq> 0" by (simp add: le_mod_geq)
      then have "2 ^ (7 * 0) \<le> unat (ucast (b2 AND 0x7f) :: u64)"
        by (simp add: unat_ucast_byte byte_and_7f Suc_le_eq)
      with rest True have "cbs_len c' < cbs_len c2 \<and> cbs_len c2 \<le> cbs_len c' + (10 - 0)"
        by (intro parse_base128_loop_len) auto
      with len len2 show ?thesis by auto
    qed
  qed
qed

lemma CBS_get_bytes_len: "CBS_get_bytes c n = (Some out, c') \<Longrightarrow> cbs_len out = n \<and> cbs_len c = cbs_len c' + n"
  by (auto simp: CBS_get_bytes_def cbs_get_def CBS_init_at_def split: if_splits)

lemma cbs_get_u_len: "cbs_get_u c n = (Some w, c') \<Longrightarrow> unat w < 2 ^ 64 \<and> cbs_len c = cbs_len c' + n"
  using unsigned_less [of w, where 'a = nat] by (auto simp: cbs_get_u_def cbs_get_def split: if_splits)

lemma cbs_get_u_small: "cbs_get_u c n = (Some w, c') \<Longrightarrow> n \<le> 4 \<Longrightarrow> unat w < 2 ^ 32"
proof -
  assume a: "cbs_get_u c n = (Some w, c')" "n \<le> 4"
  then have w: "w = of_nat (be_value (take n (cbs_bytes c)))" by (simp add: cbs_get_u_eq split: if_splits)
  have "be_value (take n (cbs_bytes c)) < 256 ^ length (take n (cbs_bytes c))" by (rule be_value_less)
  also have "\<dots> \<le> 256 ^ 4" using a(2) by (intro power_increasing) auto
  finally show ?thesis by (simp add: w unat_of_nat)
qed

text \<open>The reader never wraps: a header is between 2 and 17 bytes long.\<close>

lemma ber_element_len:
  assumes "cbs_get_any_asn1_element c ber_ok = (Some (out, t, hl, bf), c')"
  shows "2 \<le> hl \<and> hl \<le> cbs_len out \<and> cbs_len c = cbs_len c' + cbs_len out"
proof -
  obtain h1 where g1: "parse_asn1_tag c = (Some t, h1)"
    using assms by (auto simp: cbs_get_any_asn1_element_def Let_def split: prod.splits option.splits if_splits)
  obtain lb h where g2: "CBS_get_u8 h1 = (Some lb, h)"
    using assms g1 by (auto simp: cbs_get_any_asn1_element_def Let_def split: prod.splits option.splits if_splits)
  let ?hl = "cbs_len c - cbs_len h"
  have hl: "2 \<le> ?hl" "?hl \<le> 13" using parse_asn1_tag_len [OF g1] CBS_get_u8_len [OF g2] by auto
  have no_wrap: "x < 2 ^ 33 \<Longrightarrow> size_add x y = x + y" if "y \<le> 20" for x y
    using that by (intro size_add_no_wrap) (simp add: SIZE_MOD_def)
  have lb: "unat lb < 2 ^ 33" by (rule less_trans [OF unat_byte_less]) simp
  have fin: "2 \<le> hl \<and> hl \<le> cbs_len out \<and> cbs_len c = cbs_len c' + cbs_len out"
    if "CBS_get_bytes c (x + hl) = (Some out, c')" "2 \<le> hl" for x
    using CBS_get_bytes_len [OF that(1)] that(2) by simp
  let ?k = "unat (lb AND 0x7f)"
  note el = assms [unfolded cbs_get_any_asn1_element_def g1 g2 prod.case option.case Let_def CBS_len_def]
  show ?thesis
  proof (cases "lb AND 0x80 = 0")
    case True
    from el [unfolded if_P [OF True]]
    have r: "CBS_get_bytes c (size_add (unat lb) ?hl) = (Some out, c')" "hl = ?hl"
      by (auto split: prod.splits option.splits)
    have "?hl \<le> 20" using hl(2) by linarith
    then have "size_add (unat lb) ?hl = unat lb + ?hl" using lb by (rule no_wrap)
    with r have "CBS_get_bytes c (unat lb + hl) = (Some out, c')" by (simp only:)
    then show ?thesis by (rule fin) (simp only: r(2) hl(1))
  next
    case False
    show ?thesis
    proof (cases "ber_ok \<and> t AND CBS_ASN1_CONSTRUCTED \<noteq> 0 \<and> ?k = 0")
      case True
      from el [unfolded if_not_P [OF False] if_P [OF True]]
      have r: "CBS_get_bytes c ?hl = (Some out, c')" "hl = ?hl"
        by (auto split: prod.splits option.splits)
      then have "CBS_get_bytes c (0 + hl) = (Some out, c')" by (simp only: add_0)
      then show ?thesis by (rule fin) (simp only: r(2) hl(1))
    next
      case long: False
      note el2 = el [unfolded if_not_P [OF False] if_not_P [OF long]]
      have k: "\<not> (?k = 0 \<or> ?k > 4)" using el2 by (auto split: if_splits)
      obtain w h' where u: "cbs_get_u h ?k = (Some w, h')"
        using el2 [unfolded if_not_P [OF k]] by (auto split: prod.splits option.splits)
      have w: "unat w < 2 ^ 32" using cbs_get_u_small [OF u] k by simp
      have "?hl + ?k \<le> 20" using hl k by linarith
      moreover have "?k \<le> 20" "?hl < 2 ^ 33" "unat w < 2 ^ 33" using hl k w by simp_all
      ultimately have sums: "size_add ?hl ?k = ?hl + ?k" "size_add (unat w) (?hl + ?k) = unat w + (?hl + ?k)"
        by - (rule no_wrap; assumption)+
      have r: "CBS_get_bytes c (size_add (unat w) (size_add ?hl ?k)) = (Some out, c')" "hl = size_add ?hl ?k"
        using el2 [unfolded if_not_P [OF k] u prod.case option.case]
        by (auto split: prod.splits option.splits if_splits)
      then have "CBS_get_bytes c (unat w + hl) = (Some out, c')" by (simp only: sums)
      then show ?thesis by (rule fin) (use r(2) sums(1) hl(1) in linarith)
    qed
  qed
qed

lemma ber_contents_shorter:
  assumes "CBS_get_any_ber_asn1_element c = (Some (out, t, hl, bf), c')"
  shows "cbs_len c' < cbs_len c" "CBS_skip out hl = (Some u, out') \<Longrightarrow> cbs_len out' < cbs_len c"
  using ber_element_len [OF assms [unfolded CBS_get_any_ber_asn1_element_def]]
  by (auto simp: CBS_skip_def cbs_get_def split: if_splits)

lemma CBS_get_asn1_shorter:
  assumes "CBS_get_asn1 c t = (Some out, c')"
  shows "cbs_len c' < cbs_len c"
proof -
  obtain o' t' hl where "CBS_get_any_asn1_element c = (Some (o', t', hl), c')"
    using assms by (auto simp: CBS_get_asn1_def cbs_get_asn1_def split: prod.splits option.splits if_splits)
  then obtain bf where "cbs_get_any_asn1_element c False = (Some (o', t', hl, bf), c')"
    by (auto simp: CBS_get_any_asn1_element_def split: prod.splits option.splits)
  from ber_element_len [OF this] show ?thesis by linarith
qed

section \<open>Looking for BER\<close>

text \<open>\<open>None\<close> is the return value 0; \<open>Some b\<close> is success with \<open>*ber_found = b\<close>.\<close>

function cbs_find_ber :: "CBS \<Rightarrow> nat \<Rightarrow> bool option"
  and cbs_find_ber_loop :: "CBS \<Rightarrow> bool \<Rightarrow> nat \<Rightarrow> bool option" where
  "cbs_find_ber orig_in depth =
     (if depth > kMaxDepth then None else cbs_find_ber_loop orig_in False depth)"
| "cbs_find_ber_loop inp ber_found depth =
     (if CBS_len inp > 0 then
        (case CBS_get_any_ber_asn1_element inp of
           (None, _) \<Rightarrow> None
         | (Some (contents, tag, header_len, ber_found'), inp') \<Rightarrow>
             if ber_found' then Some True
             else if tag AND CBS_ASN1_CONSTRUCTED \<noteq> 0 then
               if is_string_type tag then Some True
               else (case CBS_skip contents header_len of
                       (None, _) \<Rightarrow> None
                     | (Some _, contents') \<Rightarrow>
                         (case cbs_find_ber contents' (depth + 1) of
                            None \<Rightarrow> None
                          | Some ber_found'' \<Rightarrow> cbs_find_ber_loop inp' ber_found'' depth))
             else cbs_find_ber_loop inp' ber_found' depth)
      else Some ber_found)"
  by pat_completeness auto
termination
proof (relation "measure (case_sum (\<lambda>(c, _). 2 * cbs_len c + 1) (\<lambda>(c, _). 2 * cbs_len c))", goal_cases)
  case (3 inp f d e inp' a contents b tag c hl bf u contents')
  then have "CBS_get_any_ber_asn1_element inp = (Some (contents, tag, hl, bf), inp')"
    "CBS_skip contents hl = (Some (), contents')" by auto
  from ber_contents_shorter(2) [OF this] show ?case by simp
qed (auto dest!: ber_contents_shorter(1) [OF sym])

declare cbs_find_ber.simps [simp del] cbs_find_ber_loop.simps [simp del]

section \<open>Converting\<close>

definition is_eoc :: "nat \<Rightarrow> CBS \<Rightarrow> bool" where
  "is_eoc header_len contents \<longleftrightarrow>
     header_len = 2 \<and> CBS_len contents = 2 \<and> OPENSSL_memcmp (CBS_data contents) [0, 0] 2 = 0"

text \<open>
  The builder is \<open>out\<close> at depth \<open>d\<close>. The result is the return value, the reader \<open>*in\<close> and the
  builder after the call.
\<close>

type_synonym ber_converter = "libc_malloc \<Rightarrow> CBS \<Rightarrow> CBB \<Rightarrow> nat \<Rightarrow> u32 \<Rightarrow> bool \<Rightarrow> nat \<Rightarrow> (bool \<times> CBS \<times> CBB) option"

text \<open>The entry of the function, before its loop.\<close>

definition convert_ber_entry :: "ber_converter \<Rightarrow> ber_converter" where
  "convert_ber_entry loop malloc inp out d string_tag looking_for_eoc depth =
     (if depth > kMaxDepth then Some (False, inp, out)
      else loop malloc inp out d string_tag looking_for_eoc depth)"

primrec cbs_convert_ber_loop :: "nat \<Rightarrow> ber_converter" where
  "cbs_convert_ber_loop 0 = (\<lambda>malloc inp out d string_tag looking_for_eoc depth. None)"
| "cbs_convert_ber_loop (Suc fuel) = (\<lambda>malloc inp out d string_tag looking_for_eoc depth.
     (if CBS_len inp > 0 then
        (case CBS_get_any_ber_asn1_element inp of
           (None, inp1) \<Rightarrow> Some (False, inp1, out)
         | (Some (contents, tag, header_len, _), inp1) \<Rightarrow>
             if is_eoc header_len contents then Some (looking_for_eoc, inp1, out)
             else if string_tag \<noteq> 0 \<and> tag AND NOT CBS_ASN1_CONSTRUCTED \<noteq> string_tag then Some (False, inp1, out)
             else
               (let constructed_string = tag AND CBS_ASN1_CONSTRUCTED \<noteq> 0 \<and> is_string_type tag;
                    out_tag = (if constructed_string then tag AND NOT CBS_ASN1_CONSTRUCTED else tag);
                    child_string_tag = (if string_tag \<noteq> 0 then string_tag
                                        else if constructed_string then out_tag else string_tag);
                    d' = (if string_tag \<noteq> 0 then d else Suc d)
                in case (if string_tag \<noteq> 0 then (True, out) else CBB_add_asn1 malloc out d out_tag) of
                     (False, out1) \<Rightarrow> Some (False, inp1, out1)
                   | (True, out1) \<Rightarrow>
                       if CBS_len contents = header_len \<and> header_len > 0 \<and> CBS_data contents ! (header_len - 1) = 0x80 then
                         (case convert_ber_entry (cbs_convert_ber_loop fuel) malloc inp1 out1 d' child_string_tag True (depth + 1) of
                            None \<Rightarrow> None
                          | Some (False, inp2, out2) \<Rightarrow> Some (False, inp2, out2)
                          | Some (True, inp2, out2) \<Rightarrow>
                              (case CBB_flush malloc out2 d of
                                 (False, out3) \<Rightarrow> Some (False, inp2, out3)
                               | (True, out3) \<Rightarrow>
                                   cbs_convert_ber_loop fuel malloc inp2 out3 d string_tag looking_for_eoc depth))
                       else
                         (case CBS_skip contents header_len of
                            (None, _) \<Rightarrow> Some (False, inp1, out1)
                          | (Some _, contents') \<Rightarrow>
                              (case (if tag AND CBS_ASN1_CONSTRUCTED \<noteq> 0 then
                                       map_option (\<lambda>(ok, _, o2). (ok, o2))
                                         (convert_ber_entry (cbs_convert_ber_loop fuel) malloc contents' out1 d' child_string_tag False (depth + 1))
                                     else Some (CBB_add_bytes malloc out1 d' (cbs_bytes contents'))) of
                                 None \<Rightarrow> None
                               | Some (False, out2) \<Rightarrow> Some (False, inp1, out2)
                               | Some (True, out2) \<Rightarrow>
                                   (case CBB_flush malloc out2 d of
                                      (False, out3) \<Rightarrow> Some (False, inp1, out3)
                                    | (True, out3) \<Rightarrow>
                                        cbs_convert_ber_loop fuel malloc inp1 out3 d string_tag looking_for_eoc depth)))))
      else Some (\<not> looking_for_eoc, inp, out)))"

declare cbs_convert_ber_loop.simps [simp del]

definition cbs_convert_ber :: "nat \<Rightarrow> ber_converter" where
  "cbs_convert_ber fuel = convert_ber_entry (cbs_convert_ber_loop fuel)"

text \<open>
  The result of \<open>CBS_asn1_ber_to_der\<close>: the element and the storage it was converted into, if any.
\<close>

definition CBS_asn1_ber_to_der :: "libc_malloc \<Rightarrow> CBS \<Rightarrow> (CBS \<times> byte list option) cbs_result" where
  "CBS_asn1_ber_to_der malloc inp =
     (case cbs_find_ber inp 0 of
        None \<Rightarrow> (None, inp)
      | Some False \<Rightarrow>
          (case CBS_get_any_asn1_element inp of
             (None, inp1) \<Rightarrow> (None, inp1)
           | (Some (out, _, _), inp1) \<Rightarrow> (Some (out, None), inp1))
      | Some True \<Rightarrow>
          (case CBB_init malloc (CBS_len inp) of
             (False, _) \<Rightarrow> (None, inp)
           | (True, cbb) \<Rightarrow>
               (case cbs_convert_ber (Suc (CBS_len inp)) malloc inp cbb 0 0 False 0 of
                  None \<Rightarrow> (None, inp)
                | Some (False, inp1, _) \<Rightarrow> (None, inp1)
                | Some (True, inp1, cbb1) \<Rightarrow>
                    (case CBB_finish malloc cbb1 0 True True of
                       (None, _) \<Rightarrow> (None, inp1)
                     | (Some storage, _) \<Rightarrow> (Some (CBS_init storage, Some storage), inp1)))))"

section \<open>Implicitly tagged strings\<close>

function implicit_string_loop :: "libc_malloc \<Rightarrow> CBS \<Rightarrow> CBB \<Rightarrow> u32 \<Rightarrow> bool \<times> CBB" where
  "implicit_string_loop malloc child result inner_tag =
     (if CBS_len child > 0 then
        (case CBS_get_asn1 child inner_tag of
           (None, _) \<Rightarrow> (False, result)
         | (Some chunk, child') \<Rightarrow>
             (case CBB_add_bytes malloc result 0 (cbs_bytes chunk) of
                (False, r) \<Rightarrow> (False, r)
              | (True, r) \<Rightarrow> implicit_string_loop malloc child' r inner_tag))
      else (True, result))"
  by pat_completeness auto
termination
  by (relation "measure (\<lambda>(_, c, _). cbs_len c)") (auto dest: CBS_get_asn1_shorter [OF sym])

definition CBS_get_asn1_implicit_string :: "libc_malloc \<Rightarrow> CBS \<Rightarrow> u32 \<Rightarrow> u32 \<Rightarrow> (CBS \<times> byte list option) cbs_result" where
  "CBS_get_asn1_implicit_string malloc inp outer_tag inner_tag =
     (if CBS_peek_asn1_tag inp outer_tag then
        (case CBS_get_asn1 inp outer_tag of (None, c) \<Rightarrow> (None, c) | (Some out, c) \<Rightarrow> (Some (out, None), c))
      else
        (case CBB_init malloc (CBS_len inp) of
           (False, _) \<Rightarrow> (None, inp)
         | (True, result) \<Rightarrow>
             (case CBS_get_asn1 inp (outer_tag OR CBS_ASN1_CONSTRUCTED) of
                (None, c) \<Rightarrow> (None, c)
              | (Some child, c) \<Rightarrow>
                  (case implicit_string_loop malloc child result inner_tag of
                     (False, _) \<Rightarrow> (None, c)
                   | (True, result1) \<Rightarrow>
                       (case CBB_finish malloc result1 0 True True of
                          (None, _) \<Rightarrow> (None, c)
                        | (Some data, _) \<Rightarrow> (Some (CBS_init data, Some data), c))))))"

declare implicit_string_loop.simps [simp del]

section \<open>The counter suffices\<close>

lemma convert_ber_entry_fuel:
  assumes "\<exists>ok inp' out'. loop malloc inp out d st eoc depth = Some (ok, inp', out') \<and> cbs_len inp' \<le> cbs_len inp"
  shows "\<exists>ok inp' out'. convert_ber_entry loop malloc inp out d st eoc depth = Some (ok, inp', out') \<and>
    cbs_len inp' \<le> cbs_len inp"
  using assms by (cases "depth > kMaxDepth") (auto simp: convert_ber_entry_def)

lemma cbs_convert_ber_loop_fuel:
  "cbs_len inp < fuel \<Longrightarrow> \<exists>ok inp' out'.
     cbs_convert_ber_loop fuel malloc inp out d st eoc depth = Some (ok, inp', out') \<and> cbs_len inp' \<le> cbs_len inp"
proof (induction fuel arbitrary: malloc inp out d st eoc depth)
  case (Suc fuel)
  let ?ent = "convert_ber_entry (cbs_convert_ber_loop fuel)"
  show ?case
  proof (cases "CBS_len inp > 0")
    case True
    obtain oe inp1 where g: "CBS_get_any_ber_asn1_element inp = (oe, inp1)" by fastforce
    show ?thesis
    proof (cases oe)
      case None
      have "cbs_len inp1 \<le> cbs_len inp"
        using g None by (auto simp: CBS_get_any_ber_asn1_element_def cbs_get_any_asn1_element_def Let_def
            CBS_get_bytes_def cbs_get_def split: prod.splits option.splits if_splits)
      with True None g show ?thesis by (auto simp: cbs_convert_ber_loop.simps)
    next
      case (Some e)
      obtain contents tag hl bf where e: "e = (contents, tag, hl, bf)" by (cases e)
      note g' = g [unfolded Some e]
      have l1: "cbs_len inp1 < cbs_len inp" using ber_contents_shorter(1) [OF g'] .
      then have f1: "cbs_len inp1 < fuel" using Suc.prems by simp
      have ent: "\<exists>ok inp' out'. ?ent malloc c o' d' st' eoc' dp = Some (ok, inp', out') \<and> cbs_len inp' \<le> cbs_len c"
        if "cbs_len c < cbs_len inp" for c o' d' st' eoc' dp
        using that Suc.prems by (intro convert_ber_entry_fuel Suc.IH) simp
      have go: "\<exists>ok inp' out'. cbs_convert_ber_loop fuel malloc c o' d' st' eoc' dp = Some (ok, inp', out') \<and> cbs_len inp' \<le> cbs_len inp"
        if "cbs_len c \<le> cbs_len inp1" for c o' d' st' eoc' dp
        using Suc.IH [of c malloc o' d' st' eoc' dp] that l1 f1 by fastforce
      have sk: "CBS_skip contents hl = (Some u, c) \<Longrightarrow> cbs_len c < cbs_len inp" for u c
        using ber_contents_shorter(2) [OF g'] .
      let ?cs = "tag AND CBS_ASN1_CONSTRUCTED \<noteq> 0 \<and> is_string_type tag"
      let ?ot = "if ?cs then tag AND NOT CBS_ASN1_CONSTRUCTED else tag"
      let ?cst = "if st \<noteq> 0 then st else if ?cs then ?ot else st"
      let ?d = "if st \<noteq> 0 then d else Suc d"
      obtain ok1 out1 where o1: "(if st \<noteq> 0 then (True, out) else CBB_add_asn1 malloc out d ?ot) = (ok1, out1)" by fastforce
      obtain ok2 inp2 out2 where c2: "?ent malloc inp1 out1 ?d ?cst True (depth + 1) = Some (ok2, inp2, out2)" "cbs_len inp2 \<le> cbs_len inp1"
        using ent [OF l1] by blast
      show ?thesis
      proof (cases "CBS_len contents = hl \<and> hl > 0 \<and> CBS_data contents ! (hl - 1) = 0x80")
        case indef: True
        show ?thesis
          unfolding cbs_convert_ber_loop.simps g' o1 c2(1) Let_def if_P [OF indef] if_P [OF True] prod.case option.case
          using c2(2) l1 go by (auto split: bool.split prod.split)
      next
        case False
        obtain os contents1 where s1: "CBS_skip contents hl = (os, contents1)" by fastforce
        show ?thesis
        proof (cases os)
          case None
          show ?thesis
            unfolding cbs_convert_ber_loop.simps g' o1 Let_def if_not_P [OF False] if_P [OF True] s1 None prod.case option.case
            using l1 by (auto split: bool.split)
        next
          case os: (Some u)
          obtain ok3 inp3 out3 where c3: "?ent malloc contents1 out1 ?d ?cst False (depth + 1) = Some (ok3, inp3, out3)"
            using ent [OF sk [OF s1 [unfolded os]]] by blast
          show ?thesis
            unfolding cbs_convert_ber_loop.simps g' o1 Let_def if_not_P [OF False] if_P [OF True] s1 os c3 prod.case option.case
            using l1 go by (auto split: bool.split prod.split)
        qed
      qed
    qed
  qed (simp add: cbs_convert_ber_loop.simps)
qed simp

lemma cbs_convert_ber_fuel:
  assumes "cbs_len inp < fuel"
  obtains ok inp' out' where "cbs_convert_ber fuel malloc inp out d st eoc depth = Some (ok, inp', out')"
  using convert_ber_entry_fuel [where loop = "cbs_convert_ber_loop fuel", OF cbs_convert_ber_loop_fuel [OF assms]]
  unfolding cbs_convert_ber_def by blast

section \<open>BER on the level of bytes\<close>


datatype ber = Prim u32 "byte list" | Constr u32 "ber list"










section \<open>The output of a conversion\<close>

text \<open>
  DER without constructed strings: a sequence of elements with definite minimal lengths, where
  the contents of a constructed element are again such a sequence.
\<close>

inductive der_forest :: "byte list \<Rightarrow> bool" where
  der_forest_Nil: "der_forest []"
| der_forest_prim: "length body < 2 ^ 32 \<Longrightarrow> t AND CBS_ASN1_CONSTRUCTED = 0 \<Longrightarrow> der_forest rest \<Longrightarrow>
    der_forest (der_element t body @ rest)"
| der_forest_cons: "length body < 2 ^ 32 \<Longrightarrow> t AND CBS_ASN1_CONSTRUCTED \<noteq> 0 \<Longrightarrow> \<not> is_string_type t \<Longrightarrow>
    der_forest body \<Longrightarrow> der_forest rest \<Longrightarrow> der_forest (der_element t body @ rest)"


text \<open>A \<open>CBB\<close> without pending children.\<close>

definition cbb_leaf :: "CBB \<Rightarrow> nat \<Rightarrow> bool" where
  "cbb_leaf cbb d \<longleftrightarrow> cbb_inv cbb \<and> base cbb \<noteq> None \<and> length (children cbb) = d"

lemma appended_leaf: "appended d x cbb cbb' \<Longrightarrow> cbb_leaf cbb' d"
  by (auto simp: appended_def cbb_leaf_def)


lemma leaf_appended_Nil:
  assumes "cbb_leaf cbb d"
  shows "appended d [] cbb cbb"
proof -
  from assms obtain b where b: "base cbb = Some b" "length (children cbb) = d" "cbb_inv cbb" by (auto simp: cbb_leaf_def)
  have "length (cbb_views cbb) = Suc d" using b by (simp add: cbb_views_def)
  then obtain x where "drop d (cbb_views cbb) = [x]"
    by (metis Cons_nth_drop_Suc drop_all lessI order_refl)
  moreover then have "cbb_views cbb = take d (cbb_views cbb) @ [x]" by (metis append_take_drop_id)
  ultimately show ?thesis using b by (simp add: appended_def)
qed













lemma ber_element_reader:
  assumes "cbs_inv inp" "CBS_get_any_ber_asn1_element inp = (Some (contents, tag, hl, bf), inp1)"
  shows "cbs_inv contents" "cbs_within contents inp" "cbs_inv inp1" "cbs_advances inp1 inp"
proof -
  obtain n where g: "CBS_get_bytes inp n = (Some contents, inp1)"
    using assms(2) by (auto simp: CBS_get_any_ber_asn1_element_def cbs_get_any_asn1_element_def Let_def
        split: prod.splits option.splits if_splits)
  show "cbs_within contents inp" using CBS_get_bytes_within [OF g] .
  then show "cbs_inv contents" using assms(1) by (rule cbs_within_inv)
  show "cbs_inv inp1" "cbs_advances inp1 inp"
    using g assms(1) by (auto intro: rd_bytes.keeps_inv rd_bytes.advancesD)
qed

text \<open>The two zero octets and the elements of indefinite length, as the code recognises them.\<close>

lemma der_tag_nonempty [simp]: "der_tag t \<noteq> []"
  by (simp add: der_tag_def Let_def)






lemma CBB_init_leaf:
  assumes "malloc_law malloc" "CBB_init malloc c = (True, cbb)" "c < SIZE_MOD"
  shows "cbb_leaf cbb 0" "cbb_views cbb = [[]]"
  using assms OPENSSL_malloc_length [OF assms(1,3)]
  by (auto simp: CBB_init_def cbb_init_def CBB_zero_def cbb_leaf_def cbb_inv_def buffer_inv_def cbb_views_def used_def
      SIZE_MOD_def split: option.splits if_splits)

text \<open>The chunks of a constructed string are concatenated.\<close>

lemma implicit_string_loop_chunks:
  assumes "malloc_law malloc" "cbs_inv child" "cbb_leaf result 0"
    "implicit_string_loop malloc child result inner_tag = (True, result')"
  shows "\<exists>chunks. cbs_bytes child = concat (map (der_element inner_tag) chunks) \<and> appended 0 (concat chunks) result result'"
  using assms
proof (induction malloc child result inner_tag rule: implicit_string_loop.induct)
  case (1 malloc child result inner_tag)
  show ?case
  proof (cases "CBS_len child > 0")
    case False
    then have "cbs_bytes child = []" by (simp add: CBS_len_def cbs_bytes_def)
    moreover have "result' = result" using False "1.prems"(4) by (simp add: implicit_string_loop.simps [of malloc child])
    ultimately show ?thesis using leaf_appended_Nil [OF "1.prems"(3)] by (intro exI [of _ "[]"]) simp
  next
    case True
    obtain chunk child' r where g: "CBS_get_asn1 child inner_tag = (Some chunk, child')"
      and ab: "CBB_add_bytes malloc result 0 (cbs_bytes chunk) = (True, r)"
      and rest: "implicit_string_loop malloc child' r inner_tag = (True, result')"
      using True "1.prems"(4)
      by (auto simp: implicit_string_loop.simps [of malloc child] split: prod.splits option.splits bool.splits)
    have ic: "cbs_inv chunk" using CBS_get_asn1_inv [OF "1.prems"(2) g] .
    have "length (cbs_bytes chunk) < SIZE_MOD" using ic cbs_inv_len [OF ic] PTRDIFF_MAX_less by simp
    from cbb_writer.writes [OF CBB_add_bytes_writer [OF this] "1.prems"(1) _ ab]
    have ap: "appended 0 (cbs_bytes chunk) result r" using "1.prems"(3) by (simp add: cbb_leaf_def)
    have "spec_asn1 inner_tag (cbs_bytes child) = Some (cbs_bytes chunk, cbs_bytes child')"
      using rd_asn1.run_Some [OF "1.prems"(2) g] .
    then have b: "cbs_bytes child = der_element inner_tag (cbs_bytes chunk) @ cbs_bytes child'" by (simp add: spec_asn1_iff)
    obtain chunks where "cbs_bytes child' = concat (map (der_element inner_tag) chunks)" "appended 0 (concat chunks) r result'"
      using "1.IH" [OF True g [symmetric] refl ab [symmetric] refl "1.prems"(1)] rd_asn1.keeps_inv [OF "1.prems"(2) g]
        appended_leaf [OF ap] rest by blast
    then show ?thesis using b appended_trans [OF ap] by (intro exI [of _ "cbs_bytes chunk # chunks"]) simp
  qed
qed

section \<open>Input that is DER already\<close>

lemma der_element_nonempty [simp]: "der_element t body \<noteq> []"
  by (simp add: der_element_def der_tag_def Let_def)

lemma der_forestE:
  assumes "der_forest bs" "bs \<noteq> []"
  obtains t body rest where "bs = der_element t body @ rest" "length body < 2 ^ 32" "der_forest rest"
    "t AND CBS_ASN1_CONSTRUCTED \<noteq> 0 \<Longrightarrow> der_forest body \<and> \<not> is_string_type t"
  using assms by (cases rule: der_forest.cases) auto

lemma der_element_read:
  assumes "cbs_inv c" "cbs_bytes c = der_element t body @ rest" "length body < 2 ^ 32"
  obtains contents contents' c' where
    "CBS_get_any_ber_asn1_element c = (Some (contents, t, length (der_tag t @ der_length (length body)), False), c')"
    "CBS_skip contents (length (der_tag t @ der_length (length body))) = (Some (), contents')"
    "cbs_inv contents'" "cbs_bytes contents' = body" "cbs_inv c'" "cbs_bytes c' = rest"
proof -
  let ?hl = "length (der_tag t @ der_length (length body))"
  have "spec_element (cbs_bytes c) = Some ((der_element t body, t, ?hl), rest)"
    using assms(2,3) by (subst spec_element_iff) blast
  then obtain a c' where r: "CBS_get_any_asn1_element c = (Some a, c')" "element_view a = (der_element t body, t, ?hl)"
    "cbs_bytes c' = rest" "cbs_inv c'" using rd_element.reads [OF assms(1)] by metis
  then obtain contents where a: "a = (contents, t, ?hl)" "cbs_bytes contents = der_element t body"
    by (auto simp: element_view_def split: prod.splits)
  have ber: "CBS_get_any_ber_asn1_element c = (Some (contents, t, ?hl, False), c')"
    using r(1) a(1) by (auto simp: CBS_get_any_asn1_element_def CBS_get_any_ber_asn1_element_def der_of_ber [of c]
        split: prod.splits option.splits bool.splits)
  have ic: "cbs_inv contents" using ber_element_reader(1) [OF assms(1) ber] .
  have "?hl \<le> cbs_len contents" using length_cbs_bytes [OF ic] a(2) by (simp add: der_element_def)
  from CBS_skip_Some [OF this]
  have sk: "CBS_skip contents ?hl = (Some (), contents\<lparr>cbs_data := cbs_data contents + ?hl, cbs_len := cbs_len contents - ?hl\<rparr>)" .
  show thesis
  proof (rule that [OF ber sk])
    show "cbs_inv (contents\<lparr>cbs_data := cbs_data contents + ?hl, cbs_len := cbs_len contents - ?hl\<rparr>)"
      using CBS_skip_within [OF sk] ic by (rule cbs_within_inv)
    show "cbs_bytes (contents\<lparr>cbs_data := cbs_data contents + ?hl, cbs_len := cbs_len contents - ?hl\<rparr>) = body"
      by (simp add: cbs_move_bytes a(2) der_element_def)
  qed (use r in auto)
qed

lemma find_ber_der:
  "cbs_inv c \<Longrightarrow> der_forest (cbs_bytes c) \<Longrightarrow> cbs_find_ber c depth \<noteq> Some True"
  "cbs_inv c2 \<Longrightarrow> der_forest (cbs_bytes c2) \<Longrightarrow> \<not> f \<Longrightarrow> cbs_find_ber_loop c2 f depth2 \<noteq> Some True"
proof (induction c depth and c2 f depth2 rule: cbs_find_ber_cbs_find_ber_loop.induct)
  case (1 c depth)
  then show ?case by (simp add: cbs_find_ber.simps [of c])
next
  case (2 c f depth)
  show ?case
  proof (cases "CBS_len c > 0")
    case False
    with "2.prems" show ?thesis by (simp add: cbs_find_ber_loop.simps [of c])
  next
    case True
    then have "cbs_bytes c \<noteq> []" using length_cbs_bytes [OF "2.prems"(1)] by (auto simp: CBS_len_def)
    then obtain t body rest where el: "cbs_bytes c = der_element t body @ rest" "length body < 2 ^ 32" "der_forest rest"
      "t AND CBS_ASN1_CONSTRUCTED \<noteq> 0 \<Longrightarrow> der_forest body \<and> \<not> is_string_type t"
      using der_forestE [OF "2.prems"(2)] by blast
    obtain contents contents' c' where r:
      "CBS_get_any_ber_asn1_element c = (Some (contents, t, length (der_tag t @ der_length (length body)), False), c')"
      "CBS_skip contents (length (der_tag t @ der_length (length body))) = (Some (), contents')"
      "cbs_inv contents'" "cbs_bytes contents' = body" "cbs_inv c'" "cbs_bytes c' = rest"
      using der_element_read [OF "2.prems"(1) el(1,2)] by metis
    show ?thesis
    proof (cases "t AND CBS_ASN1_CONSTRUCTED \<noteq> 0")
      case c: True
      note b = el(4) [OF c]
      have n: "cbs_find_ber contents' (depth + 1) \<noteq> Some True"
        using "2.IH"(1) [OF True r(1) [symmetric] refl refl refl refl _ c _ r(2) [symmetric] refl r(3)] b r(4) by simp
      have "cbs_find_ber_loop c' False depth \<noteq> Some True" if "cbs_find_ber contents' (depth + 1) = Some False"
        using "2.IH"(2) [OF True r(1) [symmetric] refl refl refl refl _ c _ r(2) [symmetric] refl that r(5)] b r(6) el(3) by simp
      with n True c b r show ?thesis
        by (auto simp: cbs_find_ber_loop.simps [of c] split: option.split)
    next
      case p: False
      have "cbs_find_ber_loop c' False depth \<noteq> Some True"
        using "2.IH"(3) [OF True r(1) [symmetric] refl refl refl refl _ p r(5)] r(6) el(3) by simp
      with True p r show ?thesis by (simp add: cbs_find_ber_loop.simps [of c])
    qed
  qed
qed

lemma memcmp_numeral:
  "memcmp (a # as) (b # bs) (numeral k) = (if a < b then -1 else if b < a then 1 else memcmp as bs (pred_numeral k))"
  by (simp add: numeral_eq_Suc)



lemmas ber_eval =
  cbs_find_ber.simps cbs_find_ber_loop.simps cbs_eval CBS_get_any_ber_asn1_element_def kMaxDepth_def
  CBS_ASN1_CONSTRUCTED_def is_string_type_def CBS_ASN1_OCTETSTRING_def CBS_ASN1_UTF8STRING_def
  CBS_ASN1_NUMERICSTRING_def CBS_ASN1_PRINTABLESTRING_def CBS_ASN1_T61STRING_def CBS_ASN1_VIDEOTEXSTRING_def
  CBS_ASN1_IA5STRING_def CBS_ASN1_GRAPHICSTRING_def CBS_ASN1_VISIBLESTRING_def CBS_ASN1_GENERALSTRING_def
  CBS_ASN1_UNIVERSALSTRING_def CBS_ASN1_BMPSTRING_def CBS_asn1_ber_to_der_def cbs_convert_ber_def
  convert_ber_entry_def cbs_convert_ber_loop.simps is_eoc_def OPENSSL_memcmp_def memcmp_numeral CBS_data_def


section \<open>Properties\<close>

text \<open>
  C9: the converter returns: with a counter larger than the number of bytes left, neither its
  recursion nor its loop exhausts the counter, on any input, well-formed or not.
\<close>

theorem cbs_convert_ber_terminates:
  assumes "cbs_len inp < fuel"
  shows "\<exists>ok inp' out'. cbs_convert_ber fuel malloc inp out d string_tag looking_for_eoc depth = Some (ok, inp', out')"
  using assms by (rule cbs_convert_ber_fuel) blast

theorem cbs_convert_ber_terminates_witness:
  "cbs_len (CBS_init [0x24, 0x80, 0, 0]) < 5 \<and>
   (\<exists>ok inp' out'. cbs_convert_ber 5 (bounded_malloc 100) (CBS_init [0x24, 0x80, 0, 0]) CBB_zero 0 0 False 0 =
      Some (ok, inp', out'))"
  using cbs_convert_ber_terminates [of "CBS_init [0x24, 0x80, 0, 0]" 5 "bounded_malloc 100" CBB_zero 0 0 False 0] by simp



text \<open>The search for BER raises no false alarm: on an input that is DER throughout, without
  constructed strings, \<open>cbs_find_ber\<close> never reports that a conversion is needed.
\<close>

lemma cbs_find_ber_no_false_alarm:
  assumes "cbs_inv c" "der_forest (cbs_bytes c)"
  shows "cbs_find_ber c depth \<noteq> Some True"
  using assms by (rule find_ber_der(1))

text \<open>The search can miss BER. The flag set by a nested call is overwritten by the next sibling:
  a constructed string inside a \<open>SEQUENCE\<close> is found, but not when a further element follows that
  \<open>SEQUENCE\<close>; \<open>CBS_asn1_ber_to_der\<close> then returns the input unconverted, whatever the allocator.
\<close>

lemma cbs_find_ber_forgets_nested_ber:
  "cbs_find_ber (CBS_init [0x30, 5, 0x24, 3, 4, 1, 0xaa]) 0 = Some True \<and>
   cbs_find_ber (CBS_init [0x30, 5, 0x24, 3, 4, 1, 0xaa, 5, 0]) 0 = Some False \<and>
   map_option snd (fst (CBS_asn1_ber_to_der malloc (CBS_init [0x30, 9, 0x30, 5, 0x24, 3, 4, 1, 0xaa, 5, 0]))) = Some None"
  by (intro conjI) (simp_all add: ber_eval)

text \<open>\<open>CBS_get_asn1_implicit_string\<close> on a constructed string returns the concatenation of its
  chunks, which together are the whole contents of the element.
\<close>

lemma CBS_get_asn1_implicit_string_concat:
  assumes "malloc_law malloc" "cbs_inv inp"
    "CBS_get_asn1_implicit_string malloc inp outer_tag inner_tag = (Some (out, Some data), inp')"
  shows "\<exists>chunks. cbs_bytes inp = der_element (outer_tag OR CBS_ASN1_CONSTRUCTED) (concat (map (der_element inner_tag) chunks)) @
      cbs_bytes inp' \<and> data = concat chunks \<and> cbs_bytes out = data"
proof -
  have n: "CBS_len inp < SIZE_MOD" using cbs_inv_len [OF assms(2)] PTRDIFF_MAX_less by (simp add: CBS_len_def)
  obtain cbb cbb1 z child where i: "CBB_init malloc (CBS_len inp) = (True, cbb)"
    and g: "CBS_get_asn1 inp (outer_tag OR CBS_ASN1_CONSTRUCTED) = (Some child, inp')"
    and l: "implicit_string_loop malloc child cbb inner_tag = (True, cbb1)"
    and f: "CBB_finish malloc cbb1 0 True True = (Some data, z)" and o: "out = CBS_init data"
    using assms(3) by (auto simp: CBS_get_asn1_implicit_string_def split: option.splits bool.splits prod.splits if_splits)
  note lf = CBB_init_leaf [OF assms(1) i n]
  have ic: "cbs_inv child" using CBS_get_asn1_inv [OF assms(2) g] .
  obtain chunks where c: "cbs_bytes child = concat (map (der_element inner_tag) chunks)" "appended 0 (concat chunks) cbb cbb1"
    using implicit_string_loop_chunks [OF assms(1) ic lf(1) l] by blast
  have "children cbb1 = []" "cbb_views cbb1 = [concat chunks]" using c(2) lf by (auto simp: appended_def cbb_leaf_def)
  moreover have "collapse (children cbb1) (cbb_views cbb1) = Some data"
    using CBB_finish_collapse [OF assms(1) _ f] c(2) by (simp add: appended_def)
  ultimately have "data = concat chunks" by simp
  moreover have "cbs_bytes inp = der_element (outer_tag OR CBS_ASN1_CONSTRUCTED) (cbs_bytes child) @ cbs_bytes inp'"
    using rd_asn1.run_Some [OF assms(2) g] by (simp add: spec_asn1_iff)
  ultimately show ?thesis using c(1) o by auto
qed

end
