(* ===== verification/Libc_Sort.thy ===== *)
theory Libc_Sort
  imports Prelude "HOL-Library.Multiset"
begin

text \<open>
  The C library's \<open>qsort\<close> is a parameter of the code that sorts: given a comparison that orders the elements of the
  array, it returns a permutation of them in ascending order. \<open>isort\<close> is such a function.
\<close>

type_synonym 'a libc_qsort = "('a \<Rightarrow> 'a \<Rightarrow> int) \<Rightarrow> 'a list \<Rightarrow> 'a list"

definition cmp_order_on :: "'a set \<Rightarrow> ('a \<Rightarrow> 'a \<Rightarrow> int) \<Rightarrow> bool" where
  "cmp_order_on A f \<longleftrightarrow> (\<forall>x \<in> A. \<forall>y \<in> A. (f x y < 0) = (f y x > 0)) \<and>
     (\<forall>x \<in> A. \<forall>y \<in> A. \<forall>z \<in> A. f x y \<le> 0 \<longrightarrow> f y z \<le> 0 \<longrightarrow> f x z \<le> 0)"

abbreviation cmp_order :: "('a \<Rightarrow> 'a \<Rightarrow> int) \<Rightarrow> bool" where
  "cmp_order \<equiv> cmp_order_on UNIV"

definition sorted_by :: "('a \<Rightarrow> 'a \<Rightarrow> int) \<Rightarrow> 'a list \<Rightarrow> bool" where
  "sorted_by f xs \<longleftrightarrow> sorted_wrt (\<lambda>x y. f x y \<le> 0) xs"

definition qsort_law :: "'a libc_qsort \<Rightarrow> bool" where
  "qsort_law qsort \<longleftrightarrow> (\<forall>f xs. cmp_order_on (set xs) f \<longrightarrow> mset (qsort f xs) = mset xs \<and> sorted_by f (qsort f xs))"

fun isort_insert :: "('a \<Rightarrow> 'a \<Rightarrow> int) \<Rightarrow> 'a \<Rightarrow> 'a list \<Rightarrow> 'a list" where
  "isort_insert f x [] = [x]"
| "isort_insert f x (y # ys) = (if f x y \<le> 0 then x # y # ys else y # isort_insert f x ys)"

definition isort :: "'a libc_qsort" where
  "isort f xs = foldr (isort_insert f) xs []"

lemma set_isort_insert [simp]: "set (isort_insert f x ys) = insert x (set ys)"
  by (induction ys) auto

lemma mset_isort_insert [simp]: "mset (isort_insert f x ys) = add_mset x (mset ys)"
  by (induction ys) auto

lemma sorted_isort_insert:
  assumes "cmp_order_on A f" "x \<in> A" "set ys \<subseteq> A" "sorted_by f ys"
  shows "sorted_by f (isort_insert f x ys)"
  using assms(3,4)
proof (induction ys)
  case (Cons y ys)
  have "f y x \<le> 0" if "\<not> f x y \<le> 0"
  proof -
    have "(f y x < 0) = (f x y > 0)" using assms(1,2) Cons.prems(1) by (simp add: cmp_order_on_def)
    with that show ?thesis by simp
  qed
  moreover have "f x z \<le> 0" if "f x y \<le> 0" "f y z \<le> 0" "z \<in> set ys" for z
  proof -
    have "x \<in> A" "y \<in> A" "z \<in> A" using assms(2) Cons.prems(1) that by auto
    with assms(1) that show ?thesis unfolding cmp_order_on_def by blast
  qed
  ultimately show ?case using Cons by (auto simp: sorted_by_def)
qed (simp add: sorted_by_def)

lemma isort_law: "qsort_law isort"
proof -
  have "mset (isort f xs) = mset xs \<and> sorted_by f (isort f xs)" if "cmp_order_on (set xs) f" for f and xs :: "'a list"
  proof -
    have "mset (foldr (isort_insert f) ys []) = mset ys \<and> sorted_by f (foldr (isort_insert f) ys [])" if "set ys \<subseteq> set xs" for ys
      using that
    proof (induction ys)
      case (Cons y ys)
      then have "set (foldr (isort_insert f) ys []) \<subseteq> set xs" by (metis insert_subset list.simps(15) set_mset_mset)
      with Cons sorted_isort_insert [OF \<open>cmp_order_on (set xs) f\<close>, of y "foldr (isort_insert f) ys []"] show ?case by simp
    qed (simp add: sorted_by_def)
    then show ?thesis by (simp add: isort_def)
  qed
  then show ?thesis by (simp add: qsort_law_def)
qed

end
