(* ===== verification/Set_Of.thy ===== *)
theory Set_Of
  imports Ber Libc_Sort
begin

text \<open>
  The DER order of a SET OF: \<open>compare_set_of_element\<close> and \<open>CBB_flush_asn1_set_of\<close> of \<open>cbb.c\<close>, which
  sorts the elements in a builder, and \<open>CBB_finish_i2d\<close> of \<open>asn1_compat.c\<close>, which hands a finished
  builder to the caller of an i2d function. The comparison is shown to be the lexicographic order
  of the encodings, and the sort is the C library's \<open>qsort\<close>, known by \<open>qsort_law\<close>.
\<close>

section \<open>The code\<close>

definition sizeof_CBS :: nat where "sizeof_CBS = 16"

definition compare_set_of_element :: "CBS \<Rightarrow> CBS \<Rightarrow> int" where
  "compare_set_of_element a b =
     (let a_len = CBS_len a; b_len = CBS_len b;
          min_len = (if a_len < b_len then a_len else b_len);
          ret = OPENSSL_memcmp (CBS_data a) (CBS_data b) min_len
      in if ret \<noteq> 0 then ret
         else if a_len = b_len then 0
         else if a_len < b_len then - 1 else 1)"

lemma CBS_get_any_asn1_element_shorter:
  "CBS_get_any_asn1_element c = (Some x, c') \<Longrightarrow> cbs_len c' < cbs_len c"
  using ber_element_len [of c False]
  by (auto simp: CBS_get_any_asn1_element_def split: prod.splits option.splits)

text \<open>The first pass counts the elements, the second collects them.\<close>

function count_elements :: "CBS \<Rightarrow> nat \<Rightarrow> nat option" where
  "count_elements cbs num_children =
     (if CBS_len cbs \<noteq> 0 then
        (case CBS_get_any_asn1_element cbs of
           (None, cbs1) \<Rightarrow> None
         | (Some x, cbs1) \<Rightarrow> count_elements cbs1 (Suc num_children))
      else Some num_children)"
  by pat_completeness auto
termination
  by (relation "measure (\<lambda>(c, n). cbs_len c)") (auto dest: sym [THEN CBS_get_any_asn1_element_shorter])

declare count_elements.simps [simp del]

primrec parse_children :: "nat \<Rightarrow> CBS \<Rightarrow> CBS list option" where
  "parse_children 0 cbs = Some []"
| "parse_children (Suc n) cbs =
     (case CBS_get_any_asn1_element cbs of
        (None, cbs1) \<Rightarrow> None
      | (Some (child, tag, header_len), cbs1) \<Rightarrow> map_option (Cons child) (parse_children n cbs1))"

definition rewind :: "CBB \<Rightarrow> nat \<Rightarrow> CBB" where
  "rewind cbb d = cbb\<lparr>base := map_option (\<lambda>b. b\<lparr>len := cbb_start cbb d\<rparr>) (base cbb)\<rparr>"

definition add_child :: "libc_malloc \<Rightarrow> CBB \<Rightarrow> nat \<Rightarrow> CBS \<Rightarrow> bool \<times> CBB" where
  "add_child malloc cbb d child = CBB_add_bytes malloc cbb d (take (CBS_len child) (CBS_data child))"

definition CBB_flush_asn1_set_of :: "libc_malloc \<Rightarrow> CBS libc_qsort \<Rightarrow> CBB \<Rightarrow> nat \<Rightarrow> bool \<times> CBB" where
  "CBB_flush_asn1_set_of malloc qsort cbb d =
     (case CBB_flush malloc cbb d of
        (False, cbb) \<Rightarrow> (False, cbb)
      | (True, cbb) \<Rightarrow>
          (case count_elements (CBS_init (take (CBB_len cbb d) (CBB_data cbb d))) 0 of
             None \<Rightarrow> (False, cbb)
           | Some num_children \<Rightarrow>
               if num_children < 2 then (True, cbb)
               else if num_children > (SIZE_MOD - 1) div sizeof_CBS then (False, cbb)
               else
                 (let buf_len = CBB_len cbb d in
                  case (OPENSSL_memdup malloc (CBB_data cbb d) buf_len, OPENSSL_malloc malloc (num_children * sizeof_CBS)) of
                    (Some copy, Some _) \<Rightarrow>
                      (case parse_children num_children (CBS_init (take buf_len copy)) of
                         None \<Rightarrow> (False, cbb)
                       | Some elements \<Rightarrow>
                           cbb_each add_child malloc (rewind cbb d) d (qsort compare_set_of_element elements))
                  | _ \<Rightarrow> (False, cbb))))"

section \<open>The order of SET OF\<close>

text \<open>Lexicographic order of byte strings, a proper prefix first.\<close>

fun bytes_le :: "byte list \<Rightarrow> byte list \<Rightarrow> bool" where
  "bytes_le [] ys \<longleftrightarrow> True"
| "bytes_le (x # xs) [] \<longleftrightarrow> False"
| "bytes_le (x # xs) (y # ys) \<longleftrightarrow> x < y \<or> (x = y \<and> bytes_le xs ys)"

lemma bytes_le_refl [simp]: "bytes_le xs xs"
  by (induction xs) auto

lemma bytes_le_antisym: "bytes_le xs ys \<Longrightarrow> bytes_le ys xs \<Longrightarrow> xs = ys"
  by (induction xs ys rule: bytes_le.induct) (auto elim: bytes_le.elims)

lemma bytes_le_trans: "bytes_le xs ys \<Longrightarrow> bytes_le ys zs \<Longrightarrow> bytes_le xs zs"
proof (induction xs ys arbitrary: zs rule: bytes_le.induct)
  case (3 x xs y ys)
  then show ?case by (cases zs) auto
qed auto

lemma bytes_le_total: "bytes_le xs ys \<or> bytes_le ys xs"
  by (induction xs ys rule: bytes_le.induct) auto

definition compare_bytes :: "byte list \<Rightarrow> byte list \<Rightarrow> int" where
  "compare_bytes xs ys = (if xs = ys then 0 else if bytes_le xs ys then - 1 else 1)"

lemma memcmp_compare:
  "n = min (length xs) (length ys) \<Longrightarrow>
   (if memcmp xs ys n \<noteq> 0 then memcmp xs ys n
    else if length xs = length ys then 0 else if length xs < length ys then - 1 else 1) = compare_bytes xs ys"
proof (induction xs ys arbitrary: n rule: bytes_le.induct)
  case (1 ys)
  then show ?case by (cases ys) (auto simp: compare_bytes_def)
next
  case (2 x xs)
  then show ?case by (auto simp: compare_bytes_def)
next
  case (3 x xs y ys)
  then obtain k where k: "n = Suc k" "k = min (length xs) (length ys)" by simp
  show ?case using "3.IH" [OF k(2)] k(1) by (auto simp: compare_bytes_def split: if_splits)
qed

lemma memcmp_app: "length xs \<ge> n \<Longrightarrow> length ys \<ge> n \<Longrightarrow> memcmp (xs @ u) (ys @ v) n = memcmp xs ys n"
proof (induction n arbitrary: xs ys)
  case (Suc n)
  then show ?case by (cases xs; cases ys) auto
qed simp

lemma compare_set_of_element_bytes:
  assumes "cbs_inv a" "cbs_inv b"
  shows "compare_set_of_element a b = compare_bytes (cbs_bytes a) (cbs_bytes b)"
proof -
  let ?n = "min (length (cbs_bytes a)) (length (cbs_bytes b))"
  have d: "CBS_data c = cbs_bytes c @ drop (cbs_len c) (CBS_data c)" for c
    unfolding CBS_data_def cbs_bytes_def slice_def by (rule append_take_drop_id [symmetric])
  have "OPENSSL_memcmp (CBS_data a) (CBS_data b) ?n = memcmp (cbs_bytes a) (cbs_bytes b) ?n"
    using memcmp_app [of ?n "cbs_bytes a" "cbs_bytes b" "drop (cbs_len a) (CBS_data a)" "drop (cbs_len b) (CBS_data b)"]
    by (cases "?n = 0") (simp_all add: OPENSSL_memcmp_def flip: d)
  moreover have "(if cbs_len a < cbs_len b then cbs_len a else cbs_len b) = ?n" using assms by auto
  ultimately show ?thesis
    using memcmp_compare [OF refl, of "cbs_bytes a" "cbs_bytes b"]
    by (simp only: compare_set_of_element_def Let_def CBS_len_def length_cbs_bytes [OF assms(1)] length_cbs_bytes [OF assms(2)])
qed

lemma compare_bytes_le: "compare_bytes xs ys \<le> 0 \<longleftrightarrow> bytes_le xs ys"
  by (auto simp: compare_bytes_def)

lemma compare_bytes_swap: "(compare_bytes xs ys < 0) = (compare_bytes ys xs > 0)"
  using bytes_le_antisym [of xs ys] bytes_le_total [of xs ys] by (auto simp: compare_bytes_def)

lemma compare_set_of_order: "(\<And>c. c \<in> A \<Longrightarrow> cbs_inv c) \<Longrightarrow> cmp_order_on A compare_set_of_element"
  using compare_bytes_swap
  by (auto simp: cmp_order_on_def compare_set_of_element_bytes compare_bytes_le intro: bytes_le_trans)

section \<open>The elements\<close>

definition der_sequence :: "byte list list \<Rightarrow> bool" where
  "der_sequence es \<longleftrightarrow> (\<forall>e \<in> set es. \<exists>t body. e = der_element t body \<and> length body < 2 ^ 32)"

lemma der_sequence_simps [simp]: "der_sequence []"
  "der_sequence (e # es) \<longleftrightarrow> (\<exists>t body. e = der_element t body \<and> length body < 2 ^ 32) \<and> der_sequence es"
  by (auto simp: der_sequence_def)

lemma element_read:
  assumes "cbs_inv c" "CBS_get_any_asn1_element c = (Some (child, t, hl), c')"
  shows "der_sequence [cbs_bytes child]" "cbs_bytes c = cbs_bytes child @ cbs_bytes c'" "cbs_inv child" "cbs_inv c'"
proof -
  have "spec_element (cbs_bytes c) = Some ((cbs_bytes child, t, hl), cbs_bytes c')"
    using rd_element.run_Some [OF assms] by (simp add: element_view_def)
  then show "der_sequence [cbs_bytes child]" "cbs_bytes c = cbs_bytes child @ cbs_bytes c'"
    by (auto simp: spec_element_iff)
  show "cbs_inv child" using element_within [OF assms(2)] assms(1) by (rule cbs_within_inv)
  show "cbs_inv c'" using assms by (rule rd_element.keeps_inv)
qed

lemma element_readable:
  assumes "cbs_inv c" "cbs_bytes c = e @ rest" "der_sequence [e]"
  shows "\<exists>child t hl c'. CBS_get_any_asn1_element c = (Some (child, t, hl), c') \<and> cbs_bytes child = e \<and> cbs_bytes c' = rest"
proof -
  obtain t body where e: "e = der_element t body" "length body < 2 ^ 32" using assms(3) by auto
  let ?hl = "length (der_tag t @ der_length (length body))"
  have "spec_element (cbs_bytes c) = Some ((e, t, ?hl), rest)"
    unfolding assms(2) e(1) using e(2) by (subst spec_element_iff) blast
  from rd_element.reads [OF assms(1) this] obtain a c' where
    "CBS_get_any_asn1_element c = (Some a, c')" "element_view a = (e, t, ?hl)" "cbs_bytes c' = rest" by metis
  then show ?thesis by (cases a) (auto simp: element_view_def)
qed

lemma count_elements_sound:
  "cbs_inv c \<Longrightarrow> count_elements c n = Some k \<Longrightarrow>
     \<exists>es. der_sequence es \<and> cbs_bytes c = concat es \<and> k = n + length es"
proof (induction c n rule: count_elements.induct)
  case (1 c n)
  show ?case
  proof (cases "CBS_len c = 0")
    case True
    then have "cbs_bytes c = concat []" using CBS_len_pos [OF "1.prems"(1)] by simp
    then show ?thesis using True "1.prems"(2) by (intro exI [of _ "[]"]) (simp add: count_elements.simps [of c n])
  next
    case False
    with "1.prems"(2) obtain child t hl c' where g: "CBS_get_any_asn1_element c = (Some (child, t, hl), c')"
      and rest: "count_elements c' (Suc n) = Some k"
      by (auto simp: count_elements.simps [of c n] split: prod.splits option.splits)
    note r = element_read [OF "1.prems"(1) g]
    obtain es where "der_sequence es" "cbs_bytes c' = concat es" "k = Suc n + length es"
      using "1.IH" [OF False g [symmetric] refl r(4) rest] by blast
    then show ?thesis using r(1,2) by (intro exI [of _ "cbs_bytes child # es"]) simp
  qed
qed

lemma elements_counted:
  assumes "cbs_inv c" "cbs_bytes c = concat es" "der_sequence es"
  shows "count_elements c n = Some (n + length es) \<and>
    (\<exists>chs. parse_children (length es) c = Some chs \<and> map cbs_bytes chs = es \<and> (\<forall>ch \<in> set chs. cbs_inv ch))"
  using assms
proof (induction es arbitrary: c n)
  case Nil
  then have "CBS_len c = 0" using CBS_len_pos [of c] by simp
  then show ?case by (simp add: count_elements.simps)
next
  case (Cons e es)
  from Cons.prems(3) have e: "der_sequence [e]" "e \<noteq> []" by auto
  obtain child t hl c' where g: "CBS_get_any_asn1_element c = (Some (child, t, hl), c')" "cbs_bytes child = e" "cbs_bytes c' = concat es"
    using element_readable [OF Cons.prems(1) _ e(1), of "concat es"] Cons.prems(2) by auto
  note r = element_read [OF Cons.prems(1) g(1)]
  have "CBS_len c \<noteq> 0" using CBS_len_pos [OF Cons.prems(1)] Cons.prems(2) e(2) by simp
  with Cons.IH [OF r(4) g(3), of "Suc n"] Cons.prems(3) g r(3) show ?case
    by (auto simp: count_elements.simps [of c n])
qed

section \<open>Rewinding\<close>

lemma cbb_start_at:
  assumes "length (children cbb) = d"
  shows "cbb_start cbb d = start_at 0 d (children cbb)"
proof -
  have "start_at s (length chs) chs = (if chs = [] then s else offset (last chs) + pending_len_len (last chs))" for s chs
    by (induction chs arbitrary: s) auto
  from this [of 0 "children cbb"] assms show ?thesis
    by (cases "children cbb = []") (auto simp: cbb_start_def last_conv_nth)
qed

lemma rewind_view:
  assumes inv: "cbb_inv cbb" and b: "base cbb = Some b" and d: "length (children cbb) = d"
  shows "cbb_inv (rewind cbb d)" "children (rewind cbb d) = children cbb"
    "cbb_views (rewind cbb d) = butlast (cbb_views cbb) @ [[]]"
    "take (CBB_len cbb d) (CBB_data cbb d) = last (cbb_views cbb)"
    "take (CBB_len cbb d) (CBB_data cbb d) = take (length (last (cbb_views cbb))) (CBB_data cbb d)"
    "CBB_len cbb d = length (last (cbb_views cbb))"
proof -
  let ?t = "start_at 0 d (children cbb)"
  from inv b have ok: "buffer_inv b" "chain_ok 0 (len b) (children cbb)" by (simp_all add: cbb_inv_def)
  have lu: "length (used b) = len b" using ok(1) by (simp add: buffer_inv_def used_def)
  have t: "?t \<le> len b" using chain_ok_drop [OF ok(2), of d] d by simp
  have ch: "chain_ok 0 ?t (children cbb)" using chain_ok_take [OF ok(2), of d ?t] d by simp
  have u: "used (b\<lparr>len := ?t\<rparr>) = take ?t (used b)" using t by (simp add: used_def)
  have st: "cbb_start cbb d = ?t" using cbb_start_at [OF d] .
  show "cbb_inv (rewind cbb d)" using ok(1) ch t by (simp add: rewind_def cbb_inv_def b st buffer_inv_def)
  show "children (rewind cbb d) = children cbb" by (simp add: rewind_def)
  have v: "cbb_views cbb = views (used b) 0 (children cbb)" by (simp add: cbb_views_def b)
  have "drop d (views (used b) 0 (children cbb)) = [drop ?t (used b)]" using d by (simp add: drop_views)
  then have v': "cbb_views cbb = take d (cbb_views cbb) @ [drop ?t (used b)]" unfolding v by (metis append_take_drop_id)
  have "views (take ?t (used b) @ []) 0 (take d (children cbb)) = take d (views (used b) 0 (children cbb)) @ [[]]"
    using ok(2) d lu by (intro views_take) simp_all
  then show "cbb_views (rewind cbb d) = butlast (cbb_views cbb) @ [[]]"
    using v' d by (simp add: rewind_def cbb_views_def b st u) (metis butlast_snoc)
  have l: "last (cbb_views cbb) = drop ?t (used b)" using v' by (metis last_snoc)
  show cl: "CBB_len cbb d = length (last (cbb_views cbb))" by (simp add: l CBB_len_def b st lu)
  show "take (CBB_len cbb d) (CBB_data cbb d) = last (cbb_views cbb)"
    unfolding l CBB_len_def CBB_data_def b option.case st by (simp add: used_def drop_take)
  show "take (CBB_len cbb d) (CBB_data cbb d) = take (length (last (cbb_views cbb))) (CBB_data cbb d)" by (simp add: cl)
qed

section \<open>Writing the elements back\<close>

lemma child_bytes: "take (CBS_len ch) (CBS_data ch) = cbs_bytes ch"
  by (simp add: CBS_len_def CBS_data_def cbs_bytes_def slice_def)

lemma child_small: "cbs_inv ch \<Longrightarrow> length (cbs_bytes ch) < SIZE_MOD"
  using length_cbs_bytes [of ch] PTRDIFF_MAX_less by (auto simp: cbs_inv_def)

lemma add_child_total:
  "cbs_inv ch \<Longrightarrow> cbb_total_writer (\<lambda>m c d. add_child m c d ch) (cbs_bytes ch) (length (cbs_bytes ch))"
  using CBB_add_bytes_total [OF child_small, of ch] by (simp add: add_child_def child_bytes)

lemma cbb_each_extends:
  assumes "malloc_law malloc" "cbb_inv c" "cbb_each add_child malloc c (length (children c)) chs = (True, c')"
    and "\<forall>ch \<in> set chs. cbs_inv ch" "base c \<noteq> None"
  shows "cbb_inv c' \<and> children c' = children c \<and>
    cbb_views c' = butlast (cbb_views c) @ [last (cbb_views c) @ concat (map cbs_bytes chs)]"
  using assms(2-)
proof (induction chs arbitrary: c)
  case Nil
  then have "cbb_views c \<noteq> []" by (auto simp: cbb_views_def dest: arg_cong [where f = length])
  with Nil show ?case by simp
next
  case (Cons ch chs)
  then obtain c1 where a: "add_child malloc c (length (children c)) ch = (True, c1)"
    and r: "cbb_each add_child malloc c1 (length (children c)) chs = (True, c')"
    by (auto split: prod.splits bool.splits)
  have w: "cbb_writer (\<lambda>m c d. add_child m c d ch) (cbs_bytes ch)"
    using cbb_total_writer.axioms(1) [OF add_child_total] Cons.prems(3) by simp
  note ap = cbb_writer.writes [OF w assms(1) Cons.prems(1) a]
  from ap have c1: "cbb_inv c1" "children c1 = children c" "base c1 \<noteq> None" by (auto simp: appended_def)
  have v: "cbb_views c1 = butlast (cbb_views c) @ [last (cbb_views c) @ cbs_bytes ch]"
    using cbb_writer.extends [OF w assms(1) Cons.prems(1) a] .
  from Cons.IH [OF c1(1) _ _ c1(3)] r Cons.prems(3) c1(2) show ?case by (simp add: v)
qed

text \<open>The contents the elements are read from, and the outcome of sorting them.\<close>

lemma set_of_contents:
  assumes m: "malloc_law malloc" and inv: "cbb_inv cbb" and fl: "CBB_flush malloc cbb d = (True, cbb1)"
  obtains b body where "base cbb1 = Some b" "cbb_inv cbb1" "children cbb1 = take d (children cbb)" "length (children cbb1) = d"
    "collapse (drop d (children cbb)) (drop d (cbb_views cbb)) = Some body" "cbb_views cbb1 = take d (cbb_views cbb) @ [body]"
    "CBB_len cbb1 d = length body" "take (length body) (CBB_data cbb1 d) = body"
proof -
  have a: "appended d [] cbb cbb1" using wr_flush.writes [OF m inv fl] .
  then obtain b body where b: "base cbb1 = Some b" and c: "cbb_inv cbb1" "children cbb1 = take d (children cbb)" "length (children cbb1) = d"
    "collapse (drop d (children cbb)) (drop d (cbb_views cbb)) = Some body" "cbb_views cbb1 = take d (cbb_views cbb) @ [body]"
    by (auto simp: appended_def min_def)
  show thesis
  proof (rule that [OF b c])
    show "CBB_len cbb1 d = length body" "take (length body) (CBB_data cbb1 d) = body"
      using rewind_view(4,6) [OF c(1) b c(3)] c(5) by simp_all
  qed
qed

lemma sort_elements:
  assumes "qsort_law qsort" "map cbs_bytes chs = es" "\<forall>ch \<in> set chs. cbs_inv ch"
  shows "\<forall>ch \<in> set (qsort compare_set_of_element chs). cbs_inv ch"
    "mset (map cbs_bytes (qsort compare_set_of_element chs)) = mset es"
    "sorted_wrt bytes_le (map cbs_bytes (qsort compare_set_of_element chs))"
proof -
  let ?q = "qsort compare_set_of_element chs"
  have "cmp_order_on (set chs) compare_set_of_element" using assms(3) by (intro compare_set_of_order) blast
  then have q: "mset ?q = mset chs" "sorted_by compare_set_of_element ?q" using assms(1) by (auto simp: qsort_law_def)
  have s: "set ?q = set chs" using q(1) by (metis set_mset_mset)
  with assms(3) show i: "\<forall>ch \<in> set ?q. cbs_inv ch" by simp
  show "mset (map cbs_bytes ?q) = mset es" using q(1) assms(2) by (metis mset_map)
  show "sorted_wrt bytes_le (map cbs_bytes ?q)"
    using q(2) unfolding sorted_by_def sorted_wrt_map
    by (rule sorted_wrt_mono_rel [rotated]) (use i in \<open>simp add: compare_set_of_element_bytes compare_bytes_le\<close>)
qed

lemma set_of_sorts:
  assumes m: "malloc_law malloc" and q: "qsort_law qsort" and inv: "cbb_inv cbb"
    and body: "collapse (drop d (children cbb)) (drop d (cbb_views cbb)) = Some body" "length body \<le> PTRDIFF_MAX"
    and run: "CBB_flush_asn1_set_of malloc qsort cbb d = (True, cbb')"
  shows "\<exists>es es'. der_sequence es \<and> body = concat es \<and> mset es' = mset es \<and> sorted_wrt bytes_le es' \<and>
    cbb_inv cbb' \<and> children cbb' = take d (children cbb) \<and> cbb_views cbb' = take d (cbb_views cbb) @ [concat es']"
proof -
  from run obtain cbb1 where fl: "CBB_flush malloc cbb d = (True, cbb1)"
    by (auto simp: CBB_flush_asn1_set_of_def split: prod.splits bool.splits)
  from set_of_contents [OF m inv fl] body(1) obtain b where c: "base cbb1 = Some b" "cbb_inv cbb1" "children cbb1 = take d (children cbb)"
    "length (children cbb1) = d" "cbb_views cbb1 = take d (cbb_views cbb) @ [body]" "CBB_len cbb1 d = length body"
    "take (length body) (CBB_data cbb1 d) = body" by (metis option.inject)
  have ci: "cbs_inv (CBS_init body)" using body(2) by (rule cbs_init_inv)
  from run fl c(6,7) obtain n where n: "count_elements (CBS_init body) 0 = Some n"
    by (auto simp: CBB_flush_asn1_set_of_def split: option.splits)
  obtain es where es: "der_sequence es" "body = concat es" "n = length es" using count_elements_sound [OF ci n] by auto
  obtain chs where chs: "parse_children (length es) (CBS_init body) = Some chs" "map cbs_bytes chs = es" "\<forall>ch \<in> set chs. cbs_inv ch"
    using elements_counted [OF ci _ es(1), of 0] es(2) by auto
  show ?thesis
  proof (cases "n < 2")
    case True
    then have "cbb' = cbb1" using run fl c(6,7) n by (simp add: CBB_flush_asn1_set_of_def)
    moreover have "sorted_wrt bytes_le es" using True es(3) by (intro sorted_wrt01) simp
    ultimately show ?thesis using es c(2,3,5) by blast
  next
    case False
    have "OPENSSL_memdup malloc (CBB_data cbb1 d) (length body) = Some x \<Longrightarrow> take (length body) x = body" for x
      using c(7) m body(2) PTRDIFF_MAX_less
      by (auto simp: OPENSSL_memdup_def splice_def dest!: OPENSSL_malloc_length split: option.splits if_splits)
    moreover obtain x where x: "OPENSSL_memdup malloc (CBB_data cbb1 d) (length body) = Some x"
      and "(case parse_children n (CBS_init (take (length body) x)) of None \<Rightarrow> (False, cbb1)
        | Some elements \<Rightarrow> cbb_each add_child malloc (rewind cbb1 d) d (qsort compare_set_of_element elements)) = (True, cbb')"
      using run unfolding CBB_flush_asn1_set_of_def fl prod.case bool.case c(6,7) n option.case Let_def if_not_P [OF False]
      by (simp split: if_splits option.splits)
    ultimately have w: "cbb_each add_child malloc (rewind cbb1 d) d (qsort compare_set_of_element chs) = (True, cbb')"
      using chs(1) es(3) by simp
    note rw = rewind_view [OF c(2,1,4)] and so = sort_elements [OF q chs(2,3)]
    have nb: "base (rewind cbb1 d) \<noteq> None" using c(1) by (simp add: rewind_def)
    have e: "cbb_each add_child malloc (rewind cbb1 d) (length (children (rewind cbb1 d))) (qsort compare_set_of_element chs) = (True, cbb')"
      using w by (simp only: rw(2) c(4))
    have "cbb_inv cbb' \<and> children cbb' = take d (children cbb) \<and>
        cbb_views cbb' = take d (cbb_views cbb) @ [concat (map cbs_bytes (qsort compare_set_of_element chs))]"
      using cbb_each_extends [OF m rw(1) e so(1) nb] by (simp only: rw(2,3) c(3,5) butlast_snoc last_snoc append_Nil simp_thms)
    with so(2,3) es show ?thesis by blast
  qed
qed

lemma element_length: "der_sequence es \<Longrightarrow> 2 * length es \<le> length (concat es)"
proof (induction es)
  case (Cons e es)
  then obtain t x where "e = der_element t x" by auto
  then have "2 \<le> length e" by (simp add: der_element_def der_tag_def der_length_def Let_def)
  with Cons show ?case by simp
qed simp

lemma set_of_succeeds:
  assumes m: "malloc_law malloc" and q: "qsort_law qsort" and inv: "cbb_inv cbb" and room: "cbb_room malloc cbb n"
    and body: "collapse (drop d (children cbb)) (drop d (cbb_views cbb)) = Some body" "d \<le> length (children cbb)" "length body \<le> PTRDIFF_MAX"
    and es: "body = concat es" "der_sequence es" and sv: "serves malloc (4 * length body)"
  shows "\<exists>cbb'. CBB_flush_asn1_set_of malloc qsort cbb d = (True, cbb')"
proof -
  have cl: "cbb_closable cbb d" using body(1,2) by (simp add: cbb_closable_def)
  obtain cbb1 where fl: "CBB_flush malloc cbb d = (True, cbb1)" "cbb_room malloc cbb1 n"
    using CBB_flush_succeeds [OF m inv room cl] by blast
  from set_of_contents [OF m inv fl(1)] body(1) obtain b where c: "base cbb1 = Some b" "cbb_inv cbb1" "length (children cbb1) = d"
    "cbb_views cbb1 = take d (cbb_views cbb) @ [body]" "CBB_len cbb1 d = length body"
    "take (length body) (CBB_data cbb1 d) = body" by (metis option.inject)
  have ci: "cbs_inv (CBS_init body)" using body(3) by (rule cbs_init_inv)
  obtain chs where cnt: "count_elements (CBS_init body) 0 = Some (length es)"
    and chs: "parse_children (length es) (CBS_init body) = Some chs" "map cbs_bytes chs = es" "\<forall>ch \<in> set chs. cbs_inv ch"
    using elements_counted [OF ci _ es(2), of 0] es(1) by auto
  show ?thesis
  proof (cases "length es < 2")
    case True
    then show ?thesis using fl c(5,6) cnt by (simp add: CBB_flush_asn1_set_of_def)
  next
    case False
    have k: "length es * sizeof_CBS \<le> 8 * length body" using element_length [OF es(2)] es(1) by (simp add: sizeof_CBS_def)
    have ov: "\<not> length es > (SIZE_MOD - 1) div sizeof_CBS"
    proof -
      have "8 * length body < SIZE_MOD" using sv by (simp add: serves_def)
      with k have "length es * 16 \<le> SIZE_MOD - 1" by (simp add: sizeof_CBS_def)
      then show ?thesis by (simp add: sizeof_CBS_def less_eq_div_iff_mult_less_eq not_less)
    qed
    obtain p where p: "OPENSSL_malloc malloc (length es * sizeof_CBS) = Some p"
      using OPENSSL_malloc_serves [OF sv, of "length es * sizeof_CBS"] k by auto
    obtain x where x: "OPENSSL_malloc malloc (length body) = Some x" using OPENSSL_malloc_serves [OF sv, of "length body"] by auto
    have "0 < length (concat es)" using element_length [OF es(2)] False by linarith
    then have "length body \<noteq> 0" unfolding es(1) by (rule gr_implies_not_zero)
    then obtain y where y: "OPENSSL_memdup malloc (CBB_data cbb1 d) (length body) = Some y" "take (length body) y = body"
      using x c(6) m body(3) PTRDIFF_MAX_less by (auto simp: OPENSSL_memdup_def splice_def dest: OPENSSL_malloc_length)
    note rw = rewind_view [OF c(2,1,3)] and so = sort_elements [OF q chs(2,3)]
    let ?s = "qsort compare_set_of_element chs"
    have len: "length (concat (map cbs_bytes ?s)) = length body"
      using so(2) unfolding es(1) by (metis mset_concat size_mset mset_map sum_mset_sum_list)
    have st: "cbb_start cbb1 d + length body = len b" using c(1,5,3,2) cbb_start_at [OF c(3)] chain_ok_drop [of 0 "len b" "children cbb1" d]
      by (simp add: CBB_len_def cbb_inv_def)
    have "cbb_room malloc (rewind cbb1 d) (length body + n)"
    proof -
      have "\<not> error b" "can_resize b" "serves malloc (len b + 4 * length (children cbb1) + n)"
        using fl(2) c(1) by (simp_all add: cbb_room_def)
      moreover have "cbb_start cbb1 d + 4 * length (children cbb1) + (length body + n) \<le> len b + 4 * length (children cbb1) + n"
        using st by linarith
      ultimately show ?thesis using serves_mono c(1) by (simp add: cbb_room_def rewind_def)
    qed
    moreover have "cbb_closable (rewind cbb1 d) d"
    proof -
      have "length (cbb_views cbb1) = Suc d" using c(1,3) by (simp add: cbb_views_def)
      then have "length (take d (cbb_views cbb)) = d" by (simp add: c(4))
      then have "drop d (cbb_views (rewind cbb1 d)) = [[]]" unfolding rw(3) c(4) butlast_snoc by simp
      then show ?thesis using c(3) rw(2) by (simp add: cbb_closable_def)
    qed
    moreover have ne: "?s \<noteq> []" using so(2) False by auto
    then have "cbb_total_writer (\<lambda>m c d. cbb_each add_child m c d ?s) (concat (map cbs_bytes ?s)) (length body)"
      using cbb_each_total [where f = add_child and enc = cbs_bytes and xs = ?s, OF add_child_total [OF bspec [OF so(1)]] ne]
      by (simp only: len)
    ultimately obtain cbb' where "cbb_each add_child malloc (rewind cbb1 d) d ?s = (True, cbb')"
      using cbb_total_writer.succeeds m rw(1) by meson
    then show ?thesis using fl(1) c(5,6) cnt False ov y p chs(1)
      by (simp add: CBB_flush_asn1_set_of_def Let_def)
  qed
qed

section \<open>Finishing for an i2d function\<close>

text \<open>
  The \<open>outp\<close> argument of an i2d function: a null pointer, a pointer to a null pointer (the callee
  allocates), or a pointer into memory that the callee writes from there on. What comes back is the
  memory allocated, or the memory written and how far the pointer has moved.
\<close>

datatype i2d_outp = Outp_NULL | Outp_alloc | Outp_at "byte list"
datatype i2d_result = Out_none | Out_alloc "byte list" | Out_at "byte list" nat

definition i2d_untouched :: "i2d_outp \<Rightarrow> i2d_result" where
  "i2d_untouched outp = (case outp of Outp_at m \<Rightarrow> Out_at m 0 | _ \<Rightarrow> Out_none)"

definition CBB_finish_i2d :: "libc_malloc \<Rightarrow> CBB \<Rightarrow> nat \<Rightarrow> i2d_outp \<Rightarrow> int \<times> i2d_result \<times> CBB" where
  "CBB_finish_i2d malloc cbb d outp =
     (case CBB_finish malloc cbb d True True of
        (None, cbb1) \<Rightarrow> (- 1, i2d_untouched outp, CBB_cleanup cbb1)
      | (Some der, cbb1) \<Rightarrow>
          if length der > INT_MAX then (- 1, i2d_untouched outp, cbb1)
          else (int (length der),
                (case outp of
                   Outp_NULL \<Rightarrow> Out_none
                 | Outp_alloc \<Rightarrow> Out_alloc der
                 | Outp_at m \<Rightarrow> Out_at (splice m 0 der) (length der)),
                cbb1))"

text \<open>
  A builder that was finished delivers its contents: the return value is their length, an allocated
  block holds exactly them, and memory of the caller is overwritten by them and nothing else.
\<close>

lemma CBB_finish_i2d_delivers:
  assumes "malloc_law malloc" "cbb_inv cbb" "cbb_room malloc cbb n" "cbb_closable cbb 0"
    and "collapse (children cbb) (cbb_views cbb) = Some der" "length der \<le> INT_MAX"
  shows "CBB_finish_i2d malloc cbb 0 Outp_NULL = (int (length der), Out_none, CBB_zero)"
    "CBB_finish_i2d malloc cbb 0 Outp_alloc = (int (length der), Out_alloc der, CBB_zero)"
    "length der \<le> length mem \<Longrightarrow>
      CBB_finish_i2d malloc cbb 0 (Outp_at mem) = (int (length der), Out_at (der @ drop (length der) mem) (length der), CBB_zero)"
proof -
  have "CBB_finish malloc cbb 0 True True = (Some der, CBB_zero)"
    using CBB_finish_succeeds [OF assms(1-4)] assms(5) by auto
  then show "CBB_finish_i2d malloc cbb 0 Outp_NULL = (int (length der), Out_none, CBB_zero)"
    "CBB_finish_i2d malloc cbb 0 Outp_alloc = (int (length der), Out_alloc der, CBB_zero)"
    "length der \<le> length mem \<Longrightarrow>
      CBB_finish_i2d malloc cbb 0 (Outp_at mem) = (int (length der), Out_at (der @ drop (length der) mem) (length der), CBB_zero)"
    using assms(6) by (simp_all add: CBB_finish_i2d_def splice_def)
qed

section \<open>Property\<close>

definition set_of_cbb :: CBB where
  "set_of_cbb = \<lparr>base = Some \<lparr>buf = [5, 0, 2, 1, 7, 0], len = 5, cap = 6, can_resize = True, error = False\<rparr>, children = []\<rparr>"

text \<open>
  C25: \<open>CBB_flush_asn1_set_of\<close> puts the contents of a SET OF into DER order. With memory available it
  succeeds exactly when the contents, with every child closed, are a sequence of DER elements; the
  new contents are then the same elements, each kept whole and as often as before, in ascending
  order of their encodings, and the enclosing builders are untouched.
\<close>

theorem CBB_flush_asn1_set_of_correct:
  assumes "malloc_law malloc" "qsort_law qsort" "cbb_inv cbb" "cbb_room malloc cbb n" "d \<le> length (children cbb)"
    and "collapse (drop d (children cbb)) (drop d (cbb_views cbb)) = Some body" "length body \<le> PTRDIFF_MAX"
    and "serves malloc (4 * length body)" "CBB_flush_asn1_set_of malloc qsort cbb d = (ok, cbb')"
  shows "(ok \<longleftrightarrow> (\<exists>es. der_sequence es \<and> body = concat es)) \<and>
    (ok \<longrightarrow> (\<exists>es es'. der_sequence es \<and> body = concat es \<and> mset es' = mset es \<and> sorted_wrt bytes_le es' \<and>
      cbb_inv cbb' \<and> children cbb' = take d (children cbb) \<and> cbb_views cbb' = take d (cbb_views cbb) @ [concat es']))"
proof (cases ok)
  case True
  then have "CBB_flush_asn1_set_of malloc qsort cbb d = (True, cbb')" using assms(9) by simp
  from set_of_sorts [OF assms(1-3,6,7) this] True show ?thesis by blast
next
  case False
  have "\<not> (\<exists>es. der_sequence es \<and> body = concat es)"
    using set_of_succeeds [OF assms(1-4,6,5,7) _ _ assms(8)] assms(9) False by fastforce
  with False show ?thesis by blast
qed

theorem CBB_flush_asn1_set_of_correct_witness:
  "\<exists>cbb' es es'. CBB_flush_asn1_set_of (bounded_malloc 1000) isort set_of_cbb 0 = (True, cbb') \<and>
     der_sequence es \<and> [5, 0, 2, 1, 7] = concat es \<and> mset es' = mset es \<and> sorted_wrt bytes_le es' \<and>
     cbb_views cbb' = [concat es']"
proof -
  obtain ok cbb' where run: "CBB_flush_asn1_set_of (bounded_malloc 1000) isort set_of_cbb 0 = (ok, cbb')" by fastforce
  have v: "cbb_inv set_of_cbb" "cbb_room (bounded_malloc 1000) set_of_cbb 10" "children set_of_cbb = []"
    "cbb_views set_of_cbb = [[5, 0, 2, 1, 7]]"
    by (simp_all add: set_of_cbb_def cbb_inv_def buffer_inv_def SIZE_MOD_def cbb_room_def bounded_serves cbb_views_def used_def)
  have "der_sequence [der_element 5 [], der_element 2 [7]]" 
  proof -
    have el: "\<exists>t body. der_element t0 x = der_element t body \<and> length body < 2 ^ 32" if "length x < 2 ^ 32" for t0 x
      using that by blast
    show ?thesis using el [of "[]" 5] el [of "[7]" 2] by (simp only: der_sequence_simps) simp
  qed
  moreover have "[5, 0, 2, 1, 7] = concat [der_element 5 [], der_element 2 [7]]"
    by (simp add: der_element_def der_tag_def der_length_def Let_def)
  ultimately have ex: "\<exists>es. der_sequence es \<and> [5, 0, 2, 1, 7] = concat es" by blast
  have "serves (bounded_malloc 1000) (4 * length [5, 0, 2, 1, 7 :: byte])" "length [5, 0, 2, 1, 7 :: byte] \<le> PTRDIFF_MAX"
    "collapse (drop 0 (children set_of_cbb)) (drop 0 (cbb_views set_of_cbb)) = Some [5, 0, 2, 1, 7]"
    by (simp_all add: PTRDIFF_MAX_def bounded_serves SIZE_MOD_def v)
  from CBB_flush_asn1_set_of_correct [OF bounded_malloc_law isort_law v(1,2) le0 this(3,2,1) run] ex run v(4)
  show ?thesis by (simp only: take_0 append_Nil) blast
qed

end
