(* ===== verification/Cbb_Error.thy ===== *)
theory Cbb_Error
  imports Cbb_Int
begin

text \<open>
  Errors of the builder. The contract \<open>cbb_sticky\<close> of an operation: it fails, and changes
  nothing, once the error flag of the buffer is set; and when it fails on a live \<open>CBB\<close> it sets
  the flag. A caller may therefore check only the last call.
\<close>

definition cbb_live :: "CBB \<Rightarrow> nat \<Rightarrow> bool" where
  "cbb_live cbb d \<longleftrightarrow> d \<le> length (children cbb) \<and> base cbb \<noteq> None"

definition cbb_failed :: "CBB \<Rightarrow> bool" where
  "cbb_failed cbb \<longleftrightarrow> (\<exists>b. base cbb = Some b \<and> error b)"

locale cbb_sticky =
  fixes run :: "libc_malloc \<Rightarrow> CBB \<Rightarrow> nat \<Rightarrow> bool \<times> CBB"
  assumes stays: "cbb_failed cbb \<Longrightarrow> run malloc cbb d = (False, cbb)"
    and records: "cbb_live cbb d \<Longrightarrow> run malloc cbb d = (False, cbb') \<Longrightarrow> cbb_failed cbb'"
    and alive: "run malloc cbb d = (True, cbb') \<Longrightarrow> cbb_live cbb' d"
begin

lemma succeeds_only_if_ok: "run malloc cbb d = (True, cbb') \<Longrightarrow> \<not> cbb_failed cbb"
  using stays by force

end

lemma cbb_failed_update [simp]: "cbb_failed (cbb\<lparr>base := Some b\<rparr>) \<longleftrightarrow> error b"
  by (simp add: cbb_failed_def)

section \<open>Flushing\<close>

lemma CBB_flush_stays: "cbb_failed cbb \<Longrightarrow> CBB_flush malloc cbb d = (False, cbb)"
  by (subst CBB_flush.simps) (auto simp: cbb_failed_def)

lemma CBB_flush_keeps_base: "CBB_flush malloc cbb d = (ok, cbb') \<Longrightarrow> base cbb \<noteq> None \<Longrightarrow> base cbb' \<noteq> None"
proof (induction malloc cbb d arbitrary: ok cbb' rule: CBB_flush.induct)
  case (1 malloc cbb d)
  obtain b where b: "base cbb = Some b" using "1.prems"(2) by auto
  obtain ok1 cbb1 where r: "CBB_flush malloc cbb (Suc d) = (ok1, cbb1)" by fastforce
  show ?case
  proof (cases "d > length (children cbb) \<or> error b \<or> d = length (children cbb) \<or> pending_len_len (children cbb ! d) = 0")
    case True
    with "1.prems" b show ?thesis by (auto simp: CBB_flush.simps [of malloc cbb d] split: if_splits)
  next
    case False
    then have "base cbb1 \<noteq> None" using "1.IH" b r by auto
    with "1.prems"(1) b r False show ?thesis
      by (auto simp: CBB_flush.simps [of malloc cbb d] Let_def split: if_splits prod.splits bool.splits option.splits)
  qed
qed

lemma CBB_flush_alive: "CBB_flush malloc cbb d = (True, cbb') \<Longrightarrow> cbb_live cbb' d"
proof (induction malloc cbb d arbitrary: cbb' rule: CBB_flush.induct)
  case (1 malloc cbb d)
  obtain b where b: "d \<le> length (children cbb)" "base cbb = Some b" "\<not> error b"
    using "1.prems" by (auto simp: CBB_flush.simps [of malloc cbb d] split: if_splits option.splits)
  show ?case
  proof (cases "d = length (children cbb) \<or> pending_len_len (children cbb ! d) = 0")
    case True
    with "1.prems" b show ?thesis by (auto simp: CBB_flush.simps [of malloc cbb d] cbb_live_def)
  next
    case False
    then obtain cbb1 b2 where "CBB_flush malloc cbb (Suc d) = (True, cbb1)"
      "cbb' = cbb1\<lparr>base := Some b2, children := take d (children cbb1)\<rparr>"
      using CBB_flush_step [of d cbb b malloc cbb'] b "1.prems" by fastforce
    with "1.IH" b False have "cbb_live cbb1 (Suc d)" by auto
    then show ?thesis using \<open>cbb' = _\<close> by (simp add: cbb_live_def)
  qed
qed

lemma CBB_flush_records:
  assumes "cbb_live cbb d" "CBB_flush malloc cbb d = (False, cbb')"
  shows "cbb_failed cbb'"
proof -
  from assms(1) obtain b where b: "d \<le> length (children cbb)" "base cbb = Some b" by (auto simp: cbb_live_def)
  obtain ok cbb1 where r: "CBB_flush malloc cbb (Suc d) = (ok, cbb1)" by fastforce
  have "base cbb1 \<noteq> None" using CBB_flush_keeps_base [OF r] b by simp
  then obtain b1 where b1: "base cbb1 = Some b1" by auto
  show ?thesis
    using assms(2) b r b1
    by (auto simp: CBB_flush.simps [of malloc cbb d] Let_def cbb_failed_def split: if_splits prod.splits bool.splits)
qed

interpretation st_flush: cbb_sticky CBB_flush
  by unfold_locales (auto intro: CBB_flush_stays CBB_flush_records CBB_flush_alive)

section \<open>Writers\<close>

lemma cbb_then_sticky:
  assumes f: "\<And>m b b'. f m b = (False, b') \<Longrightarrow> error b'"
  shows "cbb_sticky (\<lambda>m c d. cbb_then m c d (f m))"
proof
  fix malloc cbb d assume "cbb_failed cbb"
  then show "cbb_then malloc cbb d (f malloc) = (False, cbb)" by (simp add: cbb_then_def CBB_flush_stays)
next
  fix malloc cbb d cbb' assume a: "cbb_live cbb d" "cbb_then malloc cbb d (f malloc) = (False, cbb')"
  obtain ok c1 where r: "CBB_flush malloc cbb d = (ok, c1)" by fastforce
  show "cbb_failed cbb'"
  proof (cases ok)
    case False
    with a r show ?thesis by (auto simp: cbb_then_def intro: CBB_flush_records)
  next
    case True
    with r have "cbb_live c1 d" by (simp add: CBB_flush_alive)
    then obtain b where "base c1 = Some b" by (auto simp: cbb_live_def)
    with a(2) r True f show ?thesis by (auto simp: cbb_then_def split: prod.splits)
  qed
next
  fix malloc cbb d cbb' assume "cbb_then malloc cbb d (f malloc) = (True, cbb')"
  then show "cbb_live cbb' d"
    by (auto simp: cbb_then_def cbb_live_def dest!: CBB_flush_alive split: prod.splits bool.splits option.splits)
qed

lemma cbb_buffer_reserve_False: "cbb_buffer_reserve m b n = (False, b') \<Longrightarrow> error b'"
  by (auto simp: cbb_buffer_reserve_def Let_def split: if_splits option.splits)

lemma cbb_buffer_add_u_False: "cbb_buffer_add_u m b v n = (False, b') \<Longrightarrow> error b'"
  by (auto simp: cbb_buffer_add_u_def dest: cbb_buffer_add_False split: if_splits prod.splits bool.splits)

interpretation st_bytes: cbb_sticky "\<lambda>m c d. CBB_add_bytes m c d data" for data
  unfolding CBB_add_bytes_def
  by (rule cbb_then_sticky) (auto dest: cbb_buffer_add_False split: prod.splits bool.splits)

interpretation st_space: cbb_sticky "\<lambda>m c d. CBB_add_space m c d n" for n
  unfolding CBB_add_space_def by (rule cbb_then_sticky) (rule cbb_buffer_add_False)

interpretation st_reserve: cbb_sticky "\<lambda>m c d. CBB_reserve m c d n" for n
  unfolding CBB_reserve_def by (rule cbb_then_sticky) (rule cbb_buffer_reserve_False)

interpretation st_u: cbb_sticky "\<lambda>m c d. cbb_add_u m c d v n" for v n
  unfolding cbb_add_u_def by (rule cbb_then_sticky) (rule cbb_buffer_add_u_False)

interpretation st_u8: cbb_sticky "\<lambda>m c d. CBB_add_u8 m c d v" for v
  unfolding CBB_add_u8_def by (rule st_u.cbb_sticky_axioms)

interpretation st_u24: cbb_sticky "\<lambda>m c d. CBB_add_u24 m c d v" for v
  unfolding CBB_add_u24_def by (rule st_u.cbb_sticky_axioms)

lemma sticky_seq:
  assumes s1: "cbb_sticky run1" and s2: "cbb_sticky run2"
    and run: "\<And>m c d. run m c d = (case run1 m c d of (False, c') \<Rightarrow> (False, c') | (True, c') \<Rightarrow> run2 m c' d)"
  shows "cbb_sticky run"
proof
  fix malloc cbb d assume "cbb_failed cbb"
  then show "run malloc cbb d = (False, cbb)" by (simp add: run cbb_sticky.stays [OF s1])
next
  fix malloc cbb d cbb' assume a: "cbb_live cbb d" "run malloc cbb d = (False, cbb')"
  obtain ok c1 where r: "run1 malloc cbb d = (ok, c1)" by fastforce
  with a show "cbb_failed cbb'"
    by (cases ok) (auto simp: run dest: cbb_sticky.records [OF s1] cbb_sticky.records [OF s2] cbb_sticky.alive [OF s1])
next
  fix malloc cbb d cbb' assume "run malloc cbb d = (True, cbb')"
  then show "cbb_live cbb' d"
    by (auto simp: run dest: cbb_sticky.alive [OF s2] split: prod.splits bool.splits)
qed

lemma add_base128_loop_sticky: "cbb_sticky (\<lambda>m c d. add_base128_loop m c d v (Suc k))"
proof (induction k)
  case 0
  have "add_base128_loop m c d v (Suc 0) = CBB_add_u8 m c d (ucast v AND 0x7f)" for m c d
    by (simp add: Let_def split: prod.split bool.split)
  then show ?case by (simp add: st_u8.cbb_sticky_axioms)
next
  case (Suc k)
  show ?case
    by (rule sticky_seq [OF st_u8.cbb_sticky_axioms Suc, of _ "ucast (drop_bit (7 * Suc k) v) AND 0x7f OR 0x80"])
      (simp only: add_base128_loop.simps(2) [of _ _ _ _ "Suc k"] Let_def nat.distinct not_False_eq_True if_True)
qed

interpretation st_base128: cbb_sticky "\<lambda>m c d. add_base128_integer m c d v" for v
proof -
  obtain k where "(if base128_len (unat v) = 0 then 1 else base128_len (unat v)) = Suc k"
    by (metis One_nat_def not0_implies_Suc)
  with add_base128_loop_sticky show "cbb_sticky (\<lambda>m c d. add_base128_integer m c d v)"
    by (simp only: add_base128_integer_def Let_def)
qed

interpretation st_tag: cbb_sticky "\<lambda>m c d. cbb_add_tag m c d tag" for tag
proof (cases "tag AND 0x1fffffff \<ge> 0x1f")
  case True
  then show "cbb_sticky (\<lambda>m c d. cbb_add_tag m c d tag)"
    by (intro sticky_seq [OF st_u8.cbb_sticky_axioms st_base128.cbb_sticky_axioms]) (simp add: cbb_add_tag_def Let_def)
next
  case False
  then show "cbb_sticky (\<lambda>m c d. cbb_add_tag m c d tag)"
    by (simp add: cbb_add_tag_def Let_def st_u8.cbb_sticky_axioms)
qed

section \<open>Opening children\<close>

text \<open>An operation that opens a child leaves a live child behind.\<close>

locale cbb_opener =
  fixes run :: "libc_malloc \<Rightarrow> CBB \<Rightarrow> nat \<Rightarrow> bool \<times> CBB"
  assumes opener_stays: "cbb_failed cbb \<Longrightarrow> run malloc cbb d = (False, cbb)"
    and opener_records: "cbb_live cbb d \<Longrightarrow> run malloc cbb d = (False, cbb') \<Longrightarrow> cbb_failed cbb'"
    and opener_child: "run malloc cbb d = (True, cbb') \<Longrightarrow> cbb_live cbb' (Suc d)"

sublocale cbb_opener \<subseteq> cbb_sticky run
proof
  fix malloc cbb d cbb' assume "run malloc cbb d = (True, cbb')"
  then show "cbb_live cbb' d" using opener_child [of malloc cbb d cbb'] by (simp add: cbb_live_def)
qed (fact opener_stays, fact opener_records)

interpretation op_prefixed: cbb_opener "\<lambda>m c d. cbb_add_length_prefixed m c d k" for k
proof
  fix malloc cbb d assume "cbb_failed cbb"
  then show "cbb_add_length_prefixed malloc cbb d k = (False, cbb)"
    by (simp add: cbb_add_length_prefixed_def CBB_flush_stays)
next
  fix malloc cbb d cbb' assume a: "cbb_live cbb d" "cbb_add_length_prefixed malloc cbb d k = (False, cbb')"
  obtain ok c1 where r: "CBB_flush malloc cbb d = (ok, c1)" by fastforce
  show "cbb_failed cbb'"
  proof (cases ok)
    case False
    with a r show ?thesis by (auto simp: cbb_add_length_prefixed_def intro: CBB_flush_records)
  next
    case True
    with r have "cbb_live c1 d" by (simp add: CBB_flush_alive)
    then obtain b where "base c1 = Some b" by (auto simp: cbb_live_def)
    with a(2) r True show ?thesis
      by (auto simp: cbb_add_length_prefixed_def Let_def dest: cbb_buffer_add_False split: prod.splits bool.splits)
  qed
next
  fix malloc cbb d cbb' assume "cbb_add_length_prefixed malloc cbb d k = (True, cbb')"
  then show "cbb_live cbb' (Suc d)"
    by (auto simp: cbb_add_length_prefixed_def Let_def cbb_live_def dest!: CBB_flush_alive
        split: prod.splits bool.splits option.splits)
qed

lemma CBB_add_asn1_seq:
  "CBB_add_asn1 malloc cbb d tag =
     (case CBB_flush malloc cbb d of (False, c1) \<Rightarrow> (False, c1) | (True, c1) \<Rightarrow>
       (case cbb_add_tag malloc c1 d tag of (False, c2) \<Rightarrow> (False, c2) | (True, c2) \<Rightarrow>
         (case CBB_add_u8 malloc c2 d 0 of (False, c3) \<Rightarrow> (False, c3) | (True, c3) \<Rightarrow>
           (True, c3\<lparr>children := take d (children c3) @
              [\<lparr>offset = (case base c2 of None \<Rightarrow> 0 | Some b \<Rightarrow> len b), pending_len_len = 1, pending_is_asn1 = True\<rparr>]\<rparr>))))"
  by (simp add: CBB_add_asn1_def cbb_add_tag_def Let_def split: prod.split bool.split)

interpretation op_asn1: cbb_opener "\<lambda>m c d. CBB_add_asn1 m c d tag" for tag
proof
  fix malloc cbb d assume "cbb_failed cbb"
  then show "CBB_add_asn1 malloc cbb d tag = (False, cbb)" by (simp add: CBB_add_asn1_def CBB_flush_stays)
next
  fix malloc cbb d cbb' assume a: "cbb_live cbb d" "CBB_add_asn1 malloc cbb d tag = (False, cbb')"
  then show "cbb_failed cbb'"
    unfolding CBB_add_asn1_seq
    by (auto split: prod.splits bool.splits dest: CBB_flush_records st_tag.records st_u8.records
        CBB_flush_alive st_tag.alive)
next
  fix malloc cbb d cbb' assume "CBB_add_asn1 malloc cbb d tag = (True, cbb')"
  then show "cbb_live cbb' (Suc d)"
    unfolding CBB_add_asn1_seq
    by (auto split: prod.splits bool.splits dest!: st_u8.alive simp: cbb_live_def)
qed

lemma sticky_element:
  assumes op: "cbb_opener open_child" and body: "cbb_sticky body"
    and run: "\<And>m c d. run m c d =
      (case open_child m c d of
         (False, c1) \<Rightarrow> (False, c1)
       | (True, c1) \<Rightarrow>
           (case body m c1 (Suc d) of
              (False, c2) \<Rightarrow> (False, c2)
            | (True, c2) \<Rightarrow> CBB_flush m c2 d))"
  shows "cbb_sticky run"
proof
  fix malloc cbb d assume "cbb_failed cbb"
  then show "run malloc cbb d = (False, cbb)" by (simp add: run cbb_opener.opener_stays [OF op])
next
  fix malloc cbb d cbb' assume a: "cbb_live cbb d" "run malloc cbb d = (False, cbb')"
  have up: "cbb_live c (Suc d) \<Longrightarrow> cbb_live c d" for c by (simp add: cbb_live_def)
  obtain ok c1 where r: "open_child malloc cbb d = (ok, c1)" by fastforce
  show "cbb_failed cbb'"
  proof (cases ok)
    case False
    with a r show ?thesis by (auto simp: run intro: cbb_opener.opener_records [OF op])
  next
    case True
    with r have l1: "cbb_live c1 (Suc d)" by (auto intro: cbb_opener.opener_child [OF op])
    obtain ok2 c2 where r2: "body malloc c1 (Suc d) = (ok2, c2)" by fastforce
    show ?thesis
    proof (cases ok2)
      case False
      with a(2) r True r2 have "body malloc c1 (Suc d) = (False, cbb')" by (simp add: run)
      with l1 show ?thesis by (rule cbb_sticky.records [OF body])
    next
      case ok2: True
      with r2 have "cbb_live c2 d" by (auto intro: up cbb_sticky.alive [OF body])
      with a(2) r True r2 ok2 show ?thesis by (simp add: run CBB_flush_records)
    qed
  qed
next
  fix malloc cbb d cbb' assume "run malloc cbb d = (True, cbb')"
  then show "cbb_live cbb' d" by (auto simp: run split: prod.splits bool.splits dest: CBB_flush_alive)
qed

interpretation st_octet_string: cbb_sticky "\<lambda>m c d. CBB_add_asn1_octet_string m c d data" for data
  by (rule sticky_element [OF op_asn1.cbb_opener_axioms st_bytes.cbb_sticky_axioms])
    (simp add: CBB_add_asn1_octet_string_def)

interpretation st_bool: cbb_sticky "\<lambda>m c d. CBB_add_asn1_bool m c d v" for v
  by (rule sticky_element [OF op_asn1.cbb_opener_axioms st_u8.cbb_sticky_axioms]) (simp add: CBB_add_asn1_bool_def)

lemma add_int64_loop_sticky: "cbb_sticky (\<lambda>m c d. add_int64_loop m c d v (Suc k))"
proof (induction k)
  case 0
  have "add_int64_loop m c d v (Suc 0) = CBB_add_u8 m c d (int64_byte v 0)" for m c d
    by (simp split: prod.split bool.split)
  then show ?case by (simp add: st_u8.cbb_sticky_axioms)
next
  case (Suc k)
  show ?case by (rule sticky_seq [OF st_u8.cbb_sticky_axioms Suc, of _ "int64_byte v (Suc k)"]) simp
qed

lemma add_uint64_body_sticky: "cbb_sticky (add_uint64_body v k)"
proof (induction k)
  case 0
  have "add_uint64_body v 0 = (\<lambda>m c d. CBB_add_u8 m c d 0)" by (intro ext) (simp add: add_uint64_body_def)
  then show ?case by (simp add: st_u8.cbb_sticky_axioms)
next
  case (Suc k)
  consider "int64_byte v k = 0" | "int64_byte v k \<noteq> 0" "128 \<le> unat (int64_byte v k)"
    | "int64_byte v k \<noteq> 0" "\<not> 128 \<le> unat (int64_byte v k)" by blast
  then show ?case
  proof cases
    case 1
    then have "add_uint64_body v (Suc k) = add_uint64_body v k"
      by (intro ext) (simp add: add_uint64_body_def int64_byte_def)
    with Suc show ?thesis by simp
  next
    case 2
    show ?thesis
      by (rule sticky_seq [OF st_u8.cbb_sticky_axioms [of 0] add_int64_loop_sticky [of v k]])
        (simp only: add_uint64_body_step [OF 2(1)] 2(2) if_True)
  next
    case 3
    have "add_uint64_body v (Suc k) = (\<lambda>m c d. add_int64_loop m c d v (Suc k))"
      by (intro ext) (simp only: add_uint64_body_step [OF 3(1)] 3(2) if_False prod.case bool.case)
    with add_int64_loop_sticky [of v k] show ?thesis by simp
  qed
qed

interpretation st_uint64: cbb_sticky "\<lambda>m c d. CBB_add_asn1_uint64 m c d v" for v
  by (rule sticky_element [OF op_asn1.cbb_opener_axioms add_uint64_body_sticky]) (rule CBB_add_asn1_uint64_eq)

interpretation st_int64: cbb_sticky "\<lambda>m c d. CBB_add_asn1_int64 m c d v" for v
proof (cases "0 \<le> sint v")
  case True
  then show "cbb_sticky (\<lambda>m c d. CBB_add_asn1_int64 m c d v)"
    by (simp add: CBB_add_asn1_int64_def st_uint64.cbb_sticky_axioms)
next
  case False
  show "cbb_sticky (\<lambda>m c d. CBB_add_asn1_int64 m c d v)"
    by (rule sticky_element [OF op_asn1.cbb_opener_axioms add_int64_loop_sticky])
      (simp add: CBB_add_asn1_int64_def False Let_def del: add_int64_loop.simps)
qed

lemma CBB_finish_failed: "cbb_failed cbb \<Longrightarrow> CBB_finish malloc cbb 0 has_data has_len = (None, cbb)"
  by (simp add: CBB_finish_def CBB_flush_stays)

lemma cbb_live_base: "cbb_live cbb d \<Longrightarrow> cbb_live (cbb\<lparr>base := map_option f (base cbb)\<rparr>) d"
  by (simp add: cbb_live_def)

interpretation st_zeros: cbb_sticky "\<lambda>m c d. CBB_add_zeros m c d n" for n
  by unfold_locales
    (auto simp: CBB_add_zeros_def st_space.stays intro: cbb_live_base dest: st_space.records st_space.alive split: prod.splits bool.splits)

section \<open>Properties\<close>

text \<open>
  The calls that write to a \<open>CBB\<close>, with their arguments, and how each is run on the \<open>CBB\<close> at depth
  \<open>d\<close>. \<open>CBB_did_write\<close> is not one of them: it does not look at the error flag.
  \<open>CBB_add_asn1_oid_from_text\<close>, the writers of characters and \<open>CBB_flush_asn1_set_of\<close> are not
  either: they refuse bad input without setting the flag.
\<close>

datatype cbb_call =
    Flush
  | Add_bytes "byte list"
  | Add_space nat
  | Add_zeros nat
  | Reserve nat
  | Add_u8 byte
  | Add_u16 u16
  | Add_u24 u32
  | Add_u32 u32
  | Add_u64 u64
  | Add_u8_length_prefixed
  | Add_u16_length_prefixed
  | Add_u24_length_prefixed
  | Add_asn1 u32
  | Add_asn1_octet_string "byte list"
  | Add_asn1_bool int
  | Add_asn1_uint64 u64
  | Add_asn1_int64 u64

primrec cbb_call_run :: "libc_malloc \<Rightarrow> CBB \<Rightarrow> nat \<Rightarrow> cbb_call \<Rightarrow> bool \<times> CBB" where
  "cbb_call_run m c d Flush = CBB_flush m c d"
| "cbb_call_run m c d (Add_bytes data) = CBB_add_bytes m c d data"
| "cbb_call_run m c d (Add_space n) = CBB_add_space m c d n"
| "cbb_call_run m c d (Add_zeros n) = CBB_add_zeros m c d n"
| "cbb_call_run m c d (Reserve n) = CBB_reserve m c d n"
| "cbb_call_run m c d (Add_u8 v) = CBB_add_u8 m c d v"
| "cbb_call_run m c d (Add_u16 v) = CBB_add_u16 m c d v"
| "cbb_call_run m c d (Add_u24 v) = CBB_add_u24 m c d v"
| "cbb_call_run m c d (Add_u32 v) = CBB_add_u32 m c d v"
| "cbb_call_run m c d (Add_u64 v) = CBB_add_u64 m c d v"
| "cbb_call_run m c d Add_u8_length_prefixed = CBB_add_u8_length_prefixed m c d"
| "cbb_call_run m c d Add_u16_length_prefixed = CBB_add_u16_length_prefixed m c d"
| "cbb_call_run m c d Add_u24_length_prefixed = CBB_add_u24_length_prefixed m c d"
| "cbb_call_run m c d (Add_asn1 tag) = CBB_add_asn1 m c d tag"
| "cbb_call_run m c d (Add_asn1_octet_string data) = CBB_add_asn1_octet_string m c d data"
| "cbb_call_run m c d (Add_asn1_bool v) = CBB_add_asn1_bool m c d v"
| "cbb_call_run m c d (Add_asn1_uint64 v) = CBB_add_asn1_uint64 m c d v"
| "cbb_call_run m c d (Add_asn1_int64 v) = CBB_add_asn1_int64 m c d v"

interpretation st_call: cbb_sticky "\<lambda>m c d. cbb_call_run m c d call" for call
  by (cases call)
    (simp_all add: st_flush.cbb_sticky_axioms st_bytes.cbb_sticky_axioms st_space.cbb_sticky_axioms st_zeros.cbb_sticky_axioms
      st_reserve.cbb_sticky_axioms CBB_add_u8_def CBB_add_u16_def CBB_add_u24_def CBB_add_u32_def CBB_add_u64_def st_u.cbb_sticky_axioms
      CBB_add_u8_length_prefixed_def CBB_add_u16_length_prefixed_def CBB_add_u24_length_prefixed_def op_prefixed.cbb_sticky_axioms
      op_asn1.cbb_sticky_axioms st_octet_string.cbb_sticky_axioms st_bool.cbb_sticky_axioms st_uint64.cbb_sticky_axioms st_int64.cbb_sticky_axioms)

text \<open>
  C5: errors are sticky. When one of the calls \<open>cbb_call\<close> on a live \<open>CBB\<close> fails, the error flag of the
  buffer is set, and from then on each of these calls, with any arguments, allocator and depth,
  fails without changing anything, and \<open>CBB_finish\<close> returns no data. A caller may therefore check
  the last call only. The calls are \<open>CBB_flush\<close>, the writers of bytes, zeros and integers, \<open>CBB_add_space\<close>,
  \<open>CBB_reserve\<close>, the openers of length-prefixed and ASN.1 children, and the ASN.1 writers of octet
  strings, booleans and integers.
\<close>

theorem CBB_errors_are_sticky:
  assumes "cbb_live cbb d" "cbb_call_run malloc cbb d call = (False, cbb')"
  shows "(\<exists>b. base cbb' = Some b \<and> error b) \<and>
    (\<forall>malloc' d' call'. cbb_call_run malloc' cbb' d' call' = (False, cbb')) \<and>
    (\<forall>malloc' has_data has_len. CBB_finish malloc' cbb' 0 has_data has_len = (None, cbb'))"
proof -
  have "cbb_failed cbb'" using assms by (rule st_call.records)
  then show ?thesis by (auto simp: st_call.stays CBB_finish_failed) (simp add: cbb_failed_def)
qed

definition full_cbb :: CBB where
  "full_cbb = \<lparr>base = Some \<lparr>buf = [7], len = 1, cap = 1, can_resize = False, error = False\<rparr>, children = []\<rparr>"

theorem CBB_errors_are_sticky_witness:
  "cbb_live full_cbb 0 \<and>
   (\<exists>cbb'. cbb_call_run (bounded_malloc 9) full_cbb 0 (Add_bytes [1]) = (False, cbb') \<and>
      (\<exists>b. base cbb' = Some b \<and> error b) \<and>
      cbb_call_run (bounded_malloc 9) cbb' 0 (Add_asn1 2) = (False, cbb') \<and>
      CBB_finish (bounded_malloc 9) cbb' 0 True True = (None, cbb'))"
proof -
  have live: "cbb_live full_cbb 0" by (simp add: cbb_live_def full_cbb_def)
  obtain cbb' where r: "cbb_call_run (bounded_malloc 9) full_cbb 0 (Add_bytes [1]) = (False, cbb')"
    by (simp add: full_cbb_def CBB_add_bytes_def cbb_then_def CBB_flush.simps cbb_buffer_add_def cbb_buffer_reserve_def
        Let_def size_add_def SIZE_MOD_def)
  with live CBB_errors_are_sticky [OF live r] show ?thesis by blast
qed

end
