(* ===== verification/Unicode.thy ===== *)
theory Unicode
  imports Cbb_Total
begin

text \<open>
  The character encodings of \<open>crypto/bytestring/unicode.c\<close>: readers and writers of UTF-8, Latin-1,
  UCS-2 and UTF-32 over \<open>CBS\<close> and \<open>CBB\<close>, used for the ASN.1 string types. The UTF-8 code is
  compared with \<open>utf8\<close>, the encoding form as Unicode defines it, on numbers: the reader accepts
  exactly the shortest encodings of the code points it allows.
\<close>

section \<open>The code\<close>

definition is_valid_code_point :: "u32 \<Rightarrow> bool" where
  "is_valid_code_point v \<longleftrightarrow>
     \<not> (v > 0x10ffff \<or> v AND 0xfffe = 0xfffe \<or> (v \<ge> 0xfdd0 \<and> v \<le> 0xfdef) \<or> (v \<ge> 0xd800 \<and> v \<le> 0xdfff))"

definition BOTTOM_BITS :: "nat \<Rightarrow> byte" where
  "BOTTOM_BITS n = ucast (push_bit n (1 :: u32) - 1)"

definition TOP_BITS :: "nat \<Rightarrow> byte" where
  "TOP_BITS n = NOT (BOTTOM_BITS (8 - n))"

text \<open>The loop over the continuation bytes.\<close>

primrec utf8_loop :: "nat \<Rightarrow> CBS \<Rightarrow> u32 \<Rightarrow> u32 cbs_result" where
  "utf8_loop 0 cbs v = (Some v, cbs)"
| "utf8_loop (Suc n) cbs v =
     (case CBS_get_u8 cbs of
        (None, cbs) \<Rightarrow> (None, cbs)
      | (Some c, cbs) \<Rightarrow>
          if c AND TOP_BITS 2 \<noteq> TOP_BITS 1 then (None, cbs)
          else utf8_loop n cbs (push_bit 6 v OR ucast (c AND BOTTOM_BITS 6)))"

definition cbs_get_utf8 :: "CBS \<Rightarrow> u32 cbs_result" where
  "cbs_get_utf8 cbs =
     (case CBS_get_u8 cbs of
        (None, cbs) \<Rightarrow> (None, cbs)
      | (Some c, cbs) \<Rightarrow>
          if c \<le> 0x7f then (Some (ucast c), cbs)
          else
            (let finish = (\<lambda>v len lower_bound.
                   case utf8_loop len cbs v of
                     (None, cbs) \<Rightarrow> (None, cbs)
                   | (Some v, cbs) \<Rightarrow> if \<not> is_valid_code_point v \<or> v < lower_bound then (None, cbs) else (Some v, cbs))
             in if c AND TOP_BITS 3 = TOP_BITS 2 then finish (ucast (c AND BOTTOM_BITS 5)) 1 0x80
                else if c AND TOP_BITS 4 = TOP_BITS 3 then finish (ucast (c AND BOTTOM_BITS 4)) 2 0x800
                else if c AND TOP_BITS 5 = TOP_BITS 4 then finish (ucast (c AND BOTTOM_BITS 3)) 3 0x10000
                else (None, cbs)))"

definition cbs_get_latin1 :: "CBS \<Rightarrow> u32 cbs_result" where
  "cbs_get_latin1 cbs = (case CBS_get_u8 cbs of (None, cbs) \<Rightarrow> (None, cbs) | (Some c, cbs) \<Rightarrow> (Some (ucast c), cbs))"

definition cbs_get_ucs2_be :: "CBS \<Rightarrow> u32 cbs_result" where
  "cbs_get_ucs2_be cbs =
     (case CBS_get_u16 cbs of
        (None, cbs) \<Rightarrow> (None, cbs)
      | (Some c, cbs) \<Rightarrow> if \<not> is_valid_code_point (ucast c) then (None, cbs) else (Some (ucast c), cbs))"

definition cbs_get_utf32_be :: "CBS \<Rightarrow> u32 cbs_result" where
  "cbs_get_utf32_be cbs =
     (case CBS_get_u32 cbs of
        (None, cbs) \<Rightarrow> (None, cbs) | (Some c, cbs) \<Rightarrow> if is_valid_code_point c then (Some c, cbs) else (None, cbs))"

definition cbb_get_utf8_len :: "u32 \<Rightarrow> nat" where
  "cbb_get_utf8_len u = (if u \<le> 0x7f then 1 else if u \<le> 0x7ff then 2 else if u \<le> 0xffff then 3 else 4)"

definition lead_byte :: "nat \<Rightarrow> nat \<Rightarrow> u32 \<Rightarrow> byte" where
  "lead_byte n k u = ucast (ucast (TOP_BITS n) OR drop_bit k u)"

definition next_byte :: "nat \<Rightarrow> u32 \<Rightarrow> byte" where
  "next_byte k u = ucast (ucast (TOP_BITS 1) OR (drop_bit k u AND ucast (BOTTOM_BITS 6)))"

definition cbb_add_utf8 :: "libc_malloc \<Rightarrow> CBB \<Rightarrow> nat \<Rightarrow> u32 \<Rightarrow> bool \<times> CBB" where
  "cbb_add_utf8 malloc cbb d u =
     (if \<not> is_valid_code_point u then (False, cbb)
      else if u \<le> 0x7f then cbb_each CBB_add_u8 malloc cbb d [ucast u]
      else if u \<le> 0x7ff then cbb_each CBB_add_u8 malloc cbb d [lead_byte 2 6 u, next_byte 0 u]
      else if u \<le> 0xffff then cbb_each CBB_add_u8 malloc cbb d [lead_byte 3 12 u, next_byte 6 u, next_byte 0 u]
      else if u \<le> 0x10ffff then cbb_each CBB_add_u8 malloc cbb d [lead_byte 4 18 u, next_byte 12 u, next_byte 6 u, next_byte 0 u]
      else (False, cbb))"

definition cbb_add_latin1 :: "libc_malloc \<Rightarrow> CBB \<Rightarrow> nat \<Rightarrow> u32 \<Rightarrow> bool \<times> CBB" where
  "cbb_add_latin1 malloc cbb d u = (if u \<le> 0xff then CBB_add_u8 malloc cbb d (ucast u) else (False, cbb))"

definition cbb_add_ucs2_be :: "libc_malloc \<Rightarrow> CBB \<Rightarrow> nat \<Rightarrow> u32 \<Rightarrow> bool \<times> CBB" where
  "cbb_add_ucs2_be malloc cbb d u =
     (if u \<le> 0xffff \<and> is_valid_code_point u then CBB_add_u16 malloc cbb d (ucast u) else (False, cbb))"

definition cbb_add_utf32_be :: "libc_malloc \<Rightarrow> CBB \<Rightarrow> nat \<Rightarrow> u32 \<Rightarrow> bool \<times> CBB" where
  "cbb_add_utf32_be malloc cbb d u = (if is_valid_code_point u then CBB_add_u32 malloc cbb d u else (False, cbb))"

section \<open>UTF-8 on numbers\<close>

definition utf8 :: "u32 \<Rightarrow> byte list" where
  "utf8 u = (let n = unat u in
     if n < 0x80 then [of_nat n]
     else if n < 0x800 then [of_nat (192 + n div 64), of_nat (128 + n mod 64)]
     else if n < 0x10000 then [of_nat (224 + n div 4096), of_nat (128 + n div 64 mod 64), of_nat (128 + n mod 64)]
     else [of_nat (240 + n div 262144), of_nat (128 + n div 4096 mod 64), of_nat (128 + n div 64 mod 64), of_nat (128 + n mod 64)])"

text \<open>The continuation bytes of a character whose value so far is \<open>v\<close>, and the character at the front.\<close>

fun spec_continue :: "nat \<Rightarrow> nat \<Rightarrow> byte list \<Rightarrow> (nat \<times> byte list) option" where
  "spec_continue 0 v bs = Some (v, bs)"
| "spec_continue (Suc n) v [] = None"
| "spec_continue (Suc n) v (b # bs) = (if unat b div 64 = 2 then spec_continue n (v * 64 + unat b mod 64) bs else None)"

definition spec_checked :: "nat \<Rightarrow> (nat \<times> byte list) option \<Rightarrow> (u32 \<times> byte list) option" where
  "spec_checked lower r =
     (case r of None \<Rightarrow> None
      | Some (v, rest) \<Rightarrow> if is_valid_code_point (of_nat v) \<and> lower \<le> v then Some (of_nat v, rest) else None)"

fun spec_utf8 :: "byte list \<Rightarrow> (u32 \<times> byte list) option" where
  "spec_utf8 [] = None"
| "spec_utf8 (b # bs) =
     (if unat b < 128 then Some (ucast b, bs)
      else if unat b div 32 = 6 then spec_checked 0x80 (spec_continue 1 (unat b mod 32) bs)
      else if unat b div 16 = 14 then spec_checked 0x800 (spec_continue 2 (unat b mod 16) bs)
      else if unat b div 8 = 30 then spec_checked 0x10000 (spec_continue 3 (unat b mod 8) bs)
      else None)"

section \<open>Bit masks as numbers\<close>

lemma unat_and_top: "unat (b AND NOT (mask k) :: byte) = unat b div 2 ^ k * 2 ^ k"
proof -
  have "b AND NOT (mask k) = push_bit k (drop_bit k b)"
    by (rule bit_word_eqI) (auto simp: bit_simps)
  moreover have "unat b div 2 ^ k * 2 ^ k < 256"
    using unat_byte_less [of b] by (meson div_times_less_eq_dividend le_less_trans)
  moreover have "unat (push_bit k (drop_bit k b)) = take_bit 8 (push_bit k (drop_bit k (unat b)))"
    by (simp only: unsigned_push_bit_eq unsigned_drop_bit_eq) (simp add: take_bit_nat_eq_self)
  ultimately show ?thesis
    by (simp add: drop_bit_eq_div push_bit_eq_mult take_bit_nat_eq_self)
qed

lemma top_bits_iff:
  "c AND TOP_BITS 2 = TOP_BITS 1 \<longleftrightarrow> unat c div 64 = 2"
  "c AND TOP_BITS 3 = TOP_BITS 2 \<longleftrightarrow> unat c div 32 = 6"
  "c AND TOP_BITS 4 = TOP_BITS 3 \<longleftrightarrow> unat c div 16 = 14"
  "c AND TOP_BITS 5 = TOP_BITS 4 \<longleftrightarrow> unat c div 8 = 30"
  using unat_and_top [of c 6] unat_and_top [of c 5] unat_and_top [of c 4] unat_and_top [of c 3]
  by (simp_all add: TOP_BITS_def BOTTOM_BITS_def mask_eq_exp_minus_1 word_unat_eq_iff)

lemma bottom_bits:
  "unat (c AND BOTTOM_BITS 6) = unat c mod 64" "unat (c AND BOTTOM_BITS 5) = unat c mod 32"
  "unat (c AND BOTTOM_BITS 4) = unat c mod 16" "unat (c AND BOTTOM_BITS 3) = unat c mod 8"
proof -
  have m: "unat (c AND mask k) = unat c mod 2 ^ k" for k
    by (metis take_bit_eq_mask unsigned_take_bit_eq take_bit_eq_mod)
  show "unat (c AND BOTTOM_BITS 6) = unat c mod 64" "unat (c AND BOTTOM_BITS 5) = unat c mod 32"
  "unat (c AND BOTTOM_BITS 4) = unat c mod 16" "unat (c AND BOTTOM_BITS 3) = unat c mod 8"
    using m [of 6] m [of 5] m [of 4] m [of 3] by (simp_all add: BOTTOM_BITS_def mask_eq_exp_minus_1)
qed

lemma append_six_bits:
  assumes "unat (v :: u32) < 2 ^ 26"
  shows "unat (push_bit 6 v OR ucast (c AND BOTTOM_BITS 6)) = unat v * 64 + unat c mod 64"
proof -
  have "ucast (c AND BOTTOM_BITS 6) = (of_nat (unat c mod 64) :: u32)"
    by (simp add: word_unat_eq_iff unat_ucast_byte bottom_bits unat_of_nat)
  then have "push_bit 6 v OR ucast (c AND BOTTOM_BITS 6) = of_nat (unat v * 64 + unat c mod 64)"
    using or_shift [of "unat c mod 64" 6 "unat v", where 'a = 32] by simp
  moreover have "unat v * 64 + unat c mod 64 < 2 ^ 32" using assms by simp
  ultimately show ?thesis by (simp add: unat_of_nat del: of_nat_add of_nat_mult)
qed

section \<open>The reader accepts exactly the encodings\<close>

lemma utf8_loop_spec:
  assumes "cbs_inv c" "utf8_loop n c v = (r, c')" "unat v < 2 ^ (32 - 6 * n)" "n \<le> 3"
  shows "cbs_advances c' c \<and> spec_continue n (unat v) (cbs_bytes c) = map_option (\<lambda>a. (unat a, cbs_bytes c')) r"
  using assms
proof (induction n arbitrary: c v)
  case 0
  then show ?case by auto
next
  case (Suc n)
  show ?case
  proof (cases "CBS_get_u8 c")
    case (Pair x c1)
    show ?thesis
    proof (cases x)
      case None
      with Suc.prems Pair show ?thesis by (auto simp: CBS_get_u8_None)
    next
      case (Some b)
      with Pair have g: "CBS_get_u8 c = (Some b, c1)" by simp
      note b = CBS_get_u8_Some [OF Suc.prems(1) g]
      have v: "unat v < 2 ^ 26" "unat v * 64 + unat b mod 64 < 2 ^ (32 - 6 * n)"
      proof -
        have e: "32 - 6 * n = (32 - 6 * Suc n) + 6" using Suc.prems(4) by simp
        have "unat v + 1 \<le> 2 ^ (32 - 6 * Suc n)" using Suc.prems(3) by simp
        then have "(unat v + 1) * 64 \<le> 2 ^ (32 - 6 * n)" unfolding e power_add by simp
        then show "unat v * 64 + unat b mod 64 < 2 ^ (32 - 6 * n)"
          using mod_less_divisor [of 64 "unat b"] by simp
        have "(2 :: nat) ^ (32 - 6 * Suc n) \<le> 2 ^ 26" by (rule power_increasing) auto
        with Suc.prems(3) show "unat v < 2 ^ 26" by linarith
      qed
      show ?thesis
      proof (cases "unat b div 64 = 2")
        case False
        with b g Suc.prems(2) top_bits_iff(1) [of b] show ?thesis by auto
      next
        case True
        with Suc.prems(2) g top_bits_iff(1) [of b]
        have "utf8_loop n c1 (push_bit 6 v OR ucast (b AND BOTTOM_BITS 6)) = (r, c')" by simp
        from Suc.IH [OF b(2) this] v b(1,3) Suc.prems(4) True show ?thesis
          by (auto simp: append_six_bits intro: cbs_advances_trans)
      qed
    qed
  qed
qed

lemma small_code_point_valid: "unat u < 128 \<Longrightarrow> is_valid_code_point u"
proof -
  assume u: "unat u < 128"
  have "unat (u AND 0xfffe) \<le> unat u" by (metis word_and_le2 word_le_nat_alt and.commute)
  with u have "u AND 0xfffe \<noteq> 0xfffe" by (auto dest: arg_cong [where f = unat])
  with u show ?thesis by (simp add: is_valid_code_point_def word_less_nat_alt word_le_nat_alt)
qed

lemma valid_code_point_le: "is_valid_code_point u \<Longrightarrow> unat u \<le> 0x10ffff"
  by (simp add: is_valid_code_point_def word_less_nat_alt)

interpretation rd_utf8: cbs_reader cbs_get_utf8 id spec_utf8
proof (rule cbs_readerI)
  fix c r c' assume c: "cbs_inv c" "cbs_get_utf8 c = (r, c')"
  show "cbs_advances c' c \<and> spec_utf8 (cbs_bytes c) = map_option (\<lambda>a. (id a, cbs_bytes c')) r"
  proof (cases "fst (CBS_get_u8 c)")
    case None
    with c show ?thesis by (auto simp: cbs_get_utf8_def CBS_get_u8_None split: prod.splits)
  next
    case (Some b)
    then obtain c1 where g: "CBS_get_u8 c = (Some b, c1)" by (cases "CBS_get_u8 c") auto
    note b = CBS_get_u8_Some [OF c(1) g]
    have fin: "cbs_advances c' c \<and> spec_checked (unat lower) (spec_continue n (unat v) (cbs_bytes c1)) =
        map_option (\<lambda>a. (id a, cbs_bytes c')) r"
      if "(case utf8_loop n c1 v of (None, x) \<Rightarrow> (None, x)
           | (Some w, x) \<Rightarrow> if \<not> is_valid_code_point w \<or> w < lower then (None, x) else (Some w, x)) = (r, c')"
        "unat v < 32" "n \<le> 3" for n lower v
    proof -
      have "unat v < 2 ^ (32 - 6 * n)"
      proof -
        have "(2 :: nat) ^ 5 \<le> 2 ^ (32 - 6 * n)" using that(3) by (intro power_increasing) auto
        with that(2) show ?thesis by simp
      qed
      from utf8_loop_spec [OF b(2) _ this that(3), of "fst (utf8_loop n c1 v)" "snd (utf8_loop n c1 v)"]
      show ?thesis using that(1) b(3)
        by (auto simp: spec_checked_def word_less_nat_alt not_less intro: cbs_advances_trans
            split: prod.splits option.splits if_splits)
    qed
    have lo: "b \<le> 0x7f \<longleftrightarrow> unat b < 128" by (auto simp: word_le_nat_alt)
    show ?thesis
    proof (cases "unat b < 128")
      case True
      with c(2) g b(1,3) lo show ?thesis by (auto simp: cbs_get_utf8_def)
    next
      case False
      have m: "unat (ucast (b AND BOTTOM_BITS 5) :: u32) = unat b mod 32" "unat (ucast (b AND BOTTOM_BITS 4) :: u32) = unat b mod 16"
        "unat (ucast (b AND BOTTOM_BITS 3) :: u32) = unat b mod 8" by (simp_all add: unat_ucast_byte bottom_bits)
      have lt: "unat b mod 32 < 32" "unat b mod 16 < 32" "unat b mod 8 < 32"
        using mod_less_divisor [of 16 "unat b"] mod_less_divisor [of 8 "unat b"] by auto
      have run: "(if unat b div 32 = 6 then (case utf8_loop 1 c1 (ucast (b AND BOTTOM_BITS 5)) of (None, x) \<Rightarrow> (None, x)
           | (Some w, x) \<Rightarrow> if \<not> is_valid_code_point w \<or> w < 0x80 then (None, x) else (Some w, x))
         else if unat b div 16 = 14 then (case utf8_loop 2 c1 (ucast (b AND BOTTOM_BITS 4)) of (None, x) \<Rightarrow> (None, x)
           | (Some w, x) \<Rightarrow> if \<not> is_valid_code_point w \<or> w < 0x800 then (None, x) else (Some w, x))
         else if unat b div 8 = 30 then (case utf8_loop 3 c1 (ucast (b AND BOTTOM_BITS 3)) of (None, x) \<Rightarrow> (None, x)
           | (Some w, x) \<Rightarrow> if \<not> is_valid_code_point w \<or> w < 0x10000 then (None, x) else (Some w, x))
         else (None, c1)) = (r, c')"
        using c(2) False lo by (simp only: cbs_get_utf8_def g top_bits_iff Let_def prod.case option.case if_False)
      show ?thesis
        using run False b(1,3) lt fin [where n = 1 and v = "ucast (b AND BOTTOM_BITS 5)" and lower = "0x80"]
          fin [where n = 2 and v = "ucast (b AND BOTTOM_BITS 4)" and lower = "0x800"] fin [where n = 3 and v = "ucast (b AND BOTTOM_BITS 3)" and lower = "0x10000"]
        by (simp add: m split: if_splits) auto
    qed
  qed
qed

lemma spec_continue_Suc:
  "spec_continue (Suc n) v bs = Some r \<longleftrightarrow>
     (\<exists>b bs'. bs = b # bs' \<and> unat b div 64 = 2 \<and> spec_continue n (v * 64 + unat b mod 64) bs' = Some r)"
  by (cases bs) auto

lemma spec_continue_digits:
  "spec_continue 1 v bs = Some (n, rest) \<longleftrightarrow>
     (\<exists>b1. bs = b1 # rest \<and> unat b1 div 64 = 2 \<and> n = v * 64 + unat b1 mod 64)"
  "spec_continue 2 v bs = Some (n, rest) \<longleftrightarrow>
     (\<exists>b1 b2. bs = b1 # b2 # rest \<and> unat b1 div 64 = 2 \<and> unat b2 div 64 = 2 \<and>
        n = (v * 64 + unat b1 mod 64) * 64 + unat b2 mod 64)"
  "spec_continue 3 v bs = Some (n, rest) \<longleftrightarrow>
     (\<exists>b1 b2 b3. bs = b1 # b2 # b3 # rest \<and> unat b1 div 64 = 2 \<and> unat b2 div 64 = 2 \<and> unat b3 div 64 = 2 \<and>
        n = ((v * 64 + unat b1 mod 64) * 64 + unat b2 mod 64) * 64 + unat b3 mod 64)"
proof -
  have k: "spec_continue 1 = spec_continue (Suc 0)" "spec_continue 2 = spec_continue (Suc (Suc 0))"
    "spec_continue 3 = spec_continue (Suc (Suc (Suc 0)))" by (simp_all add: numeral_2_eq_2 numeral_3_eq_3)
  show "spec_continue 1 v bs = Some (n, rest) \<longleftrightarrow>
     (\<exists>b1. bs = b1 # rest \<and> unat b1 div 64 = 2 \<and> n = v * 64 + unat b1 mod 64)"
    unfolding k spec_continue_Suc spec_continue.simps(1) by auto
  show "spec_continue 2 v bs = Some (n, rest) \<longleftrightarrow>
     (\<exists>b1 b2. bs = b1 # b2 # rest \<and> unat b1 div 64 = 2 \<and> unat b2 div 64 = 2 \<and>
        n = (v * 64 + unat b1 mod 64) * 64 + unat b2 mod 64)"
    unfolding k spec_continue_Suc spec_continue.simps(1) by auto
  show "spec_continue 3 v bs = Some (n, rest) \<longleftrightarrow>
     (\<exists>b1 b2 b3. bs = b1 # b2 # b3 # rest \<and> unat b1 div 64 = 2 \<and> unat b2 div 64 = 2 \<and> unat b3 div 64 = 2 \<and>
        n = ((v * 64 + unat b1 mod 64) * 64 + unat b2 mod 64) * 64 + unat b3 mod 64)"
    unfolding k spec_continue_Suc spec_continue.simps(1) by auto
qed

lemma spec_checked_Some:
  "spec_checked lower r = Some (u, rest) \<longleftrightarrow>
     (\<exists>v. r = Some (v, rest) \<and> is_valid_code_point (of_nat v) \<and> lower \<le> v \<and> u = of_nat v)"
  by (auto simp: spec_checked_def split: option.splits)

text \<open>The bytes of an encoding, from the value the reader computes: digits in base 64 under the mark bits.\<close>

lemma lead_digit:
  assumes "unat (b :: byte) div m = t"
  shows "b = of_nat (m * t + unat b mod m)"
  using assms mult_div_mod_eq [of m "unat b"] by simp

lemma utf8_of_digits:
  assumes "y < 64" "z < 64" "w < 64"
  shows
    "0x80 \<le> x * 64 + w \<Longrightarrow> x < 32 \<Longrightarrow> utf8 (of_nat (x * 64 + w)) = [of_nat (192 + x), of_nat (128 + w)]"
    "0x800 \<le> (x * 64 + z) * 64 + w \<Longrightarrow> x < 16 \<Longrightarrow>
      utf8 (of_nat ((x * 64 + z) * 64 + w)) = [of_nat (224 + x), of_nat (128 + z), of_nat (128 + w)]"
    "0x10000 \<le> ((x * 64 + y) * 64 + z) * 64 + w \<Longrightarrow> x < 8 \<Longrightarrow>
      utf8 (of_nat (((x * 64 + y) * 64 + z) * 64 + w)) = [of_nat (240 + x), of_nat (128 + y), of_nat (128 + z), of_nat (128 + w)]"
proof -
  have val: "unat (of_nat v :: u32) = v" if "v < 2 ^ 32" for v using that by (simp add: unat_of_nat)
  have d: "n div 4096 = n div 64 div 64" "n div 262144 = n div 64 div 64 div 64" for n :: nat
    by (simp_all flip: div_mult2_eq)
  have s: "(q * 64 + r) div 64 = q" "(q * 64 + r) mod 64 = r" if "r < 64" for q r :: nat using that by auto
  show "utf8 (of_nat (x * 64 + w)) = [of_nat (192 + x), of_nat (128 + w)]" if "0x80 \<le> x * 64 + w" "x < 32"
    using that assms unfolding utf8_def by (subst val) (auto simp: s Let_def)
  show "utf8 (of_nat ((x * 64 + z) * 64 + w)) = [of_nat (224 + x), of_nat (128 + z), of_nat (128 + w)]"
    if x: "0x800 \<le> (x * 64 + z) * 64 + w" "x < 16"
  proof -
    define q where "q = x * 64 + z"
    have "q * 64 + w < 0x10000" "0x800 \<le> q * 64 + w" "q div 64 = x" "q mod 64 = z"
      using x assms by (auto simp: q_def)
    then show ?thesis using assms unfolding q_def [symmetric] utf8_def d by (subst val) (simp_all add: s Let_def del: of_nat_add)
  qed
  show "utf8 (of_nat (((x * 64 + y) * 64 + z) * 64 + w)) = [of_nat (240 + x), of_nat (128 + y), of_nat (128 + z), of_nat (128 + w)]"
    if x: "0x10000 \<le> ((x * 64 + y) * 64 + z) * 64 + w" "x < 8"
  proof -
    define q where "q = (x * 64 + y) * 64 + z"
    have "q div 64 = x * 64 + y" "q mod 64 = z" using assms by (auto simp only: q_def s)
    moreover have "(x * 64 + y) div 64 = x" "(x * 64 + y) mod 64 = y" using assms by (auto simp only: s)
    moreover have "q * 64 + w < 2 ^ 32" "0x10000 \<le> q * 64 + w" using x assms by (auto simp: q_def)
    ultimately show ?thesis using assms unfolding q_def [symmetric] utf8_def d by (subst val) (simp_all add: s Let_def del: of_nat_add)
  qed
qed

lemma spec_utf8_Some:
  "spec_utf8 bs = Some (u, rest) \<Longrightarrow> is_valid_code_point u \<and> bs = utf8 u @ rest"
proof (induction bs rule: spec_utf8.induct)
  case 1
  then show ?case by simp
next
  case (2 b bs)
  consider "unat b < 128" | "\<not> unat b < 128" "unat b div 32 = 6" | "\<not> unat b < 128" "unat b div 32 \<noteq> 6" "unat b div 16 = 14"
    | "\<not> unat b < 128" "unat b div 32 \<noteq> 6" "unat b div 16 \<noteq> 14" "unat b div 8 = 30"
    using 2 by (auto split: if_splits)
  then show ?case
  proof cases
    case 1
    with 2 show ?thesis by (auto simp: utf8_def unat_ucast_byte small_code_point_valid)
  next
    case 2
    with \<open>spec_utf8 (b # bs) = Some (u, rest)\<close> obtain b1 where d: "bs = b1 # rest" "unat b1 div 64 = 2"
      "is_valid_code_point u" "u = of_nat (unat b mod 32 * 64 + unat b1 mod 64)" "0x80 \<le> unat b mod 32 * 64 + unat b1 mod 64"
      by (auto simp only: spec_utf8.simps if_True if_False simp_thms spec_checked_Some spec_continue_digits)
    have "utf8 u = [b, b1]" using d(2,5) lead_digit [of b 32 6, OF 2(2)] lead_digit [of b1 64 2]
      unfolding d(4) by (subst utf8_of_digits(1) [of 0 0]) simp_all
    with d show ?thesis by simp
  next
    case 3
    with \<open>spec_utf8 (b # bs) = Some (u, rest)\<close> obtain b1 b2 where d: "bs = b1 # b2 # rest" "unat b1 div 64 = 2" "unat b2 div 64 = 2"
      "is_valid_code_point u" "u = of_nat ((unat b mod 16 * 64 + unat b1 mod 64) * 64 + unat b2 mod 64)"
      "0x800 \<le> (unat b mod 16 * 64 + unat b1 mod 64) * 64 + unat b2 mod 64"
      by (auto simp only: spec_utf8.simps if_True if_False simp_thms spec_checked_Some spec_continue_digits)
    have "utf8 u = [b, b1, b2]"
      using d(2,3,6) lead_digit [of b 16 14, OF 3(3)] lead_digit [of b1 64 2] lead_digit [of b2 64 2]
      unfolding d(5) by (subst utf8_of_digits(2) [of 0]) simp_all
    with d show ?thesis by simp
  next
    case 4
    with \<open>spec_utf8 (b # bs) = Some (u, rest)\<close> obtain b1 b2 b3 where d: "bs = b1 # b2 # b3 # rest"
      "unat b1 div 64 = 2" "unat b2 div 64 = 2" "unat b3 div 64 = 2"
      "is_valid_code_point u" "u = of_nat (((unat b mod 8 * 64 + unat b1 mod 64) * 64 + unat b2 mod 64) * 64 + unat b3 mod 64)"
      "0x10000 \<le> ((unat b mod 8 * 64 + unat b1 mod 64) * 64 + unat b2 mod 64) * 64 + unat b3 mod 64"
      by (auto simp only: spec_utf8.simps if_True if_False simp_thms spec_checked_Some spec_continue_digits)
    have "utf8 u = [b, b1, b2, b3]"
      using d(2,3,4,7) lead_digit [of b 8 30, OF 4(4)] lead_digit [of b1 64 2] lead_digit [of b2 64 2] lead_digit [of b3 64 2]
      unfolding d(6) by (subst utf8_of_digits(3)) simp_all
    with d show ?thesis by simp
  qed
qed

lemma utf8_spec:
  assumes "is_valid_code_point u"
  shows "spec_utf8 (utf8 u @ rest) = Some (u, rest)"
proof -
  let ?n = "unat u"
  have n: "?n < 2 ^ 21" using valid_code_point_le [OF assms] by simp
  have d: "?n div 4096 = ?n div 64 div 64" "?n div 262144 = ?n div 64 div 64 div 64"
    by (simp_all flip: div_mult2_eq)
  have w: "unat (of_nat k :: byte) = k" if "k < 256" for k using that by (simp add: unat_of_nat)
  have m: "unat (of_nat (128 + k mod 64) :: byte) = 128 + k mod 64" for k
    using mod_less_divisor [of 64 k] by (intro w) linarith
  have h: "(128 + k mod 64) div 64 = 2" "(128 + k mod 64) mod 64 = k mod 64" for k :: nat
    using mod_less_divisor [of 64 k] mod_mult_self4 [of 64 2 "k mod 64"] by auto
  have u: "(of_nat ?n :: u32) = u" by simp
  have joined: "?n div 64 * 64 + ?n mod 64 = ?n" "(?n div 64 div 64 * 64 + ?n div 64 mod 64) * 64 + ?n mod 64 = ?n"
    "((?n div 64 div 64 div 64 * 64 + ?n div 64 div 64 mod 64) * 64 + ?n div 64 mod 64) * 64 + ?n mod 64 = ?n"
    by (simp_all only: div_mult_mod_eq)
  have lead: "unat (of_nat (a + k) :: byte) = a + k" "(a + k) div q = a div q" "(a + k) mod q = k"
    if "a + q \<le> 256" "k < q" "q dvd a" for a k q
  proof -
    show "unat (of_nat (a + k) :: byte) = a + k" using that by (intro w) simp
    show "(a + k) div q = a div q" "(a + k) mod q = k" using that by (auto elim!: dvdE)
  qed
  consider "?n < 0x80" | "0x80 \<le> ?n" "?n < 0x800" | "0x800 \<le> ?n" "?n < 0x10000" | "0x10000 \<le> ?n" by linarith
  then show ?thesis
  proof cases
    case 1
    have n: "unat (of_nat ?n :: byte) = ?n" using 1 by (intro w) simp
    then have "unat (ucast (of_nat ?n :: byte) :: u32) = ?n" by (subst unat_ucast_byte) simp_all
    then have "ucast (of_nat ?n :: byte) = u" by (rule word_unat_eq_iff [THEN iffD2])
    with 1 n show ?thesis unfolding utf8_def Let_def by (simp del: of_nat_unat)
  next
    case 2
    have l: "unat (of_nat (192 + ?n div 64) :: byte) = 192 + ?n div 64" "(192 + ?n div 64) div 32 = 6" "(192 + ?n div 64) mod 32 = ?n div 64"
      using lead [of 192 32 "?n div 64"] 2 by (simp_all add: less_mult_imp_div_less)
    have "spec_continue 1 (?n div 64) (of_nat (128 + ?n mod 64) # rest) = Some (?n, rest)"
      unfolding spec_continue_digits by ((rule exI)+, rule conjI, rule refl) (simp_all only: m h d joined simp_thms)
    with 2 assms have "spec_checked 0x80 (spec_continue 1 (?n div 64) (of_nat (128 + ?n mod 64) # rest)) = Some (u, rest)" by (simp add: spec_checked_def)
    with 2 l show ?thesis by (simp add: utf8_def Let_def del: of_nat_add)
  next
    case 3
    have l: "unat (of_nat (224 + ?n div 4096) :: byte) = 224 + ?n div 4096" "(224 + ?n div 4096) div 16 = 14" "(224 + ?n div 4096) mod 16 = ?n div 4096"
      using lead [of 224 16 "?n div 4096"] 3 by (simp_all add: less_mult_imp_div_less)
    have k: "(224 + ?n div 4096) div 32 = 7" using 3 by (simp add: less_mult_imp_div_less)
    have "spec_continue 2 (?n div 4096) (of_nat (128 + ?n div 64 mod 64) # of_nat (128 + ?n mod 64) # rest) = Some (?n, rest)"
      unfolding spec_continue_digits by ((rule exI)+, rule conjI, rule refl) (simp_all only: m h d joined simp_thms)
    with 3 assms have "spec_checked 0x800 (spec_continue 2 (?n div 4096) (of_nat (128 + ?n div 64 mod 64) # of_nat (128 + ?n mod 64) # rest)) = Some (u, rest)" by (simp add: spec_checked_def)
    with 3 l k show ?thesis by (simp add: utf8_def Let_def del: of_nat_add)
  next
    case 4
    have l: "unat (of_nat (240 + ?n div 262144) :: byte) = 240 + ?n div 262144" "(240 + ?n div 262144) div 8 = 30" "(240 + ?n div 262144) mod 8 = ?n div 262144"
      using lead [of 240 8 "?n div 262144"] n by (simp_all add: less_mult_imp_div_less)
    have k: "(240 + ?n div 262144) div 32 = 7" "(240 + ?n div 262144) div 16 = 15" using n by (simp_all add: less_mult_imp_div_less)
    have "spec_continue 3 (?n div 262144) (of_nat (128 + ?n div 4096 mod 64) # of_nat (128 + ?n div 64 mod 64) # of_nat (128 + ?n mod 64) # rest) = Some (?n, rest)"
      unfolding spec_continue_digits by ((rule exI)+, rule conjI, rule refl) (simp_all only: m h d joined simp_thms)
    with 4 assms have "spec_checked 0x10000 (spec_continue 3 (?n div 262144) (of_nat (128 + ?n div 4096 mod 64) # of_nat (128 + ?n div 64 mod 64) # of_nat (128 + ?n mod 64) # rest)) = Some (u, rest)" by (simp add: spec_checked_def)
    with 4 l k show ?thesis by (simp add: utf8_def Let_def del: of_nat_add)
  qed
qed

section \<open>The writer produces the encoding\<close>

lemma add_u8s_total: "bs \<noteq> [] \<Longrightarrow> cbb_total_writer (\<lambda>m c d. cbb_each CBB_add_u8 m c d bs) bs (length bs)"
proof -
  have w: "cbb_total_writer (\<lambda>m c d. CBB_add_u8 m c d b) [b] (length [b])" for b
    using tw_u8.cbb_total_writer_axioms [of b] by simp
  show "bs \<noteq> [] \<Longrightarrow> cbb_total_writer (\<lambda>m c d. cbb_each CBB_add_u8 m c d bs) bs (length bs)"
    using cbb_each_total [where f = CBB_add_u8 and enc = "\<lambda>b. [b]" and xs = bs, OF w] by simp
qed

lemma of_nat_take_bit_8: "(of_nat (take_bit LENGTH(32) n) :: byte) = of_nat n"
  by (rule bit_word_eqI) (auto simp: bit_simps)

lemma utf8_bytes_or:
  assumes "k < 2 ^ j" "a * 2 ^ j < 256"
  shows "(ucast ((ucast (of_nat (a * 2 ^ j) :: byte) :: u32) OR of_nat k) :: byte) = of_nat (a * 2 ^ j + k)"
proof -
  have "(ucast (of_nat (a * 2 ^ j) :: byte) :: u32) = push_bit j (of_nat a)"
  proof -
    have "unat (of_nat (a * 2 ^ j) :: u32) = a * 2 ^ j" "unat (of_nat (a * 2 ^ j) :: byte) = a * 2 ^ j"
      using assms(2) by (simp_all only: unat_of_nat) simp_all
    then have "(ucast (of_nat (a * 2 ^ j) :: byte) :: u32) = of_nat (a * 2 ^ j)"
      by (intro word_unat_eq_iff [THEN iffD2]) (subst unat_ucast_byte, simp_all del: of_nat_mult of_nat_power)
    then show ?thesis by (simp add: push_bit_eq_mult)
  qed
  then have "(ucast ((ucast (of_nat (a * 2 ^ j) :: byte) :: u32) OR of_nat k) :: byte) = ucast (of_nat (a * 2 ^ j + k) :: u32)"
    using or_shift [OF assms(1), of a, where 'a = 32] by simp
  also have "\<dots> = of_nat (a * 2 ^ j + k)" by (simp only: unsigned_of_nat of_nat_take_bit_8)
  finally show ?thesis .
qed

lemma top_bits_of_nat: "TOP_BITS 1 = of_nat (2 * 2 ^ 6)" "TOP_BITS 2 = of_nat (6 * 2 ^ 5)"
  "TOP_BITS 3 = of_nat (14 * 2 ^ 4)" "TOP_BITS 4 = of_nat (30 * 2 ^ 3)"
  by (simp_all add: TOP_BITS_def BOTTOM_BITS_def)

lemma drop_bit_of_nat_u32: "drop_bit k (u :: u32) = of_nat (unat u div 2 ^ k)"
proof -
  have "unat (drop_bit k u) = unat u div 2 ^ k"
    using unsigned_less [of u, where 'a = nat] by (simp only: unsigned_drop_bit_eq) (simp add: drop_bit_eq_div take_bit_nat_eq_self)
  then have "of_nat (unat (drop_bit k u)) = (of_nat (unat u div 2 ^ k) :: u32)" by (rule arg_cong)
  then show ?thesis by (simp only: of_nat_unat ucast_id)
qed

lemma next_byte_eq: "next_byte k u = of_nat (128 + unat u div 2 ^ k mod 64)"
proof -
  have "drop_bit k u AND ucast (BOTTOM_BITS 6) = take_bit 6 (drop_bit k u)"
    by (simp add: BOTTOM_BITS_def take_bit_eq_mask mask_eq_exp_minus_1)
  also have "\<dots> = of_nat (unat u div 2 ^ k mod 64)"
    by (simp only: drop_bit_of_nat_u32 take_bit_of_nat) (simp add: take_bit_eq_mod)
  finally have e: "drop_bit k u AND ucast (BOTTOM_BITS 6) = of_nat (unat u div 2 ^ k mod 64)" .
  show ?thesis
    unfolding next_byte_def top_bits_of_nat e by (subst utf8_bytes_or) simp_all
qed

lemma lead_byte_eq:
  "unat u < 2 ^ 11 \<Longrightarrow> lead_byte 2 6 u = of_nat (192 + unat u div 64)"
  "unat u < 2 ^ 16 \<Longrightarrow> lead_byte 3 12 u = of_nat (224 + unat u div 4096)"
  "unat u < 2 ^ 21 \<Longrightarrow> lead_byte 4 18 u = of_nat (240 + unat u div 262144)"
  unfolding lead_byte_def top_bits_of_nat drop_bit_of_nat_u32
  by (subst utf8_bytes_or; simp add: less_mult_imp_div_less)+

lemma cbb_add_utf8_eq:
  assumes "is_valid_code_point u"
  shows "cbb_add_utf8 malloc cbb d u = cbb_each CBB_add_u8 malloc cbb d (utf8 u)"
proof -
  have u: "unat u \<le> 0x10ffff" using assms by (rule valid_code_point_le)
  have c: "(ucast u :: byte) = of_nat (unat u)" by (simp only: of_nat_unat)
  have b: "u \<le> 0x7f \<longleftrightarrow> unat u < 0x80" "u \<le> 0x7ff \<longleftrightarrow> unat u < 0x800" "u \<le> 0xffff \<longleftrightarrow> unat u < 0x10000" "u \<le> 0x10ffff"
    using u by (auto simp: word_le_nat_alt)
  have z: "next_byte 0 u = of_nat (128 + unat u mod 64)" "next_byte 6 u = of_nat (128 + unat u div 64 mod 64)"
    "next_byte 12 u = of_nat (128 + unat u div 4096 mod 64)" by (simp_all add: next_byte_eq del: of_nat_add)
  have l: "lead_byte 4 18 u = of_nat (240 + unat u div 262144)" using u by (intro lead_byte_eq) simp
  show ?thesis
    unfolding cbb_add_utf8_def utf8_def Let_def b z l c
    using assms b(4) lead_byte_eq(1,2) [of u] by (simp del: of_nat_add of_nat_unat cbb_each.simps)
qed

lemma utf8_nonempty: "utf8 u \<noteq> []"
  by (simp add: utf8_def Let_def)

lemma utf8_length: "length (utf8 u) = cbb_get_utf8_len u" 
  by (auto simp: utf8_def Let_def cbb_get_utf8_len_def word_le_nat_alt)

lemma cbb_add_utf8_total:
  assumes "is_valid_code_point u"
  shows "cbb_total_writer (\<lambda>m c d. cbb_add_utf8 m c d u) (utf8 u) (length (utf8 u))"
  using add_u8s_total [OF utf8_nonempty] by (simp add: cbb_add_utf8_eq [OF assms])

section \<open>One contract for the four encodings\<close>

text \<open>
  A character encoding: a writer and a reader that agree on the bytes of every character the
  encoding has.
\<close>

locale char_encoding =
  fixes put :: "libc_malloc \<Rightarrow> CBB \<Rightarrow> nat \<Rightarrow> u32 \<Rightarrow> bool \<times> CBB"
    and get :: "CBS \<Rightarrow> u32 cbs_result"
    and has :: "u32 \<Rightarrow> bool" and enc :: "u32 \<Rightarrow> byte list"
    and spec :: "byte list \<Rightarrow> (u32 \<times> byte list) option"
  assumes put_writes: "has u \<Longrightarrow> cbb_total_writer (\<lambda>m c d. put m c d u) (enc u) (length (enc u))"
    and put_refuses: "\<not> has u \<Longrightarrow> put m c d u = (False, c)"
    and get_reads: "cbs_reader get id spec"
    and spec_iff: "spec bs = Some (u, rest) \<longleftrightarrow> has u \<and> bs = enc u @ rest"
    and enc_short: "length (enc u) \<le> 4"
begin

lemma get_iff:
  assumes "cbs_inv c"
  shows "(\<exists>c'. get c = (Some u, c') \<and> cbs_bytes c' = rest) \<longleftrightarrow> has u \<and> cbs_bytes c = enc u @ rest"
proof -
  have "(\<exists>c'. get c = (Some u, c') \<and> cbs_bytes c' = rest) \<longleftrightarrow> spec (cbs_bytes c) = Some (u, rest)"
  proof
    assume "\<exists>c'. get c = (Some u, c') \<and> cbs_bytes c' = rest"
    then show "spec (cbs_bytes c) = Some (u, rest)" using cbs_reader.run_Some [OF get_reads assms] by auto
  next
    assume "spec (cbs_bytes c) = Some (u, rest)"
    from cbs_reader.reads [OF get_reads assms this] show "\<exists>c'. get c = (Some u, c') \<and> cbs_bytes c' = rest"
      by (metis id_apply)
  qed
  then show ?thesis by (simp add: spec_iff)
qed

lemma unambiguous: "has u \<Longrightarrow> has v \<Longrightarrow> enc u @ x = enc v @ y \<Longrightarrow> u = v \<and> x = y"
  using spec_iff [of "enc u @ x" u x] spec_iff [of "enc v @ y" v y] by simp

lemma round_trip:
  assumes m: "malloc_law malloc" and sv: "serves malloc (c + 20)" and u: "has u" and rest: "length rest + 4 \<le> PTRDIFF_MAX"
  shows "\<exists>cbb cbb1 out r. CBB_init malloc c = (True, cbb) \<and> put malloc cbb 0 u = (True, cbb1) \<and>
    CBB_finish malloc cbb1 0 True True = (Some out, CBB_zero) \<and>
    get (CBS_init (out @ rest)) = (Some u, r) \<and> cbs_bytes r = rest"
proof -
  have "serves malloc (length (enc u) + c + 16)" using sv enc_short [of u] by (auto elim!: serves_mono)
  moreover have "length (enc u @ rest) \<le> PTRDIFF_MAX" using enc_short [of u] rest by simp
  ultimately show ?thesis
    using build_and_read [OF put_writes [OF u] get_reads, of rest u malloc c] u m by (auto simp: spec_iff)
qed

lemma write_then_read:
  assumes "malloc_law malloc" "serves malloc (c + 20)" "length rest + 4 \<le> PTRDIFF_MAX"
  shows "if has u
    then \<exists>cbb cbb1 out r. CBB_init malloc c = (True, cbb) \<and> put malloc cbb 0 u = (True, cbb1) \<and>
      CBB_finish malloc cbb1 0 True True = (Some out, CBB_zero) \<and>
      get (CBS_init (out @ rest)) = (Some u, r) \<and> cbs_bytes r = rest
    else \<forall>cbb d. put malloc cbb d u = (False, cbb)"
  using round_trip [OF assms(1,2) _ assms(3), of u] put_refuses [of u] by (simp split: if_split)

end

text \<open>The fixed-width encodings: a big-endian number of \<open>k\<close> bytes that has to pass a check.\<close>

definition spec_char :: "nat \<Rightarrow> (u32 \<Rightarrow> bool) \<Rightarrow> byte list \<Rightarrow> (u32 \<times> byte list) option" where
  "spec_char k ok bs =
     (case spec_uint k bs of None \<Rightarrow> None
      | Some (v, rest) \<Rightarrow> if ok (of_nat v) then Some (of_nat v, rest) else None)"

lemma checked_reader:
  fixes run :: "CBS \<Rightarrow> 'a::len word cbs_result"
  assumes rd: "cbs_reader run unat (spec_uint k)"
    and get: "\<And>c. get c = (case run c of (None, c') \<Rightarrow> (None, c')
      | (Some v, c') \<Rightarrow> if ok (ucast v) then (Some (ucast v), c') else (None, c'))"
  shows "cbs_reader get id (spec_char k ok)"
proof (rule cbs_readerI)
  fix c r c' assume c: "cbs_inv c" "get c = (r, c')"
  have s: "of_nat (unat v) = (ucast v :: u32)" for v :: "'a word" by simp
  show "cbs_advances c' c \<and> spec_char k ok (cbs_bytes c) = map_option (\<lambda>a. (id a, cbs_bytes c')) r"
  proof (cases "run c")
    case (Pair x c1)
    have a: "cbs_advances c1 c" using cbs_reader.advancesD [OF rd c(1) Pair] .
    show ?thesis
    proof (cases x)
      case None
      with Pair c a cbs_reader.run_None [OF rd c(1)] show ?thesis by (auto simp: get spec_char_def)
    next
      case (Some v)
      with Pair c a cbs_reader.run_Some [OF rd c(1), of v c1] show ?thesis by (auto simp: get spec_char_def split: if_splits)
    qed
  qed
qed

lemma spec_char_iff:
  assumes "k \<le> 4"
  shows "spec_char k ok bs = Some (u, rest) \<longleftrightarrow> (unat u < 256 ^ k \<and> ok u) \<and> bs = be_bytes k (unat u) @ rest"
proof
  assume "spec_char k ok bs = Some (u, rest)"
  then obtain v where v: "spec_uint k bs = Some (v, rest)" "ok u" "u = of_nat v"
    by (auto simp: spec_char_def split: option.splits if_splits)
  have l: "v < 256 ^ k" using spec_uint_less [OF v(1)] .
  also have "(256 :: nat) ^ k \<le> 256 ^ 4" using assms by (intro power_increasing) auto
  finally have "unat u = v" using v(3) by (simp add: unat_of_nat)
  with v l show "(unat u < 256 ^ k \<and> ok u) \<and> bs = be_bytes k (unat u) @ rest"
    using be_bytes_be_value [of "take k bs"] append_take_drop_id [of k bs]
    by (auto simp: spec_uint_def spec_bytes_def min_def split: if_splits)
next
  assume "(unat u < 256 ^ k \<and> ok u) \<and> bs = be_bytes k (unat u) @ rest"
  then show "spec_char k ok bs = Some (u, rest)"
    by (auto simp: spec_char_def spec_uint_def spec_bytes_def be_value_be_bytes)
qed

interpretation utf8_enc: char_encoding cbb_add_utf8 cbs_get_utf8 is_valid_code_point utf8 spec_utf8
proof (rule char_encoding.intro)
  show "is_valid_code_point u \<Longrightarrow> cbb_total_writer (\<lambda>m c d. cbb_add_utf8 m c d u) (utf8 u) (length (utf8 u))" for u
    by (rule cbb_add_utf8_total)
  show "spec_utf8 bs = Some (u, rest) \<longleftrightarrow> is_valid_code_point u \<and> bs = utf8 u @ rest" for bs u rest
    using spec_utf8_Some [of bs u rest] utf8_spec [of u rest] by blast
qed (simp_all add: cbb_add_utf8_def rd_utf8.cbs_reader_axioms utf8_def Let_def)

interpretation latin1_enc: char_encoding cbb_add_latin1 cbs_get_latin1
  "\<lambda>u. unat u < 256 ^ 1 \<and> True" "\<lambda>u. be_bytes 1 (unat u)" "spec_char 1 (\<lambda>u. True)"
proof (rule char_encoding.intro)
  show "cbb_total_writer (\<lambda>m c d. cbb_add_latin1 m c d u) (be_bytes 1 (unat u)) (length (be_bytes 1 (unat u)))"
    if "unat u < 256 ^ 1 \<and> True" for u
    using that tw_u8.cbb_total_writer_axioms [of "ucast u"] by (simp add: cbb_add_latin1_def word_le_nat_alt)
  show "cbs_reader cbs_get_latin1 id (spec_char 1 (\<lambda>u. True))"
    by (rule checked_reader [OF rd_u8.cbs_reader_axioms]) (simp add: cbs_get_latin1_def split: prod.split option.split)
qed (simp_all only: spec_char_iff, simp_all add: cbb_add_latin1_def word_le_nat_alt)

interpretation ucs2_enc: char_encoding cbb_add_ucs2_be cbs_get_ucs2_be
  "\<lambda>u. unat u < 256 ^ 2 \<and> is_valid_code_point u" "\<lambda>u. be_bytes 2 (unat u)" "spec_char 2 is_valid_code_point"
proof (rule char_encoding.intro)
  show "cbb_total_writer (\<lambda>m c d. cbb_add_ucs2_be m c d u) (be_bytes 2 (unat u)) (length (be_bytes 2 (unat u)))"
    if "unat u < 256 ^ 2 \<and> is_valid_code_point u" for u
    using that tw_u16.cbb_total_writer_axioms [of "ucast u"]
    by (simp add: cbb_add_ucs2_be_def word_le_nat_alt unsigned_ucast_eq take_bit_nat_eq_self)
  show "cbs_reader cbs_get_ucs2_be id (spec_char 2 is_valid_code_point)"
    by (rule checked_reader [OF rd_u16.cbs_reader_axioms]) (simp add: cbs_get_ucs2_be_def split: prod.split option.split)
qed (simp_all only: spec_char_iff, auto simp: cbb_add_ucs2_be_def word_le_nat_alt)

interpretation utf32_enc: char_encoding cbb_add_utf32_be cbs_get_utf32_be
  "\<lambda>u. unat u < 256 ^ 4 \<and> is_valid_code_point u" "\<lambda>u. be_bytes 4 (unat u)" "spec_char 4 is_valid_code_point"
proof (rule char_encoding.intro)
  have u32: "unat u < 256 ^ 4" for u :: u32 using unsigned_less [of u, where 'a = nat] by simp
  show "cbb_total_writer (\<lambda>m c d. cbb_add_utf32_be m c d u) (be_bytes 4 (unat u)) (length (be_bytes 4 (unat u)))"
    if "unat u < 256 ^ 4 \<and> is_valid_code_point u" for u
    using that tw_u32.cbb_total_writer_axioms [of u] by (simp add: cbb_add_utf32_be_def)
  show "cbb_add_utf32_be m c d u = (False, c)" if "\<not> (unat u < 256 ^ 4 \<and> is_valid_code_point u)" for m c d u
    using that u32 [of u] by (simp add: cbb_add_utf32_be_def)
  show "cbs_reader cbs_get_utf32_be id (spec_char 4 is_valid_code_point)"
    by (rule checked_reader [OF rd_u32.cbs_reader_axioms]) (simp add: cbs_get_utf32_be_def ucast_id split: prod.split option.split)
qed (simp_all only: spec_char_iff, simp_all)

section \<open>Properties\<close>

text \<open>
  C21: \<open>cbs_get_utf8\<close> accepts exactly the well-formed UTF-8 of the permitted code points: it returns
  the character \<open>u\<close> and leaves \<open>rest\<close> if and only if \<open>u\<close> is a valid code point and the input is the
  shortest encoding of \<open>u\<close> followed by \<open>rest\<close>; overlong forms, surrogates, noncharacters and values
  above \<open>0x10ffff\<close> have no such \<open>u\<close>. The encoding has the length \<open>cbb_get_utf8_len\<close> announces.
\<close>

theorem cbs_get_utf8_accepts_exactly:
  assumes "cbs_inv c"
  shows "((\<exists>c'. cbs_get_utf8 c = (Some u, c') \<and> cbs_bytes c' = rest) \<longleftrightarrow>
      is_valid_code_point u \<and> cbs_bytes c = utf8 u @ rest) \<and> length (utf8 u) = cbb_get_utf8_len u"
  using utf8_enc.get_iff [OF assms] utf8_length by simp

theorem cbs_get_utf8_accepts_exactly_witness:
  "((\<exists>c'. cbs_get_utf8 (CBS_init [0xe2, 0x82, 0xac, 1]) = (Some 0x20ac, c') \<and> cbs_bytes c' = [1]) \<longleftrightarrow>
      is_valid_code_point 0x20ac \<and> cbs_bytes (CBS_init [0xe2, 0x82, 0xac, 1]) = utf8 0x20ac @ [1]) \<and>
    length (utf8 0x20ac) = cbb_get_utf8_len 0x20ac"
  by (rule cbs_get_utf8_accepts_exactly) (simp add: cbs_init_inv PTRDIFF_MAX_def)

text \<open>
  C22: in each of the four encodings, UTF-8, Latin-1, UCS-2 and UTF-32, a character the encoding has
  can be written to a fresh builder, and the matching reader gets the same character back from the
  finished bytes and leaves what follows them; a character outside the encoding is refused by the
  writer and leaves the builder as it was.
\<close>

theorem character_roundtrip:
  assumes "malloc_law malloc" "serves malloc (c + 20)" "length rest + 4 \<le> PTRDIFF_MAX"
    and "(put, get, has) \<in> {(cbb_add_utf8, cbs_get_utf8, is_valid_code_point),
      (cbb_add_latin1, cbs_get_latin1, \<lambda>u. u \<le> 0xff),
      (cbb_add_ucs2_be, cbs_get_ucs2_be, \<lambda>u. u \<le> 0xffff \<and> is_valid_code_point u),
      (cbb_add_utf32_be, cbs_get_utf32_be, is_valid_code_point)}"
  shows "if has u
    then \<exists>cbb cbb1 out r. CBB_init malloc c = (True, cbb) \<and> put malloc cbb 0 u = (True, cbb1) \<and>
      CBB_finish malloc cbb1 0 True True = (Some out, CBB_zero) \<and>
      get (CBS_init (out @ rest)) = (Some u, r) \<and> cbs_bytes r = rest
    else \<forall>cbb d. put malloc cbb d u = (False, cbb)"
proof -
  have k: "u \<le> 0xff \<longleftrightarrow> unat u < 256 ^ 1 \<and> True" "u \<le> 0xffff \<longleftrightarrow> unat u < 256 ^ 2" "unat u < 256 ^ 4"
    using unsigned_less [of u, where 'a = nat] by (auto simp: word_le_nat_alt)
  note enc = utf8_enc.write_then_read [OF assms(1-3), of u] latin1_enc.write_then_read [OF assms(1-3), of u]
    ucs2_enc.write_then_read [OF assms(1-3), of u] utf32_enc.write_then_read [OF assms(1-3), of u]
  show ?thesis
    using assms(4) by (elim insertE emptyE) (use enc k in \<open>simp_all only: prod.inject simp_thms\<close>)
qed

theorem character_roundtrip_witness:
  "\<exists>cbb cbb1 out r. CBB_init (bounded_malloc 1000) 0 = (True, cbb) \<and>
     cbb_add_utf8 (bounded_malloc 1000) cbb 0 0x1f600 = (True, cbb1) \<and>
     CBB_finish (bounded_malloc 1000) cbb1 0 True True = (Some out, CBB_zero) \<and>
     cbs_get_utf8 (CBS_init (out @ [7])) = (Some 0x1f600, r) \<and> cbs_bytes r = [7]"
proof -
  have v: "is_valid_code_point 0x1f600" by (simp add: is_valid_code_point_def)
  show ?thesis
    using character_roundtrip [of "bounded_malloc 1000" 0 "[7]" cbb_add_utf8 cbs_get_utf8 is_valid_code_point "0x1f600"] v
    by (simp add: bounded_malloc_law bounded_serves SIZE_MOD_def PTRDIFF_MAX_def)
qed

end
