(* ===== verification/Oid.thy ===== *)
theory Oid
  imports Cbb_Total
begin

text \<open>
  Object identifiers as text: \<open>parse_dotted_decimal\<close> and \<open>CBB_add_asn1_oid_from_text\<close> of \<open>cbb.c\<close>,
  \<open>add_decimal\<close> and \<open>CBS_asn1_oid_to_text\<close> of \<open>cbs.c\<close>. The specification is on component lists:
  \<open>oid_text\<close> is the dotted-decimal text, \<open>oid_der\<close> the DER contents, \<open>oid_ok\<close> what the code supports;
  the two functions are inverse to each other on exactly these.
\<close>

section \<open>Dotted-decimal text to DER\<close>

text \<open>The loop of \<open>parse_dotted_decimal\<close>: \<open>out\<close> is the value so far, \<open>seen_digit\<close> whether there was a digit.\<close>

definition UINT64_MAX :: u64 where "UINT64_MAX = - 1"

function parse_dotted_loop :: "CBS \<Rightarrow> u64 \<Rightarrow> bool \<Rightarrow> u64 cbs_result" where
  "parse_dotted_loop cbs out seen_digit =
     (case CBS_get_u8 cbs of
        (None, cbs1) \<Rightarrow> (if seen_digit then Some out else None, cbs1)
      | (Some u, cbs1) \<Rightarrow>
          if u = 0x2e \<and> CBS_len cbs1 > 0 then (if seen_digit then Some out else None, cbs1)
          else if u < 0x30 \<or> u > 0x39 \<or> (seen_digit \<and> out = 0) \<or> out > UINT64_MAX div 10 \<or>
                  out * 10 > UINT64_MAX - ucast (u - 0x30) then (None, cbs1)
          else parse_dotted_loop cbs1 (out * 10 + ucast (u - 0x30)) True)"
  by pat_completeness auto
termination
  by (relation "measure (\<lambda>(c, v, s). cbs_len c)")
    (auto simp: CBS_get_u8_def cbs_get_simps split: prod.splits option.splits)

declare parse_dotted_loop.simps [simp del]

definition parse_dotted_decimal :: "CBS \<Rightarrow> u64 cbs_result" where
  "parse_dotted_decimal cbs = parse_dotted_loop cbs 0 False"

lemma get_u8_shorter: "CBS_get_u8 c = (Some b, c') \<Longrightarrow> cbs_len c' < cbs_len c"
  by (auto simp: CBS_get_u8_def cbs_get_simps split: prod.splits option.splits)

lemma get_u8_None_same: "CBS_get_u8 c = (None, c') \<Longrightarrow> c' = c"
  by (auto simp: CBS_get_u8_def cbs_get_simps split: prod.splits option.splits)

lemma parse_dotted_loop_shorter:
  "parse_dotted_loop c v s = (Some w, c') \<Longrightarrow> cbs_len c' < cbs_len c \<or> (s \<and> c' = c)"
proof (induction c v s rule: parse_dotted_loop.induct)
  case (1 c v s)
  obtain x c1 where g: "CBS_get_u8 c = (x, c1)" by fastforce
  show ?case
  proof (cases x)
    case None
    with "1.prems" g get_u8_None_same [of c c1] show ?thesis by (auto simp: parse_dotted_loop.simps [of c v s] split: if_splits)
  next
    case (Some u)
    then have l: "cbs_len c1 < cbs_len c" using g get_u8_shorter by blast
    have step: "u = 0x2e \<and> CBS_len c1 > 0 \<and> c' = c1 \<or> parse_dotted_loop c1 (v * 10 + ucast (u - 0x30)) True = (Some w, c')"
      using "1.prems" g Some by (auto simp: parse_dotted_loop.simps [of c v s] split: if_splits)
    show ?thesis
    proof (cases "c' = c1")
      case False
      then have "\<not> (u = 0x2e \<and> CBS_len c1 > 0)" "parse_dotted_loop c1 (v * 10 + ucast (u - 0x30)) True = (Some w, c')"
        using step "1.prems" g Some by (auto simp: parse_dotted_loop.simps [of c v s] split: if_splits)
      moreover have "\<not> (u < 0x30 \<or> u > 0x39 \<or> (s \<and> v = 0) \<or> v > UINT64_MAX div 10 \<or> v * 10 > UINT64_MAX - ucast (u - 0x30))"
        using calculation "1.prems" g Some
        by (simp only: parse_dotted_loop.simps [of c v s] prod.case option.case if_False split: if_splits) auto
      ultimately show ?thesis using "1.IH" [OF g [symmetric] Some] l by auto
    qed (use l in simp)
  qed
qed

lemma parse_dotted_decimal_shorter: "parse_dotted_decimal c = (Some w, c') \<Longrightarrow> cbs_len c' < cbs_len c"
  using parse_dotted_loop_shorter [of c 0 False w c'] by (simp add: parse_dotted_decimal_def)

text \<open>The loop over the remaining components.\<close>

function oid_rest_loop :: "libc_malloc \<Rightarrow> CBB \<Rightarrow> nat \<Rightarrow> CBS \<Rightarrow> bool \<times> CBB" where
  "oid_rest_loop malloc cbb d cbs =
     (if CBS_len cbs > 0 then
        (case parse_dotted_decimal cbs of
           (None, cbs1) \<Rightarrow> (False, cbb)
         | (Some a, cbs1) \<Rightarrow>
             (case add_base128_integer malloc cbb d a of
                (False, cbb1) \<Rightarrow> (False, cbb1)
              | (True, cbb1) \<Rightarrow> oid_rest_loop malloc cbb1 d cbs1))
      else (True, cbb))"
  by pat_completeness auto
termination
  by (relation "measure (\<lambda>(m, cbb, d, c). cbs_len c)") (auto dest: sym [THEN parse_dotted_decimal_shorter])

declare oid_rest_loop.simps [simp del]

definition CBB_add_asn1_oid_from_text :: "libc_malloc \<Rightarrow> CBB \<Rightarrow> nat \<Rightarrow> byte list \<Rightarrow> bool \<times> CBB" where
  "CBB_add_asn1_oid_from_text malloc cbb d text =
     (case CBB_flush malloc cbb d of
        (False, cbb) \<Rightarrow> (False, cbb)
      | (True, cbb) \<Rightarrow>
          (case parse_dotted_decimal (CBS_init text) of
             (None, cbs) \<Rightarrow> (False, cbb)
           | (Some a, cbs) \<Rightarrow>
               (case parse_dotted_decimal cbs of
                  (None, cbs) \<Rightarrow> (False, cbb)
                | (Some b, cbs) \<Rightarrow>
                    if a > 2 \<or> (a < 2 \<and> b > 39) \<or> b > UINT64_MAX - 80 then (False, cbb)
                    else
                      (case add_base128_integer malloc cbb d (40 * a + b) of
                         (False, cbb) \<Rightarrow> (False, cbb)
                       | (True, cbb) \<Rightarrow> oid_rest_loop malloc cbb d cbs))))"

section \<open>DER to dotted-decimal text\<close>

text \<open>What \<open>printf\<close> writes for an unsigned number, and the size the code reserves for it.\<close>

fun decimal :: "nat \<Rightarrow> byte list" where
  "decimal n = (if n < 10 then [of_nat (48 + n)] else decimal (n div 10) @ [of_nat (48 + n mod 10)])"

declare decimal.simps [simp del]

definition DECIMAL_SIZE :: "nat \<Rightarrow> nat" where
  "DECIMAL_SIZE bytes = (bytes * 8 + 2) div 3 + 1"

definition add_decimal :: "libc_malloc \<Rightarrow> CBB \<Rightarrow> nat \<Rightarrow> u64 \<Rightarrow> bool \<times> CBB" where
  "add_decimal malloc out d v = CBB_add_bytes malloc out d (take (DECIMAL_SIZE 8) (decimal (unat v)))"

lemma parse_base128_loop_shorter: "parse_base128_loop c v = (Some w, c') \<Longrightarrow> cbs_len c' < cbs_len c"
proof (induction c v rule: parse_base128_loop.induct)
  case (1 c v)
  obtain x c1 where g: "CBS_get_u8 c = (x, c1)" by fastforce
  with "1.prems" obtain b where b: "x = Some b" by (cases x) (auto simp: parse_base128_loop.simps [of c v])
  have l: "cbs_len c1 < cbs_len c" using g get_u8_shorter unfolding b by blast
  with "1.prems" g b "1.IH" [OF g [symmetric] b] show ?case
    by (fastforce simp: parse_base128_loop.simps [of c v] Let_def split: if_splits)
qed

function oid_text_loop :: "libc_malloc \<Rightarrow> CBB \<Rightarrow> nat \<Rightarrow> CBS \<Rightarrow> bool \<times> CBB" where
  "oid_text_loop malloc cbb d copy =
     (if CBS_len copy \<noteq> 0 then
        (case parse_base128_integer copy of
           (None, copy1) \<Rightarrow> (False, cbb)
         | (Some v, copy1) \<Rightarrow>
             (case CBB_add_u8 malloc cbb d 0x2e of
                (False, cbb1) \<Rightarrow> (False, cbb1)
              | (True, cbb1) \<Rightarrow>
                  (case add_decimal malloc cbb1 d v of
                     (False, cbb2) \<Rightarrow> (False, cbb2)
                   | (True, cbb2) \<Rightarrow> oid_text_loop malloc cbb2 d copy1)))
      else (True, cbb))"
  by pat_completeness auto
termination
  by (relation "measure (\<lambda>(m, cbb, d, c). cbs_len c)")
    (auto simp: parse_base128_integer_def dest: sym [THEN parse_base128_loop_shorter])

declare oid_text_loop.simps [simp del]

text \<open>The first number stands for two components.\<close>

definition add_first_components :: "libc_malloc \<Rightarrow> CBB \<Rightarrow> nat \<Rightarrow> u64 \<Rightarrow> bool \<times> CBB" where
  "add_first_components malloc cbb d v =
     (if v \<ge> 80 then
        (case CBB_add_bytes malloc cbb d [0x32, 0x2e] of
           (False, cbb) \<Rightarrow> (False, cbb)
         | (True, cbb) \<Rightarrow> add_decimal malloc cbb d (v - 80))
      else
        (case add_decimal malloc cbb d (v div 40) of
           (False, cbb) \<Rightarrow> (False, cbb)
         | (True, cbb) \<Rightarrow>
             (case CBB_add_u8 malloc cbb d 0x2e of
                (False, cbb) \<Rightarrow> (False, cbb)
              | (True, cbb) \<Rightarrow> add_decimal malloc cbb d (v mod 40))))"

text \<open>\<open>None\<close> is the null pointer; otherwise the bytes of the C string with its terminator.\<close>

definition CBS_asn1_oid_to_text :: "libc_malloc \<Rightarrow> CBS \<Rightarrow> byte list option" where
  "CBS_asn1_oid_to_text malloc cbs =
     (case CBB_init malloc 32 of
        (False, cbb) \<Rightarrow> None
      | (True, cbb) \<Rightarrow>
          (case parse_base128_integer cbs of
             (None, copy) \<Rightarrow> None
           | (Some v, copy) \<Rightarrow>
               (case add_first_components malloc cbb 0 v of
                  (False, cbb) \<Rightarrow> None
                | (True, cbb) \<Rightarrow>
                    (case oid_text_loop malloc cbb 0 copy of
                       (False, cbb) \<Rightarrow> None
                     | (True, cbb) \<Rightarrow>
                         (case CBB_add_u8 malloc cbb 0 0 of
                            (False, cbb) \<Rightarrow> None
                          | (True, cbb) \<Rightarrow> fst (CBB_finish malloc cbb 0 True True))))))"

section \<open>One component\<close>

fun spec_dotted :: "nat \<Rightarrow> bool \<Rightarrow> byte list \<Rightarrow> (nat \<times> byte list) option" where
  "spec_dotted v seen [] = (if seen then Some (v, []) else None)"
| "spec_dotted v seen (b # bs) =
     (if b = 0x2e \<and> bs \<noteq> [] then (if seen then Some (v, bs) else None)
      else if 48 \<le> unat b \<and> unat b \<le> 57 \<and> \<not> (seen \<and> v = 0) \<and> v * 10 + (unat b - 48) < 2 ^ 64
           then spec_dotted (v * 10 + (unat b - 48)) True bs else None)"

text \<open>The checks against \<open>UINT64_MAX\<close> before the multiplication and the addition are exact.\<close>

lemma digit_fits:
  assumes "48 \<le> unat b" "unat b \<le> 57"
  shows "\<not> (out > UINT64_MAX div 10 \<or> out * 10 > UINT64_MAX - ucast (b - 0x30 :: byte)) \<longleftrightarrow>
      unat out * 10 + (unat b - 48) < 2 ^ 64" (is "?l \<longleftrightarrow> ?r")
    and "unat out * 10 + (unat b - 48) < 2 ^ 64 \<Longrightarrow>
      unat (out * 10 + ucast (b - 0x30 :: byte)) = unat out * 10 + (unat b - 48)"
proof -
  let ?d = "ucast (b - 0x30 :: byte) :: u64"
  have "unat (b - 0x30) = unat b - 48" using assms by (subst unat_sub) (auto simp: word_le_nat_alt)
  then have d: "unat ?d = unat b - 48" "unat b - 48 \<le> 9" using assms by (simp_all add: unat_ucast_byte)
  have M: "unat UINT64_MAX = 2 ^ 64 - 1" "unat (UINT64_MAX div 10) = (2 ^ 64 - 1) div 10"
    by (simp_all add: UINT64_MAX_def unat_div_distrib unsigned_minus_1_eq_mask mask_eq_exp_minus_1)
  have m: "unat (UINT64_MAX - ?d) = 2 ^ 64 - 1 - (unat b - 48)"
    using d M by (subst unat_sub) (auto simp: word_le_nat_alt)
  have mul: "unat (out * 10) = unat out * 10" if "unat out \<le> (2 ^ 64 - 1) div 10"
    using that unat_mult_lem [of out 10] by simp
  show "?l \<longleftrightarrow> ?r"
  proof (cases "unat out \<le> (2 ^ 64 - 1) div 10")
    case True
    with mul m M(2) d(2) show ?thesis by (simp only: word_less_nat_alt not_less de_Morgan_disj) auto
  next
    case False
    with M(2) show ?thesis by (simp only: word_less_nat_alt not_less de_Morgan_disj) auto
  qed
  assume r: ?r
  then have "unat out \<le> (2 ^ 64 - 1) div 10" by auto
  with mul d r show "unat (out * 10 + ?d) = unat out * 10 + (unat b - 48)"
    using unat_add_lem [of "out * 10" ?d] by simp
qed

lemma parse_dotted_loop_spec:
  "cbs_inv c \<Longrightarrow> parse_dotted_loop c v s = (r, c') \<Longrightarrow>
    cbs_advances c' c \<and> spec_dotted (unat v) s (cbs_bytes c) = map_option (\<lambda>w. (unat w, cbs_bytes c')) r"
proof (induction c v s rule: parse_dotted_loop.induct)
  case (1 c v s)
  obtain x c1 where g: "CBS_get_u8 c = (x, c1)" by fastforce
  show ?case
  proof (cases x)
    case None
    with "1.prems" g show ?thesis
      by (auto simp: parse_dotted_loop.simps [of c v s] CBS_get_u8_None split: if_splits)
  next
    case (Some u)
    note b = CBS_get_u8_Some [OF "1.prems"(1) g [unfolded Some]]
    have len: "CBS_len c1 > 0 \<longleftrightarrow> cbs_bytes c1 \<noteq> []"
      using b(2) by (rule CBS_len_pos)
    have dg: "u < 0x30 \<or> u > 0x39 \<longleftrightarrow> \<not> (48 \<le> unat u \<and> unat u \<le> 57)" by (auto simp: word_less_nat_alt)
    have z: "v = 0 \<longleftrightarrow> unat v = 0" by (simp add: unat_eq_zero)
    show ?thesis
    proof (cases "u = 0x2e \<and> CBS_len c1 > 0")
      case True
      with "1.prems" g Some b len show ?thesis by (auto simp: parse_dotted_loop.simps [of c v s])
    next
      case nodot: False
      let ?bad = "u < 0x30 \<or> u > 0x39 \<or> (s \<and> v = 0) \<or> v > UINT64_MAX div 10 \<or> v * 10 > UINT64_MAX - ucast (u - 0x30)"
      have bad: "?bad \<longleftrightarrow> \<not> (48 \<le> unat u \<and> unat u \<le> 57 \<and> \<not> (s \<and> unat v = 0) \<and> unat v * 10 + (unat u - 48) < 2 ^ 64)"
        using dg z digit_fits(1) [of u v] by (cases "48 \<le> unat u \<and> unat u \<le> 57") (simp_all only: simp_thms, blast+)
      have run: "parse_dotted_loop c v s = (if ?bad then (None, c1) else parse_dotted_loop c1 (v * 10 + ucast (u - 0x30)) True)"
        using nodot g Some by (simp only: parse_dotted_loop.simps [of c v s] prod.case option.case if_False)
      have sp: "spec_dotted (unat v) s (cbs_bytes c) =
          (if ?bad then None else spec_dotted (unat v * 10 + (unat u - 48)) True (cbs_bytes c1))"
        using nodot len unfolding b(1) bad by (auto simp del: not_le)
      show ?thesis
      proof (cases ?bad)
        case True
        with run sp "1.prems"(2) b(3) show ?thesis by (auto simp del: spec_dotted.simps)
      next
        case False
        with bad digit_fits(2) [of u v] have v': "unat (v * 10 + ucast (u - 0x30)) = unat v * 10 + (unat u - 48)" by blast
        have "cbs_advances c' c1 \<and> spec_dotted (unat (v * 10 + ucast (u - 0x30))) True (cbs_bytes c1) =
            map_option (\<lambda>w. (unat w, cbs_bytes c')) r"
          using "1.IH" [OF g [symmetric] Some nodot False b(2)] "1.prems"(2) run False by simp
        with False sp v' b(3) show ?thesis by (auto intro: cbs_advances_trans simp del: spec_dotted.simps)
      qed
    qed
  qed
qed

interpretation rd_dotted: cbs_reader parse_dotted_decimal unat "spec_dotted 0 False"
  by (rule cbs_readerI) (use parse_dotted_loop_spec [of _ 0 False] in \<open>simp add: parse_dotted_decimal_def\<close>)

lemma decimal_snoc: "v \<noteq> 0 \<Longrightarrow> d < 10 \<Longrightarrow> decimal (v * 10 + d) = decimal v @ [of_nat (48 + d)]"
  by (subst decimal.simps) simp

lemma decimal_digit: "d < 10 \<Longrightarrow> decimal d = [of_nat (48 + d)]"
  by (subst decimal.simps) simp

lemma decimal_nonempty [simp]: "decimal n \<noteq> []"
  by (subst decimal.simps) simp

text \<open>The text of a component before the rest: a dot when there is more.\<close>

definition dotted :: "byte list \<Rightarrow> byte list" where
  "dotted rest = (if rest = [] then [] else 0x2e # rest)"

lemma spec_dotted_sound:
  "spec_dotted v seen bs = Some (w, rest) \<Longrightarrow> v < 2 ^ 64 \<Longrightarrow> (\<not> seen \<Longrightarrow> v = 0) \<Longrightarrow>
    (if seen then decimal v else []) @ bs = decimal w @ dotted rest \<and> w < 2 ^ 64"
proof (induction v seen bs rule: spec_dotted.induct)
  case (1 v seen)
  then show ?case by (auto simp: dotted_def split: if_splits)
next
  case (2 v seen b bs)
  show ?case
  proof (cases "b = 0x2e \<and> bs \<noteq> []")
    case True
    with "2.prems" show ?thesis by (auto simp: dotted_def split: if_splits)
  next
    case False
    let ?d = "unat b - 48"
    from False "2.prems"(1) have ok: "48 \<le> unat b \<and> unat b \<le> 57 \<and> \<not> (seen \<and> v = 0) \<and> v * 10 + ?d < 2 ^ 64"
      and nx: "spec_dotted (v * 10 + ?d) True bs = Some (w, rest)" by (auto split: if_splits)
    have "decimal (v * 10 + ?d) @ bs = decimal w @ dotted rest \<and> w < 2 ^ 64"
      using "2.IH" [OF False ok nx conjunct2 [OF conjunct2 [OF conjunct2 [OF ok]]]] by (simp only: if_True simp_thms not_True_eq_False)
    moreover have "b = of_nat (48 + ?d)" using ok by simp
    then have "(if seen then decimal v else []) @ [b] = decimal (v * 10 + ?d)"
      using ok "2.prems"(3) decimal_snoc [of v ?d] decimal_digit [of ?d] by auto
    ultimately show ?thesis by (metis append.assoc append_Cons append_Nil)
  qed
qed

lemma spec_dotted_decimal:
  "w < 2 ^ 64 \<Longrightarrow> spec_dotted 0 False (decimal w @ t) = spec_dotted w True t"
proof (induction w arbitrary: t rule: decimal.induct)
  case (1 w)
  let ?b = "of_nat (48 + w mod 10) :: byte"
  have b: "unat ?b = 48 + w mod 10"
    using mod_less_divisor [of 10 w] by (subst unat_of_nat) (simp del: mod_less_divisor)
  have nd: "?b \<noteq> 0x2e"
  proof
    assume "?b = 0x2e"
    then have "unat ?b = 46" by (simp only:) simp
    with b show False by simp
  qed
  show ?case
  proof (cases "w < 10")
    case True
    with b nd show ?thesis by (simp add: decimal_digit del: of_nat_add)
  next
    case False
    have "decimal w = decimal (w div 10) @ [?b]" using False by (subst decimal.simps) simp
    then have "spec_dotted 0 False (decimal w @ t) = spec_dotted (w div 10) True (?b # t)"
      using "1.IH" [OF False, of "?b # t"] "1.prems" by (simp del: spec_dotted.simps of_nat_add)
    also have "\<dots> = spec_dotted w True t"
      using b nd False "1.prems" mod_less_divisor [of 10 w] by (simp add: div_eq_0_iff del: of_nat_add mod_less_divisor)
    finally show ?thesis .
  qed
qed

lemma spec_dotted_iff:
  "spec_dotted 0 False bs = Some (w, rest) \<longleftrightarrow> w < 2 ^ 64 \<and> bs = decimal w @ dotted rest"
proof
  show "spec_dotted 0 False bs = Some (w, rest) \<Longrightarrow> w < 2 ^ 64 \<and> bs = decimal w @ dotted rest"
    using spec_dotted_sound [of 0 False bs w rest] by simp
  assume a: "w < 2 ^ 64 \<and> bs = decimal w @ dotted rest"
  then have "spec_dotted 0 False bs = spec_dotted w True (dotted rest)" using spec_dotted_decimal [of w] by blast
  then show "spec_dotted 0 False bs = Some (w, rest)" by (simp add: dotted_def)
qed

section \<open>Whole identifiers\<close>

text \<open>
  The text and the contents octets of an object identifier with the given components, and the
  components the code supports.
\<close>

fun oid_text :: "nat list \<Rightarrow> byte list" where
  "oid_text [] = []"
| "oid_text (v # vs) = decimal v @ dotted (oid_text vs)"

definition oid_numbers :: "nat list \<Rightarrow> nat list" where
  "oid_numbers comps = (40 * hd comps + hd (tl comps)) # drop 2 comps"

definition oid_der :: "nat list \<Rightarrow> byte list" where
  "oid_der comps = concat (map base128 (oid_numbers comps))"

definition oid_ok :: "nat list \<Rightarrow> bool" where
  "oid_ok comps \<longleftrightarrow> length comps \<ge> 2 \<and> hd comps \<le> 2 \<and> (hd comps < 2 \<longrightarrow> hd (tl comps) \<le> 39) \<and>
     hd (tl comps) + 80 < 2 ^ 64 \<and> (\<forall>v \<in> set comps. v < 2 ^ 64)"

lemma oid_text_eq_Nil [simp]: "oid_text vs = [] \<longleftrightarrow> vs = []"
  by (cases vs) auto

text \<open>The loop over the remaining components writes them if the text is well formed and fails if not.\<close>

lemma oid_rest_loop_text:
  assumes "cbs_inv c" "cbs_bytes c = oid_text vs" "\<forall>v \<in> set vs. v < 2 ^ 64"
  shows "oid_rest_loop m cbb d c = cbb_each add_base128_integer m cbb d (map of_nat vs)"
  using assms
proof (induction vs arbitrary: c cbb)
  case Nil
  then have "CBS_len c = 0" using CBS_len_pos [of c] by simp
  then show ?case by (simp add: oid_rest_loop.simps)
next
  case (Cons v vs)
  have l: "CBS_len c > 0" using Cons.prems(1,2) by (simp add: CBS_len_pos)
  have "spec_dotted 0 False (cbs_bytes c) = Some (v, oid_text vs)"
    using Cons.prems(2,3) by (simp only: spec_dotted_iff) simp
  from rd_dotted.reads [OF Cons.prems(1) this] obtain a c' where
    p: "parse_dotted_decimal c = (Some a, c')" "unat a = v" "cbs_bytes c' = oid_text vs" "cbs_inv c'" by metis
  have "a = of_nat v" using p(2) by auto
  with Cons.IH [OF p(4,3)] Cons.prems(3) l p(1) show ?case
    by (simp add: oid_rest_loop.simps [of m cbb d c] split: prod.split bool.split)
qed

lemma oid_rest_loop_fails:
  "cbs_inv c \<Longrightarrow> fst (oid_rest_loop m cbb d c) \<Longrightarrow> \<exists>vs. cbs_bytes c = oid_text vs \<and> (\<forall>v \<in> set vs. v < 2 ^ 64)"
proof (induction m cbb d c rule: oid_rest_loop.induct)
  case (1 m cbb d c)
  show ?case
  proof (cases "CBS_len c > 0")
    case False
    with "1.prems"(1) have "cbs_bytes c = oid_text []" using CBS_len_pos [of c] by simp
    then show ?thesis by (metis empty_iff list.set(1))
  next
    case True
    with "1.prems"(2) obtain a c1 cbb1 where p: "parse_dotted_decimal c = (Some a, c1)"
      "add_base128_integer m cbb d a = (True, cbb1)" "fst (oid_rest_loop m cbb1 d c1)"
      by (auto simp: oid_rest_loop.simps [of m cbb d c] split: prod.splits option.splits bool.splits)
    have "cbs_inv c1" using rd_dotted.keeps_inv [OF "1.prems"(1) p(1)] .
    with "1.IH" [OF True p(1) [symmetric] refl p(2) [symmetric] _ _ p(3)] obtain vs where vs: "cbs_bytes c1 = oid_text vs" "\<forall>v \<in> set vs. v < 2 ^ 64"
      by auto
    have "unat a < 2 ^ 64 \<and> cbs_bytes c = oid_text (unat a # vs)"
      using rd_dotted.run_Some [OF "1.prems"(1) p(1)] vs(1) by (simp add: spec_dotted_iff)
    with vs(2) show ?thesis by (metis set_ConsD)
  qed
qed

lemma oid_ok_Cons: "oid_ok comps \<Longrightarrow> \<exists>a b vs. comps = a # b # vs"
  by (cases comps; cases "tl comps") (auto simp: oid_ok_def)

lemma first_number:
  assumes "oid_ok (unat a # unat b # vs)"
  shows "unat (40 * a + b :: u64) = 40 * unat a + unat b"
proof -
  have "unat a \<le> 2" "unat b + 80 < 2 ^ 64" using assms by (simp_all add: oid_ok_def)
  then have "unat (40 * a) = 40 * unat a" using unat_mult_lem [of 40 a] by simp
  with \<open>unat a \<le> 2\<close> \<open>unat b + 80 < 2 ^ 64\<close> show ?thesis using unat_add_lem [of "40 * a" b] by simp
qed

lemma first_components_checks:
  "\<not> (a > 2 \<or> (a < 2 \<and> b > 39) \<or> b > UINT64_MAX - 80) \<longleftrightarrow>
     unat (a :: u64) \<le> 2 \<and> (unat a < 2 \<longrightarrow> unat b \<le> 39) \<and> unat b + 80 < 2 ^ 64"
proof -
  have "unat (UINT64_MAX - 80) = 2 ^ 64 - 1 - 80"
    by (subst unat_sub) (auto simp: UINT64_MAX_def word_le_nat_alt unsigned_minus_1_eq_mask mask_eq_exp_minus_1)
  then show ?thesis by (auto simp: word_less_nat_alt)
qed

lemma oid_from_text_ok:
  assumes ok: "oid_ok comps" and len: "length (oid_text comps) \<le> PTRDIFF_MAX"
  shows "CBB_add_asn1_oid_from_text m cbb d (oid_text comps) =
    (case CBB_flush m cbb d of (False, cbb) \<Rightarrow> (False, cbb)
     | (True, cbb) \<Rightarrow> cbb_each add_base128_integer m cbb d (map of_nat (oid_numbers comps)))"
proof -
  obtain x y vs where c: "comps = x # y # vs" using oid_ok_Cons [OF ok] by blast
  have lt: "x < 2 ^ 64" "y < 2 ^ 64" "\<forall>v \<in> set vs. v < 2 ^ 64" using ok by (simp_all add: oid_ok_def c)
  have i: "cbs_inv (CBS_init (oid_text comps))" using len by (rule cbs_init_inv)
  have "spec_dotted 0 False (cbs_bytes (CBS_init (oid_text comps))) = Some (x, oid_text (y # vs))"
    using lt(1) by (simp only: cbs_init_bytes spec_dotted_iff c oid_text.simps simp_thms)
  from rd_dotted.reads [OF i this] obtain a c1 where
    a: "parse_dotted_decimal (CBS_init (oid_text comps)) = (Some a, c1)" "unat a = x" "cbs_bytes c1 = oid_text (y # vs)" "cbs_inv c1" by metis
  have "spec_dotted 0 False (cbs_bytes c1) = Some (y, oid_text vs)"
    using lt(2) by (simp only: a(3) spec_dotted_iff oid_text.simps simp_thms)
  from rd_dotted.reads [OF a(4) this] obtain b c2 where
    b: "parse_dotted_decimal c1 = (Some b, c2)" "unat b = y" "cbs_bytes c2 = oid_text vs" "cbs_inv c2" by metis
  have chk: "\<not> (a > 2 \<or> (a < 2 \<and> b > 39) \<or> b > UINT64_MAX - 80)"
    using ok a(2) b(2) by (simp only: first_components_checks) (simp add: oid_ok_def c)
  have "unat (40 * a + b) = 40 * x + y" using first_number [of a b vs] ok a(2) b(2) by (simp add: c)
  then have n: "40 * a + b = of_nat (40 * x + y)" by (metis of_nat_unat ucast_id)
  show ?thesis
    using chk unfolding CBB_add_asn1_oid_from_text_def a(1) b(1) prod.case option.case
    by (simp only: if_False oid_rest_loop_text [OF b(4,3) lt(3)])
      (simp add: oid_numbers_def c n del: of_nat_add of_nat_mult split: prod.split bool.split)
qed

lemma oid_numbers_less: "oid_ok comps \<Longrightarrow> \<forall>v \<in> set (oid_numbers comps). v < 2 ^ 64"
  using oid_ok_Cons [of comps] by (auto simp: oid_ok_def oid_numbers_def)

lemma oid_from_text_total:
  assumes "oid_ok comps" "length (oid_text comps) \<le> PTRDIFF_MAX"
  shows "cbb_total_writer (\<lambda>m c d. CBB_add_asn1_oid_from_text m c d (oid_text comps)) (oid_der comps) (length (oid_der comps))"
proof -
  let ?vs = "map of_nat (oid_numbers comps) :: u64 list"
  have e: "concat (map (\<lambda>v. base128 (unat v)) ?vs) = oid_der comps"
    unfolding oid_der_def map_map
    by (rule arg_cong [where f = concat], rule map_cong [OF refl]) (use oid_numbers_less [OF assms(1)] in \<open>simp add: unat_of_nat\<close>)
  have "cbb_total_writer (\<lambda>m c d. cbb_each add_base128_integer m c d ?vs) (oid_der comps) (length (oid_der comps))"
    using cbb_each_total [where f = add_base128_integer and enc = "\<lambda>v. base128 (unat v)" and xs = ?vs,
        OF tw_base128.cbb_total_writer_axioms, unfolded e]
    by (simp add: oid_numbers_def)
  from total_writer_seq [OF tw_flush.cbb_total_writer_axioms this oid_from_text_ok [OF assms]]
  show ?thesis by simp
qed

lemma oid_from_text_only:
  assumes len: "length text \<le> PTRDIFF_MAX" and run: "fst (CBB_add_asn1_oid_from_text m cbb d text)"
  shows "\<exists>comps. oid_ok comps \<and> text = oid_text comps"
proof -
  have i: "cbs_inv (CBS_init text)" using len by (rule cbs_init_inv)
  from run obtain a c1 b c2 cbb1 where a: "parse_dotted_decimal (CBS_init text) = (Some a, c1)"
    and b: "parse_dotted_decimal c1 = (Some b, c2)" and r: "fst (oid_rest_loop m cbb1 d c2)"
    and chk: "\<not> (a > 2 \<or> (a < 2 \<and> b > 39) \<or> b > UINT64_MAX - 80)"
    by (auto simp: CBB_add_asn1_oid_from_text_def split: prod.splits option.splits bool.splits if_splits)
  note i1 = rd_dotted.keeps_inv [OF i a] and i2 = rd_dotted.keeps_inv [OF rd_dotted.keeps_inv [OF i a] b]
  obtain vs where vs: "cbs_bytes c2 = oid_text vs" "\<forall>v \<in> set vs. v < 2 ^ 64" using oid_rest_loop_fails [OF i2 r] by blast
  have "text = oid_text (unat a # unat b # vs)"
    using rd_dotted.run_Some [OF i a] rd_dotted.run_Some [OF i1 b] vs(1)
    by (simp add: spec_dotted_iff)
  moreover have "oid_ok (unat a # unat b # vs)"
    using chk vs(2) rd_dotted.run_Some [OF i a] rd_dotted.run_Some [OF i1 b]
    by (simp only: first_components_checks spec_dotted_iff) (simp add: oid_ok_def)
  ultimately show ?thesis by blast
qed

section \<open>Writing the text\<close>

lemma decimal_length: "n < 10 ^ k \<Longrightarrow> k > 0 \<Longrightarrow> length (decimal n) \<le> k"
proof (induction n arbitrary: k rule: decimal.induct)
  case (1 n)
  show ?case
  proof (cases "n < 10")
    case False
    obtain j where j: "k = Suc j" using 1(3) by (cases k) auto
    with False "1.prems" have "j > 0" "n div 10 < 10 ^ j" by (cases j; auto)+
    with "1.IH" [OF False, of j] False j show ?thesis by (subst decimal.simps) simp
  qed (use 1(3) in \<open>simp add: decimal_digit\<close>)
qed

text \<open>The buffer of \<open>add_decimal\<close> is large enough for every \<open>uint64_t\<close>.\<close>

lemma add_decimal_eq: "add_decimal m c d v = CBB_add_bytes m c d (decimal (unat v))"
proof -
  have "unat v < 10 ^ 20" using uint64_nat_less [of v] by simp
  then have "length (decimal (unat v)) \<le> DECIMAL_SIZE 8" using decimal_length [of "unat v" 20] by (simp add: DECIMAL_SIZE_def)
  then show ?thesis by (simp add: add_decimal_def)
qed

interpretation tw_decimal: cbb_total_writer "\<lambda>m c d. add_decimal m c d v" "decimal (unat v)" "length (decimal (unat v))" for v
proof -
  have "length (decimal (unat v)) \<le> 20" using uint64_nat_less [of v] by (intro decimal_length) simp_all
  then have "length (decimal (unat v)) < SIZE_MOD" by (simp add: SIZE_MOD_def)
  from CBB_add_bytes_total [OF this] show "cbb_total_writer (\<lambda>m c d. add_decimal m c d v) (decimal (unat v)) (length (decimal (unat v)))"
    by (simp add: add_decimal_eq)
qed

text \<open>The two components the first number stands for.\<close>

definition split_first :: "nat \<Rightarrow> nat \<times> nat" where
  "split_first v = (if v \<ge> 80 then (2, v - 80) else (v div 40, v mod 40))"

lemma add_first_components_total:
  "cbb_total_writer (\<lambda>m c d. add_first_components m c d v)
     (decimal (fst (split_first (unat v))) @ 0x2e # decimal (snd (split_first (unat v))))
     (length (decimal (fst (split_first (unat v))) @ 0x2e # decimal (snd (split_first (unat v)))))"
proof (cases "v \<ge> 80")
  case True
  then have u: "unat v \<ge> 80" "unat (v - 80) = unat v - 80" by (auto simp: word_le_nat_alt unat_sub)
  have "decimal 2 = [0x32]" by (simp add: decimal_digit)
  moreover have "cbb_total_writer (\<lambda>m c d. CBB_add_bytes m c d [0x32, 0x2e]) [0x32, 0x2e] (Suc (Suc 0))"
    using CBB_add_bytes_total [of "[0x32, 0x2e]"] by (simp add: SIZE_MOD_def)
  note total_writer_seq [OF this tw_decimal.cbb_total_writer_axioms [of "v - 80"], of "\<lambda>m c d. add_first_components m c d v"]
  ultimately show ?thesis using True u by (simp add: add_first_components_def split_first_def)
next
  case False
  then have u: "\<not> unat v \<ge> 80" "unat (v div 40) = unat v div 40" "unat (v mod 40) = unat v mod 40"
    by (simp_all add: word_le_nat_alt unat_div_distrib unat_mod_distrib)
  have s: "cbb_total_writer (\<lambda>m c d. case CBB_add_u8 m c d 0x2e of (False, c) \<Rightarrow> (False, c)
      | (True, c) \<Rightarrow> add_decimal m c d (v mod 40)) ([0x2e] @ decimal (unat (v mod 40))) (1 + length (decimal (unat (v mod 40))))"
    by (rule total_writer_seq [OF tw_u8.cbb_total_writer_axioms tw_decimal.cbb_total_writer_axioms]) simp
  show ?thesis
    using total_writer_seq [OF tw_decimal.cbb_total_writer_axioms [of "v div 40"] s, of "\<lambda>m c d. add_first_components m c d v"] False u
    by (simp add: add_first_components_def split_first_def)
qed

text \<open>The loop followed by the terminator.\<close>

definition oid_text_tail :: "libc_malloc \<Rightarrow> CBB \<Rightarrow> nat \<Rightarrow> CBS \<Rightarrow> bool \<times> CBB" where
  "oid_text_tail m c d copy =
     (case oid_text_loop m c d copy of (False, c) \<Rightarrow> (False, c) | (True, c) \<Rightarrow> CBB_add_u8 m c d 0)"

lemma oid_text_tail_total:
  assumes "cbs_inv copy" "cbs_bytes copy = concat (map base128 vs)" "\<forall>v \<in> set vs. v < 2 ^ 64"
  shows "cbb_total_writer (\<lambda>m c d. oid_text_tail m c d copy) (dotted (oid_text vs) @ [0]) (length (dotted (oid_text vs) @ [0]))"
  using assms
proof (induction vs arbitrary: copy)
  case Nil
  then have "CBS_len copy = 0" using CBS_len_pos [of copy] by simp
  then have "oid_text_tail m c d copy = CBB_add_u8 m c d 0" for m c d
    by (simp add: oid_text_tail_def oid_text_loop.simps)
  then show ?case using tw_u8.cbb_total_writer_axioms [of 0] by (simp add: dotted_def)
next
  case (Cons v vs)
  have "spec_base128 0 (cbs_bytes copy) = Some (v, concat (map base128 vs))"
    using Cons.prems by (simp add: spec_base128_iff)
  from rd_base128.reads [OF Cons.prems(1) this] obtain w c1 where
    w: "parse_base128_integer copy = (Some w, c1)" "unat w = v" "cbs_bytes c1 = concat (map base128 vs)" "cbs_inv c1" by metis
  have l: "CBS_len copy \<noteq> 0" using CBS_len_pos [OF Cons.prems(1)] Cons.prems(2) by (simp add: base128_def)
  let ?rest = "\<lambda>m c d. case add_decimal m c d w of (False, c) \<Rightarrow> (False, c) | (True, c) \<Rightarrow> oid_text_tail m c d c1"
  have t: "oid_text_tail m c d copy = (case CBB_add_u8 m c d 0x2e of (False, c) \<Rightarrow> (False, c) | (True, c) \<Rightarrow> ?rest m c d)" for m c d
    using l by (simp add: oid_text_tail_def oid_text_loop.simps [of m c d copy] w(1) split: prod.split bool.split)
  have r: "cbb_total_writer ?rest (decimal v @ dotted (oid_text vs) @ [0]) (length (decimal v) + length (dotted (oid_text vs) @ [0]))"
    using total_writer_seq [OF tw_decimal.cbb_total_writer_axioms [of w] Cons.IH [OF w(4,3)], of ?rest] Cons.prems(3) w(2) by simp
  show ?case
    using total_writer_seq [OF tw_u8.cbb_total_writer_axioms [of "0x2e"] r t] by (simp add: dotted_def)
qed

lemma oid_text_loop_only:
  "cbs_inv c \<Longrightarrow> fst (oid_text_loop m cbb d c) \<Longrightarrow> \<exists>vs. cbs_bytes c = concat (map base128 vs) \<and> (\<forall>v \<in> set vs. v < 2 ^ 64)"
proof (induction m cbb d c rule: oid_text_loop.induct)
  case (1 m cbb d c)
  show ?case
  proof (cases "CBS_len c = 0")
    case True
    with "1.prems"(1) have "cbs_bytes c = concat (map base128 [])" using CBS_len_pos [of c] by simp
    then show ?thesis by (metis empty_iff list.set(1))
  next
    case False
    with "1.prems"(2) obtain v c1 cbb1 cbb2 where p: "parse_base128_integer c = (Some v, c1)"
      "CBB_add_u8 m cbb d 0x2e = (True, cbb1)" "add_decimal m cbb1 d v = (True, cbb2)" "fst (oid_text_loop m cbb2 d c1)"
      by (auto simp: oid_text_loop.simps [of m cbb d c] split: prod.splits option.splits bool.splits)
    have "cbs_inv c1" using rd_base128.keeps_inv [OF "1.prems"(1) p(1)] .
    with "1.IH" [OF False p(1) [symmetric] refl p(2) [symmetric] _ p(3) [symmetric] _ _ p(4)] obtain vs
      where vs: "cbs_bytes c1 = concat (map base128 vs)" "\<forall>v \<in> set vs. v < 2 ^ 64" by auto
    have "unat v < 2 ^ 64 \<and> cbs_bytes c = concat (map base128 (unat v # vs))"
      using rd_base128.run_Some [OF "1.prems"(1) p(1)] vs(1) by (simp add: spec_base128_iff)
    with vs(2) show ?thesis by (metis set_ConsD)
  qed
qed

section \<open>The text of an encoded identifier\<close>

lemma oid_der_Cons: "oid_der (a # b # vs) = base128 (40 * a + b) @ concat (map base128 vs)"
  by (simp add: oid_der_def oid_numbers_def)

lemma oid_to_text_ok:
  assumes ok: "oid_ok comps" and c: "cbs_inv cbs" "cbs_bytes cbs = oid_der comps"
    and m: "malloc_law malloc" "serves malloc (length (oid_text comps) + 49)"
  shows "CBS_asn1_oid_to_text malloc cbs = Some (oid_text comps @ [0])"
proof -
  obtain x y vs where k: "comps = x # y # vs" using oid_ok_Cons [OF ok] by blast
  have n: "40 * x + y < 2 ^ 64" "\<forall>v \<in> set vs. v < 2 ^ 64" using ok by (auto simp: oid_ok_def k)
  have "spec_base128 0 (cbs_bytes cbs) = Some (40 * x + y, concat (map base128 vs))"
    using n(1) c(2) by (simp add: spec_base128_iff k oid_der_Cons)
  from rd_base128.reads [OF c(1) this] obtain v c1 where
    v: "parse_base128_integer cbs = (Some v, c1)" "unat v = 40 * x + y" "cbs_bytes c1 = concat (map base128 vs)" "cbs_inv c1" by metis
  have sf: "split_first (unat v) = (x, y)"
  proof (cases "x < 2")
    case True
    then have "y \<le> 39" "x = 0 \<or> x = 1" using ok by (auto simp: oid_ok_def k)
    then show ?thesis by (auto simp: v(2) split_first_def)
  next
    case False
    then have "x = 2" using ok by (simp add: oid_ok_def k)
    then show ?thesis by (simp add: v(2) split_first_def)
  qed
  let ?run = "\<lambda>m c d. case add_first_components m c d v of (False, c) \<Rightarrow> (False, c) | (True, c) \<Rightarrow> oid_text_tail m c d c1"
  have tx: "(decimal x @ 0x2e # decimal y) @ dotted (oid_text vs) @ [0] = oid_text comps @ [0]"
    by (simp add: k dotted_def)
  have "cbb_total_writer ?run (oid_text comps @ [0]) (length (oid_text comps @ [0]))"
    using total_writer_seq [OF add_first_components_total [of v] oid_text_tail_total [OF v(4,3) n(2)], of ?run]
    by (simp only: sf fst_conv snd_conv tx [symmetric] length_append)
  from build_one [OF this m(1), of 32] m(2) obtain cbb cbb1 where "CBB_init malloc 32 = (True, cbb)" "?run malloc cbb 0 = (True, cbb1)"
    "CBB_finish malloc cbb1 0 True True = (Some (oid_text comps @ [0]), CBB_zero)"
    by (auto simp: ac_simps)
  then show ?thesis
    by (auto simp: CBS_asn1_oid_to_text_def v(1) oid_text_tail_def split: prod.splits bool.splits)
qed

lemma oid_to_text_only:
  assumes c: "cbs_inv cbs" and t: "CBS_asn1_oid_to_text malloc cbs = Some t"
  shows "\<exists>comps. oid_ok comps \<and> cbs_bytes cbs = oid_der comps"
proof -
  from t obtain v c1 cbb0 cbb1 where v: "parse_base128_integer cbs = (Some v, c1)" and r: "oid_text_loop malloc cbb0 0 c1 = (True, cbb1)"
    by (auto simp: CBS_asn1_oid_to_text_def split: prod.splits option.splits bool.splits)
  obtain vs where vs: "cbs_bytes c1 = concat (map base128 vs)" "\<forall>v \<in> set vs. v < 2 ^ 64"
    using oid_text_loop_only [OF rd_base128.keeps_inv [OF c v], of malloc cbb0 0] r by auto
  have u: "unat v < 2 ^ 64" "cbs_bytes cbs = base128 (unat v) @ cbs_bytes c1"
    using rd_base128.run_Some [OF c v] by (auto simp: spec_base128_iff)
  obtain a b where ab: "split_first (unat v) = (a, b)" by fastforce
  then have "40 * a + b = unat v" "oid_ok (a # b # vs)" using u(1) vs(2)
    by (auto simp: split_first_def oid_ok_def split: if_splits)
  then have "oid_ok (a # b # vs) \<and> cbs_bytes cbs = oid_der (a # b # vs)" using u(2) vs(1) by (simp add: oid_der_Cons)
  then show ?thesis by blast
qed

section \<open>Properties\<close>

text \<open>
  C23: an object identifier survives the way from text to DER and back. For every component list the
  code supports (two or more components of 64 bits, the first at most 2 and, below 2, the second at
  most 39), \<open>CBB_add_asn1_oid_from_text\<close> accepts the dotted-decimal text and writes the DER contents
  octets, and \<open>CBS_asn1_oid_to_text\<close> turns those octets into the same text, null-terminated.
\<close>

theorem oid_text_roundtrip:
  assumes "oid_ok comps" "malloc_law malloc" "serves malloc (length (oid_der comps) + length (oid_text comps) + c + 49)"
    and "length (oid_text comps) \<le> PTRDIFF_MAX" "length (oid_der comps) \<le> PTRDIFF_MAX"
  shows "\<exists>cbb cbb1. CBB_init malloc c = (True, cbb) \<and> CBB_add_asn1_oid_from_text malloc cbb 0 (oid_text comps) = (True, cbb1) \<and>
    CBB_finish malloc cbb1 0 True True = (Some (oid_der comps), CBB_zero) \<and>
    CBS_asn1_oid_to_text malloc (CBS_init (oid_der comps)) = Some (oid_text comps @ [0])"
proof -
  have "serves malloc (length (oid_der comps) + c + 16)" "serves malloc (length (oid_text comps) + 49)"
    using assms(3) by (auto elim!: serves_mono)
  moreover have "CBS_asn1_oid_to_text malloc (CBS_init (oid_der comps)) = Some (oid_text comps @ [0])"
    using calculation(2) assms by (intro oid_to_text_ok) (auto intro: cbs_init_inv)
  ultimately show ?thesis
    using build_one [OF oid_from_text_total [OF assms(1,4)] assms(2), of c] by metis
qed

theorem oid_text_roundtrip_witness:
  "\<exists>cbb cbb1. CBB_init (bounded_malloc 1000) 0 = (True, cbb) \<and>
    CBB_add_asn1_oid_from_text (bounded_malloc 1000) cbb 0 (oid_text [1, 2, 840]) = (True, cbb1) \<and>
    CBB_finish (bounded_malloc 1000) cbb1 0 True True = (Some (oid_der [1, 2, 840]), CBB_zero) \<and>
    CBS_asn1_oid_to_text (bounded_malloc 1000) (CBS_init (oid_der [1, 2, 840])) = Some (oid_text [1, 2, 840] @ [0])"
proof (rule oid_text_roundtrip)
  have "length (oid_text [1, 2, 840]) \<le> 10" "length (oid_der [1, 2, 840]) \<le> 10"
    by (simp_all add: decimal.simps dotted_def oid_der_Cons base128_def base128_hi.simps)
  then show "serves (bounded_malloc 1000) (length (oid_der [1, 2, 840]) + length (oid_text [1, 2, 840]) + 0 + 49)"
    "length (oid_text [1, 2, 840]) \<le> PTRDIFF_MAX" "length (oid_der [1, 2, 840]) \<le> PTRDIFF_MAX"
    by (auto simp: bounded_serves SIZE_MOD_def PTRDIFF_MAX_def)
qed (simp_all add: oid_ok_def bounded_malloc_law)

text \<open>
  C24: nothing else is accepted in either direction: when \<open>CBB_add_asn1_oid_from_text\<close> returns success
  its input is the canonical text of a supported identifier (no empty component, leading zero, stray
  or final dot, or overflow), and when \<open>CBS_asn1_oid_to_text\<close> returns a string its input is the DER
  contents of a supported identifier.
\<close>

theorem oid_text_accepts_only:
  assumes "length text \<le> PTRDIFF_MAX" "cbs_inv cbs"
  shows "(fst (CBB_add_asn1_oid_from_text malloc cbb d text) \<longrightarrow> (\<exists>comps. oid_ok comps \<and> text = oid_text comps)) \<and>
    (CBS_asn1_oid_to_text malloc cbs \<noteq> None \<longrightarrow> (\<exists>comps. oid_ok comps \<and> cbs_bytes cbs = oid_der comps))"
  using oid_from_text_only [OF assms(1)] oid_to_text_only [OF assms(2)] by blast

theorem oid_text_accepts_only_witness:
  "\<exists>cbb. fst (CBB_add_asn1_oid_from_text (bounded_malloc 1000) cbb 0 (oid_text [1, 2, 840])) \<and>
     (\<exists>comps. oid_ok comps \<and> oid_text [1, 2, 840] = oid_text comps) \<and>
     CBS_asn1_oid_to_text (bounded_malloc 1000) (CBS_init (oid_der [1, 2, 840])) \<noteq> None \<and>
     (\<exists>comps. oid_ok comps \<and> cbs_bytes (CBS_init (oid_der [1, 2, 840])) = oid_der comps)"
proof -
  let ?m = "bounded_malloc 1000" and ?o = "[1, 2, 840]"
  have ok: "oid_ok ?o" by (simp add: oid_ok_def)
  have "length (oid_text ?o) \<le> 10" "length (oid_der ?o) \<le> 10"
    by (simp_all add: decimal.simps dotted_def oid_der_Cons base128_def base128_hi.simps)
  then have l: "length (oid_text ?o) \<le> PTRDIFF_MAX" "length (oid_der ?o) \<le> PTRDIFF_MAX"
    "serves ?m (length (oid_text ?o) + 49)" "serves ?m (length (oid_der ?o) + 0 + 16)"
    by (auto simp: PTRDIFF_MAX_def bounded_serves SIZE_MOD_def)
  have inv: "cbs_inv (CBS_init (oid_der ?o))" using l(2) by (rule cbs_init_inv)
  obtain cbb cbb1 where "CBB_add_asn1_oid_from_text ?m cbb 0 (oid_text ?o) = (True, cbb1)"
    using build_one [OF oid_from_text_total [OF ok l(1)] bounded_malloc_law l(4)] by metis
  moreover have "CBS_asn1_oid_to_text ?m (CBS_init (oid_der ?o)) = Some (oid_text ?o @ [0])"
    using ok inv l(3) by (intro oid_to_text_ok) (simp_all add: bounded_malloc_law)
  ultimately show ?thesis
    using oid_text_accepts_only [OF l(1) inv, of ?m cbb 0] by (metis fst_conv option.distinct(1))
qed

end
