(* ===== verification/Const_Time.thy ===== *)
theory Const_Time
  imports Prelude
begin

text \<open>
  The branch-free helpers of \<open>crypto/internal.h\<close> on \<open>crypto_word_t\<close> (64 bits): comparisons that
  return an all-ones or all-zeros mask, and selection by a mask. Each is shown equal to the
  conditional it stands for; the base64 code is verified on top of those equations, which are
  collected in \<open>ct_simps\<close>.
\<close>

type_synonym crypto_word = u64

text \<open>A C \<open>int\<close> is a 32-bit word read as signed; its cast to \<open>crypto_word_t\<close> extends the sign.\<close>

type_synonym c_int = "32 word"

named_theorems ct_simps \<open>constant-time helpers as conditionals\<close>

section \<open>The helpers\<close>

definition value_barrier_w :: "crypto_word \<Rightarrow> crypto_word" where
  "value_barrier_w a = a"

definition value_barrier_u32 :: "u32 \<Rightarrow> u32" where
  "value_barrier_u32 a = a"

definition value_barrier_u64 :: "u64 \<Rightarrow> u64" where
  "value_barrier_u64 a = a"

definition constant_time_msb_w :: "crypto_word \<Rightarrow> crypto_word" where
  "constant_time_msb_w a = 0 - drop_bit (8 * 8 - 1) a"

definition constant_time_lt_w :: "crypto_word \<Rightarrow> crypto_word \<Rightarrow> crypto_word" where
  "constant_time_lt_w a b = constant_time_msb_w (a XOR ((a XOR b) OR ((a - b) XOR a)))"

definition constant_time_lt_8 :: "crypto_word \<Rightarrow> crypto_word \<Rightarrow> byte" where
  "constant_time_lt_8 a b = ucast (constant_time_lt_w a b)"

definition constant_time_ge_w :: "crypto_word \<Rightarrow> crypto_word \<Rightarrow> crypto_word" where
  "constant_time_ge_w a b = NOT (constant_time_lt_w a b)"

definition constant_time_ge_8 :: "crypto_word \<Rightarrow> crypto_word \<Rightarrow> byte" where
  "constant_time_ge_8 a b = ucast (constant_time_ge_w a b)"

definition constant_time_is_zero_w :: "crypto_word \<Rightarrow> crypto_word" where
  "constant_time_is_zero_w a = constant_time_msb_w (NOT a AND (a - 1))"

definition constant_time_is_zero_8 :: "crypto_word \<Rightarrow> byte" where
  "constant_time_is_zero_8 a = ucast (constant_time_is_zero_w a)"

definition constant_time_eq_w :: "crypto_word \<Rightarrow> crypto_word \<Rightarrow> crypto_word" where
  "constant_time_eq_w a b = constant_time_is_zero_w (a XOR b)"

definition constant_time_eq_8 :: "crypto_word \<Rightarrow> crypto_word \<Rightarrow> byte" where
  "constant_time_eq_8 a b = ucast (constant_time_eq_w a b)"

definition constant_time_eq_int :: "c_int \<Rightarrow> c_int \<Rightarrow> crypto_word" where
  "constant_time_eq_int a b = constant_time_eq_w (scast a) (scast b)"

definition constant_time_eq_int_8 :: "c_int \<Rightarrow> c_int \<Rightarrow> byte" where
  "constant_time_eq_int_8 a b = constant_time_eq_8 (scast a) (scast b)"

definition constant_time_select_w :: "crypto_word \<Rightarrow> crypto_word \<Rightarrow> crypto_word \<Rightarrow> crypto_word" where
  "constant_time_select_w m a b = (value_barrier_w m AND a) OR (value_barrier_w (NOT m) AND b)"

text \<open>The 8-bit mask is widened with zeros before the selection and the result narrowed again.\<close>

definition constant_time_select_8 :: "byte \<Rightarrow> byte \<Rightarrow> byte \<Rightarrow> byte" where
  "constant_time_select_8 m a b = ucast (constant_time_select_w (ucast m) (ucast a) (ucast b))"

definition constant_time_select_int :: "crypto_word \<Rightarrow> c_int \<Rightarrow> c_int \<Rightarrow> c_int" where
  "constant_time_select_int m a b = ucast (constant_time_select_w m (scast a) (scast b))"

section \<open>The helpers as conditionals\<close>

definition mask_of :: "bool \<Rightarrow> 'a::len word" where
  "mask_of c = (if c then - 1 else 0)"

lemma ucast_mask_of: "(ucast (mask_of c :: crypto_word) :: byte) = mask_of c"
  by (rule bit_word_eqI) (auto simp: mask_of_def bit_simps)

lemma not_mask_of: "NOT (mask_of c :: 'a::len word) = mask_of (\<not> c)"
  by (simp add: mask_of_def)

lemma top_bit_iff: "bit (a :: crypto_word) 63 \<longleftrightarrow> 2 ^ 63 \<le> unat a"
proof -
  have "bit a 63 \<longleftrightarrow> bit (unat a) 63"
    by (simp add: bit_unsigned_iff)
  then have "bit a 63 \<longleftrightarrow> odd (unat a div 2 ^ 63)"
    by (simp add: bit_iff_odd)
  moreover have "unat a div 2 ^ 63 < 2"
    using unsigned_less [of a, where ?'a = nat] by (simp add: less_mult_imp_div_less)
  ultimately show ?thesis
    by (cases "unat a div 2 ^ 63 = 0") (auto simp: div_eq_0_iff)
qed

lemma constant_time_msb_w_eq [ct_simps]: "constant_time_msb_w a = mask_of (bit a 63)"
proof -
  have "drop_bit 63 a = (if bit a 63 then 1 else 0)"
  proof (rule bit_word_eqI)
    fix n
    show "bit (drop_bit 63 a) n \<longleftrightarrow> bit (if bit a 63 then 1 else 0 :: crypto_word) n"
      by (cases n) (auto simp: bit_simps bit_1_iff dest: bit_imp_le_length)
  qed
  then show ?thesis by (simp add: constant_time_msb_w_def mask_of_def)
qed

lemma unat_minus: "unat (a - b :: crypto_word) = (if unat b \<le> unat a then unat a - unat b else unat a + 2 ^ 64 - unat b)"
  using unat_sub_if' [of a b] by simp

lemma constant_time_lt_w_eq [ct_simps]: "constant_time_lt_w a b = mask_of (a < b)"
proof -
  have a: "unat a < 2 ^ 64" and b: "unat b < 2 ^ 64" using unsigned_less [of a, where ?'a = nat] unsigned_less [of b, where ?'a = nat] by simp_all
  have "bit (a XOR ((a XOR b) OR ((a - b) XOR a))) 63 \<longleftrightarrow>
      (if bit a 63 = bit b 63 then bit (a - b) 63 else bit b 63)"
    by (auto simp: bit_simps)
  also have "\<dots> \<longleftrightarrow> a < b"
    using a b
    by (cases "unat b \<le> unat a"; cases "2 ^ 63 \<le> unat a"; cases "2 ^ 63 \<le> unat b")
       (simp_all add: top_bit_iff unat_minus word_less_nat_alt)
  finally show ?thesis by (simp add: constant_time_lt_w_def constant_time_msb_w_eq)
qed

lemma constant_time_is_zero_w_eq [ct_simps]: "constant_time_is_zero_w a = mask_of (a = 0)"
proof -
  have "unat a < 2 ^ 64" using unsigned_less [of a, where ?'a = nat] by simp
  moreover have "bit (NOT a AND (a - 1)) 63 \<longleftrightarrow> \<not> bit a 63 \<and> bit (a - 1) 63" by (simp add: bit_simps)
  ultimately have "bit (NOT a AND (a - 1)) 63 \<longleftrightarrow> a = 0"
    using unat_eq_zero [of a] by (cases "unat a = 0") (simp_all only: top_bit_iff unat_minus, auto)
  then show ?thesis by (simp add: constant_time_is_zero_w_def constant_time_msb_w_eq)
qed

lemma xor_zero_iff: "(a :: 'a::len word) XOR b = 0 \<longleftrightarrow> a = b"
  by (metis xor.right_neutral xor.assoc xor_self_eq xor.left_neutral)

lemma constant_time_eq_w_eq [ct_simps]: "constant_time_eq_w a b = mask_of (a = b)"
  by (simp add: constant_time_eq_w_def constant_time_is_zero_w_eq xor_zero_iff)

lemma constant_time_select_w_eq [ct_simps]: "constant_time_select_w (mask_of c) a b = (if c then a else b)"
  by (simp add: constant_time_select_w_def value_barrier_w_def mask_of_def)

lemma narrow_helpers [ct_simps]:
  "constant_time_lt_8 a b = mask_of (a < b)"
  "constant_time_ge_w a b = mask_of (b \<le> a)"
  "constant_time_ge_8 a b = mask_of (b \<le> a)"
  "constant_time_is_zero_8 a = mask_of (a = 0)"
  "constant_time_eq_8 a b = mask_of (a = b)"
  by (simp_all add: constant_time_lt_8_def constant_time_ge_w_def constant_time_ge_8_def
      constant_time_is_zero_8_def constant_time_eq_8_def ct_simps ucast_mask_of not_mask_of not_less)

lemma ucast_scast_int: "(ucast (scast i :: crypto_word) :: c_int) = i"
  by (rule bit_word_eqI) (auto simp: bit_simps)

lemma scast_int_eq_iff: "(scast i :: crypto_word) = scast j \<longleftrightarrow> i = (j :: c_int)"
  by (metis ucast_scast_int)

lemma int_helpers [ct_simps]:
  "constant_time_eq_int i j = mask_of (i = j)"
  "constant_time_eq_int_8 i j = mask_of (i = j)"
  "constant_time_select_int (mask_of c) i j = (if c then i else j)"
  by (simp_all add: constant_time_eq_int_def constant_time_eq_int_8_def constant_time_select_int_def ct_simps
      scast_int_eq_iff ucast_scast_int)

lemma constant_time_select_8_eq [ct_simps]: "constant_time_select_8 (mask_of c) x y = (if c then x else y)"
  by (cases c; rule bit_word_eqI)
     (auto simp: constant_time_select_8_def constant_time_select_w_def value_barrier_w_def mask_of_def bit_simps)

text \<open>
  C11: the branch-free comparisons and selections compute the conditionals they stand for: the
  unsigned comparisons return an all-ones mask exactly when the comparison holds and zero
  otherwise, at both widths, and selecting by such a mask returns the first or the second value.
\<close>

theorem constant_time_helpers_correct:
  "constant_time_lt_w a b = mask_of (a < b) \<and> constant_time_ge_w a b = mask_of (b \<le> a) \<and>
   constant_time_eq_w a b = mask_of (a = b) \<and> constant_time_is_zero_w a = mask_of (a = 0) \<and>
   constant_time_lt_8 a b = mask_of (a < b) \<and> constant_time_ge_8 a b = mask_of (b \<le> a) \<and>
   constant_time_eq_8 a b = mask_of (a = b) \<and> constant_time_is_zero_8 a = mask_of (a = 0) \<and>
   constant_time_eq_int i j = mask_of (i = j) \<and> constant_time_eq_int_8 i j = mask_of (i = j) \<and>
   constant_time_select_w (mask_of c) a b = (if c then a else b) \<and>
   constant_time_select_8 (mask_of c) x y = (if c then x else y) \<and>
   constant_time_select_int (mask_of c) i j = (if c then i else j)"
  by (simp add: ct_simps)

end
