(* ===== verification/Base64.thy ===== *)
theory Base64
  imports Const_Time Mem
begin

text \<open>
  The base64 encoder and decoder of \<open>crypto/base64/base64.c\<close>: the one-shot block functions and
  the streaming ones with their context. An output pointer is a caller's buffer and a position in
  it, and a write is a \<open>splice\<close> of that buffer, so what is not written is visible; inputs are the
  \<open>len\<close> bytes the code is given. The code is compared with \<open>base64_text\<close>, base64 as RFC 4648
  defines it, on numbers.
\<close>

section \<open>The code\<close>

subsection \<open>Context and constants\<close>

record EVP_ENCODE_CTX =
  data_used :: nat
  ctx_data :: "byte list"
  eof_seen :: bool
  error_encountered :: bool

text \<open>\<open>sizeof(ctx->data)\<close>\<close>

definition ctx_data_size :: nat where
  "ctx_data_size = 48"

definition zeroed_ctx :: EVP_ENCODE_CTX where
  "zeroed_ctx = \<lparr>data_used = 0, ctx_data = replicate ctx_data_size 0, eof_seen = False, error_encountered = False\<rparr>"

text \<open>\<open>sizeof(EVP_ENCODE_CTX)\<close>: four bytes, the data, two flags, padded to a multiple of four.\<close>

definition EVP_ENCODE_CTX_new :: "libc_malloc \<Rightarrow> EVP_ENCODE_CTX option" where
  "EVP_ENCODE_CTX_new malloc = (case OPENSSL_malloc malloc 56 of None \<Rightarrow> None | Some _ \<Rightarrow> Some zeroed_ctx)"

definition EVP_EncodeInit :: EVP_ENCODE_CTX where
  "EVP_EncodeInit = zeroed_ctx"

definition EVP_DecodeInit :: EVP_ENCODE_CTX where
  "EVP_DecodeInit = zeroed_ctx"

subsection \<open>Encoding\<close>

definition constant_time_lt_args_8 :: "byte \<Rightarrow> byte \<Rightarrow> byte" where
  "constant_time_lt_args_8 a b = ucast (constant_time_msb_w (ucast a - ucast b))"

definition constant_time_in_range_8 :: "byte \<Rightarrow> byte \<Rightarrow> byte \<Rightarrow> byte" where
  "constant_time_in_range_8 a lo hi = constant_time_lt_args_8 (a - lo) (hi - lo + 1)"

text \<open>
  The characters are '+' = 43, '/' = 47, '0' = 48, '9' = 57, '=' = 61, 'A' = 65, 'Z' = 90,
  'a' = 97, 'z' = 122.
\<close>

definition conv_bin2ascii :: "byte \<Rightarrow> byte" where
  "conv_bin2ascii a0 =
     (let a = a0 AND 0x3f;
          ret = constant_time_select_8 (constant_time_eq_8 (ucast a) 62) 43 47;
          ret = constant_time_select_8 (constant_time_lt_args_8 a 62) (a - 52 + 48) ret;
          ret = constant_time_select_8 (constant_time_lt_args_8 a 52) (a - 26 + 97) ret;
          ret = constant_time_select_8 (constant_time_lt_args_8 a 26) (a + 65) ret
      in ret)"

text \<open>
  \<open>None\<close> when the result does not fit \<open>size_t\<close>. Shifting left by two is multiplication by four
  modulo the word size.
\<close>

definition EVP_EncodedLength :: "nat \<Rightarrow> nat option" where
  "EVP_EncodedLength len =
     (if size_add len 2 < len then None
      else let len = size_add len 2 div 3
           in if size_mul len 4 div 4 \<noteq> len then None
              else let len = size_mul len 4
                   in if size_add len 1 < len then None else Some (size_add len 1))"

function EncodeBlock_loop :: "byte list \<Rightarrow> nat \<Rightarrow> byte list \<Rightarrow> nat \<Rightarrow> byte list \<times> nat" where
  "EncodeBlock_loop dst d src ret =
     (if src = [] then (splice dst d [0], ret)
      else if length src \<ge> 3 then
        (let l = push_bit 16 (ucast (src ! 0) :: u32) OR push_bit 8 (ucast (src ! 1)) OR ucast (src ! 2)
         in EncodeBlock_loop
              (splice dst d [conv_bin2ascii (ucast (drop_bit 18 l)), conv_bin2ascii (ucast (drop_bit 12 l)),
                             conv_bin2ascii (ucast (drop_bit 6 l)), conv_bin2ascii (ucast l)])
              (d + 4) (drop 3 src) (ret + 4))
      else
        (let l = push_bit 16 (ucast (src ! 0) :: u32);
             l = (if length src = 2 then l OR push_bit 8 (ucast (src ! 1)) else l)
         in (splice (splice dst d [conv_bin2ascii (ucast (drop_bit 18 l)), conv_bin2ascii (ucast (drop_bit 12 l)),
                            (if length src = 1 then 61 else conv_bin2ascii (ucast (drop_bit 6 l))), 61])
               (d + 4) [0],
             ret + 4)))"
  by pat_completeness auto

termination EncodeBlock_loop
  by (relation "measure (\<lambda>(dst, d, src, ret). length src)") auto

definition EVP_EncodeBlock :: "byte list \<Rightarrow> nat \<Rightarrow> byte list \<Rightarrow> byte list \<times> nat" where
  "EVP_EncodeBlock dst d src = EncodeBlock_loop dst d src 0"

text \<open>
  The whole blocks of \<open>EVP_EncodeUpdate\<close>. The result is the buffer, the output position, the
  rest of the input and the total, which is \<open>None\<close> when its sum wrapped.
\<close>

function EncodeUpdate_loop :: "byte list \<Rightarrow> nat \<Rightarrow> byte list \<Rightarrow> nat \<Rightarrow> byte list \<times> nat \<times> byte list \<times> nat option" where
  "EncodeUpdate_loop out p inp tot =
     (if length inp \<ge> ctx_data_size then
        (let (out, encoded) = EVP_EncodeBlock out p (take ctx_data_size inp);
             inp = drop ctx_data_size inp;
             p = p + encoded;
             out = splice out p [10];
             p = p + 1;
             out = splice out p [0]
         in if size_add (size_add tot encoded) 1 < tot then (out, p, inp, None)
            else EncodeUpdate_loop out p inp (size_add tot (size_add encoded 1)))
      else (out, p, inp, Some tot))"
  by pat_completeness auto

termination EncodeUpdate_loop
  by (relation "measure (\<lambda>(out, p, inp, tot). length inp)") (auto simp: ctx_data_size_def)

definition EVP_EncodeUpdate :: "EVP_ENCODE_CTX \<Rightarrow> byte list \<Rightarrow> nat \<Rightarrow> byte list \<Rightarrow> EVP_ENCODE_CTX \<times> byte list \<times> nat" where
  "EVP_EncodeUpdate ctx out p inp =
     (if length inp = 0 then (ctx, out, 0)
      else if ctx_data_size - data_used ctx > length inp then
        (ctx\<lparr>ctx_data := splice (ctx_data ctx) (data_used ctx) inp, data_used := data_used ctx + length inp\<rparr>, out, 0)
      else
        (let (ctx, out, p, inp, tot) =
               (if data_used ctx \<noteq> 0 then
                  (let todo = ctx_data_size - data_used ctx;
                       ctx = ctx\<lparr>ctx_data := splice (ctx_data ctx) (data_used ctx) (take todo inp)\<rparr>;
                       inp = drop todo inp;
                       (out, encoded) = EVP_EncodeBlock out p (take ctx_data_size (ctx_data ctx));
                       ctx = ctx\<lparr>data_used := 0\<rparr>;
                       p = p + encoded;
                       out = splice out p [10];
                       p = p + 1;
                       out = splice out p [0]
                   in (ctx, out, p, inp, size_add encoded 1))
                else (ctx, out, p, inp, 0));
             (out, p, inp, tot) = EncodeUpdate_loop out p inp tot
         in case tot of
              None \<Rightarrow> (ctx, out, 0)
            | Some tot \<Rightarrow>
                (let ctx = (if length inp \<noteq> 0 then ctx\<lparr>ctx_data := splice (ctx_data ctx) 0 inp\<rparr> else ctx);
                     ctx = ctx\<lparr>data_used := length inp\<rparr>;
                     tot = (if tot > INT_MAX then 0 else tot)
                 in (ctx, out, tot))))"

definition EVP_EncodeFinal :: "EVP_ENCODE_CTX \<Rightarrow> byte list \<Rightarrow> nat \<Rightarrow> EVP_ENCODE_CTX \<times> byte list \<times> nat" where
  "EVP_EncodeFinal ctx out p =
     (if data_used ctx = 0 then (ctx, out, 0)
      else
        (let (out, encoded) = EVP_EncodeBlock out p (take (data_used ctx) (ctx_data ctx));
             out = splice out (p + encoded) [10];
             encoded = encoded + 1;
             out = splice out (p + encoded) [0];
             ctx = ctx\<lparr>data_used := 0\<rparr>
         in (ctx, out, encoded)))"

subsection \<open>Decoding\<close>

definition EVP_DecodedLength :: "nat \<Rightarrow> nat option" where
  "EVP_DecodedLength len = (if len mod 4 \<noteq> 0 then None else Some (len div 4 * 3))"

definition base64_ascii_to_bin :: "byte \<Rightarrow> byte" where
  "base64_ascii_to_bin a =
     (let is_upper = constant_time_in_range_8 a 65 90;
          is_lower = constant_time_in_range_8 a 97 122;
          is_digit = constant_time_in_range_8 a 48 57;
          is_plus = constant_time_eq_8 (ucast a) 43;
          is_slash = constant_time_eq_8 (ucast a) 47;
          is_equals = constant_time_eq_8 (ucast a) 61;
          ret = 0 :: byte;
          ret = ret OR (is_upper AND (a - 65));
          ret = ret OR (is_lower AND (a - 97 + 26));
          ret = ret OR (is_digit AND (a - 48 + 52));
          ret = ret OR (is_plus AND 62);
          ret = ret OR (is_slash AND 63);
          is_valid = is_upper OR is_lower OR is_digit OR is_plus OR is_slash OR is_equals
      in ret OR NOT is_valid)"

text \<open>The bytes written to \<open>out\<close>, whose number is \<open>*out_num_bytes\<close>; \<open>None\<close> for failure.\<close>

definition base64_decode_quad :: "byte list \<Rightarrow> byte list option" where
  "base64_decode_quad inp =
     (let a = base64_ascii_to_bin (inp ! 0);
          b = base64_ascii_to_bin (inp ! 1);
          c = base64_ascii_to_bin (inp ! 2);
          d = base64_ascii_to_bin (inp ! 3)
      in if a = 0xff \<or> b = 0xff \<or> c = 0xff \<or> d = 0xff then None
         else
           (let v = push_bit 18 (ucast a :: u32) OR push_bit 12 (ucast b) OR push_bit 6 (ucast c) OR ucast d;
                padding_pattern = push_bit 3 (of_bool (inp ! 0 = 61) :: u32) OR push_bit 2 (of_bool (inp ! 1 = 61)) OR
                                  push_bit 1 (of_bool (inp ! 2 = 61)) OR of_bool (inp ! 3 = 61)
            in if padding_pattern = 0 then Some [ucast (drop_bit 16 v), ucast (drop_bit 8 v), ucast v]
               else if padding_pattern = 1 then Some [ucast (drop_bit 16 v), ucast (drop_bit 8 v)]
               else if padding_pattern = 3 then Some [ucast (drop_bit 16 v)]
               else None))"

definition is_base64_space :: "byte \<Rightarrow> bool" where
  "is_base64_space c \<longleftrightarrow> c = 32 \<or> c = 9 \<or> c = 13 \<or> c = 10"

text \<open>
  The loop of \<open>EVP_DecodeUpdate\<close>; \<open>out\<close> moves with \<open>bytes_out\<close>, so the position written is
  \<open>p + bytes_out\<close>. The count is \<open>None\<close> when the function returned an error.
\<close>

fun DecodeUpdate_loop :: "EVP_ENCODE_CTX \<Rightarrow> byte list \<Rightarrow> nat \<Rightarrow> nat \<Rightarrow> byte list \<Rightarrow> EVP_ENCODE_CTX \<times> byte list \<times> nat option" where
  "DecodeUpdate_loop ctx out p bytes_out [] = (ctx, out, Some bytes_out)"
| "DecodeUpdate_loop ctx out p bytes_out (c # inp) =
     (if is_base64_space c then DecodeUpdate_loop ctx out p bytes_out inp
      else if eof_seen ctx then (ctx\<lparr>error_encountered := True\<rparr>, out, None)
      else
        (let ctx = ctx\<lparr>ctx_data := (ctx_data ctx)[data_used ctx := c], data_used := data_used ctx + 1\<rparr>
         in if data_used ctx = 4 then
              (case base64_decode_quad (ctx_data ctx) of
                 None \<Rightarrow> (ctx\<lparr>error_encountered := True\<rparr>, out, None)
               | Some bs \<Rightarrow>
                   (let ctx = ctx\<lparr>data_used := 0\<rparr>;
                        out = splice out (p + bytes_out) bs;
                        bytes_out = bytes_out + length bs;
                        ctx = (if length bs < 3 then ctx\<lparr>eof_seen := True\<rparr> else ctx)
                    in DecodeUpdate_loop ctx out p bytes_out inp))
            else DecodeUpdate_loop ctx out p bytes_out inp))"

text \<open>The result is the return value and \<open>*out_len\<close>.\<close>

definition EVP_DecodeUpdate :: "EVP_ENCODE_CTX \<Rightarrow> byte list \<Rightarrow> nat \<Rightarrow> byte list \<Rightarrow> EVP_ENCODE_CTX \<times> byte list \<times> int \<times> nat" where
  "EVP_DecodeUpdate ctx out p inp =
     (if error_encountered ctx then (ctx, out, - 1, 0)
      else
        (let (ctx, out, res) = DecodeUpdate_loop ctx out p 0 inp
         in case res of
              None \<Rightarrow> (ctx, out, - 1, 0)
            | Some bytes_out \<Rightarrow>
                if bytes_out > INT_MAX then (ctx\<lparr>error_encountered := True\<rparr>, out, - 1, 0)
                else (ctx, out, if eof_seen ctx then 0 else 1, bytes_out)))"

definition EVP_DecodeFinal :: "EVP_ENCODE_CTX \<Rightarrow> int" where
  "EVP_DecodeFinal ctx = (if error_encountered ctx \<or> data_used ctx \<noteq> 0 then - 1 else 1)"

text \<open>The loop of \<open>EVP_DecodeBase64\<close>: \<open>inp\<close> is the input from \<open>&in[i]\<close> on.\<close>

function DecodeBase64_loop :: "byte list \<Rightarrow> nat \<Rightarrow> nat \<Rightarrow> byte list \<Rightarrow> byte list \<times> nat option" where
  "DecodeBase64_loop out p bytes_out inp =
     (if inp = [] then (out, Some bytes_out)
      else case base64_decode_quad inp of
             None \<Rightarrow> (out, None)
           | Some bs \<Rightarrow>
               (let out = splice out (p + bytes_out) bs;
                    bytes_out = bytes_out + length bs
                in if length bs \<noteq> 3 \<and> length inp \<noteq> 4 then (out, None)
                   else DecodeBase64_loop out p bytes_out (drop 4 inp)))"
  by pat_completeness auto

termination DecodeBase64_loop
  by (relation "measure (\<lambda>(out, p, bytes_out, inp). length inp)") auto

definition EVP_DecodeBase64 :: "byte list \<Rightarrow> nat \<Rightarrow> nat \<Rightarrow> byte list \<Rightarrow> byte list \<times> nat option" where
  "EVP_DecodeBase64 out p max_out inp =
     (if length inp mod 4 \<noteq> 0 then (out, None)
      else case EVP_DecodedLength (length inp) of
             None \<Rightarrow> (out, None)
           | Some max_len \<Rightarrow> if max_out < max_len then (out, None) else DecodeBase64_loop out p 0 inp)"

function DecodeBlock_pad :: "byte list \<Rightarrow> nat \<Rightarrow> nat \<Rightarrow> byte list \<times> nat" where
  "DecodeBlock_pad dst p dst_len =
     (if dst_len mod 3 \<noteq> 0 then DecodeBlock_pad (splice dst (p + dst_len) [0]) p (dst_len + 1) else (dst, dst_len))"
  by pat_completeness auto

termination DecodeBlock_pad
  by (relation "measure (\<lambda>(dst, p, n). (3 - n mod 3) mod 3)") (auto simp: mod_Suc)

definition EVP_DecodeBlock :: "byte list \<Rightarrow> nat \<Rightarrow> byte list \<Rightarrow> byte list \<times> int" where
  "EVP_DecodeBlock dst p src =
     (let src = dropWhile (\<lambda>c. c = 32 \<or> c = 9) src;
          src = rev (dropWhile is_base64_space (rev src))
      in case EVP_DecodedLength (length src) of
           None \<Rightarrow> (dst, - 1)
         | Some dst_len \<Rightarrow>
             if dst_len > INT_MAX then (dst, - 1)
             else case EVP_DecodeBase64 dst p dst_len src of
                    (dst, None) \<Rightarrow> (dst, - 1)
                  | (dst, Some dst_len) \<Rightarrow>
                      (let (dst, dst_len) = DecodeBlock_pad dst p dst_len in (dst, int dst_len)))"

declare EncodeBlock_loop.simps [simp del] EncodeUpdate_loop.simps [simp del]
  DecodeBase64_loop.simps [simp del] DecodeBlock_pad.simps [simp del]

section \<open>Characters\<close>

definition b64_alphabet :: "byte list" where
  "b64_alphabet = map of_nat ([65..<91] @ [97..<123] @ [48..<58] @ [43, 47])"

definition b64_digit :: "nat \<Rightarrow> byte" where
  "b64_digit v = b64_alphabet ! v"

lemma b64_digit_cases:
  "v < 64 \<Longrightarrow> b64_digit v = of_nat (if v < 26 then v + 65 else if v < 52 then v + 71 else if v < 62 then v - 4
     else if v = 62 then 43 else 47)"
  by (auto simp: b64_digit_def b64_alphabet_def nth_append nth_Cons' simp del: upt_Suc upt_rec_numeral)

lemma constant_time_lt_args_8_eq [ct_simps]: "constant_time_lt_args_8 a b = mask_of (a < b)"
proof -
  have "bit (ucast a - ucast b :: crypto_word) 63 \<longleftrightarrow> a < b"
    using unat_byte_less [of a] unat_byte_less [of b]
    by (cases "unat b \<le> unat a") (simp_all add: top_bit_iff unat_minus unat_ucast_byte word_less_nat_alt del: unat_byte_less)
  then show ?thesis by (simp add: constant_time_lt_args_8_def constant_time_msb_w_eq ucast_mask_of)
qed

lemma byte_minus_nat: "unat lo \<le> unat a \<Longrightarrow> unat (a - lo :: byte) = unat a - unat lo"
  by (simp add: unat_sub word_le_nat_alt)

lemma constant_time_in_range_8_eq [ct_simps]:
  assumes "unat lo \<le> unat hi" "unat hi - unat lo < 255"
  shows "constant_time_in_range_8 a lo hi = mask_of (lo \<le> a \<and> a \<le> hi)"
proof -
  have "hi - lo + 1 = of_nat (unat hi - unat lo + 1)"
    using assms(1) by (simp add: of_nat_diff)
  then have span: "unat (hi - lo + 1) = unat hi - unat lo + 1"
    using assms(2) by (simp only: byte_simps) simp
  have "a - lo < hi - lo + 1 \<longleftrightarrow> lo \<le> a \<and> a \<le> hi"
  proof (cases "unat lo \<le> unat a")
    case True
    then show ?thesis
      using assms(1) by (auto simp: word_less_nat_alt word_le_nat_alt span byte_minus_nat)
  next
    case False
    have "unat (a - lo) = unat a + 256 - unat lo"
      using False unat_sub_if' [of a lo] by simp
    then show ?thesis
      using False assms(1) unat_byte_less [of hi] by (auto simp: word_less_nat_alt word_le_nat_alt span simp del: unat_byte_less)
  qed
  then show ?thesis by (simp add: constant_time_in_range_8_def ct_simps)
qed

lemma byte_and_3f: "(a :: byte) AND 0x3f = of_nat (unat a mod 64)"
proof -
  have "a AND 0x3f = take_bit 6 a" by (simp add: take_bit_eq_mask mask_eq_exp_minus_1)
  moreover have "unat (take_bit 6 a) = unat a mod 64" by (simp add: take_bit_eq_mod unat_mod_distrib)
  ultimately show ?thesis by (simp add: word_unat_eq_iff byte_simps)
qed

lemma conv_bin2ascii_digit: "conv_bin2ascii a = b64_digit (unat a mod 64)"
proof -
  define v where "v = unat a mod 64"
  have v: "v < 64" by (simp add: v_def)
  have lt: "of_nat v < (of_nat k :: byte) \<longleftrightarrow> v < k" if "k < 256" for k
    using that v by (simp add: word_less_nat_alt byte_simps)
  have eq: "ucast (of_nat v :: byte) = (62 :: crypto_word) \<longleftrightarrow> v = 62"
    using v by (auto simp: word_unat_eq_iff unat_ucast_byte byte_simps)
  have dif: "of_nat v - of_nat k + of_nat l = (of_nat (v - k + l) :: byte)" if "k \<le> v" for k l
    using that by (simp add: of_nat_diff)
  show ?thesis
    unfolding conv_bin2ascii_def byte_and_3f v_def [symmetric]
    using v lt [of 26] lt [of 52] lt [of 62] dif [of 52 48] dif [of 26 97]
    by (auto simp: b64_digit_cases ct_simps Let_def eq)
qed

lemma ascii_to_bin_digit:
  assumes "v < 64"
  shows "base64_ascii_to_bin (b64_digit v) = of_nat v"
proof -
  have le: "(of_nat j :: byte) \<le> of_nat k \<longleftrightarrow> j \<le> k" if "j < 256" "k < 256" for j k
    using that by (simp add: word_le_nat_alt byte_simps)
  have eq: "ucast (of_nat j :: byte) = (of_nat k :: crypto_word) \<longleftrightarrow> j = k" if "j < 256" "k < 256" for j k
    using that by (simp add: word_unat_eq_iff unat_ucast_byte byte_simps unat_of_nat)
  consider "v < 26" | "26 \<le> v" "v < 52" | "52 \<le> v" "v < 62" | "v = 62" | "v = 63" using assms by linarith
  then show ?thesis
  proof cases
    case 1
    then show ?thesis
      using le [of 65 "v + 65"] le [of "v + 65" 90] le [of 97 "v + 65"] le [of "v + 65" 57]
        eq [of "v + 65" 43] eq [of "v + 65" 47] eq [of "v + 65" 61]
      by (simp add: b64_digit_cases base64_ascii_to_bin_def ct_simps mask_of_def Let_def)
  next
    case 2
    then show ?thesis
      using le [of 97 "v + 71"] le [of "v + 71" 122] le [of "v + 71" 90] le [of "v + 71" 57]
        eq [of "v + 71" 43] eq [of "v + 71" 47] eq [of "v + 71" 61]
      by (simp add: b64_digit_cases base64_ascii_to_bin_def ct_simps mask_of_def Let_def)
  next
    case 3
    define w where "w = v - 4"
    then have w: "v = w + 4" "48 \<le> w" "w < 58" using 3 by linarith+
    then show ?thesis
      using le [of 48 w] le [of w 57] le [of 65 w] le [of 97 w] eq [of w 43] eq [of w 47] eq [of w 61]
      by (simp add: b64_digit_cases base64_ascii_to_bin_def ct_simps mask_of_def Let_def)
  qed (simp_all add: b64_digit_cases base64_ascii_to_bin_def ct_simps mask_of_def Let_def)
qed

lemma ascii_to_bin_equals: "base64_ascii_to_bin 61 = 0"
  by (simp add: base64_ascii_to_bin_def ct_simps mask_of_def)

lemma b64_digit_not_special:
  assumes "v < 64"
  shows "b64_digit v \<noteq> 61" and "\<not> is_base64_space (b64_digit v)" and "(of_nat v :: byte) \<noteq> 0xff"
proof -
  have "(of_nat j :: byte) \<noteq> of_nat k" if "j < 256" "k < 256" "j \<noteq> k" for j k
    using that by (simp add: word_unat_eq_iff byte_simps)
  note ne = this
  let ?j = "if v < 26 then v + 65 else if v < 52 then v + 71 else if v < 62 then v - 4 else if v = 62 then 43 else 47"
  have j: "?j < 256" "?j > 32" "?j \<noteq> 61" using assms by (auto split: if_splits)
  show "b64_digit v \<noteq> 61" "\<not> is_base64_space (b64_digit v)"
    using ne [OF j(1), of 61] ne [OF j(1), of 32] ne [OF j(1), of 9] ne [OF j(1), of 13] ne [OF j(1), of 10] j(2,3)
    unfolding b64_digit_cases [OF assms] is_base64_space_def by (simp_all del: of_nat_add split del: if_split)
  show "(of_nat v :: byte) \<noteq> 0xff" using ne [of v 255] assms by simp
qed

section \<open>Encoding is base64\<close>

text \<open>The four digits of a 24-bit number.\<close>

definition b64_quad :: "nat \<Rightarrow> byte list" where
  "b64_quad n = map b64_digit [n div 2 ^ 18 mod 64, n div 2 ^ 12 mod 64, n div 2 ^ 6 mod 64, n mod 64]"

fun base64_text :: "byte list \<Rightarrow> byte list" where
  "base64_text [] = []"
| "base64_text [a] = take 2 (b64_quad (be_value [a, 0, 0])) @ [61, 61]"
| "base64_text [a, b] = take 3 (b64_quad (be_value [a, b, 0])) @ [61]"
| "base64_text (a # b # c # bs) = b64_quad (be_value [a, b, c]) @ base64_text bs"

lemma length_b64_quad [simp]: "length (b64_quad n) = 4"
  by (simp add: b64_quad_def)

lemma length_base64_text: "length (base64_text bs) = 4 * ((length bs + 2) div 3)"
proof (induction bs rule: base64_text.induct)
  case (4 a b c bs)
  have "(length (a # b # c # bs) + 2) div 3 = (length bs + 2) div 3 + 1" by simp
  with 4 show ?case by (simp del: list.size)
qed simp_all

lemma splice_splice_4:
  "i \<le> length xs \<Longrightarrow> splice (splice xs i [a, b, c, d]) (i + 4) zs = splice xs i (a # b # c # d # zs)"
  using splice_splice [of i xs "[a, b, c, d]" zs] by (simp add: numeral_eq_Suc)

lemma splice_splice_over:
  "i \<le> length xs \<Longrightarrow> splice (splice xs i (ys @ [a])) (i + length ys) (b # zs) = splice xs i (ys @ b # zs)"
  by (simp add: splice_def add.commute add.left_commute)

lemma be_value_3_less: "be_value [a, b, c] < 2 ^ 24"
  using be_value_less [of "[a, b, c]"] by simp

lemma shift_or_3:
  "push_bit 16 (ucast a :: u32) OR push_bit 8 (ucast b) OR ucast c = of_nat (be_value [a, b, c])"
  using fold_shift_or_0 [of "[a, b, c]", where 'a = 32] by (simp add: shift_or_def push_bit_or or.assoc)

lemma conv_shift:
  assumes "n < 2 ^ 24"
  shows "conv_bin2ascii (ucast (drop_bit k (of_nat n :: u32))) = b64_digit (n div 2 ^ k mod 64)"
proof -
  have "unat (drop_bit k (of_nat n :: u32)) = n div 2 ^ k"
    using assms by (simp add: unat_drop_bit_eq unat_of_nat drop_bit_eq_div [where 'a = nat])
  then have "unat (ucast (drop_bit k (of_nat n :: u32)) :: byte) mod 64 = n div 2 ^ k mod 64"
    by (simp add: unsigned_ucast_eq take_bit_eq_mod mod_mod_cancel)
  then show ?thesis by (simp add: conv_bin2ascii_digit)
qed

lemma conv_shift_all:
  assumes "n < 2 ^ 24"
  shows "[conv_bin2ascii (ucast (drop_bit 18 (of_nat n :: u32))), conv_bin2ascii (ucast (drop_bit 12 (of_nat n :: u32))),
          conv_bin2ascii (ucast (drop_bit 6 (of_nat n :: u32))), conv_bin2ascii (ucast (of_nat n :: u32))] = b64_quad n"
  using conv_shift [OF assms, of 18] conv_shift [OF assms, of 12] conv_shift [OF assms, of 6] conv_shift [OF assms, of 0]
  by (simp add: b64_quad_def)

lemma EncodeBlock_loop_text:
  "d \<le> length dst \<Longrightarrow> EncodeBlock_loop dst d src ret = (splice dst d (base64_text src @ [0]), ret + length (base64_text src))"
proof (induction src arbitrary: dst d ret rule: base64_text.induct)
  case 1
  then show ?case by (simp add: EncodeBlock_loop.simps)
next
  case (2 a)
  have "push_bit 16 (ucast a :: u32) = of_nat (be_value [a, 0, 0])" using shift_or_3 [of a 0 0] by simp
  with 2 conv_shift_all [OF be_value_3_less [of a 0 0]] show ?case
    by (simp add: EncodeBlock_loop.simps Let_def splice_splice_4 b64_quad_def)
next
  case (3 a b)
  have "push_bit 16 (ucast a :: u32) OR push_bit 8 (ucast b) = of_nat (be_value [a, b, 0])" using shift_or_3 [of a b 0] by simp
  with 3 conv_shift_all [OF be_value_3_less [of a b 0]] show ?case
    by (simp add: EncodeBlock_loop.simps Let_def splice_splice_4 b64_quad_def del: drop_bit_or)
next
  case (4 a b c bs)
  let ?q = "b64_quad (be_value [a, b, c])"
  have "EncodeBlock_loop dst d (a # b # c # bs) ret = EncodeBlock_loop (splice dst d ?q) (d + 4) bs (ret + 4)"
    using conv_shift_all [OF be_value_3_less [of a b c]]
    by (subst EncodeBlock_loop.simps) (simp add: Let_def shift_or_3)
  moreover have "d + 4 \<le> length (splice dst d ?q)" using 4 by (simp add: splice_def)
  ultimately show ?case using 4 splice_splice [of d dst ?q "base64_text bs @ [0]"] by simp
qed

lemma EVP_EncodeBlock_text:
  "d \<le> length dst \<Longrightarrow> EVP_EncodeBlock dst d src = (splice dst d (base64_text src @ [0]), length (base64_text src))"
  by (simp add: EVP_EncodeBlock_def EncodeBlock_loop_text)

section \<open>The streaming encoder\<close>

text \<open>Lines of 64 characters for the whole 48-byte blocks, and the bytes left over.\<close>

function base64_lines :: "byte list \<Rightarrow> byte list" where
  "base64_lines bs = (if ctx_data_size \<le> length bs
     then base64_text (take ctx_data_size bs) @ 10 # base64_lines (drop ctx_data_size bs) else [])"
  by pat_completeness auto

termination base64_lines
  by (relation "measure length") (auto simp: ctx_data_size_def)

declare base64_lines.simps [simp del]

function leftover :: "byte list \<Rightarrow> byte list" where
  "leftover bs = (if ctx_data_size \<le> length bs then leftover (drop ctx_data_size bs) else bs)"
  by pat_completeness auto

termination leftover
  by (relation "measure length") (auto simp: ctx_data_size_def)

declare leftover.simps [simp del]

definition base64_body :: "byte list \<Rightarrow> byte list" where
  "base64_body bs = base64_lines bs @ (if leftover bs = [] then [] else base64_text (leftover bs) @ [10])"

lemma base64_lines_short [simp]: "length bs < ctx_data_size \<Longrightarrow> base64_lines bs = []" "length bs < ctx_data_size \<Longrightarrow> leftover bs = bs"
  by (simp_all add: base64_lines.simps leftover.simps)

lemma base64_lines_long:
  assumes "length xs = ctx_data_size"
  shows "base64_lines (xs @ ys) = base64_text xs @ 10 # base64_lines ys" "leftover (xs @ ys) = leftover ys"
  using assms by (subst base64_lines.simps leftover.simps, simp)+

lemma length_leftover: "length (leftover bs) < ctx_data_size"
  by (induction bs rule: leftover.induct) (subst leftover.simps, simp)

lemma base64_lines_append:
  "base64_lines (xs @ ys) = base64_lines xs @ base64_lines (leftover xs @ ys) \<and>
   leftover (xs @ ys) = leftover (leftover xs @ ys)"
proof (induction xs rule: leftover.induct)
  case (1 xs)
  show ?case
  proof (cases "ctx_data_size \<le> length xs")
    case True
    then have "length (take ctx_data_size xs) = ctx_data_size" by simp
    note l = base64_lines_long [OF this]
    have "base64_lines (xs @ ys) = base64_text (take ctx_data_size xs) @ 10 # base64_lines (drop ctx_data_size xs @ ys)"
      "leftover (xs @ ys) = leftover (drop ctx_data_size xs @ ys)"
      using l [of "drop ctx_data_size xs @ ys"] by (simp_all flip: append_assoc)
    with 1 True l [of "drop ctx_data_size xs"] show ?thesis by simp
  next
    case False
    then show ?thesis by simp
  qed
qed

text \<open>Writing non-empty text followed by a zero byte, which the next text overwrites.\<close>

definition put_text :: "byte list \<Rightarrow> nat \<Rightarrow> byte list \<Rightarrow> byte list" where
  "put_text out p t = (if t = [] then out else splice out p (t @ [0]))"

lemma put_text_put_text:
  "p \<le> length out \<Longrightarrow> put_text (put_text out p s) (p + length s) t = put_text out p (s @ t)"
  by (cases t) (simp_all add: put_text_def splice_splice_over)

lemma length_put_text: "p \<le> length out \<Longrightarrow> p + length t \<le> length (put_text out p t)"
  by (auto simp: put_text_def splice_def)

lemma put_line:
  assumes "p \<le> length out"
  shows "splice (splice (splice out p (t @ [0])) (p + length t) [10]) (Suc (p + length t)) [0] = put_text out p (t @ [10])"
  using assms splice_splice [of p out "t @ [10]" "[0]"] by (simp add: splice_splice_over put_text_def)

lemma EncodeUpdate_loop_lines:
  assumes "p \<le> length out" "tot + length (base64_lines inp) < SIZE_MOD"
  shows "EncodeUpdate_loop out p inp tot =
    (put_text out p (base64_lines inp), p + length (base64_lines inp), leftover inp, Some (tot + length (base64_lines inp)))"
  using assms
proof (induction inp arbitrary: out p tot rule: base64_lines.induct)
  case (1 inp)
  show ?case
  proof (cases "ctx_data_size \<le> length inp")
    case True
    let ?t = "base64_text (take ctx_data_size inp)" and ?r = "drop ctx_data_size inp"
    have l: "base64_lines inp = (?t @ [10]) @ base64_lines ?r" "leftover inp = leftover ?r"
      using base64_lines_long [of "take ctx_data_size inp" ?r] True by simp_all
    let ?n = "length ?t"
    have sz: "size_add (size_add tot ?n) 1 = tot + ?n + 1" "size_add tot (size_add ?n 1) = tot + ?n + 1"
      using "1.prems"(2) unfolding l by (simp_all add: size_add_def)
    have step: "EncodeUpdate_loop out p inp tot = EncodeUpdate_loop (put_text out p (?t @ [10])) (p + length (?t @ [10])) ?r (tot + ?n + 1)"
      using True "1.prems"(1) sz put_line [of p out ?t]
      by (subst EncodeUpdate_loop.simps) (simp add: EVP_EncodeBlock_text Let_def)
    show ?thesis
      unfolding step
      by (subst "1.IH" [OF True])
         (use "1.prems" length_put_text [of p out "?t @ [10]"] put_text_put_text [of p out "?t @ [10]" "base64_lines ?r"]
          in \<open>simp_all add: l\<close>)
  next
    case False
    then show ?thesis by (subst EncodeUpdate_loop.simps) (simp add: put_text_def)
  qed
qed

definition enc_inv :: "EVP_ENCODE_CTX \<Rightarrow> bool" where
  "enc_inv ctx \<longleftrightarrow> length (ctx_data ctx) = ctx_data_size \<and> data_used ctx < ctx_data_size"

definition pending :: "EVP_ENCODE_CTX \<Rightarrow> byte list" where
  "pending ctx = take (data_used ctx) (ctx_data ctx)"

lemma enc_inv_init [simp]: "enc_inv EVP_EncodeInit" "pending EVP_EncodeInit = []"
  by (simp_all add: enc_inv_def pending_def EVP_EncodeInit_def zeroed_ctx_def ctx_data_size_def)

text \<open>
  A call that reaches a block boundary first fills the pending block with \<open>fill_size\<close> bytes, which
  gives \<open>first_line\<close>, and goes on with the rest of its input.
\<close>

definition fill_size :: "EVP_ENCODE_CTX \<Rightarrow> nat" where
  "fill_size ctx = (if data_used ctx = 0 then 0 else ctx_data_size - data_used ctx)"

definition first_line :: "EVP_ENCODE_CTX \<Rightarrow> byte list \<Rightarrow> byte list" where
  "first_line ctx inp = (if data_used ctx = 0 then [] else base64_text (pending ctx @ take (fill_size ctx) inp) @ [10])"

definition filled_data :: "EVP_ENCODE_CTX \<Rightarrow> byte list \<Rightarrow> byte list" where
  "filled_data ctx inp =
     (if data_used ctx = 0 then ctx_data ctx else splice (ctx_data ctx) (data_used ctx) (take (fill_size ctx) inp))"

lemma pending_update: "pending (ctx\<lparr>ctx_data := d, data_used := n\<rparr>) = take n d"
  by (simp add: pending_def)

lemma length_pending: "enc_inv ctx \<Longrightarrow> length (pending ctx) = data_used ctx"
  by (simp add: enc_inv_def pending_def)

lemma first_line_split:
  assumes "enc_inv ctx" "ctx_data_size - data_used ctx \<le> length inp"
  shows "base64_lines (pending ctx @ inp) = first_line ctx inp @ base64_lines (drop (fill_size ctx) inp)"
    and "leftover (pending ctx @ inp) = leftover (drop (fill_size ctx) inp)"
proof -
  have "length (pending ctx @ take (fill_size ctx) inp) = ctx_data_size" if "data_used ctx \<noteq> 0"
    using that assms by (simp add: length_pending fill_size_def enc_inv_def)
  note l = base64_lines_long [OF this, of "drop (fill_size ctx) inp"]
  show "base64_lines (pending ctx @ inp) = first_line ctx inp @ base64_lines (drop (fill_size ctx) inp)"
    "leftover (pending ctx @ inp) = leftover (drop (fill_size ctx) inp)"
    using l by (cases "data_used ctx = 0"; simp add: first_line_def fill_size_def pending_def)+
qed

lemma filled_data_facts:
  assumes "enc_inv ctx" "ctx_data_size - data_used ctx \<le> length inp"
  shows "length (filled_data ctx inp) = ctx_data_size"
    and "data_used ctx \<noteq> 0 \<Longrightarrow> take ctx_data_size (filled_data ctx inp) = pending ctx @ take (fill_size ctx) inp"
  using assms take_splice_end [of "data_used ctx" "ctx_data ctx" "take (fill_size ctx) inp"]
  by (simp_all add: filled_data_def fill_size_def pending_def enc_inv_def)

lemma EVP_EncodeUpdate_full:
  assumes "enc_inv ctx" "p \<le> length out" "length (base64_lines (pending ctx @ inp)) \<le> INT_MAX"
    and "inp \<noteq> []" "ctx_data_size - data_used ctx \<le> length inp"
  shows "EVP_EncodeUpdate ctx out p inp =
    (let rest = leftover (pending ctx @ inp);
         c = ctx\<lparr>ctx_data := filled_data ctx inp, data_used := 0\<rparr>;
         c = (if rest \<noteq> [] then c\<lparr>ctx_data := splice (ctx_data c) 0 rest\<rparr> else c)
     in (c\<lparr>data_used := length rest\<rparr>, put_text out p (base64_lines (pending ctx @ inp)),
         length (base64_lines (pending ctx @ inp))))"
proof -
  let ?first = "first_line ctx inp" and ?r = "drop (fill_size ctx) inp"
  note split = first_line_split [OF assms(1,5)]
  have bound: "length ?first + length (base64_lines ?r) < SIZE_MOD"
    using assms(3) split(1) by (simp add: INT_MAX_def SIZE_MOD_def)
  have loop: "EncodeUpdate_loop (put_text out p ?first) (p + length ?first) ?r (length ?first) =
      (put_text out p (?first @ base64_lines ?r), p + length ?first + length (base64_lines ?r), leftover ?r,
       Some (length ?first + length (base64_lines ?r)))"
    using EncodeUpdate_loop_lines [of "p + length ?first" "put_text out p ?first" "length ?first" ?r] bound assms(2)
    by (simp add: length_put_text put_text_put_text)
  show ?thesis
  proof (cases "data_used ctx = 0")
    case True
    then show ?thesis
      using assms(3-5) loop split
      by (simp add: EVP_EncodeUpdate_def fill_size_def first_line_def filled_data_def put_text_def Let_def pending_def)
  next
    case False
    have "size_add (length (base64_text (pending ctx @ take (fill_size ctx) inp))) 1 = length ?first"
      using bound False by (simp add: first_line_def size_add_def)
    then show ?thesis
      using assms(2-5) loop split filled_data_facts(2) [OF assms(1,5)] False
        put_line [of p out "base64_text (pending ctx @ take (fill_size ctx) inp)"]
      by (simp add: EVP_EncodeUpdate_def fill_size_def first_line_def filled_data_def Let_def EVP_EncodeBlock_text)
  qed
qed

text \<open>One call writes the lines that are complete and keeps the rest in the context.\<close>

lemma EVP_EncodeUpdate_lines:
  assumes "enc_inv ctx" "p \<le> length out" "length (base64_lines (pending ctx @ inp)) \<le> INT_MAX"
    and "EVP_EncodeUpdate ctx out p inp = (ctx', out', n)"
  shows "enc_inv ctx' \<and> pending ctx' = leftover (pending ctx @ inp) \<and> n = length (base64_lines (pending ctx @ inp)) \<and>
    out' = put_text out p (base64_lines (pending ctx @ inp))"
proof -
  note inv = assms(1) [unfolded enc_inv_def]
  consider (empty) "inp = []" | (short) "inp \<noteq> []" "ctx_data_size - data_used ctx > length inp"
    | (full) "inp \<noteq> []" "ctx_data_size - data_used ctx \<le> length inp" by fastforce
  then show ?thesis
  proof cases
    case empty
    with assms length_pending [OF assms(1)] inv show ?thesis by (simp add: EVP_EncodeUpdate_def put_text_def)
  next
    case short
    with length_pending [OF assms(1)] have "length (pending ctx @ inp) < ctx_data_size" by simp
    moreover have "take (data_used ctx + length inp) (splice (ctx_data ctx) (data_used ctx) inp) = pending ctx @ inp"
      using inv by (simp add: take_splice_end pending_def)
    ultimately show ?thesis
      using short assms inv by (auto simp: EVP_EncodeUpdate_def put_text_def enc_inv_def pending_def)
  next
    case full
    from EVP_EncodeUpdate_full [OF assms(1-3) full] assms(4) show ?thesis
      using length_leftover [of "pending ctx @ inp"] filled_data_facts(1) [OF assms(1) full(2)]
      by (auto simp: Let_def enc_inv_def pending_update splice_def)
  qed
qed

section \<open>Decoding undoes encoding\<close>

lemma or_shift_6:
  "d < 64 \<Longrightarrow> push_bit 6 (of_nat v :: u32) OR of_nat d = of_nat (v * 64 + d)"
  using or_shift [of d 6 v, where 'a = 32] by simp

lemma quad_value:
  assumes "a < 64" "b < 64" "c < 64" "d < 64"
  shows "push_bit 18 (ucast (of_nat a :: byte) :: u32) OR push_bit 12 (ucast (of_nat b :: byte)) OR
    push_bit 6 (ucast (of_nat c :: byte)) OR ucast (of_nat d :: byte) = of_nat (((a * 64 + b) * 64 + c) * 64 + d)"
proof -
  have u: "(ucast (of_nat x :: byte) :: u32) = of_nat x" if "x < 64" for x
    using that by (simp add: word_unat_eq_iff unat_ucast_byte byte_simps unat_of_nat)
  have "push_bit 18 (of_nat a :: u32) OR push_bit 12 (of_nat b) OR push_bit 6 (of_nat c) OR of_nat d =
      push_bit 6 (push_bit 6 (push_bit 6 (of_nat a) OR of_nat b) OR of_nat c) OR of_nat d"
    by (simp add: push_bit_or or.assoc)
  also have "\<dots> = of_nat (((a * 64 + b) * 64 + c) * 64 + d)"
    using assms by (simp only: or_shift_6)
  finally show ?thesis by (simp add: u assms)
qed

lemma quad_digits:
  assumes "n < 2 ^ 24"
  shows "((n div 2 ^ 18 mod 64 * 64 + n div 2 ^ 12 mod 64) * 64 + n div 2 ^ 6 mod 64) * 64 + n mod 64 = (n :: nat)"
proof -
  have "n div 2 ^ 12 = n div 64 div 64" "n div 2 ^ 18 = n div 64 div 64 div 64" by (simp_all flip: div_mult2_eq)
  moreover have "n div 64 div 64 div 64 < 64" using assms by (simp add: less_mult_imp_div_less flip: div_mult2_eq)
  ultimately show ?thesis by simp
qed

lemma low_digits_0: "64 dvd (n :: nat) \<Longrightarrow> n mod 64 = 0" "4096 dvd n \<Longrightarrow> n div 64 mod 64 = 0 \<and> n mod 64 = 0"
  by auto

lemma be_bytes_of_value:
  assumes "n = be_value [a, b, c]"
  shows "ucast (drop_bit 16 (of_nat n :: u32)) = a" "ucast (drop_bit 8 (of_nat n :: u32)) = b" "ucast (of_nat n :: u32) = c"
proof -
  have n: "n < 2 ^ 32" using be_value_3_less [of a b c] by (simp add: assms)
  have cut: "(ucast (drop_bit k (of_nat n :: u32)) :: byte) = of_nat (n div 2 ^ k)" for k
    using n by (simp add: word_unat_eq_iff unat_drop_bit_eq unat_of_nat drop_bit_eq_div [where 'a = nat] unsigned_ucast_eq take_bit_eq_mod)
  have "[of_nat (n div 2 ^ 16), of_nat (n div 2 ^ 8), of_nat n] = [a, b, c]"
    using be_bytes_be_value [of "[a, b, c]"] by (simp add: numeral_3_eq_3 flip: assms div_mult2_eq)
  then show "ucast (drop_bit 16 (of_nat n :: u32)) = a" "ucast (drop_bit 8 (of_nat n :: u32)) = b"
    "ucast (of_nat n :: u32) = c"
    using cut [of 0] by (simp_all add: cut)
qed

text \<open>The value of the four digits, as the decoder assembles it.\<close>

lemma decoder_value:
  assumes "n < 2 ^ 24"
  shows "push_bit 18 (ucast (of_nat (n div 2 ^ 18 mod 64) :: byte) :: u32) OR push_bit 12 (ucast (of_nat (n div 2 ^ 12 mod 64) :: byte)) OR
      push_bit 6 (ucast (of_nat (n div 2 ^ 6 mod 64) :: byte)) OR ucast (of_nat (n mod 64) :: byte) = of_nat n"
  by (subst quad_value; (simp only: quad_digits [OF assms])?; simp)

lemma digit_ok:
  "b64_digit (n mod 64) \<noteq> 61" "\<not> is_base64_space (b64_digit (n mod 64))" "(of_nat (n mod 64) :: byte) \<noteq> 0xff"
  "base64_ascii_to_bin (b64_digit (n mod 64)) = of_nat (n mod 64)"
  by (simp_all add: b64_digit_not_special ascii_to_bin_digit)

lemma decode_quad_3: "base64_decode_quad (b64_quad (be_value [a, b, c]) @ r) = Some [a, b, c]"
  unfolding b64_quad_def base64_decode_quad_def
  using decoder_value [OF be_value_3_less, of a b c] be_bytes_of_value [OF refl, of a b c]
  by (simp add: digit_ok Let_def)

lemma decode_quad_2: "base64_decode_quad (take 3 (b64_quad (be_value [a, b, 0])) @ 61 # r) = Some [a, b]"
proof -
  have "be_value [a, b, 0] mod 64 = 0" by (simp add: be_value_Cons mod_add_eq [symmetric] mod_mult_right_eq [symmetric])
  then show ?thesis
    unfolding b64_quad_def base64_decode_quad_def
    using decoder_value [OF be_value_3_less, of a b 0] be_bytes_of_value [OF refl, of a b 0]
    by (simp add: digit_ok ascii_to_bin_equals Let_def)
qed

lemma decode_quad_1: "base64_decode_quad (take 2 (b64_quad (be_value [a, 0, 0])) @ 61 # 61 # r) = Some [a]"
proof -
  have "be_value [a, 0, 0] = unat a * 1024 * 64" "be_value [a, 0, 0] div 64 = unat a * 16 * 64" by (simp_all add: be_value_Cons)
  then have "be_value [a, 0, 0] mod 64 = 0" "be_value [a, 0, 0] div 64 mod 64 = 0" by (simp_all only: mod_mult_self2_is_0)
  then show ?thesis
    unfolding b64_quad_def base64_decode_quad_def
    using decoder_value [OF be_value_3_less, of a 0 0] be_bytes_of_value [OF refl, of a 0 0]
    by (simp add: digit_ok ascii_to_bin_equals Let_def)
qed

lemma DecodeBase64_loop_text:
  "p + n \<le> length out \<Longrightarrow> DecodeBase64_loop out p n (base64_text bs) = (splice out (p + n) bs, Some (n + length bs))"
proof (induction bs arbitrary: out n rule: base64_text.induct)
  case 1
  show ?case by (simp add: DecodeBase64_loop.simps)
next
  case (2 a)
  show ?case using decode_quad_1 [of a "[]"] by (simp add: DecodeBase64_loop.simps)
next
  case (3 a b)
  show ?case using decode_quad_2 [of a b "[]"] by (simp add: DecodeBase64_loop.simps)
next
  case (4 a b c bs)
  have "DecodeBase64_loop out p n (base64_text (a # b # c # bs)) = DecodeBase64_loop (splice out (p + n) [a, b, c]) p (n + 3) (base64_text bs)"
    by (subst DecodeBase64_loop.simps) (simp add: decode_quad_3, simp add: b64_quad_def numeral_3_eq_3)
  moreover have "p + (n + 3) \<le> length (splice out (p + n) [a, b, c])" using 4(2) by (simp add: splice_def)
  moreover have "splice (splice out (p + n) [a, b, c]) (p + (n + 3)) bs = splice out (p + n) (a # b # c # bs)"
    using splice_splice [OF 4(2), of "[a, b, c]" bs] by (simp add: add.assoc numeral_3_eq_3)
  ultimately show ?case using 4(1) by simp
qed

lemma base64_text_mod_4: "length (base64_text bs) mod 4 = 0"
  by (simp add: length_base64_text)

lemma EVP_DecodeBase64_text:
  assumes "p \<le> length out" "3 * ((length bs + 2) div 3) \<le> max_out"
  shows "EVP_DecodeBase64 out p max_out (base64_text bs) = (splice out p bs, Some (length bs))"
  using assms DecodeBase64_loop_text [of p 0 out bs]
  by (simp add: EVP_DecodeBase64_def EVP_DecodedLength_def length_base64_text)

subsection \<open>The streaming decoder\<close>

lemma DecodeUpdate_loop_append:
  "DecodeUpdate_loop ctx out p n (xs @ ys) =
     (case DecodeUpdate_loop ctx out p n xs of
        (c, o', None) \<Rightarrow> (c, o', None) | (c, o', Some m) \<Rightarrow> DecodeUpdate_loop c o' p m ys)"
  by (induction ctx out p n xs rule: DecodeUpdate_loop.induct)
     (auto simp: Let_def split: option.splits)

lemma DecodeUpdate_loop_spaces:
  "DecodeUpdate_loop ctx out p n xs = DecodeUpdate_loop ctx out p n (filter (\<lambda>c. \<not> is_base64_space c) xs)"
  by (induction ctx out p n xs rule: DecodeUpdate_loop.induct) (auto simp: Let_def split: option.splits)

text \<open>Four characters into an empty context are decoded together.\<close>

lemma DecodeUpdate_loop_quad:
  assumes "data_used ctx = 0" "\<not> eof_seen ctx" "ctx_data ctx = x1 # x2 # x3 # x4 # xs"
    and "\<forall>c \<in> {a, b, c, d}. \<not> is_base64_space c" "base64_decode_quad (a # b # c # d # xs) = Some bs"
  shows "DecodeUpdate_loop ctx out p n (a # b # c # d # inp) =
    DecodeUpdate_loop (ctx\<lparr>ctx_data := a # b # c # d # xs, data_used := 0, eof_seen := length bs < 3\<rparr>)
      (splice out (p + n) bs) p (n + length bs) inp"
  using assms by (cases ctx) (simp add: Let_def)

text \<open>A context that waits for the next quad.\<close>

definition dec_ready :: "EVP_ENCODE_CTX \<Rightarrow> bool" where
  "dec_ready ctx \<longleftrightarrow> data_used ctx = 0 \<and> \<not> eof_seen ctx \<and> \<not> error_encountered ctx \<and> length (ctx_data ctx) = ctx_data_size"

lemma dec_ready_init: "dec_ready EVP_DecodeInit"
  by (simp add: dec_ready_def EVP_DecodeInit_def zeroed_ctx_def)

lemma dec_ready_data:
  assumes "dec_ready ctx"
  obtains x1 x2 x3 x4 xs where "ctx_data ctx = x1 # x2 # x3 # x4 # xs"
proof -
  have "4 \<le> length (ctx_data ctx)" using assms by (simp add: dec_ready_def ctx_data_size_def)
  then show thesis by (auto simp: numeral_eq_Suc Suc_le_length_iff intro: that)
qed

lemma DecodeUpdate_loop_one_quad:
  assumes "dec_ready ctx" "\<forall>c \<in> set q. \<not> is_base64_space c" "length q = 4" "\<And>r. base64_decode_quad (q @ r) = Some bs"
  shows "\<exists>ctx'. DecodeUpdate_loop ctx out p n (q @ inp) = DecodeUpdate_loop ctx' (splice out (p + n) bs) p (n + length bs) inp \<and>
    data_used ctx' = 0 \<and> \<not> error_encountered ctx' \<and> eof_seen ctx' = (length bs < 3) \<and> length (ctx_data ctx') = ctx_data_size"
proof -
  obtain a b c d where q: "q = [a, b, c, d]"
    using assms(3) by (auto simp: numeral_eq_Suc length_Suc_conv)
  obtain x1 x2 x3 x4 xs where x: "ctx_data ctx = x1 # x2 # x3 # x4 # xs" using dec_ready_data [OF assms(1)] by blast
  have "DecodeUpdate_loop ctx out p n (q @ inp) =
     DecodeUpdate_loop (ctx\<lparr>ctx_data := a # b # c # d # xs, data_used := 0, eof_seen := length bs < 3\<rparr>)
      (splice out (p + n) bs) p (n + length bs) inp"
    using assms(1) DecodeUpdate_loop_quad [of ctx x1 x2 x3 x4 xs a b c d bs out p n inp] assms(2,4) x
    by (simp add: q dec_ready_def)
  moreover have "length (a # b # c # d # xs) = ctx_data_size" using assms(1) x by (simp add: dec_ready_def)
  ultimately show ?thesis using assms(1) 
    by (intro exI [of _ "ctx\<lparr>ctx_data := a # b # c # d # xs, data_used := 0, eof_seen := length bs < 3\<rparr>"]) (simp add: dec_ready_def)
qed

lemma quad_no_space: "c \<in> set (b64_quad n) \<Longrightarrow> \<not> is_base64_space c"
  by (auto simp: b64_quad_def digit_ok)

lemma base64_text_no_space: "c \<in> set (base64_text bs) \<Longrightarrow> \<not> is_base64_space c"
  by (induction bs rule: base64_text.induct)
     (auto dest!: in_set_takeD quad_no_space simp: is_base64_space_def)

lemma DecodeUpdate_loop_text:
  assumes "dec_ready ctx" "p + n \<le> length out"
  shows "\<exists>ctx'. DecodeUpdate_loop ctx out p n (base64_text bs) = (ctx', splice out (p + n) bs, Some (n + length bs)) \<and>
    data_used ctx' = 0 \<and> \<not> error_encountered ctx' \<and> eof_seen ctx' = (length bs mod 3 \<noteq> 0) \<and> length (ctx_data ctx') = ctx_data_size"
  using assms
proof (induction bs arbitrary: ctx out n rule: base64_text.induct)
  case 1
  then show ?case by (simp add: dec_ready_def)
next
  case (2 a)
  then show ?case
    using DecodeUpdate_loop_one_quad [of ctx "base64_text [a]" "[a]" out p n "[]"] decode_quad_1 base64_text_no_space [of _ "[a]"]
    by fastforce
next
  case (3 a b)
  then show ?case
    using DecodeUpdate_loop_one_quad [of ctx "base64_text [a, b]" "[a, b]" out p n "[]"] decode_quad_2 base64_text_no_space [of _ "[a, b]"]
    by fastforce
next
  case (4 a b c bs)
  obtain c' where c': "DecodeUpdate_loop ctx out p n (base64_text (a # b # c # bs)) =
      DecodeUpdate_loop c' (splice out (p + n) [a, b, c]) p (n + 3) (base64_text bs)" "dec_ready c'"
    using DecodeUpdate_loop_one_quad [of ctx "b64_quad (be_value [a, b, c])" "[a, b, c]" out p n "base64_text bs"] 4(2)
      decode_quad_3 quad_no_space by (fastforce simp: dec_ready_def numeral_3_eq_3)
  moreover have "p + (n + 3) \<le> length (splice out (p + n) [a, b, c])" using 4(3) by (simp add: splice_def)
  moreover have "splice (splice out (p + n) [a, b, c]) (p + (n + 3)) bs = splice out (p + n) (a # b # c # bs)"
    using splice_splice [OF 4(3), of "[a, b, c]" bs] by (simp add: add.assoc numeral_3_eq_3)
  moreover have "length (a # b # c # bs) mod 3 = length bs mod 3" by simp
  ultimately obtain ctx' where "DecodeUpdate_loop ctx out p n (base64_text (a # b # c # bs)) =
      (ctx', splice out (p + n) (a # b # c # bs), Some (n + 3 + length bs))"
    "data_used ctx' = 0" "\<not> error_encountered ctx'" "eof_seen ctx' = (length (a # b # c # bs) mod 3 \<noteq> 0)"
    "length (ctx_data ctx') = ctx_data_size"
    using 4(1) [of c' "n + 3" "splice out (p + n) [a, b, c]"] by auto
  then show ?case by (intro exI [of _ ctx']) simp
qed

section \<open>Streams\<close>

text \<open>
  A caller of the streaming functions passes its data in pieces and advances its output pointer by
  what each call reports.
\<close>

fun EncodeUpdates :: "EVP_ENCODE_CTX \<Rightarrow> byte list \<Rightarrow> nat \<Rightarrow> byte list list \<Rightarrow> EVP_ENCODE_CTX \<times> byte list \<times> nat" where
  "EncodeUpdates ctx out p [] = (ctx, out, p)"
| "EncodeUpdates ctx out p (c # cs) = (let (ctx, out, n) = EVP_EncodeUpdate ctx out p c in EncodeUpdates ctx out (p + n) cs)"

definition encode_stream :: "byte list \<Rightarrow> byte list list \<Rightarrow> byte list \<times> nat" where
  "encode_stream out chunks =
     (let (ctx, out, p) = EncodeUpdates EVP_EncodeInit out 0 chunks; (ctx, out, n) = EVP_EncodeFinal ctx out p in (out, p + n))"

fun DecodeUpdates :: "EVP_ENCODE_CTX \<Rightarrow> byte list \<Rightarrow> nat \<Rightarrow> byte list list \<Rightarrow> EVP_ENCODE_CTX \<times> byte list \<times> nat" where
  "DecodeUpdates ctx out p [] = (ctx, out, p)"
| "DecodeUpdates ctx out p (c # cs) = (let (ctx, out, r, n) = EVP_DecodeUpdate ctx out p c in DecodeUpdates ctx out (p + n) cs)"

lemma EncodeUpdates_lines:
  assumes "enc_inv ctx" "p \<le> length out" "length (base64_lines (pending ctx @ concat cs)) \<le> INT_MAX"
  shows "\<exists>ctx'. EncodeUpdates ctx out p cs = (ctx', put_text out p (base64_lines (pending ctx @ concat cs)),
      p + length (base64_lines (pending ctx @ concat cs))) \<and>
    enc_inv ctx' \<and> pending ctx' = leftover (pending ctx @ concat cs)"
  using assms
proof (induction cs arbitrary: ctx out p)
  case Nil
  then show ?case using length_pending [of ctx] by (simp add: enc_inv_def put_text_def)
next
  case (Cons c cs)
  obtain ctx1 out1 n where u: "EVP_EncodeUpdate ctx out p c = (ctx1, out1, n)" by (metis prod_cases3)
  have app: "base64_lines (pending ctx @ c @ concat cs) = base64_lines (pending ctx @ c) @ base64_lines (leftover (pending ctx @ c) @ concat cs)"
    "leftover (pending ctx @ c @ concat cs) = leftover (leftover (pending ctx @ c) @ concat cs)"
    using base64_lines_append [of "pending ctx @ c" "concat cs"] by simp_all
  with Cons.prems EVP_EncodeUpdate_lines [OF Cons.prems(1,2) _ u]
  have one: "enc_inv ctx1" "pending ctx1 = leftover (pending ctx @ c)" "n = length (base64_lines (pending ctx @ c))"
    "out1 = put_text out p (base64_lines (pending ctx @ c))" by simp_all
  have "p + n \<le> length out1" using Cons.prems(2) one by (simp add: length_put_text)
  from Cons.IH [OF one(1) this] Cons.prems(2,3) show ?case
    by (simp add: u one app put_text_put_text add.assoc)
qed

lemma encode_stream_body:
  assumes "length (base64_body (concat cs)) \<le> INT_MAX"
  shows "encode_stream out cs = (put_text out 0 (base64_body (concat cs)), length (base64_body (concat cs)))"
proof -
  let ?L = "base64_lines (concat cs)"
  obtain ctx where c: "EncodeUpdates EVP_EncodeInit out 0 cs = (ctx, put_text out 0 ?L, length ?L)"
    "enc_inv ctx" "pending ctx = leftover (concat cs)"
    using EncodeUpdates_lines [of EVP_EncodeInit 0 out cs] assms by (auto simp: base64_body_def)
  have used: "data_used ctx = 0 \<longleftrightarrow> leftover (concat cs) = []" using c(2,3) length_pending [OF c(2)] by auto
  have len: "length ?L \<le> length (put_text out 0 ?L)" using length_put_text [of 0 out ?L] by simp
  show ?thesis
    using c used put_line [OF len, of "base64_text (leftover (concat cs))"] put_text_put_text [of 0 out ?L]
    by (auto simp: encode_stream_def EVP_EncodeFinal_def base64_body_def EVP_EncodeBlock_text [OF len] Let_def
        simp flip: pending_def)
qed

lemma DecodeUpdate_loop_shift:
  "DecodeUpdate_loop ctx out p (k + n) xs =
    (case DecodeUpdate_loop ctx out (p + k) n xs of (c, o', m) \<Rightarrow> (c, o', map_option ((+) k) m))"
proof (induction ctx out "p + k" n xs rule: DecodeUpdate_loop.induct)
  case (2 ctx out n c inp)
  then show ?case by (auto simp: Let_def add.assoc split: option.splits)
qed simp

lemma DecodeUpdate_loop_Some:
  "DecodeUpdate_loop ctx out p n xs = (ctx', out', Some m) \<Longrightarrow> error_encountered ctx' = error_encountered ctx \<and> n \<le> m"
  by (induction ctx out p n xs rule: DecodeUpdate_loop.induct)
     (fastforce simp: Let_def split: if_splits option.splits)+

lemma DecodeUpdates_loop:
  assumes "DecodeUpdate_loop ctx out p n (concat cs) = (ctx', out', Some m)" "\<not> error_encountered ctx" "m \<le> INT_MAX"
  shows "DecodeUpdates ctx out (p + n) cs = (ctx', out', p + m)"
  using assms
proof (induction cs arbitrary: ctx out n)
  case (Cons c cs)
  from Cons.prems(1) obtain ctx1 out1 k where k: "DecodeUpdate_loop ctx out p n c = (ctx1, out1, Some k)"
    "DecodeUpdate_loop ctx1 out1 p k (concat cs) = (ctx', out', Some m)"
    by (auto simp: DecodeUpdate_loop_append split: prod.splits option.splits)
  have "\<not> error_encountered ctx1" "n \<le> k" "k \<le> m"
    using DecodeUpdate_loop_Some [OF k(1)] DecodeUpdate_loop_Some [OF k(2)] Cons.prems(2) by simp_all
  moreover have "DecodeUpdate_loop ctx out (p + n) 0 c = (ctx1, out1, Some (k - n))"
    using k(1) \<open>n \<le> k\<close> DecodeUpdate_loop_shift [of ctx out p n 0 c] by (cases "DecodeUpdate_loop ctx out (p + n) 0 c"; cases "snd (snd (DecodeUpdate_loop ctx out (p + n) 0 c))") auto
  ultimately show ?case
    using Cons.IH [OF k(2)] Cons.prems(2,3) by (auto simp: EVP_DecodeUpdate_def)
qed simp

lemma base64_text_append: "length xs mod 3 = 0 \<Longrightarrow> base64_text (xs @ ys) = base64_text xs @ base64_text ys"
  by (induction xs rule: base64_text.induct) (simp_all add: mod_Suc split: if_splits)

lemma base64_body_chars: "filter (\<lambda>c. \<not> is_base64_space c) (base64_body bs) = base64_text bs"
proof -
  have t: "filter (\<lambda>c. \<not> is_base64_space c) (base64_text xs) = base64_text xs" for xs
    by (simp add: filter_id_conv base64_text_no_space)
  have nl: "is_base64_space 10" by (simp add: is_base64_space_def)
  show ?thesis
  proof (induction bs rule: leftover.induct)
    case (1 bs)
    show ?case
    proof (cases "ctx_data_size \<le> length bs")
      case True
      then have "length (take ctx_data_size bs) = ctx_data_size" by simp
      note l = base64_lines_long [OF this, of "drop ctx_data_size bs"]
      have "base64_text bs = base64_text (take ctx_data_size bs) @ base64_text (drop ctx_data_size bs)"
        using base64_text_append [of "take ctx_data_size bs" "drop ctx_data_size bs"] True by (simp add: ctx_data_size_def)
      with 1 [OF True, unfolded base64_body_def] l t nl show ?thesis by (auto simp: base64_body_def)
    next
      case False
      then show ?thesis by (simp add: base64_body_def t nl)
    qed
  qed
qed

section \<open>Properties\<close>

lemma EVP_EncodedLength_exact:
  assumes "len < SIZE_MOD"
  shows "EVP_EncodedLength len = (if 4 * ((len + 2) div 3) + 1 < SIZE_MOD then Some (4 * ((len + 2) div 3) + 1) else None)"
proof -
  have M: "SIZE_MOD = 4 * 2 ^ 62" by (simp add: SIZE_MOD_def)
  show ?thesis
  proof (cases "len + 2 < SIZE_MOD")
    case True
    define L where "L = (len + 2) div 3"
    have "4 * L + 1 < SIZE_MOD \<longleftrightarrow> L < 2 ^ 62" unfolding M by linarith
    moreover have "size_mul L 4 div 4 = L \<and> size_mul L 4 = 4 * L \<and> size_add (4 * L) 1 = 4 * L + 1" if "L < 2 ^ 62"
      using that unfolding size_mul_def size_add_def M by simp
    moreover have "size_mul L 4 div 4 \<noteq> L" if "\<not> L < 2 ^ 62"
      using that unfolding size_mul_def M by (simp add: mod_mult_mult1 mult.commute)
    ultimately show ?thesis
      unfolding EVP_EncodedLength_def size_add_no_wrap [OF True] Let_def L_def [symmetric]
      by (cases "L < 2 ^ 62") auto
  next
    case False
    then have "size_add len 2 < len" using assms by (subst size_add_overflow_iff) (simp_all add: SIZE_MOD_def)
    moreover have "\<not> 4 * ((len + 2) div 3) + 1 < SIZE_MOD"
      using False div_mult_mod_eq [of "len + 2" 3] mod_less_divisor [of 3 "len + 2"] unfolding M by simp
    ultimately show ?thesis by (simp add: EVP_EncodedLength_def)
  qed
qed

text \<open>
  C12: \<open>EVP_EncodeBlock\<close> writes the base64 text of its input and a final zero byte, and nothing
  else: it writes exactly the number of bytes \<open>EVP_EncodedLength\<close> announces, so in a buffer with
  that much room every byte before and after is unchanged. The announced length is exact, and
  \<open>EVP_EncodedLength\<close> refuses exactly the lengths whose encoding does not fit \<open>size_t\<close>.
\<close>

theorem EVP_EncodeBlock_correct:
  assumes "d + 4 * ((length src + 2) div 3) + 1 \<le> length dst" "length src < SIZE_MOD"
  shows "EVP_EncodeBlock dst d src = (take d dst @ base64_text src @ [0] @ drop (d + 4 * ((length src + 2) div 3) + 1) dst,
      4 * ((length src + 2) div 3)) \<and>
    EVP_EncodedLength (length src) = (if 4 * ((length src + 2) div 3) + 1 < SIZE_MOD then Some (4 * ((length src + 2) div 3) + 1) else None)"
  using assms EVP_EncodeBlock_text [of d dst src] EVP_EncodedLength_exact [OF assms(2)]
  by (auto simp: splice_def length_base64_text)

theorem EVP_EncodeBlock_correct_witness:
  "EVP_EncodeBlock [1, 1, 1, 1, 1, 1, 1] 1 [77, 97, 110] = ([1, 84, 87, 70, 117, 0, 1], 4) \<and> EVP_EncodedLength 3 = Some 5"
proof -
  have "base64_text [77, 97, 110] = [84, 87, 70, 117]"
    by (simp add: b64_quad_def be_value_def b64_digit_cases)
  moreover have "length [77, 97, 110 :: byte] = 3" "length [1, 1, 1, 1, 1, 1, 1 :: byte] = 7" by simp_all
  ultimately show ?thesis
    using EVP_EncodeBlock_correct [of 1 "[77, 97, 110]" "[1, 1, 1, 1, 1, 1, 1]"]
    by (simp add: SIZE_MOD_def del: list.size(4))
qed

text \<open>
  C13: decoding undoes encoding: what \<open>EVP_EncodeBlock\<close> wrote is accepted by \<open>EVP_DecodeBase64\<close>
  whenever the output limit allows the decoded length rounded up to a multiple of three, and the
  bytes written are the bytes encoded; the rest of the output buffer is unchanged.
\<close>

theorem base64_block_roundtrip:
  assumes "d \<le> length dst" "EVP_EncodeBlock dst d src = (dst', n)" "p \<le> length out" "3 * ((length src + 2) div 3) \<le> max_out"
  shows "EVP_DecodeBase64 out p max_out (slice dst' d n) = (splice out p src, Some (length src))"
proof -
  have "slice dst' d n = base64_text src"
    using assms(1,2) by (auto simp: EVP_EncodeBlock_text splice_def slice_def)
  with EVP_DecodeBase64_text [OF assms(3,4)] show ?thesis by simp
qed

theorem base64_block_roundtrip_witness:
  "EVP_DecodeBase64 [7, 7, 7, 7] 1 3 (slice [84, 81, 61, 61, 0] 0 4) = ([7, 77, 7, 7], Some 1)"
proof -
  have "EVP_EncodeBlock [1, 1, 1, 1, 1] 0 [77] = ([84, 81, 61, 61, 0], 4)"
    by (simp add: EVP_EncodeBlock_def EncodeBlock_loop.simps conv_bin2ascii_def ct_simps splice_def)
  from base64_block_roundtrip [OF _ this, of 1 "[7, 7, 7, 7]" 3] show ?thesis by (simp add: splice_def)
qed

text \<open>
  C14: the streaming interface loses nothing and does not depend on how the data is cut: encoding
  the pieces \<open>chunks\<close> and decoding the resulting text, cut into any pieces, writes exactly the
  concatenation of \<open>chunks\<close>, reports its length and ends with \<open>EVP_DecodeFinal\<close> succeeding.
\<close>

theorem base64_stream_roundtrip:
  assumes "length (base64_body (concat chunks)) \<le> INT_MAX"
    and "encode_stream out chunks = (out', n)" "concat pieces = take n out'" "length (concat chunks) \<le> INT_MAX"
  shows "\<exists>ctx. DecodeUpdates EVP_DecodeInit buf 0 pieces = (ctx, splice buf 0 (concat chunks), length (concat chunks)) \<and>
    EVP_DecodeFinal ctx = 1"
proof -
  have "concat pieces = base64_body (concat chunks)"
    using assms(2,3) encode_stream_body [OF assms(1), of out] by (auto simp: put_text_def splice_def)
  moreover obtain ctx where c: "DecodeUpdate_loop EVP_DecodeInit buf 0 0 (base64_text (concat chunks)) =
      (ctx, splice buf 0 (concat chunks), Some (length (concat chunks)))" "data_used ctx = 0" "\<not> error_encountered ctx"
    using DecodeUpdate_loop_text [OF dec_ready_init, of 0 0 buf "concat chunks"] by auto
  ultimately have "DecodeUpdate_loop EVP_DecodeInit buf 0 0 (concat pieces) =
      (ctx, splice buf 0 (concat chunks), Some (length (concat chunks)))"
    using DecodeUpdate_loop_spaces [of EVP_DecodeInit buf 0 0 "concat pieces"] by (simp add: base64_body_chars)
  from DecodeUpdates_loop [OF this _ assms(4)] dec_ready_init c(2,3) show ?thesis
    by (simp add: dec_ready_def EVP_DecodeFinal_def)
qed

theorem base64_stream_roundtrip_witness:
  "\<exists>ctx. DecodeUpdates EVP_DecodeInit [] 0 [[84, 87], [70, 117, 10]] = (ctx, [77, 97, 110], 3) \<and> EVP_DecodeFinal ctx = 1"
proof -
  have b: "base64_body (concat [[77], [97, 110]]) = [84, 87, 70, 117, 10]"
    by (simp add: base64_body_def ctx_data_size_def b64_quad_def be_value_def b64_digit_cases)
  have "encode_stream [] [[77], [97, 110]] = ([84, 87, 70, 117, 10, 0], 5)"
    by (subst encode_stream_body) (simp_all add: b INT_MAX_def put_text_def splice_def del: concat.simps)
  from base64_stream_roundtrip [OF _ this, of "[[84, 87], [70, 117, 10]]" "[]"] b show ?thesis
    by (simp add: INT_MAX_def splice_def numeral_3_eq_3 del: DecodeUpdates.simps)
qed

end
