(* ===== verification/Stack.thy ===== *)
theory Stack
  imports Mem Libc_Sort
begin

text \<open>
  The pointer arrays of \<open>crypto/stack/stack.c\<close>. An element is a pointer, \<open>None\<close> for \<open>NULL\<close>; a
  pointer to a stack is an option, and an operation that changes the stack returns it. A comparison
  function is a name \<open>'c\<close> that \<open>call_cmp_func\<close> applies, as in the code, so that
  \<open>sk_set_cmp_func\<close> can compare names. Slots that \<open>realloc\<close> or \<open>malloc\<close> hand out without writing
  them hold the arbitrary pointer \<open>uninit\<close>, and \<open>qsort\<close> is a parameter known by \<open>qsort_law\<close>. The
  array is shown to behave as the list of its first \<open>num\<close> elements.
\<close>

section \<open>The code\<close>

type_synonym 'p ptr = "'p option"
type_synonym ('p, 'c) cmp_caller = "'c \<Rightarrow> 'p ptr \<Rightarrow> 'p ptr \<Rightarrow> int"

record ('p, 'c) STACK =
  num :: nat
  data :: "'p ptr list"
  sorted_flag :: bool
  num_alloc :: nat
  comp :: "'c option"

definition kMinSize :: nat where
  "kMinSize = 4"

text \<open>\<open>sizeof(void *)\<close> and \<open>sizeof(_STACK)\<close>\<close>

definition sizeof_ptr :: nat where "sizeof_ptr = 8"
definition sizeof_STACK :: nat where "sizeof_STACK = 40"

definition sk_new :: "libc_malloc \<Rightarrow> 'c option \<Rightarrow> ('p, 'c) STACK option" where
  "sk_new malloc c =
     (case OPENSSL_malloc malloc sizeof_STACK of
        None \<Rightarrow> None
      | Some _ \<Rightarrow>
          (case OPENSSL_malloc malloc (sizeof_ptr * kMinSize) of
             None \<Rightarrow> None
           | Some _ \<Rightarrow> Some \<lparr>num = 0, data = replicate kMinSize None, sorted_flag = False, num_alloc = kMinSize, comp = c\<rparr>))"

definition sk_new_null :: "libc_malloc \<Rightarrow> ('p, 'c) STACK option" where
  "sk_new_null malloc = sk_new malloc None"

definition sk_num :: "('p, 'c) STACK option \<Rightarrow> nat" where
  "sk_num sk = (case sk of None \<Rightarrow> 0 | Some s \<Rightarrow> num s)"

definition sk_zero :: "('p, 'c) STACK option \<Rightarrow> ('p, 'c) STACK option" where
  "sk_zero sk =
     (case sk of
        None \<Rightarrow> None
      | Some s \<Rightarrow> if num s = 0 then Some s
                  else Some (s\<lparr>data := splice (data s) 0 (replicate (num s) None), num := 0, sorted_flag := False\<rparr>))"

definition sk_value :: "('p, 'c) STACK option \<Rightarrow> nat \<Rightarrow> 'p ptr" where
  "sk_value sk i = (case sk of None \<Rightarrow> None | Some s \<Rightarrow> if i \<ge> num s then None else data s ! i)"

definition sk_set :: "('p, 'c) STACK option \<Rightarrow> nat \<Rightarrow> 'p ptr \<Rightarrow> 'p ptr \<times> ('p, 'c) STACK option" where
  "sk_set sk i v =
     (case sk of
        None \<Rightarrow> (None, None)
      | Some s \<Rightarrow> if i \<ge> num s then (None, Some s) else (v, Some (s\<lparr>data := (data s)[i := v]\<rparr>)))"

text \<open>The pointers handed to \<open>free_func\<close>, in the order of the calls.\<close>

definition sk_pop_free_ex :: "('p, 'c) STACK option \<Rightarrow> 'p list" where
  "sk_pop_free_ex sk =
     (case sk of None \<Rightarrow> [] | Some s \<Rightarrow> concat (map (\<lambda>i. case data s ! i of None \<Rightarrow> [] | Some p \<Rightarrow> [p]) [0..<num s]))"

definition sk_pop_free :: "('p, 'c) STACK option \<Rightarrow> 'p list" where
  "sk_pop_free sk = sk_pop_free_ex sk"

text \<open>
  The growth of \<open>sk_insert\<close>: the new number of slots, \<open>None\<close> when neither doubling nor adding one
  fits \<open>size_t\<close>.
\<close>

definition grow_alloc :: "nat \<Rightarrow> nat option" where
  "grow_alloc n =
     (let new_alloc = size_mul n 2;
          alloc_size = size_mul new_alloc sizeof_ptr;
          (new_alloc, alloc_size) =
            (if new_alloc < n \<or> alloc_size div sizeof_ptr \<noteq> new_alloc
             then (size_add n 1, size_mul (size_add n 1) sizeof_ptr) else (new_alloc, alloc_size))
      in if new_alloc < n \<or> alloc_size div sizeof_ptr \<noteq> new_alloc then None else Some new_alloc)"

text \<open>\<open>OPENSSL_realloc\<close> of an array of pointers: what was there is copied.\<close>

definition realloc_ptrs :: "libc_malloc \<Rightarrow> 'p ptr \<Rightarrow> 'p ptr list \<Rightarrow> nat \<Rightarrow> 'p ptr list option" where
  "realloc_ptrs malloc uninit d n =
     (case OPENSSL_malloc malloc (size_mul n sizeof_ptr) of
        None \<Rightarrow> None
      | Some _ \<Rightarrow> Some (splice (replicate n uninit) 0 (take n d)))"

definition sk_insert :: "libc_malloc \<Rightarrow> 'p ptr \<Rightarrow> ('p, 'c) STACK option \<Rightarrow> 'p ptr \<Rightarrow> nat \<Rightarrow> nat \<times> ('p, 'c) STACK option" where
  "sk_insert malloc uninit sk p where' =
     (case sk of
        None \<Rightarrow> (0, None)
      | Some s \<Rightarrow>
          (case (if num_alloc s \<le> num s + 1 then
                   (case grow_alloc (num_alloc s) of
                      None \<Rightarrow> None
                    | Some new_alloc \<Rightarrow>
                        (case realloc_ptrs malloc uninit (data s) new_alloc of
                           None \<Rightarrow> None
                         | Some d \<Rightarrow> Some (s\<lparr>data := d, num_alloc := new_alloc\<rparr>)))
                 else Some s) of
             None \<Rightarrow> (0, Some s)
           | Some s \<Rightarrow>
               (let d = (if where' \<ge> num s then (data s)[num s := p]
                         else (splice (data s) (where' + 1) (slice (data s) where' (num s - where')))[where' := p])
                in (num s + 1, Some (s\<lparr>data := d, num := num s + 1, sorted_flag := False\<rparr>)))))"

definition sk_delete :: "('p, 'c) STACK option \<Rightarrow> nat \<Rightarrow> 'p ptr \<times> ('p, 'c) STACK option" where
  "sk_delete sk where' =
     (case sk of
        None \<Rightarrow> (None, None)
      | Some s \<Rightarrow>
          if where' \<ge> num s then (None, Some s)
          else
            (let ret = data s ! where';
                 d = (if where' \<noteq> num s - 1 then splice (data s) where' (slice (data s) (where' + 1) (num s - where' - 1))
                      else data s)
             in (ret, Some (s\<lparr>data := d, num := num s - 1\<rparr>))))"

definition sk_delete_ptr :: "('p, 'c) STACK option \<Rightarrow> 'p ptr \<Rightarrow> 'p ptr \<times> ('p, 'c) STACK option" where
  "sk_delete_ptr sk p =
     (case sk of
        None \<Rightarrow> (None, None)
      | Some s \<Rightarrow>
          (case List.find (\<lambda>i. data s ! i = p) [0..<num s] of
             None \<Rightarrow> (None, Some s)
           | Some i \<Rightarrow> sk_delete sk i))"

definition sk_is_sorted :: "('p, 'c) STACK option \<Rightarrow> bool" where
  "sk_is_sorted sk = (case sk of None \<Rightarrow> True | Some s \<Rightarrow> sorted_flag s)"

text \<open>The binary search; \<open>probe i\<close> is the comparison of \<open>p\<close> with element \<open>i\<close>.\<close>

function sk_bsearch :: "(nat \<Rightarrow> int) \<Rightarrow> nat \<Rightarrow> nat \<Rightarrow> nat option" where
  "sk_bsearch probe lo hi =
     (if lo < hi then
        (let mid = lo + (hi - lo - 1) div 2;
             r = probe mid
         in if r > 0 then sk_bsearch probe (mid + 1) hi
            else if r < 0 then sk_bsearch probe lo mid
            else if hi - lo = 1 then Some mid
            else sk_bsearch probe lo (mid + 1))
      else None)"
  by pat_completeness auto

termination sk_bsearch
  by (relation "measure (\<lambda>(probe, lo, hi). hi - lo)") auto

declare sk_bsearch.simps [simp del]

text \<open>The index found, \<open>None\<close> for the return value zero.\<close>

definition sk_find :: "('p, 'c) cmp_caller \<Rightarrow> ('p, 'c) STACK option \<Rightarrow> 'p ptr \<Rightarrow> nat option" where
  "sk_find call_cmp_func sk p =
     (case sk of
        None \<Rightarrow> None
      | Some s \<Rightarrow>
          (case comp s of
             None \<Rightarrow> List.find (\<lambda>i. data s ! i = p) [0..<num s]
           | Some c \<Rightarrow>
               if p = None then None
               else if \<not> sk_is_sorted sk then List.find (\<lambda>i. call_cmp_func c p (data s ! i) = 0) [0..<num s]
               else sk_bsearch (\<lambda>i. call_cmp_func c p (data s ! i)) 0 (num s)))"

definition sk_shift :: "('p, 'c) STACK option \<Rightarrow> 'p ptr \<times> ('p, 'c) STACK option" where
  "sk_shift sk = (case sk of None \<Rightarrow> (None, None) | Some s \<Rightarrow> if num s = 0 then (None, Some s) else sk_delete sk 0)"

text \<open>\<open>sk_push\<close> reads \<open>sk->num\<close> and must not be given \<open>NULL\<close>.\<close>

definition sk_push :: "libc_malloc \<Rightarrow> 'p ptr \<Rightarrow> ('p, 'c) STACK \<Rightarrow> 'p ptr \<Rightarrow> nat \<times> ('p, 'c) STACK option" where
  "sk_push malloc uninit s p = sk_insert malloc uninit (Some s) p (num s)"

definition sk_pop :: "('p, 'c) STACK option \<Rightarrow> 'p ptr \<times> ('p, 'c) STACK option" where
  "sk_pop sk = (case sk of None \<Rightarrow> (None, None) | Some s \<Rightarrow> if num s = 0 then (None, Some s) else sk_delete sk (num s - 1))"

definition sk_dup :: "libc_malloc \<Rightarrow> 'p ptr \<Rightarrow> ('p, 'c) STACK option \<Rightarrow> ('p, 'c) STACK option" where
  "sk_dup malloc uninit sk =
     (case sk of
        None \<Rightarrow> None
      | Some s \<Rightarrow>
          (case OPENSSL_malloc malloc sizeof_STACK of
             None \<Rightarrow> None
           | Some _ \<Rightarrow>
               (case OPENSSL_malloc malloc (size_mul sizeof_ptr (num_alloc s)) of
                  None \<Rightarrow> None
                | Some _ \<Rightarrow> Some \<lparr>num = num s, data = splice (replicate (num_alloc s) uninit) 0 (take (num s) (data s)),
                                  sorted_flag = sorted_flag s, num_alloc = num_alloc s, comp = comp s\<rparr>)))"

definition sk_sort :: "('p, 'c) cmp_caller \<Rightarrow> 'p ptr libc_qsort \<Rightarrow> ('p, 'c) STACK option \<Rightarrow> ('p, 'c) STACK option" where
  "sk_sort call_cmp_func qsort sk =
     (case sk of
        None \<Rightarrow> None
      | Some s \<Rightarrow>
          (case comp s of
             None \<Rightarrow> Some s
           | Some c \<Rightarrow>
               if sorted_flag s then Some s
               else Some (s\<lparr>data := (if num s \<ge> 2 then splice (data s) 0 (qsort (call_cmp_func c) (take (num s) (data s))) else data s),
                            sorted_flag := True\<rparr>)))"

definition sk_set_cmp_func :: "('p, 'c) STACK \<Rightarrow> 'c option \<Rightarrow> 'c option \<times> ('p, 'c) STACK" where
  "sk_set_cmp_func s c =
     (comp s, (if comp s \<noteq> c then s\<lparr>sorted_flag := False, comp := c\<rparr> else s\<lparr>comp := c\<rparr>))"

text \<open>
  The copying loop of \<open>sk_deep_copy\<close> over the indices still to do. The result is the copied array, or the
  pointers handed to \<open>free_func\<close> when a copy failed.
\<close>

fun deep_copy_loop :: "('p \<Rightarrow> 'p ptr) \<Rightarrow> 'p ptr list \<Rightarrow> nat list \<Rightarrow> 'p list + 'p ptr list" where
  "deep_copy_loop copy_func d [] = Inr d"
| "deep_copy_loop copy_func d (k # ks) =
     (case d ! k of
        None \<Rightarrow> deep_copy_loop copy_func d ks
      | Some x \<Rightarrow>
          (case copy_func x of
             None \<Rightarrow> Inl (concat (map (\<lambda>j. case d ! j of None \<Rightarrow> [] | Some y \<Rightarrow> [y]) [0..<k]))
           | Some y \<Rightarrow> deep_copy_loop copy_func (d[k := Some y]) ks))"

definition sk_deep_copy :: "libc_malloc \<Rightarrow> 'p ptr \<Rightarrow> ('p \<Rightarrow> 'p ptr) \<Rightarrow> ('p, 'c) STACK option \<Rightarrow> 'p list \<times> ('p, 'c) STACK option" where
  "sk_deep_copy malloc uninit copy_func sk =
     (case sk_dup malloc uninit sk of
        None \<Rightarrow> ([], None)
      | Some ret \<Rightarrow>
          (case deep_copy_loop copy_func (data ret) [0..<num ret] of
             Inl freed \<Rightarrow> (freed, None)
           | Inr d \<Rightarrow> ([], Some (ret\<lparr>data := d\<rparr>))))"

section \<open>The array as a list\<close>

definition sk_inv :: "('p, 'c) STACK \<Rightarrow> bool" where
  "sk_inv s \<longleftrightarrow> length (data s) = num_alloc s \<and> num s < num_alloc s \<and> num_alloc s * sizeof_ptr < SIZE_MOD"

definition elems :: "('p, 'c) STACK \<Rightarrow> 'p ptr list" where
  "elems s = take (num s) (data s)"

lemma length_elems: "sk_inv s \<Longrightarrow> length (elems s) = num s"
  by (simp add: sk_inv_def elems_def)

lemma nth_elems: "i < num s \<Longrightarrow> elems s ! i = data s ! i"
  by (simp add: elems_def)

lemma sk_new_facts:
  "sk_new malloc c = Some s \<Longrightarrow> sk_inv s \<and> elems s = [] \<and> comp s = c \<and> \<not> sorted_flag s"
  by (auto simp: sk_new_def sk_inv_def elems_def kMinSize_def sizeof_ptr_def SIZE_MOD_def split: option.splits)

lemma size_mul_ptr_exact: "size_mul m sizeof_ptr div sizeof_ptr = m \<longleftrightarrow> m * sizeof_ptr < SIZE_MOD"
proof -
  have M: "SIZE_MOD = 2 ^ 61 * 8" by (simp add: SIZE_MOD_def)
  have "(m * 8) mod (2 ^ 61 * 8) = (m mod 2 ^ 61) * 8" by (rule mod_mult_mult2)
  then have "(m * 8) mod (2 ^ 61 * 8) div 8 = m mod 2 ^ 61" by simp
  then show ?thesis by (auto simp: size_mul_def sizeof_ptr_def M)
qed

lemma grow_alloc_Some:
  assumes "grow_alloc n = Some m" "n * sizeof_ptr < SIZE_MOD" "0 < n"
  shows "n < m" "m * sizeof_ptr < SIZE_MOD"
proof -
  have d: "size_mul n 2 = 2 * n" "size_add n 1 = n + 1"
    using assms(2) by (simp_all add: size_mul_def size_add_def sizeof_ptr_def SIZE_MOD_def)
  show "n < m" "m * sizeof_ptr < SIZE_MOD"
    using assms(1,3) unfolding grow_alloc_def size_mul_ptr_exact Let_def d
    by (auto split: if_splits simp: size_mul_ptr_exact)
qed

lemma take_list_update_end: "n < length xs \<Longrightarrow> take (Suc n) (xs[n := x]) = take n xs @ [x]"
  by (simp add: take_Suc_conv_app_nth)

lemma insert_in_place:
  assumes "w < n" "n < length d"
  shows "take (Suc n) ((splice d (w + 1) (slice d w (n - w)))[w := p]) = take w (take n d) @ p # drop w (take n d)"
proof -
  have "splice d (w + 1) (slice d w (n - w)) = take w d @ [d ! w] @ drop w (take n d) @ drop (Suc n) d"
    using assms by (simp add: splice_def slice_def drop_take take_Suc_conv_app_nth)
  then show ?thesis using assms by (simp add: list_update_append min_def Suc_diff_le)
qed

lemma delete_in_place:
  assumes "w < n" "n \<le> length d"
  shows "take (n - 1) (splice d w (slice d (w + 1) (n - w - 1))) = take w (take n d) @ drop (Suc w) (take n d)"
proof -
  have "min (n - 1) w = w" "min w (n - 1) = w" using assms by simp_all
  with assms show ?thesis by (simp add: splice_def slice_def drop_take)
qed

text \<open>Making room for one more element changes no element; it fails only when there is no memory for it.\<close>

definition reserve_one :: "libc_malloc \<Rightarrow> 'p ptr \<Rightarrow> ('p, 'c) STACK \<Rightarrow> ('p, 'c) STACK option" where
  "reserve_one malloc uninit s =
     (if num_alloc s \<le> num s + 1 then
        (case grow_alloc (num_alloc s) of
           None \<Rightarrow> None
         | Some new_alloc \<Rightarrow> map_option (\<lambda>d. s\<lparr>data := d, num_alloc := new_alloc\<rparr>) (realloc_ptrs malloc uninit (data s) new_alloc))
      else Some s)"

lemma reserve_one_Some:
  assumes "sk_inv s" "reserve_one malloc uninit s = Some s1"
  shows "sk_inv s1" "num s1 = num s" "num s + 1 < num_alloc s1" "elems s1 = elems s" "comp s1 = comp s"
proof -
  consider "s1 = s" "num s + 1 < num_alloc s"
    | m d where "num_alloc s \<le> num s + 1" "grow_alloc (num_alloc s) = Some m"
        "realloc_ptrs malloc uninit (data s) m = Some d" "s1 = s\<lparr>data := d, num_alloc := m\<rparr>"
    using assms(2) by (fastforce simp: reserve_one_def split: if_splits option.splits)
  then have "sk_inv s1 \<and> num s1 = num s \<and> num s + 1 < num_alloc s1 \<and> elems s1 = elems s \<and> comp s1 = comp s"
  proof cases
    case 1
    then show ?thesis using assms(1) by simp
  next
    case (2 m d)
    have "num_alloc s < m" "m * sizeof_ptr < SIZE_MOD" using grow_alloc_Some [OF 2(2)] assms(1) by (auto simp: sk_inv_def)
    moreover have "d = data s @ replicate (m - num_alloc s) uninit"
      using 2(3) assms(1) calculation(1) by (auto simp: realloc_ptrs_def splice_def sk_inv_def split: option.splits)
    ultimately show ?thesis using 2(1,4) assms(1) by (auto simp: sk_inv_def elems_def)
  qed
  then show "sk_inv s1" "num s1 = num s" "num s + 1 < num_alloc s1" "elems s1 = elems s" "comp s1 = comp s" by simp_all
qed

lemma sk_insert_alt:
  "sk_insert malloc uninit (Some s) p w =
     (case reserve_one malloc uninit s of
        None \<Rightarrow> (0, Some s)
      | Some s \<Rightarrow>
          (num s + 1, Some (s\<lparr>data := (if w \<ge> num s then (data s)[num s := p]
                         else (splice (data s) (w + 1) (slice (data s) w (num s - w)))[w := p]),
             num := num s + 1, sorted_flag := False\<rparr>)))"
  by (simp add: sk_insert_def reserve_one_def Let_def split: option.splits)

lemma sk_insert_elems:
  assumes "sk_inv s" "sk_insert malloc uninit (Some s) p w = (n, Some s')"
  shows "n = 0 \<and> s' = s \<and> reserve_one malloc uninit s = None \<or>
    n = num s + 1 \<and> sk_inv s' \<and> elems s' = take w (elems s) @ p # drop w (elems s) \<and> comp s' = comp s \<and> \<not> sorted_flag s'"
proof (cases "reserve_one malloc uninit s")
  case None
  then show ?thesis using assms(2) by (simp add: sk_insert_alt)
next
  case (Some s1)
  note f = reserve_one_Some [OF assms(1) Some]
  have s': "n = num s + 1" "comp s' = comp s" "num s' = num s + 1" "num_alloc s' = num_alloc s1" "\<not> sorted_flag s'"
    "data s' = (if w \<ge> num s then (data s1)[num s := p] else (splice (data s1) (w + 1) (slice (data s1) w (num s - w)))[w := p])"
    using assms(2) f by (auto simp: sk_insert_alt Some)
  have len: "num s < length (data s1)" using f by (simp add: sk_inv_def)
  have "elems s' = take w (elems s) @ p # drop w (elems s)"
  proof (cases "w \<ge> num s")
    case True
    then show ?thesis
      using s' len take_list_update_end [OF len, of p] f(2,4) length_elems [OF assms(1)] by (simp add: elems_def)
  next
    case False
    then show ?thesis
      using s' insert_in_place [of w "num s" "data s1" p] len f(2,4) by (simp add: elems_def del: take_take)
  qed
  moreover have "sk_inv s'" using f s' len by (auto simp: sk_inv_def)
  ultimately show ?thesis using s' by simp
qed

lemma sk_delete_elems:
  assumes "sk_inv s" "w < num s"
  obtains s' where "sk_delete (Some s) w = (elems s ! w, Some s')" "sk_inv s'" "elems s' = take w (elems s) @ drop (Suc w) (elems s)"
    "comp s' = comp s" "sorted_flag s' = sorted_flag s"
proof -
  let ?d = "if w \<noteq> num s - 1 then splice (data s) w (slice (data s) (w + 1) (num s - w - 1)) else data s"
  have len: "num s \<le> length (data s)" "length ?d = length (data s)" using assms by (auto simp: sk_inv_def)
  have "take (num s - 1) ?d = take w (elems s) @ drop (Suc w) (elems s)"
    using delete_in_place [OF assms(2) len(1)] assms(2) len(1)
    by (cases "w = num s - 1") (auto simp: elems_def min_def)
  then show thesis
    using assms len by (intro that [of "s\<lparr>data := ?d, num := num s - 1\<rparr>"]) (auto simp: sk_delete_def elems_def sk_inv_def)
qed

section \<open>Histories of operations\<close>

text \<open>
  What a caller may do to a live stack, executed by the code and by the list it stands for. The
  code's side returns \<open>None\<close> when an insertion fails; otherwise the pointer the call returns (for
  the insertions and \<open>sk_zero\<close>, which return none, \<open>NULL\<close>) and the stack afterwards.
\<close>

datatype 'p sk_op =
    Insert "'p ptr" nat | Push "'p ptr" | Pop | Shift | Delete nat | Delete_Ptr "'p ptr" | Set_At nat "'p ptr" | Zero

definition inserted :: "nat \<times> ('p, 'c) STACK option \<Rightarrow> ('p ptr \<times> ('p, 'c) STACK) option" where
  "inserted r = (if fst r = 0 then None else map_option (Pair None) (snd r))"

definition returned :: "'p ptr \<times> ('p, 'c) STACK option \<Rightarrow> ('p ptr \<times> ('p, 'c) STACK) option" where
  "returned r = map_option (Pair (fst r)) (snd r)"

fun sk_exec :: "libc_malloc \<Rightarrow> 'p ptr \<Rightarrow> 'p sk_op \<Rightarrow> ('p, 'c) STACK \<Rightarrow> ('p ptr \<times> ('p, 'c) STACK) option" where
  "sk_exec malloc uninit (Insert p w) s = inserted (sk_insert malloc uninit (Some s) p w)"
| "sk_exec malloc uninit (Push p) s = inserted (sk_push malloc uninit s p)"
| "sk_exec malloc uninit Pop s = returned (sk_pop (Some s))"
| "sk_exec malloc uninit Shift s = returned (sk_shift (Some s))"
| "sk_exec malloc uninit (Delete w) s = returned (sk_delete (Some s) w)"
| "sk_exec malloc uninit (Delete_Ptr p) s = returned (sk_delete_ptr (Some s) p)"
| "sk_exec malloc uninit (Set_At i p) s = returned (sk_set (Some s) i p)"
| "sk_exec malloc uninit Zero s = returned (None, sk_zero (Some s))"

fun list_delete :: "nat \<Rightarrow> 'p ptr list \<Rightarrow> 'p ptr \<times> 'p ptr list" where
  "list_delete w xs = (if w < length xs then (xs ! w, take w xs @ drop (Suc w) xs) else (None, xs))"

fun list_exec :: "'p sk_op \<Rightarrow> 'p ptr list \<Rightarrow> 'p ptr \<times> 'p ptr list" where
  "list_exec (Insert p w) xs = (None, take w xs @ p # drop w xs)"
| "list_exec (Push p) xs = (None, xs @ [p])"
| "list_exec Pop xs = (if xs = [] then (None, []) else (last xs, butlast xs))"
| "list_exec Shift xs = (if xs = [] then (None, []) else (hd xs, tl xs))"
| "list_exec (Delete w) xs = list_delete w xs"
| "list_exec (Delete_Ptr p) xs = (if p \<in> set xs then (p, remove1 p xs) else (None, xs))"
| "list_exec (Set_At i p) xs = (if i < length xs then (p, xs[i := p]) else (None, xs))"
| "list_exec Zero xs = (None, [])"

text \<open>A history runs until an insertion fails; the pointers returned are collected.\<close>

fun sk_run :: "libc_malloc \<Rightarrow> 'p ptr \<Rightarrow> 'p sk_op list \<Rightarrow> ('p, 'c) STACK \<Rightarrow> ('p ptr list \<times> ('p, 'c) STACK) option" where
  "sk_run malloc uninit [] s = Some ([], s)"
| "sk_run malloc uninit (x # xs) s =
     (case sk_exec malloc uninit x s of
        None \<Rightarrow> None
      | Some (r, s) \<Rightarrow> map_option (\<lambda>(rs, s). (r # rs, s)) (sk_run malloc uninit xs s))"

fun list_run :: "'p sk_op list \<Rightarrow> 'p ptr list \<Rightarrow> 'p ptr list \<times> 'p ptr list" where
  "list_run [] l = ([], l)"
| "list_run (x # xs) l = (let (r, l) = list_exec x l; (rs, l) = list_run xs l in (r # rs, l))"

lemma sk_insert_exec:
  assumes "sk_inv s" "inserted (sk_insert malloc uninit (Some s) p w) = Some (r, s')"
  shows "sk_inv s' \<and> (r, elems s') = (None, take w (elems s) @ p # drop w (elems s))"
  using assms(2) sk_insert_elems [OF assms(1), of malloc uninit p w]
  by (cases "sk_insert malloc uninit (Some s) p w") (auto simp: inserted_def split: if_splits)

lemma sk_delete_exec:
  assumes "sk_inv s" "returned (sk_delete (Some s) w) = Some (r, s')"
  shows "sk_inv s' \<and> (r, elems s') = list_delete w (elems s)"
proof (cases "w < num s")
  case True
  from sk_delete_elems [OF assms(1) this] obtain s1 where "sk_delete (Some s) w = (elems s ! w, Some s1)" "sk_inv s1"
    "elems s1 = take w (elems s) @ drop (Suc w) (elems s)" by metis
  with True assms length_elems [OF assms(1)] show ?thesis by (simp add: returned_def)
next
  case False
  with assms length_elems [OF assms(1)] show ?thesis by (simp add: sk_delete_def returned_def)
qed

lemma find_upt_elems:
  assumes "sk_inv s"
  shows "List.find (\<lambda>i. P (data s ! i)) [0..<num s] = List.find (\<lambda>i. P (elems s ! i)) [0..<num s]"
  by (rule find_cong) (simp_all add: nth_elems)

lemma find_index_remove1:
  "List.find (\<lambda>i. xs ! i = p) [0..<length xs] = None \<longleftrightarrow> p \<notin> set xs"
  "List.find (\<lambda>i. xs ! i = p) [0..<length xs] = Some i \<Longrightarrow> i < length xs \<and> xs ! i = p \<and> remove1 p xs = take i xs @ drop (Suc i) xs"
proof -
  show "List.find (\<lambda>i. xs ! i = p) [0..<length xs] = None \<longleftrightarrow> p \<notin> set xs"
    by (auto simp: find_None_iff in_set_conv_nth)
  assume "List.find (\<lambda>i. xs ! i = p) [0..<length xs] = Some i"
  then have i: "i < length xs" "xs ! i = p" "\<forall>j < i. xs ! j \<noteq> p" by (auto simp: find_Some_iff)
  then have "p \<notin> set (take i xs)" by (auto simp: in_set_conv_nth)
  then have "remove1 p (take i xs @ p # drop (Suc i) xs) = take i xs @ drop (Suc i) xs" by (simp add: remove1_append)
  with i id_take_nth_drop [OF i(1)] show "i < length xs \<and> xs ! i = p \<and> remove1 p xs = take i xs @ drop (Suc i) xs" by simp
qed

lemma sk_exec_list:
  assumes inv: "sk_inv s" and ex: "sk_exec malloc uninit x s = Some (r, s')"
  shows "sk_inv s' \<and> list_exec x (elems s) = (r, elems s')"
proof (cases x)
  case (Insert p w)
  then show ?thesis using sk_insert_exec [OF inv, of malloc uninit p w r s'] ex by simp
next
  case (Push p)
  then show ?thesis
    using sk_insert_exec [OF inv, of malloc uninit p "num s" r s'] ex length_elems [OF inv] by (simp add: sk_push_def)
next
  case Pop
  then show ?thesis
    using sk_delete_exec [OF inv, of "num s - 1" r s'] ex length_elems [OF inv] inv
    by (auto simp: sk_pop_def returned_def last_conv_nth butlast_conv_take split: if_splits)
next
  case Shift
  then show ?thesis
    using sk_delete_exec [OF inv, of 0 r s'] ex length_elems [OF inv] inv
    by (auto simp: sk_shift_def returned_def hd_conv_nth drop_Suc split: if_splits)
next
  case (Delete w)
  then show ?thesis using sk_delete_exec [OF inv, of w r s'] ex by simp
next
  case (Delete_Ptr p)
  show ?thesis
  proof (cases "List.find (\<lambda>i. elems s ! i = p) [0..<num s]")
    case None
    then show ?thesis
      using Delete_Ptr ex inv find_index_remove1(1) [where xs = "elems s" and p = p] length_elems [OF inv]
      by (auto simp: sk_delete_ptr_def find_upt_elems [OF inv, of "\<lambda>x. x = p"] returned_def)
  next
    case (Some i)
    then show ?thesis
      using Delete_Ptr ex inv find_index_remove1 [where xs = "elems s" and p = p] length_elems [OF inv]
        sk_delete_exec [OF inv, of i r s']
      by (auto simp: sk_delete_ptr_def find_upt_elems [OF inv, of "\<lambda>x. x = p"])
  qed
next
  case (Set_At i p)
  then show ?thesis
    using ex inv length_elems [OF inv] by (auto simp: sk_set_def returned_def sk_inv_def elems_def take_update_swap split: if_splits)
next
  case Zero
  then show ?thesis
    using ex inv by (auto simp: sk_zero_def returned_def sk_inv_def elems_def split: if_splits)
qed

text \<open>
  C15: a stack behaves as the list of its elements under every history of insertions, deletions,
  updates, pushes, pops and shifts: as long as no insertion fails, the pointers returned and the
  elements left are those of the list operations, and the array keeps its bounds (the elements fit
  the allocation, whose size in bytes fits \<open>size_t\<close>).
\<close>

theorem sk_run_refines_list:
  assumes "sk_inv s" "sk_run malloc uninit xs s = Some (rs, s')"
  shows "sk_inv s' \<and> list_run xs (elems s) = (rs, elems s')"
  using assms
proof (induction xs arbitrary: s rs)
  case (Cons x xs)
  then obtain r s1 rs1 where "sk_exec malloc uninit x s = Some (r, s1)" "sk_run malloc uninit xs s1 = Some (rs1, s')" "rs = r # rs1"
    by (auto split: option.splits)
  with Cons.IH [of s1 rs1] sk_exec_list [OF Cons.prems(1)] show ?case by fastforce
qed simp

section \<open>Searching\<close>

text \<open>What the \<open>sorted\<close> field is documented to mean.\<close>

definition flag_honest :: "('p, 'c) cmp_caller \<Rightarrow> ('p, 'c) STACK \<Rightarrow> bool" where
  "flag_honest call_cmp_func s \<longleftrightarrow>
     (sorted_flag s \<longrightarrow> (case comp s of None \<Rightarrow> False | Some c \<Rightarrow> sorted_by (call_cmp_func c) (elems s)))"

lemma find_append: "List.find P (xs @ ys) = (case List.find P xs of None \<Rightarrow> List.find P ys | Some x \<Rightarrow> Some x)"
  by (induction xs) auto

lemma find_None_if: "(\<And>x. x \<in> set xs \<Longrightarrow> \<not> P x) \<Longrightarrow> List.find P xs = None"
  by (auto simp: find_None_iff)

lemma sk_bsearch_find:
  assumes "\<And>i j. lo \<le> i \<Longrightarrow> i \<le> j \<Longrightarrow> j < hi \<Longrightarrow> (probe i < 0 \<longrightarrow> probe j < 0) \<and> (probe j > 0 \<longrightarrow> probe i > 0)"
  shows "sk_bsearch probe lo hi = List.find (\<lambda>i. probe i = 0) [lo..<hi]"
  using assms
proof (induction probe lo hi rule: sk_bsearch.induct)
  case (1 probe lo hi)
  show ?case
  proof (cases "lo < hi")
    case True
    define mid where "mid = lo + (hi - lo - 1) div 2"
    have m: "lo \<le> mid" "mid < hi" using True by (auto simp: mid_def)
    note IH = "1.IH" [OF True mid_def refl]
    have rec: "sk_bsearch probe lo hi = (if probe mid > 0 then sk_bsearch probe (mid + 1) hi
        else if probe mid < 0 then sk_bsearch probe lo mid else if hi - lo = 1 then Some mid else sk_bsearch probe lo (mid + 1))"
      using True by (subst sk_bsearch.simps) (simp add: mid_def Let_def)
    have split: "[lo..<hi] = [lo..<mid + 1] @ [mid + 1..<hi]" "[lo..<hi] = [lo..<mid] @ [mid..<hi]" "[lo..<mid + 1] = [lo..<mid] @ [mid]"
      using m upt_add_eq_append [of lo mid "hi - mid"] upt_add_eq_append [of lo "mid + 1" "hi - (mid + 1)"] by simp_all
    consider "probe mid > 0" | "probe mid < 0" | "probe mid = 0" "hi - lo = 1" | "probe mid = 0" "hi - lo \<noteq> 1" by linarith
    then show ?thesis
    proof cases
      case 1
      have "List.find (\<lambda>i. probe i = 0) [lo..<mid + 1] = None"
        by (rule find_None_if) (use "1.prems" [of _ mid] m 1 in fastforce)
      moreover have "sk_bsearch probe (mid + 1) hi = List.find (\<lambda>i. probe i = 0) [mid + 1..<hi]"
        by (rule IH(1) [OF 1], rule "1.prems") (use m in simp_all)
      ultimately show ?thesis using 1 by (simp add: rec split(1) find_append del: upt_Suc)
    next
      case 2
      have "List.find (\<lambda>i. probe i = 0) [mid..<hi] = None"
        by (rule find_None_if) (use "1.prems" [of mid] m 2 in fastforce)
      moreover have "sk_bsearch probe lo mid = List.find (\<lambda>i. probe i = 0) [lo..<mid]"
        by (rule IH(2), use 2 in simp, rule 2, rule "1.prems") (use m in simp_all)
      ultimately show ?thesis using 2 by (simp add: rec split(2) find_append del: upt_Suc split: option.split)
    next
      case 3
      then have "[lo..<hi] = [mid]" using m by (simp add: upt_conv_Cons mid_def)
      with 3 show ?thesis by (simp add: rec)
    next
      case 4
      have "List.find (\<lambda>i. probe i = 0) [lo..<mid + 1] \<noteq> None" using m 4 by (auto simp: find_None_iff)
      moreover have "sk_bsearch probe lo (mid + 1) = List.find (\<lambda>i. probe i = 0) [lo..<mid + 1]"
        by (rule IH(3), use 4 in simp, use 4 in simp, rule 4, rule "1.prems") (use m in simp_all)
      ultimately show ?thesis using 4 by (auto simp: rec split(1) find_append simp del: upt_Suc)
    qed
  next
    case False
    then show ?thesis by (subst sk_bsearch.simps) simp
  qed
qed

lemma flag_honest_probe:
  assumes "cmp_order f" "sorted_by f xs" "i \<le> j" "j < length xs"
  shows "(f p (xs ! i) < 0 \<longrightarrow> f p (xs ! j) < 0) \<and> (f p (xs ! j) > 0 \<longrightarrow> f p (xs ! i) > 0)"
proof (cases "i = j")
  case False
  then have ij: "f (xs ! i) (xs ! j) \<le> 0" using assms(2-4) by (simp add: sorted_by_def sorted_wrt_iff_nth_less)
  have sym: "(f x y < 0) = (f y x > 0)" and tr: "f x y \<le> 0 \<Longrightarrow> f y z \<le> 0 \<Longrightarrow> f x z \<le> 0" for x y z
    using assms(1) by (auto simp: cmp_order_on_def)
  have "f p (xs ! j) < 0" if "f p (xs ! i) < 0"
  proof (rule ccontr)
    assume "\<not> f p (xs ! j) < 0"
    then have "f (xs ! j) p \<le> 0" using sym [of p "xs ! j"] by linarith
    from tr [OF ij this] sym [of p "xs ! i"] that show False by linarith
  qed
  moreover have "f p (xs ! i) > 0" if "f p (xs ! j) > 0"
  proof (rule ccontr)
    assume "\<not> f p (xs ! i) > 0"
    then have "f p (xs ! i) \<le> 0" by linarith
    from tr [OF this ij] that show False by linarith
  qed
  ultimately show ?thesis by blast
qed simp

text \<open>
  C16: \<open>sk_find\<close> returns the first element that matches, whichever way it searches. With a
  comparison function that is a consistent order and a truthful \<open>sorted\<close> flag, the binary search
  finds the same index as a scan from the front, and both fail exactly when nothing matches.
\<close>

theorem sk_find_is_first_match:
  assumes "sk_inv s" "comp s = Some c" "cmp_order (call_cmp_func c)" "flag_honest call_cmp_func s" "p \<noteq> None"
  shows "sk_find call_cmp_func (Some s) p = List.find (\<lambda>i. call_cmp_func c p (elems s ! i) = 0) [0..<length (elems s)]"
proof (cases "sorted_flag s")
  case True
  let ?probe = "\<lambda>i. call_cmp_func c p (data s ! i)"
  have srt: "sorted_by (call_cmp_func c) (elems s)" using assms(2,4) True by (simp add: flag_honest_def)
  have "sk_bsearch ?probe 0 (num s) = List.find (\<lambda>i. ?probe i = 0) [0..<num s]"
  proof (rule sk_bsearch_find)
    fix i j :: nat
    assume "i \<le> j" "j < num s"
    with flag_honest_probe [OF assms(3) srt, of i j p] length_elems [OF assms(1)]
    show "(?probe i < 0 \<longrightarrow> ?probe j < 0) \<and> (?probe j > 0 \<longrightarrow> ?probe i > 0)" by (simp add: nth_elems)
  qed
  with assms True show ?thesis
    by (auto simp: sk_find_def sk_is_sorted_def length_elems find_upt_elems [where P = "\<lambda>x. call_cmp_func c p x = 0"])
next
  case False
  with assms show ?thesis
    by (auto simp: sk_find_def sk_is_sorted_def length_elems find_upt_elems [where P = "\<lambda>x. call_cmp_func c p x = 0"])
qed

text \<open>Sorting makes the flag truthful, and the other operations keep it so, all but \<open>sk_set\<close>.\<close>

lemma sk_sort_flag_honest:
  assumes "sk_inv s" "comp s = Some c" "cmp_order (call_cmp_func c)" "flag_honest call_cmp_func s" "qsort_law qsort"
    and "sk_sort call_cmp_func qsort (Some s) = Some s'"
  shows "sk_inv s' \<and> flag_honest call_cmp_func s' \<and> sorted_flag s' \<and> mset (elems s') = mset (elems s)"
proof (cases "sorted_flag s")
  case True
  then show ?thesis using assms by (simp add: sk_sort_def)
next
  case False
  let ?q = "qsort (call_cmp_func c) (elems s)"
  have q: "mset ?q = mset (elems s)" "sorted_by (call_cmp_func c) ?q" using assms(3,5) by (auto simp: qsort_law_def cmp_order_on_def)
  have len: "length ?q = num s" using q(1) length_elems [OF assms(1)] by (metis size_mset)
  have "s' = s\<lparr>data := (if num s \<ge> 2 then splice (data s) 0 ?q else data s), sorted_flag := True\<rparr>"
    using assms(2,6) False by (auto simp: sk_sort_def elems_def)
  moreover have "sorted_by (call_cmp_func c) (elems s)" if "\<not> 2 \<le> num s"
    using that length_elems [OF assms(1)] by (simp add: sorted_by_def sorted_wrt01)
  moreover have "take (num s) (splice (data s) 0 ?q) = ?q" using len by (simp add: splice_def)
  ultimately show ?thesis
    using assms(1,2) q len by (auto simp: sk_inv_def flag_honest_def elems_def)
qed

lemma flag_honest_insert:
  "sk_inv s \<Longrightarrow> flag_honest f s \<Longrightarrow> sk_insert malloc uninit (Some s) p w = (n, Some s') \<Longrightarrow> flag_honest f s'"
  using sk_insert_elems [of s malloc uninit p w n s'] by (auto simp: flag_honest_def)

lemma sorted_by_delete: "sorted_by f xs \<Longrightarrow> sorted_by f (take w xs @ drop (Suc w) xs)"
  using sorted_wrt_append [of "\<lambda>x y. f x y \<le> 0" "take w xs" "drop w xs"]
    set_drop_subset_set_drop [of w "Suc w" xs]
  by (auto simp: sorted_by_def sorted_wrt_append sorted_wrt_drop sorted_wrt_take)

lemma flag_honest_delete:
  assumes "sk_inv s" "flag_honest f s" "sk_delete (Some s) w = (r, Some s')"
  shows "flag_honest f s'"
proof (cases "w < num s")
  case True
  from sk_delete_elems [OF assms(1) this] obtain s1 where "sk_delete (Some s) w = (elems s ! w, Some s1)"
    "elems s1 = take w (elems s) @ drop (Suc w) (elems s)" "comp s1 = comp s" "sorted_flag s1 = sorted_flag s" by metis
  then show ?thesis using assms(2,3) by (auto simp: flag_honest_def sorted_by_delete split: option.splits)
qed (use assms in \<open>simp add: sk_delete_def\<close>)

lemma flag_honest_set_cmp_func: "flag_honest f s \<Longrightarrow> flag_honest f (snd (sk_set_cmp_func s c))"
  by (auto simp: sk_set_cmp_func_def flag_honest_def elems_def split: option.splits)

definition int_cmp :: "(int, unit) cmp_caller" where
  "int_cmp c x y = (case (x, y) of (Some a, Some b) \<Rightarrow> a - b | (None, None) \<Rightarrow> 0 | (None, _) \<Rightarrow> - 1 | (_, None) \<Rightarrow> 1)"

definition sorted_123 :: "(int, unit) STACK" where
  "sorted_123 = \<lparr>num = 3, data = [Some 1, Some 2, Some 3, None], sorted_flag = True, num_alloc = 4, comp = Some ()\<rparr>"

text \<open>The function \<open>sk_set\<close> leaves the \<open>sorted\<close> flag standing. On a sorted stack of 1, 2, 3 it replaces the first
  element by 9; the flag still claims the stack is sorted, and \<open>sk_find\<close>, searching in halves,
  misses the 9 that is there.
\<close>

lemma sk_set_leaves_sorted_flag:
  "flag_honest int_cmp sorted_123 \<and>
   (case sk_set (Some sorted_123) 0 (Some 9) of (_, sk) \<Rightarrow>
      sk_is_sorted sk \<and> sk_value sk 0 = Some 9 \<and> sk_find int_cmp sk (Some 9) = None)"
  by (simp add: flag_honest_def sorted_by_def elems_def sorted_123_def sk_set_def sk_is_sorted_def sk_value_def
      sk_find_def sk_bsearch.simps int_cmp_def)

lemma int_cmp_order: "cmp_order (int_cmp c)"
  by (auto simp: cmp_order_on_def int_cmp_def split: option.splits)

theorem sk_find_is_first_match_witness:
  "sk_find int_cmp (Some sorted_123) (Some 2) = Some 1"
proof -
  have "sk_inv sorted_123" by (simp add: sk_inv_def sorted_123_def sizeof_ptr_def SIZE_MOD_def)
  moreover have "flag_honest int_cmp sorted_123" by (simp add: flag_honest_def sorted_by_def elems_def sorted_123_def int_cmp_def)
  ultimately show ?thesis
    using sk_find_is_first_match [of sorted_123 "()" int_cmp "Some 2"] int_cmp_order
    by (simp add: sorted_123_def elems_def int_cmp_def upt_rec)
qed

definition served :: libc_malloc where
  "served n = (if n \<le> 100 then Some (replicate n 0) else None)"

lemma served_malloc: "n \<le> 92 \<Longrightarrow> \<exists>blk. OPENSSL_malloc served n = Some blk"
  by (simp add: OPENSSL_malloc_def served_def OPENSSL_MALLOC_PREFIX_def size_add_def SIZE_MOD_def)

theorem sk_run_refines_list_witness:
  "\<exists>s s' :: (int, unit) STACK. sk_new_null served = Some s \<and>
     sk_run served None [Push (Some 7), Insert (Some 8) 0, Push (Some 9), Push (Some 4), Shift, Pop] s =
       Some ([None, None, None, None, Some 8, Some 4], s') \<and> elems s' = [Some 7, Some 9]"
proof -
  let ?ops = "[Push (Some 7), Insert (Some 8) 0, Push (Some 9), Push (Some 4), Shift, Pop] :: int sk_op list"
  obtain s :: "(int, unit) STACK" where s: "sk_new_null served = Some s"
    "s = \<lparr>num = 0, data = [None, None, None, None], sorted_flag = False, num_alloc = 4, comp = None\<rparr>"
    using served_malloc [of 40] served_malloc [of 32]
    by (auto simp: sk_new_null_def sk_new_def sizeof_STACK_def sizeof_ptr_def kMinSize_def numeral_eq_Suc)
  obtain blk where blk: "OPENSSL_malloc served 64 = Some blk" using served_malloc [of 64] by auto
  have "sk_run served None ?ops s \<noteq> None"
    by (simp add: s(2) sk_push_def sk_insert_def inserted_def grow_alloc_def realloc_ptrs_def size_mul_def sizeof_ptr_def
        SIZE_MOD_def blk returned_def sk_shift_def sk_pop_def sk_delete_def splice_def slice_def)
  then obtain rs s' where r: "sk_run served None ?ops s = Some (rs, s')" by auto
  have "sk_inv s" by (simp add: s(2) sk_inv_def sizeof_ptr_def SIZE_MOD_def)
  from sk_run_refines_list [OF this r] r s(1) show ?thesis by (simp add: s(2) elems_def del: sk_run.simps)
qed

section \<open>Last in, first out\<close>

text \<open>
  The contract of a stack as its users rely on it: a push appends, a pop takes the last element
  off. What is pushed comes back in reverse order and the stack is left as it was.
\<close>

locale lifo =
  fixes inv :: "'s \<Rightarrow> bool" and view :: "'s \<Rightarrow> 'a list"
    and push :: "'s \<Rightarrow> 'a \<Rightarrow> 's option" and pop :: "'s \<Rightarrow> 'a \<times> 's"
  assumes push_law: "inv s \<Longrightarrow> push s x = Some s' \<Longrightarrow> inv s' \<and> view s' = view s @ [x]"
    and pop_law: "inv s \<Longrightarrow> view s \<noteq> [] \<Longrightarrow> pop s = (x, s') \<Longrightarrow> inv s' \<and> view s = view s' @ [x]"
begin

fun pushes :: "'s \<Rightarrow> 'a list \<Rightarrow> 's option" where
  "pushes s [] = Some s"
| "pushes s (x # xs) = (case push s x of None \<Rightarrow> None | Some s \<Rightarrow> pushes s xs)"

fun pops :: "'s \<Rightarrow> nat \<Rightarrow> 'a list \<times> 's" where
  "pops s 0 = ([], s)"
| "pops s (Suc n) = (let (x, s) = pop s; (xs, s) = pops s n in (x # xs, s))"

lemma pushes_view: "inv s \<Longrightarrow> pushes s xs = Some s' \<Longrightarrow> inv s' \<and> view s' = view s @ xs"
  by (induction xs arbitrary: s) (use push_law in \<open>fastforce split: option.splits\<close>)+

lemma pops_view: "inv s \<Longrightarrow> view s = xs @ ys \<Longrightarrow> \<exists>s'. pops s (length ys) = (rev ys, s') \<and> inv s' \<and> view s' = xs"
proof (induction ys arbitrary: s rule: rev_induct)
  case (snoc y ys)
  obtain x s1 where p: "pop s = (x, s1)" by fastforce
  with pop_law [OF snoc.prems(1) _ p] snoc.prems(2) have "inv s1" "view s1 = xs @ ys" "x = y" by auto
  with snoc.IH [of s1] p show ?case by auto
qed simp

lemma lifo_order:
  assumes "inv s" "pushes s xs = Some s1" "pops s1 (length xs) = (ys, s2)"
  shows "ys = rev xs \<and> view s2 = view s"
  using pops_view [of s1 "view s" xs] pushes_view [OF assms(1,2)] assms(3) by auto

end

definition push_ok :: "libc_malloc \<Rightarrow> 'p ptr \<Rightarrow> ('p, 'c) STACK \<Rightarrow> 'p ptr \<Rightarrow> ('p, 'c) STACK option" where
  "push_ok malloc uninit s p = map_option snd (inserted (sk_push malloc uninit s p))"

definition pop_ok :: "('p, 'c) STACK \<Rightarrow> 'p ptr \<times> ('p, 'c) STACK" where
  "pop_ok s = (case sk_pop (Some s) of (x, Some s') \<Rightarrow> (x, s') | (x, None) \<Rightarrow> (x, s))"

interpretation sk: lifo sk_inv elems "push_ok malloc uninit" pop_ok
proof
  fix s s' :: "('a, 'b) STACK" and x
  assume inv: "sk_inv s" and "push_ok malloc uninit s x = Some s'"
  then obtain r where "sk_exec malloc uninit (Push x) s = Some (r, s')" by (auto simp: push_ok_def)
  from sk_exec_list [OF inv this] show "sk_inv s' \<and> elems s' = elems s @ [x]" by simp
next
  fix s s' :: "('a, 'b) STACK" and x
  assume inv: "sk_inv s" and ne: "elems s \<noteq> []" and "pop_ok s = (x, s')"
  then have "sk_exec malloc uninit Pop s = Some (x, s')"
    using length_elems [OF inv]
    by (auto simp: pop_ok_def returned_def sk_pop_def sk_delete_def Let_def split: prod.splits option.splits if_splits)
  from sk_exec_list [OF inv this] ne show "sk_inv s' \<and> elems s = elems s' @ [x]" by (simp split: if_splits) (metis append_butlast_last_id)
qed

end
