(* ===== verification/Lhash.thy ===== *)
theory Lhash
  imports Mem "HOL-Library.Multiset"
begin

text \<open>
  The hash table of \<open>crypto/lhash/lhash.c\<close>. The elements are non-null pointers \<open>'d\<close>; the table's
  hash and comparison functions are names that \<open>call_hash_func\<close> and \<open>call_cmp_func\<close> apply, as in the
  code. A chain is the list of its items, so a pointer to a \<open>next\<close> field is a bucket and a position
  in its chain, and the null pointer at the end is the position after the last item. The table is
  shown to behave as a map from elements, up to the comparison, to elements.
\<close>

section \<open>The code\<close>

record 'd LHASH_ITEM =
  item_data :: 'd
  item_hash :: u32

record ('d, 'h, 'c) LHASH =
  num_items :: nat
  buckets :: "'d LHASH_ITEM list list"
  num_buckets :: nat
  callback_depth :: u32
  lh_comp :: 'c
  lh_hash :: 'h

type_synonym ('d, 'h) hash_caller = "'h \<Rightarrow> 'd \<Rightarrow> u32"
type_synonym ('d, 'c) eq_caller = "'c \<Rightarrow> 'd \<Rightarrow> 'd \<Rightarrow> int"

definition kMinNumBuckets :: nat where "kMinNumBuckets = 16"
definition kMaxAverageChainLength :: nat where "kMaxAverageChainLength = 2"
definition kMinAverageChainLength :: nat where "kMinAverageChainLength = 1"

text \<open>\<open>sizeof(_LHASH)\<close>, \<open>sizeof(LHASH_ITEM *)\<close> and \<open>sizeof(LHASH_ITEM)\<close>\<close>

definition sizeof_LHASH :: nat where "sizeof_LHASH = 48"
definition sizeof_item_ptr :: nat where "sizeof_item_ptr = 8"
definition sizeof_item :: nat where "sizeof_item = 24"

definition OPENSSL_lh_new :: "libc_malloc \<Rightarrow> 'h \<Rightarrow> 'c \<Rightarrow> ('d, 'h, 'c) LHASH option" where
  "OPENSSL_lh_new malloc hash cmp =
     (case OPENSSL_malloc malloc sizeof_LHASH of
        None \<Rightarrow> None
      | Some _ \<Rightarrow>
          (case OPENSSL_malloc malloc (sizeof_item_ptr * kMinNumBuckets) of
             None \<Rightarrow> None
           | Some _ \<Rightarrow> Some \<lparr>num_items = 0, buckets = replicate kMinNumBuckets [], num_buckets = kMinNumBuckets,
                             callback_depth = 0, lh_comp = cmp, lh_hash = hash\<rparr>))"

definition OPENSSL_lh_num_items :: "('d, 'h, 'c) LHASH \<Rightarrow> nat" where
  "OPENSSL_lh_num_items lh = num_items lh"

text \<open>The hash, the bucket and the position in its chain of the first item that compares equal.\<close>

definition get_next_ptr_and_hash ::
  "('d, 'h) hash_caller \<Rightarrow> ('d, 'c) eq_caller \<Rightarrow> ('d, 'h, 'c) LHASH \<Rightarrow> 'd \<Rightarrow> u32 \<times> nat \<times> nat" where
  "get_next_ptr_and_hash call_hash_func call_cmp_func lh d =
     (let hash = call_hash_func (lh_hash lh) d;
          b = unat hash mod num_buckets lh
      in (hash, b, length (takeWhile (\<lambda>cur. call_cmp_func (lh_comp lh) (item_data cur) d \<noteq> 0) (buckets lh ! b))))"

definition get_next_ptr_by_key :: "('k \<Rightarrow> 'd \<Rightarrow> int) \<Rightarrow> ('d, 'h, 'c) LHASH \<Rightarrow> 'k \<Rightarrow> u32 \<Rightarrow> nat \<times> nat" where
  "get_next_ptr_by_key cmp_key lh key key_hash =
     (let b = unat key_hash mod num_buckets lh
      in (b, length (takeWhile (\<lambda>cur. cmp_key key (item_data cur) \<noteq> 0) (buckets lh ! b))))"

text \<open>\<open>*next_ptr\<close>, \<open>None\<close> for \<open>NULL\<close>\<close>

definition deref_next :: "('d, 'h, 'c) LHASH \<Rightarrow> nat \<Rightarrow> nat \<Rightarrow> 'd LHASH_ITEM option" where
  "deref_next lh b k = (if k < length (buckets lh ! b) then Some (buckets lh ! b ! k) else None)"

definition OPENSSL_lh_retrieve ::
  "('d, 'h) hash_caller \<Rightarrow> ('d, 'c) eq_caller \<Rightarrow> ('d, 'h, 'c) LHASH \<Rightarrow> 'd \<Rightarrow> 'd option" where
  "OPENSSL_lh_retrieve call_hash_func call_cmp_func lh d =
     (let (_, b, k) = get_next_ptr_and_hash call_hash_func call_cmp_func lh d
      in map_option item_data (deref_next lh b k))"

definition OPENSSL_lh_retrieve_key :: "('k \<Rightarrow> 'd \<Rightarrow> int) \<Rightarrow> ('d, 'h, 'c) LHASH \<Rightarrow> 'k \<Rightarrow> u32 \<Rightarrow> 'd option" where
  "OPENSSL_lh_retrieve_key cmp_key lh key key_hash =
     (let (b, k) = get_next_ptr_by_key cmp_key lh key key_hash in map_option item_data (deref_next lh b k))"

text \<open>One item moves to the front of its new chain.\<close>

definition move_item :: "nat \<Rightarrow> 'd LHASH_ITEM \<Rightarrow> 'd LHASH_ITEM list list \<Rightarrow> 'd LHASH_ITEM list list" where
  "move_item new_num_buckets cur new_buckets =
     (let new_bucket = unat (item_hash cur) mod new_num_buckets
      in new_buckets[new_bucket := cur # new_buckets ! new_bucket])"

definition lh_rebucket :: "libc_malloc \<Rightarrow> ('d, 'h, 'c) LHASH \<Rightarrow> nat \<Rightarrow> ('d, 'h, 'c) LHASH" where
  "lh_rebucket malloc lh new_num_buckets =
     (let alloc_size = size_mul sizeof_item_ptr new_num_buckets
      in if alloc_size div sizeof_item_ptr \<noteq> new_num_buckets then lh
         else case OPENSSL_malloc malloc alloc_size of
                None \<Rightarrow> lh
              | Some _ \<Rightarrow>
                  lh\<lparr>num_buckets := new_num_buckets,
                     buckets := fold (fold (move_item new_num_buckets)) (buckets lh) (replicate new_num_buckets [])\<rparr>)"

definition lh_maybe_resize :: "libc_malloc \<Rightarrow> ('d, 'h, 'c) LHASH \<Rightarrow> ('d, 'h, 'c) LHASH" where
  "lh_maybe_resize malloc lh =
     (if callback_depth lh > 0 then lh
      else
        (let avg_chain_length = num_items lh div num_buckets lh
         in if avg_chain_length > kMaxAverageChainLength then
              (let new_num_buckets = size_mul (num_buckets lh) 2
               in if new_num_buckets > num_buckets lh then lh_rebucket malloc lh new_num_buckets else lh)
            else if avg_chain_length < kMinAverageChainLength \<and> num_buckets lh > kMinNumBuckets then
              (let new_num_buckets = num_buckets lh div 2;
                   new_num_buckets = (if new_num_buckets < kMinNumBuckets then kMinNumBuckets else new_num_buckets)
               in lh_rebucket malloc lh new_num_buckets)
            else lh))"

text \<open>The return value, \<open>*old_data\<close> (\<open>None\<close> for \<open>NULL\<close>) and the table.\<close>

definition OPENSSL_lh_insert ::
  "libc_malloc \<Rightarrow> ('d, 'h) hash_caller \<Rightarrow> ('d, 'c) eq_caller \<Rightarrow> ('d, 'h, 'c) LHASH \<Rightarrow> 'd \<Rightarrow> bool \<times> 'd option \<times> ('d, 'h, 'c) LHASH" where
  "OPENSSL_lh_insert malloc call_hash_func call_cmp_func lh d =
     (let (hash, b, k) = get_next_ptr_and_hash call_hash_func call_cmp_func lh d
      in case deref_next lh b k of
           Some it \<Rightarrow> (True, Some (item_data it), lh\<lparr>buckets := (buckets lh)[b := (buckets lh ! b)[k := it\<lparr>item_data := d\<rparr>]]\<rparr>)
         | None \<Rightarrow>
             (case OPENSSL_malloc malloc sizeof_item of
                None \<Rightarrow> (False, None, lh)
              | Some _ \<Rightarrow>
                  (let lh = lh\<lparr>buckets := (buckets lh)[b := buckets lh ! b @ [\<lparr>item_data = d, item_hash = hash\<rparr>]],
                               num_items := num_items lh + 1\<rparr>
                   in (True, None, lh_maybe_resize malloc lh))))"

definition OPENSSL_lh_delete ::
  "libc_malloc \<Rightarrow> ('d, 'h) hash_caller \<Rightarrow> ('d, 'c) eq_caller \<Rightarrow> ('d, 'h, 'c) LHASH \<Rightarrow> 'd \<Rightarrow> 'd option \<times> ('d, 'h, 'c) LHASH" where
  "OPENSSL_lh_delete malloc call_hash_func call_cmp_func lh d =
     (let (hash, b, k) = get_next_ptr_and_hash call_hash_func call_cmp_func lh d
      in case deref_next lh b k of
           None \<Rightarrow> (None, lh)
         | Some it \<Rightarrow>
             (let lh = lh\<lparr>buckets := (buckets lh)[b := take k (buckets lh ! b) @ drop (Suc k) (buckets lh ! b)],
                          num_items := num_items lh - 1\<rparr>
              in (Some (item_data it), lh_maybe_resize malloc lh)))"

text \<open>
  Iteration with a callback that updates its argument and leaves the table alone; the table comes
  back resized if it needs to be. \<open>UINT_MAX\<close> is the largest 32-bit word.
\<close>

definition OPENSSL_lh_doall_arg ::
  "libc_malloc \<Rightarrow> ('d, 'h, 'c) LHASH option \<Rightarrow> ('d \<Rightarrow> 'a \<Rightarrow> 'a) \<Rightarrow> 'a \<Rightarrow> 'a \<times> ('d, 'h, 'c) LHASH option" where
  "OPENSSL_lh_doall_arg malloc lh func arg =
     (case lh of
        None \<Rightarrow> (arg, None)
      | Some lh \<Rightarrow>
          (let lh = (if callback_depth lh < - 1 then lh\<lparr>callback_depth := callback_depth lh + 1\<rparr> else lh);
               arg = fold (fold (\<lambda>cur. func (item_data cur))) (buckets lh) arg;
               lh = (if callback_depth lh < - 1 then lh\<lparr>callback_depth := callback_depth lh - 1\<rparr> else lh)
           in (arg, Some (lh_maybe_resize malloc lh))))"

section \<open>Invariant\<close>

text \<open>What the code relies on of the two functions: equal elements have equal hashes.\<close>

definition hash_law :: "('d \<Rightarrow> u32) \<Rightarrow> ('d \<Rightarrow> 'd \<Rightarrow> int) \<Rightarrow> bool" where
  "hash_law hash cmp \<longleftrightarrow> (\<forall>x. cmp x x = 0) \<and> (\<forall>x y. cmp x y = 0 \<longrightarrow> cmp y x = 0) \<and>
     (\<forall>x y z. cmp x y = 0 \<longrightarrow> cmp y z = 0 \<longrightarrow> cmp x z = 0) \<and> (\<forall>x y. cmp x y = 0 \<longrightarrow> hash x = hash y)"

lemma hash_lawD:
  assumes "hash_law hash cmp"
  shows "cmp x x = 0" "cmp x y = 0 \<Longrightarrow> cmp y x = 0" "cmp x y = 0 \<Longrightarrow> cmp y z = 0 \<Longrightarrow> cmp x z = 0" "cmp x y = 0 \<Longrightarrow> hash x = hash y"
  using assms unfolding hash_law_def by blast+

definition items :: "('d, 'h, 'c) LHASH \<Rightarrow> 'd LHASH_ITEM multiset" where
  "items lh = mset (concat (buckets lh))"

text \<open>No two items are equal, each item carries the hash of its element, and each is in the chain of its hash.\<close>

definition all_different :: "('d \<Rightarrow> 'd \<Rightarrow> int) \<Rightarrow> 'd LHASH_ITEM multiset \<Rightarrow> bool" where
  "all_different cmp M \<longleftrightarrow> (\<forall>x \<in># M. \<forall>y \<in># M - {#x#}. cmp (item_data x) (item_data y) \<noteq> 0)"

definition in_place :: "nat \<Rightarrow> 'd LHASH_ITEM list list \<Rightarrow> bool" where
  "in_place n bs \<longleftrightarrow> length bs = n \<and> (\<forall>i < n. \<forall>it \<in> set (bs ! i). unat (item_hash it) mod n = i)"

definition lh_inv :: "('d, 'h) hash_caller \<Rightarrow> ('d, 'c) eq_caller \<Rightarrow> ('d, 'h, 'c) LHASH \<Rightarrow> bool" where
  "lh_inv H C lh \<longleftrightarrow> hash_law (H (lh_hash lh)) (C (lh_comp lh)) \<and> kMinNumBuckets \<le> num_buckets lh \<and>
     num_items lh = size (items lh) \<and> in_place (num_buckets lh) (buckets lh) \<and>
     (\<forall>it \<in># items lh. item_hash it = H (lh_hash lh) (item_data it)) \<and> all_different (C (lh_comp lh)) (items lh)"

lemma mset_concat_update:
  assumes "i < length bs"
  shows "mset (concat (bs[i := c])) + mset (bs ! i) = mset (concat bs) + mset c"
  using assms
proof (induction bs arbitrary: i)
  case (Cons x bs)
  show ?case
  proof (cases i)
    case 0
    then show ?thesis by (simp add: ac_simps)
  next
    case (Suc j)
    then show ?thesis using Cons.IH [of j] Cons.prems by (simp add: union_assoc)
  qed
qed simp

lemma in_place_update:
  "in_place n bs \<Longrightarrow> i < n \<Longrightarrow> \<forall>it \<in> set c. unat (item_hash it) mod n = i \<Longrightarrow> in_place n (bs[i := c])"
  by (auto simp: in_place_def nth_list_update)

lemma item_in_bucket:
  assumes "in_place n bs" "0 < n" "it \<in> set (concat bs)"
  shows "it \<in> set (bs ! (unat (item_hash it) mod n))"
proof -
  from assms(3) obtain i where "i < length bs" "it \<in> set (bs ! i)" by (auto simp: in_set_conv_nth) (metis nth_mem)
  with assms(1) show ?thesis by (auto simp: in_place_def)
qed

lemma all_different_remove: "all_different cmp (M + N) \<Longrightarrow> all_different cmp M"
  by (auto simp: all_different_def dest!: in_diffD multi_member_split)

lemma all_different_add:
  assumes "all_different cmp M" "\<And>x. x \<in># M \<Longrightarrow> cmp (item_data x) (item_data it) \<noteq> 0 \<and> cmp (item_data it) (item_data x) \<noteq> 0"
  shows "all_different cmp (add_mset it M)"
proof -
  have "cmp (item_data x) (item_data y) \<noteq> 0" if "x \<in># M" "y \<in># add_mset it M - {#x#}" for x y
  proof (cases "y = it")
    case False
    from that(1) obtain N where "M = add_mset x N" by (metis multi_member_split)
    with that(2) False have "y \<in># M - {#x#}" by (simp add: add_mset_commute [of it])
    with assms(1) that(1) show ?thesis by (simp add: all_different_def)
  qed (use assms(2) that(1) in blast)
  with assms(2) show ?thesis by (auto simp: all_different_def)
qed

section \<open>Rebucketing\<close>

lemma move_item_step:
  assumes "in_place n bs" "0 < n"
  shows "in_place n (move_item n it bs) \<and> mset (concat (move_item n it bs)) = add_mset it (mset (concat bs))"
proof -
  let ?i = "unat (item_hash it) mod n"
  have i: "?i < length bs" "?i < n" using assms by (simp_all add: in_place_def)
  have "mset (concat (bs[?i := it # bs ! ?i])) = add_mset it (mset (concat bs))"
    using mset_concat_update [OF i(1), of "it # bs ! ?i"] by simp
  moreover have "in_place n (bs[?i := it # bs ! ?i])"
    using assms(1) i(2) by (intro in_place_update) (auto simp: in_place_def)
  ultimately show ?thesis by (simp add: move_item_def Let_def)
qed

lemma move_items:
  assumes "in_place n bs" "0 < n"
  shows "in_place n (fold (move_item n) its bs) \<and> mset (concat (fold (move_item n) its bs)) = mset its + mset (concat bs)"
  using assms
proof (induction its arbitrary: bs)
  case (Cons it its)
  then show ?case using Cons.IH [of "move_item n it bs"] move_item_step [of n bs it] by simp
qed simp

lemma move_all_items:
  assumes "in_place n bs" "0 < n"
  shows "in_place n (fold (fold (move_item n)) cs bs) \<and>
    mset (concat (fold (fold (move_item n)) cs bs)) = mset (concat cs) + mset (concat bs)"
  using assms
proof (induction cs arbitrary: bs)
  case (Cons c cs)
  then show ?case using Cons.IH [of "fold (move_item n) c bs"] move_items [of n bs c] by (simp add: ac_simps)
qed simp

lemma in_place_empty: "in_place n (replicate n [])"
  by (simp add: in_place_def)

lemma lh_rebucket_facts:
  assumes "lh_inv H C lh" "kMinNumBuckets \<le> n"
  shows "lh_inv H C (lh_rebucket malloc lh n) \<and> items (lh_rebucket malloc lh n) = items lh \<and>
    lh_comp (lh_rebucket malloc lh n) = lh_comp lh \<and> lh_hash (lh_rebucket malloc lh n) = lh_hash lh"
proof -
  let ?bs = "fold (fold (move_item n)) (buckets lh) (replicate n [])"
  let ?lh = "lh\<lparr>num_buckets := n, buckets := ?bs\<rparr>"
  have "0 < n" using assms(2) by (simp add: kMinNumBuckets_def)
  from move_all_items [OF in_place_empty this, of "buckets lh"]
  have m: "in_place n ?bs" "items ?lh = items lh" by (simp_all add: items_def)
  have "lh_inv H C ?lh" using assms m(1) unfolding lh_inv_def m(2) by simp
  with assms(1) m(2) show ?thesis by (auto simp: lh_rebucket_def Let_def split: option.splits)
qed

lemma lh_maybe_resize_facts:
  assumes "lh_inv H C lh"
  shows "lh_inv H C (lh_maybe_resize malloc lh) \<and> items (lh_maybe_resize malloc lh) = items lh \<and>
    lh_comp (lh_maybe_resize malloc lh) = lh_comp lh \<and> lh_hash (lh_maybe_resize malloc lh) = lh_hash lh"
  using assms lh_rebucket_facts [OF assms] by (auto simp: lh_maybe_resize_def Let_def lh_inv_def)

section \<open>Lookup\<close>

lemma takeWhile_found:
  "length (takeWhile P xs) < length xs \<Longrightarrow> \<not> P (xs ! length (takeWhile P xs))"
  by (rule nth_length_takeWhile)

lemma takeWhile_not_found: "\<not> length (takeWhile P xs) < length xs \<Longrightarrow> \<forall>x \<in> set xs. P x"
  by (metis length_takeWhile_le linorder_not_less order.antisym set_takeWhileD takeWhile_eq_take take_all_iff)

text \<open>The search finds the only item equal to \<open>d\<close>, or there is none.\<close>

lemma get_next_cases:
  fixes d
  assumes "lh_inv H C lh"
  defines "b \<equiv> unat (H (lh_hash lh) d) mod num_buckets lh"
  obtains (found) k it where "get_next_ptr_and_hash H C lh d = (H (lh_hash lh) d, b, k)" "b < length (buckets lh)"
      "k < length (buckets lh ! b)" "it = buckets lh ! b ! k" "deref_next lh b k = Some it" "it \<in># items lh"
      "C (lh_comp lh) (item_data it) d = 0" "item_hash it = H (lh_hash lh) d"
    | (absent) k where "get_next_ptr_and_hash H C lh d = (H (lh_hash lh) d, b, k)" "b < length (buckets lh)"
      "deref_next lh b k = None" "\<forall>it \<in># items lh. C (lh_comp lh) (item_data it) d \<noteq> 0"
proof -
  note inv = assms(1) [unfolded lh_inv_def]
  have n: "0 < num_buckets lh" using inv by (simp add: kMinNumBuckets_def)
  have b: "b < length (buckets lh)" using inv n by (simp add: b_def in_place_def)
  define k where "k = length (takeWhile (\<lambda>cur. C (lh_comp lh) (item_data cur) d \<noteq> 0) (buckets lh ! b))"
  have g: "get_next_ptr_and_hash H C lh d = (H (lh_hash lh) d, b, k)"
    by (simp add: get_next_ptr_and_hash_def b_def k_def Let_def)
  have law: "hash_law (H (lh_hash lh)) (C (lh_comp lh))" using inv by blast
  show thesis
  proof (cases "k < length (buckets lh ! b)")
    case True
    let ?it = "buckets lh ! b ! k"
    have "?it \<in># items lh" using b True by (auto simp: items_def intro!: bexI [of _ "buckets lh ! b"])
    moreover have "C (lh_comp lh) (item_data ?it) d = 0" using takeWhile_found True unfolding k_def by blast
    moreover have "item_hash ?it = H (lh_hash lh) d"
      using calculation inv hash_lawD(4) [OF law, of "item_data ?it" d] by simp
    ultimately show thesis using g b True by (intro found [of k ?it]) (simp_all add: deref_next_def)
  next
    case False
    have "C (lh_comp lh) (item_data it) d \<noteq> 0" if it: "it \<in># items lh" for it
    proof
      assume eq: "C (lh_comp lh) (item_data it) d = 0"
      then have "item_hash it = H (lh_hash lh) d" using inv it hash_lawD(4) [OF law eq] by simp
      with item_in_bucket [of "num_buckets lh" "buckets lh" it] inv n it have "it \<in> set (buckets lh ! b)"
        by (simp add: items_def b_def)
      with takeWhile_not_found [OF False [unfolded k_def]] eq show False by blast
    qed
    with g b False show thesis by (intro absent) (simp_all add: deref_next_def)
  qed
qed

section \<open>The table as a map\<close>

lemma lh_law: "lh_inv H C lh \<Longrightarrow> hash_law (H (lh_hash lh)) (C (lh_comp lh))"
  by (simp add: lh_inv_def)

lemma items_unique:
  assumes "lh_inv H C lh" "x \<in># items lh" "y \<in># items lh" "C (lh_comp lh) (item_data x) (item_data y) = 0"
  shows "x = y"
proof (rule ccontr)
  assume "x \<noteq> y"
  with assms(3) have "y \<in># items lh - {#x#}" by (metis in_diff_count in_diffD insert_DiffM insert_noteq_member assms(2))
  with assms(1,2,4) show False by (auto simp: lh_inv_def all_different_def)
qed

lemma retrieve_iff:
  assumes "lh_inv H C lh"
  shows "OPENSSL_lh_retrieve H C lh d = Some x \<longleftrightarrow> (\<exists>it \<in># items lh. item_data it = x \<and> C (lh_comp lh) x d = 0)"
proof (rule get_next_cases [OF assms, of d], goal_cases)
  case (1 k it)
  have u: "it' = it" if "it' \<in># items lh" "C (lh_comp lh) (item_data it') d = 0" for it'
    using items_unique [OF assms that(1) 1(6)] hash_lawD(3) [OF lh_law [OF assms] that(2) hash_lawD(2) [OF lh_law [OF assms] 1(7)]]
    by blast
  have r: "OPENSSL_lh_retrieve H C lh d = Some (item_data it)" by (simp add: OPENSSL_lh_retrieve_def 1(1,5))
  show ?case by (simp only: r option.inject) (use u 1(6,7) in blast)
next
  case (2 k)
  have "OPENSSL_lh_retrieve H C lh d = None" by (simp add: OPENSSL_lh_retrieve_def 2(1,3))
  then show ?case using 2(4) by auto
qed

lemma option_eqI: "(\<And>x. a = Some x \<longleftrightarrow> b = Some x) \<Longrightarrow> a = b"
  by (metis option.exhaust)

text \<open>The items after each operation.\<close>

lemma lh_inv_replace_items:
  assumes "lh_inv H C lh" "in_place (num_buckets lh) bs" "n = size (mset (concat bs))"
    and "\<forall>it \<in># mset (concat bs). item_hash it = H (lh_hash lh) (item_data it)" "all_different (C (lh_comp lh)) (mset (concat bs))"
  shows "lh_inv H C (lh\<lparr>buckets := bs, num_items := n\<rparr>)"
  using assms by (simp add: lh_inv_def items_def)

lemma in_place_bucket: "in_place n bs \<Longrightarrow> i < n \<Longrightarrow> it \<in> set (bs ! i) \<Longrightarrow> unat (item_hash it) mod n = i"
  by (simp add: in_place_def)

lemma bucket_swap:
  assumes "b < length bs" "mset c + R = mset (bs ! b) + A"
  shows "mset (concat (bs[b := c])) + R = mset (concat bs) + A"
proof -
  have "mset (concat (bs[b := c])) + R + (mset (bs ! b) + mset c) = mset (concat bs) + mset c + (mset c + R)"
    using mset_concat_update [OF assms(1), of c] by (simp add: ac_simps)
  also have "\<dots> = mset (concat bs) + A + (mset (bs ! b) + mset c)" unfolding assms(2) by (simp add: ac_simps)
  finally show ?thesis by simp
qed

lemma mset_remove_nth: "k < length xs \<Longrightarrow> add_mset (xs ! k) (mset (take k xs @ drop (Suc k) xs)) = mset xs"
  by (metis id_take_nth_drop mset.simps(2) mset_append union_mset_add_mset_right)

lemma mset_update_nth: "k < length xs \<Longrightarrow> add_mset (xs ! k) (mset (xs[k := y])) = add_mset y (mset xs)"
  by (simp add: mset_update)

text \<open>The items other than the one equal to \<open>d\<close>.\<close>

lemma other_items:
  assumes "lh_inv H C lh" "items lh = add_mset it N" "C (lh_comp lh) (item_data it) d = 0"
  shows "all_different (C (lh_comp lh)) N" "\<forall>x \<in># N. C (lh_comp lh) (item_data x) d \<noteq> 0"
proof -
  note law = hash_lawD [OF lh_law [OF assms(1)]]
  have ad: "all_different (C (lh_comp lh)) (add_mset it N)" using assms(1,2) by (simp add: lh_inv_def)
  then show "all_different (C (lh_comp lh)) N" using all_different_remove [of _ N "{#it#}"] by simp
  have "C (lh_comp lh) (item_data it) (item_data x) \<noteq> 0" if "x \<in># N" for x
    using ad that by (auto simp: all_different_def)
  then show "\<forall>x \<in># N. C (lh_comp lh) (item_data x) d \<noteq> 0"
    using assms(3) law(2,3) by blast
qed

text \<open>A table whose items are \<open>N\<close> and possibly a new one for \<open>d\<close>, and what it retrieves.\<close>

lemma lh_inv_with_item:
  assumes "lh_inv H C lh" "\<forall>x \<in># N. x \<in># items lh \<and> C (lh_comp lh) (item_data x) d \<noteq> 0" "all_different (C (lh_comp lh)) N"
    and "in_place (num_buckets lh) bs" "mset (concat bs) = (if new then add_mset it N else N)" "n = size (mset (concat bs))"
    and "item_data it = d" "item_hash it = H (lh_hash lh) d"
  shows "lh_inv H C (lh\<lparr>buckets := bs, num_items := n\<rparr>)"
proof -
  have "all_different (C (lh_comp lh)) (add_mset it N)"
    using assms(2,3,7) hash_lawD(2) [OF lh_law [OF assms(1)]] by (intro all_different_add) auto
  with assms(3,5) have "all_different (C (lh_comp lh)) (mset (concat bs))" by simp
  moreover have "\<forall>x \<in># mset (concat bs). item_hash x = H (lh_hash lh) (item_data x)"
    using assms(1,2,5,7,8) by (auto simp: lh_inv_def split: if_splits)
  ultimately show ?thesis using assms(4,6) by (intro lh_inv_replace_items [OF assms(1)]) simp_all
qed

lemma retrieve_with_item:
  assumes inv: "lh_inv H C lh" and inv': "lh_inv H C lh'" and fn: "lh_comp lh' = lh_comp lh"
    and others: "\<forall>x. x \<in># items lh \<and> C (lh_comp lh) (item_data x) d \<noteq> 0 \<longleftrightarrow> x \<in># N"
    and it: "items lh' = (if new then add_mset it N else N)" "item_data it = d"
  shows "OPENSSL_lh_retrieve H C lh' e =
    (if C (lh_comp lh) e d = 0 then (if new then Some d else None) else OPENSSL_lh_retrieve H C lh e)"
proof (rule option_eqI)
  fix x
  note law = hash_lawD [OF lh_law [OF inv]]
  have "(\<exists>y \<in># items lh'. item_data y = x \<and> C (lh_comp lh) x e = 0) \<longleftrightarrow>
      (if C (lh_comp lh) e d = 0 then new \<and> x = d else \<exists>y \<in># items lh. item_data y = x \<and> C (lh_comp lh) x e = 0)"
  proof (cases "C (lh_comp lh) e d = 0")
    case True
    then have "C (lh_comp lh) (item_data y) e \<noteq> 0" if "y \<in># N" for y using others law(3) that by blast
    moreover have "C (lh_comp lh) d e = 0" using law(2) True by blast
    ultimately show ?thesis using True it by auto
  next
    case False
    then have "C (lh_comp lh) d e \<noteq> 0" using law(2) by blast
    moreover have "y \<in># N \<longleftrightarrow> y \<in># items lh" if "C (lh_comp lh) (item_data y) e = 0" for y
      using others law(2,3) False that by blast
    ultimately show ?thesis using False it by auto
  qed
  then show "(OPENSSL_lh_retrieve H C lh' e = Some x) =
      ((if C (lh_comp lh) e d = 0 then (if new then Some d else None) else OPENSSL_lh_retrieve H C lh e) = Some x)"
    using retrieve_iff [OF inv, of e x] retrieve_iff [OF inv', of e x] fn by auto
qed

lemma lh_insert_correct:
  assumes inv: "lh_inv H C lh" and ins: "OPENSSL_lh_insert malloc H C lh d = (True, old, lh')"
  shows "old = OPENSSL_lh_retrieve H C lh d \<and> lh_inv H C lh' \<and> lh_comp lh' = lh_comp lh \<and>
    (\<forall>e. OPENSSL_lh_retrieve H C lh' e = (if C (lh_comp lh) e d = 0 then Some d else OPENSSL_lh_retrieve H C lh e))"
proof (rule get_next_cases [OF inv, of d], goal_cases)
  case (1 k it)
  let ?b = "unat (H (lh_hash lh) d) mod num_buckets lh"
  let ?new = "it\<lparr>item_data := d\<rparr>" and ?bs = "(buckets lh)[?b := (buckets lh ! ?b)[k := it\<lparr>item_data := d\<rparr>]]"
  obtain N where N: "items lh = add_mset it N" using 1(6) by (metis multi_member_split)
  note o = other_items [OF inv N 1(7)]
  have lh': "lh' = lh\<lparr>buckets := ?bs, num_items := num_items lh\<rparr>" and old: "old = Some (item_data it)"
    using ins 1(1,5) by (auto simp: OPENSSL_lh_insert_def)
  have "mset (concat ?bs) + {#it#} = mset (concat (buckets lh)) + {#?new#}"
    using 1(2-4) mset_update_nth [of k "buckets lh ! ?b" ?new] by (intro bucket_swap) auto
  then have bs: "mset (concat ?bs) = add_mset ?new N" using N by (simp add: items_def)
  have pl: "in_place (num_buckets lh) ?bs"
    using inv 1(2-4,8) by (intro in_place_update) (auto simp: lh_inv_def in_place_def dest!: set_update_subset_insert [THEN subsetD])
  have inv': "lh_inv H C lh'"
    unfolding lh' by (rule lh_inv_with_item [where N = N and d = d and new = True and it = ?new, OF inv])
      (use o N bs pl inv 1(8) in \<open>auto simp: lh_inv_def items_def\<close>)
  have "items lh' = (if True then add_mset ?new N else N)" using bs by (simp add: lh' items_def)
  moreover have "\<forall>x. x \<in># items lh \<and> C (lh_comp lh) (item_data x) d \<noteq> 0 \<longleftrightarrow> x \<in># N" using o(2) N 1(7) by auto
  moreover have "lh_comp lh' = lh_comp lh" "OPENSSL_lh_retrieve H C lh d = old" using 1(1,5) by (simp_all add: lh' old OPENSSL_lh_retrieve_def)
  ultimately show ?case using retrieve_with_item [OF inv inv', of d N True ?new] inv' by simp
next
  case (2 k)
  let ?b = "unat (H (lh_hash lh) d) mod num_buckets lh"
  let ?new = "\<lparr>item_data = d, item_hash = H (lh_hash lh) d\<rparr>" 
  let ?bs = "(buckets lh)[?b := buckets lh ! ?b @ [?new]]" and ?N = "items lh"
  let ?lh = "lh\<lparr>buckets := ?bs, num_items := num_items lh + 1\<rparr>"
  have lh': "lh' = lh_maybe_resize malloc ?lh" and old: "old = None"
    using ins 2(1,3) by (auto simp: OPENSSL_lh_insert_def Let_def split: option.splits)
  have bs: "mset (concat ?bs) = add_mset ?new ?N"
    using bucket_swap [OF 2(2), of "buckets lh ! ?b @ [?new]" "{#}" "{#?new#}"] by (simp add: items_def)
  have pl: "in_place (num_buckets lh) ?bs"
    using inv 2(2) by (intro in_place_update) (auto simp: lh_inv_def in_place_def)
  have "lh_inv H C ?lh"
    by (rule lh_inv_with_item [where N = ?N and d = d and new = True and it = ?new, OF inv])
      (use 2(4) bs pl inv in \<open>auto simp: lh_inv_def\<close>)
  note f = lh_maybe_resize_facts [OF this, of malloc, folded lh']
  have "items lh' = (if True then add_mset ?new ?N else ?N)" using f bs by (simp add: items_def)
  moreover have "\<forall>x. x \<in># items lh \<and> C (lh_comp lh) (item_data x) d \<noteq> 0 \<longleftrightarrow> x \<in># ?N" using 2(4) by blast
  moreover have "lh_comp lh' = lh_comp lh" "OPENSSL_lh_retrieve H C lh d = old" using 2(1,3) f by (simp_all add: old OPENSSL_lh_retrieve_def)
  ultimately show ?case using retrieve_with_item [OF inv, of lh' d ?N True ?new] f by simp
qed

lemma lh_delete_correct:
  assumes inv: "lh_inv H C lh" and del: "OPENSSL_lh_delete malloc H C lh d = (old, lh')"
  shows "old = OPENSSL_lh_retrieve H C lh d \<and> lh_inv H C lh' \<and> lh_comp lh' = lh_comp lh \<and>
    (\<forall>e. OPENSSL_lh_retrieve H C lh' e = (if C (lh_comp lh) e d = 0 then None else OPENSSL_lh_retrieve H C lh e))"
proof (rule get_next_cases [OF inv, of d], goal_cases)
  case (1 k it)
  let ?b = "unat (H (lh_hash lh) d) mod num_buckets lh"
  let ?c = "take k (buckets lh ! ?b) @ drop (Suc k) (buckets lh ! ?b)"
  let ?bs = "(buckets lh)[?b := ?c]"
  let ?lh = "lh\<lparr>buckets := ?bs, num_items := num_items lh - 1\<rparr>"
  obtain N where N: "items lh = add_mset it N" using 1(6) by (metis multi_member_split)
  note o = other_items [OF inv N 1(7)]
  have lh': "lh' = lh_maybe_resize malloc ?lh" and old: "old = Some (item_data it)"
    using del 1(1,5) by (auto simp: OPENSSL_lh_delete_def Let_def)
  have "mset (concat ?bs) + {#it#} = mset (concat (buckets lh)) + {#}"
    using 1(2-4) mset_remove_nth [of k "buckets lh ! ?b"] by (intro bucket_swap) auto
  then have bs: "mset (concat ?bs) = N" using N by (simp add: items_def)
  have pl: "in_place (num_buckets lh) ?bs"
    using inv 1(2-4) by (intro in_place_update) (auto simp: lh_inv_def in_place_def dest: in_set_takeD in_set_dropD)
  have "lh_inv H C ?lh"
    by (rule lh_inv_with_item [where N = N and d = d and new = False and it = "\<lparr>item_data = d, item_hash = H (lh_hash lh) d\<rparr>", OF inv])
      (use o N bs pl inv in \<open>auto simp: lh_inv_def\<close>)
  note f = lh_maybe_resize_facts [OF this, of malloc, folded lh']
  have "items lh' = (if False then add_mset (\<lparr>item_data = d, item_hash = 0\<rparr>) N else N)" using f bs by (simp add: items_def)
  moreover have "\<forall>x. x \<in># items lh \<and> C (lh_comp lh) (item_data x) d \<noteq> 0 \<longleftrightarrow> x \<in># N" using o(2) N 1(7) by auto
  moreover have "lh_comp lh' = lh_comp lh" "OPENSSL_lh_retrieve H C lh d = old" using 1(1,5) f by (simp_all add: old OPENSSL_lh_retrieve_def)
  ultimately show ?case using retrieve_with_item [OF inv, of lh' d N False "\<lparr>item_data = d, item_hash = 0\<rparr>"] f by simp
next
  case (2 k)
  then have "lh' = lh" "old = None" using del by (auto simp: OPENSSL_lh_delete_def)
  moreover have "OPENSSL_lh_retrieve H C lh e = None" if "C (lh_comp lh) e d = 0" for e
  proof (rule ccontr)
    assume "OPENSSL_lh_retrieve H C lh e \<noteq> None"
    then obtain x where "OPENSSL_lh_retrieve H C lh e = Some x" by auto
    then obtain y where y: "y \<in># items lh" "C (lh_comp lh) (item_data y) e = 0" using retrieve_iff [OF inv, of e x] by auto
    from hash_lawD(3) [OF lh_law [OF inv] y(2) that] 2(4) y(1) show False by simp
  qed
  moreover have "OPENSSL_lh_retrieve H C lh d = None" using 2(1,3) by (simp add: OPENSSL_lh_retrieve_def)
  ultimately show ?case using inv by simp
qed

text \<open>A failed insertion changes nothing.\<close>

lemma lh_insert_failed: "OPENSSL_lh_insert malloc H C lh d = (False, old, lh') \<Longrightarrow> lh' = lh \<and> old = None"
  by (auto simp: OPENSSL_lh_insert_def Let_def split: option.splits prod.splits)

section \<open>Histories of operations\<close>

datatype 'a table_op = Put 'a | Remove 'a | Get 'a

text \<open>
  A history over any table: what each call returns, and the table afterwards; \<open>None\<close> as soon as an
  insertion fails. Beside it the same history over a map, where keys are compared by \<open>eq\<close>.
\<close>

fun table_run :: "('s \<Rightarrow> 'a \<Rightarrow> ('a option \<times> 's) option) \<Rightarrow> ('s \<Rightarrow> 'a \<Rightarrow> 'a option \<times> 's) \<Rightarrow> ('s \<Rightarrow> 'a \<Rightarrow> 'a option) \<Rightarrow>
    'a table_op list \<Rightarrow> 's \<Rightarrow> ('a option list \<times> 's) option" where
  "table_run ins del look [] s = Some ([], s)"
| "table_run ins del look (Put d # xs) s =
     (case ins s d of None \<Rightarrow> None | Some (r, s) \<Rightarrow> map_option (\<lambda>(rs, s). (r # rs, s)) (table_run ins del look xs s))"
| "table_run ins del look (Remove d # xs) s =
     (case del s d of (r, s) \<Rightarrow> map_option (\<lambda>(rs, s). (r # rs, s)) (table_run ins del look xs s))"
| "table_run ins del look (Get d # xs) s = map_option (\<lambda>(rs, s'). (look s d # rs, s')) (table_run ins del look xs s)"

fun map_run :: "('a \<Rightarrow> 'a \<Rightarrow> bool) \<Rightarrow> 'a table_op list \<Rightarrow> ('a \<Rightarrow> 'a option) \<Rightarrow> 'a option list \<times> ('a \<Rightarrow> 'a option)" where
  "map_run eq [] m = ([], m)"
| "map_run eq (Put d # xs) m = (case map_run eq xs (\<lambda>e. if eq e d then Some d else m e) of (rs, m') \<Rightarrow> (m d # rs, m'))"
| "map_run eq (Remove d # xs) m = (case map_run eq xs (\<lambda>e. if eq e d then None else m e) of (rs, m') \<Rightarrow> (m d # rs, m'))"
| "map_run eq (Get d # xs) m = (case map_run eq xs m of (rs, m') \<Rightarrow> (m d # rs, m'))"

text \<open>The contract of a table of elements compared by \<open>eq\<close>, and what its users conclude from it.\<close>

locale keyed_table =
  fixes inv :: "'s \<Rightarrow> bool" and eq :: "'a \<Rightarrow> 'a \<Rightarrow> bool" and look :: "'s \<Rightarrow> 'a \<Rightarrow> 'a option"
    and ins :: "'s \<Rightarrow> 'a \<Rightarrow> ('a option \<times> 's) option" and del :: "'s \<Rightarrow> 'a \<Rightarrow> 'a option \<times> 's"
  assumes ins_law: "inv s \<Longrightarrow> ins s d = Some (old, s') \<Longrightarrow>
      inv s' \<and> old = look s d \<and> look s' = (\<lambda>e. if eq e d then Some d else look s e)"
    and del_law: "inv s \<Longrightarrow> del s d = (old, s') \<Longrightarrow>
      inv s' \<and> old = look s d \<and> look s' = (\<lambda>e. if eq e d then None else look s e)"
begin

lemma run_refines_map:
  "inv s \<Longrightarrow> table_run ins del look xs s = Some (rs, s') \<Longrightarrow> inv s' \<and> map_run eq xs (look s) = (rs, look s')"
proof (induction xs arbitrary: s rs)
  case (Cons x xs)
  show ?case
  proof (cases x)
    case (Put d)
    with Cons.prems(2) obtain r s1 rs1 where "ins s d = Some (r, s1)" "table_run ins del look xs s1 = Some (rs1, s')" "rs = r # rs1"
      by (auto split: option.splits)
    with Cons.IH [of s1 rs1] ins_law [OF Cons.prems(1)] Put show ?thesis by force
  next
    case (Remove d)
    with Cons.prems(2) obtain r s1 rs1 where "del s d = (r, s1)" "table_run ins del look xs s1 = Some (rs1, s')" "rs = r # rs1"
      by (auto split: prod.splits)
    with Cons.IH [of s1 rs1] del_law [OF Cons.prems(1)] Remove show ?thesis by force
  next
    case (Get d)
    with Cons.prems(2) Cons.IH [OF Cons.prems(1)] show ?thesis by auto
  qed
qed simp

end

text \<open>The code as such a table.\<close>

definition lh_put :: "libc_malloc \<Rightarrow> ('d, 'h) hash_caller \<Rightarrow> ('d, 'c) eq_caller \<Rightarrow> ('d, 'h, 'c) LHASH \<Rightarrow> 'd \<Rightarrow> ('d option \<times> ('d, 'h, 'c) LHASH) option" where
  "lh_put malloc H C lh d = (case OPENSSL_lh_insert malloc H C lh d of (ok, old, lh') \<Rightarrow> if ok then Some (old, lh') else None)"

interpretation lht: keyed_table "\<lambda>lh. lh_inv H C lh \<and> lh_comp lh = c" "\<lambda>e d. C c e d = 0"
  "OPENSSL_lh_retrieve H C" "lh_put malloc H C" "OPENSSL_lh_delete malloc H C"
proof
  fix lh lh' :: "('a, 'b, 'c) LHASH" and d old
  assume a: "lh_inv H C lh \<and> lh_comp lh = c"
  { assume "lh_put malloc H C lh d = Some (old, lh')"
    then have "OPENSSL_lh_insert malloc H C lh d = (True, old, lh')" by (auto simp: lh_put_def split: prod.splits if_splits)
    from lh_insert_correct [OF _ this] a
    show "(lh_inv H C lh' \<and> lh_comp lh' = c) \<and> old = OPENSSL_lh_retrieve H C lh d \<and>
      OPENSSL_lh_retrieve H C lh' = (\<lambda>e. if C c e d = 0 then Some d else OPENSSL_lh_retrieve H C lh e)" by auto }
  assume "OPENSSL_lh_delete malloc H C lh d = (old, lh')"
  from lh_delete_correct [OF _ this] a
  show "(lh_inv H C lh' \<and> lh_comp lh' = c) \<and> old = OPENSSL_lh_retrieve H C lh d \<and>
    OPENSSL_lh_retrieve H C lh' = (\<lambda>e. if C c e d = 0 then None else OPENSSL_lh_retrieve H C lh e)" by auto
qed

lemma lh_new_inv:
  assumes "OPENSSL_lh_new malloc h c = Some lh" "hash_law (H h) (C c)"
  shows "lh_inv H C lh \<and> lh_comp lh = c \<and> OPENSSL_lh_retrieve H C lh = (\<lambda>e. None)"
proof -
  have "lh = \<lparr>num_items = 0, buckets = replicate kMinNumBuckets [], num_buckets = kMinNumBuckets,
      callback_depth = 0, lh_comp = c, lh_hash = h\<rparr>" using assms(1) by (auto simp: OPENSSL_lh_new_def split: option.splits)
  moreover have "items lh = {#}" using calculation by (simp add: items_def)
  ultimately have inv: "lh_inv H C lh" "items lh = {#}" "lh_comp lh = c"
    using assms(2) in_place_empty [of kMinNumBuckets] by (auto simp: lh_inv_def all_different_def)
  moreover have "OPENSSL_lh_retrieve H C lh e = None" for e
    using retrieve_iff [OF inv(1), of e] inv(2) by (cases "OPENSSL_lh_retrieve H C lh e") auto
  ultimately show ?thesis by auto
qed

text \<open>
  C17: the hash table is a map: in every history of insertions, deletions and lookups on a new table
  in which no allocation of an item fails, each call returns what a map from elements (compared
  with the table's comparison) to elements would, whatever resizing takes place or fails on the
  way; the invariant (items in the chain of their hash, no two equal, the counter exact) holds at
  the end. It relies on equal elements having equal hashes.
\<close>

theorem lhash_refines_map:
  assumes "hash_law (H h) (C c)" "OPENSSL_lh_new malloc h c = Some lh"
    and "table_run (lh_put malloc H C) (OPENSSL_lh_delete malloc H C) (OPENSSL_lh_retrieve H C) xs lh = Some (rs, lh')"
  shows "lh_inv H C lh' \<and> map_run (\<lambda>e d. C c e d = 0) xs (\<lambda>e. None) = (rs, OPENSSL_lh_retrieve H C lh')"
  using lht.run_refines_map [of H C lh c malloc xs rs lh'] lh_new_inv [OF assms(2), of H C] assms(1,3) by simp

text \<open>Numbers, compared and hashed by their last digit.\<close>

definition digit_hash :: "(nat, unit) hash_caller" where "digit_hash h d = of_nat (d mod 10)"
definition digit_cmp :: "(nat, unit) eq_caller" where "digit_cmp c x y = int (x mod 10) - int (y mod 10)"
definition always :: libc_malloc where "always n = Some (replicate n 0)"

theorem lhash_refines_map_witness:
  "\<exists>lh lh'. OPENSSL_lh_new always () () = Some lh \<and>
    table_run (lh_put always digit_hash digit_cmp) (OPENSSL_lh_delete always digit_hash digit_cmp) (OPENSSL_lh_retrieve digit_hash digit_cmp)
      [Put 7, Put 17, Get 27, Remove 37, Get 7] lh = Some ([None, Some 7, Some 17, Some 17, None], lh')"
proof -
  let ?xs = "[Put 7, Put 17, Get 27, Remove 37, Get 7]"
  let ?run = "table_run (lh_put always digit_hash digit_cmp) (OPENSSL_lh_delete always digit_hash digit_cmp) (OPENSSL_lh_retrieve digit_hash digit_cmp)"
  have m: "\<exists>blk. OPENSSL_malloc always n = Some blk" if "n < 1000" for n
    using that by (simp add: OPENSSL_malloc_def always_def OPENSSL_MALLOC_PREFIX_def size_add_def SIZE_MOD_def)
  obtain lh :: "(nat, unit, unit) LHASH" where lh: "OPENSSL_lh_new always () () = Some lh"
    using m [of 48] m [of 128]
    by (auto simp: OPENSSL_lh_new_def sizeof_LHASH_def sizeof_item_ptr_def kMinNumBuckets_def)
  have put: "lh_put always digit_hash digit_cmp l d \<noteq> None" for l d
    using m [of 24] by (auto simp: lh_put_def OPENSSL_lh_insert_def sizeof_item_def Let_def split: prod.splits option.splits)
  have "?run ?xs lh \<noteq> None" by (simp add: put split: option.splits prod.splits)
  then obtain rs lh' where r: "?run ?xs lh = Some (rs, lh')" by auto
  have "hash_law (digit_hash ()) (digit_cmp ())" by (auto simp: hash_law_def digit_hash_def digit_cmp_def)
  from lhash_refines_map [OF this lh r] r lh show ?thesis by (simp add: digit_cmp_def del: table_run.simps)
qed

end
