(* ===== verification/Bio_Pair.thy ===== *)
theory Bio_Pair
  imports Mem
begin

text \<open>
  The in-memory BIO pair of \<open>crypto/bio/pair.c\<close>: two BIOs whose write buffers are rings, each read
  by the other side, and the parts of \<open>crypto/bio/bio.c\<close> that drive it. The two BIOs point at each
  other, so they live in a store indexed by their addresses and an operation returns the store it
  leaves. The copying loops are given a number of iterations they may use, and \<open>None\<close> means that
  it was not enough; two always are. Each ring is shown to be a byte queue of bounded size.
\<close>

section \<open>The code\<close>

subsection \<open>State\<close>

record bio_bio_st =
  peer :: "nat option"
  closed :: bool
  ring_len :: nat
  offset :: nat
  ring_size :: nat
  buf :: "byte list option"
  request :: nat

record BIO =
  init :: bool
  shutdown :: int
  flags :: u32
  retry_reason :: int
  ptr :: "bio_bio_st option"
  num_read :: nat
  num_write :: nat

type_synonym bio_store = "nat \<Rightarrow> BIO option"

definition BIO_FLAGS_READ :: u32 where "BIO_FLAGS_READ = 0x01"
definition BIO_FLAGS_WRITE :: u32 where "BIO_FLAGS_WRITE = 0x02"
definition BIO_FLAGS_IO_SPECIAL :: u32 where "BIO_FLAGS_IO_SPECIAL = 0x04"
definition BIO_FLAGS_SHOULD_RETRY :: u32 where "BIO_FLAGS_SHOULD_RETRY = 0x08"

definition BIO_FLAGS_RWS :: u32 where
  "BIO_FLAGS_RWS = BIO_FLAGS_READ OR BIO_FLAGS_WRITE OR BIO_FLAGS_IO_SPECIAL"

definition kRetryFlags :: u32 where
  "kRetryFlags = BIO_FLAGS_RWS OR BIO_FLAGS_SHOULD_RETRY"

definition BIO_set_retry_read :: "BIO \<Rightarrow> BIO" where
  "BIO_set_retry_read bio = bio\<lparr>flags := flags bio OR (BIO_FLAGS_READ OR BIO_FLAGS_SHOULD_RETRY)\<rparr>"

definition BIO_set_retry_write :: "BIO \<Rightarrow> BIO" where
  "BIO_set_retry_write bio = bio\<lparr>flags := flags bio OR (BIO_FLAGS_WRITE OR BIO_FLAGS_SHOULD_RETRY)\<rparr>"

definition BIO_clear_retry_flags :: "BIO \<Rightarrow> BIO" where
  "BIO_clear_retry_flags bio = bio\<lparr>flags := flags bio AND NOT kRetryFlags, retry_reason := 0\<rparr>"

definition BIO_should_read :: "BIO \<Rightarrow> bool" where
  "BIO_should_read bio \<longleftrightarrow> flags bio AND BIO_FLAGS_READ \<noteq> 0"

definition BIO_should_write :: "BIO \<Rightarrow> bool" where
  "BIO_should_write bio \<longleftrightarrow> flags bio AND BIO_FLAGS_WRITE \<noteq> 0"

definition BIO_should_retry :: "BIO \<Rightarrow> bool" where
  "BIO_should_retry bio \<longleftrightarrow> flags bio AND BIO_FLAGS_SHOULD_RETRY \<noteq> 0"

subsection \<open>Creation, pairing, destruction\<close>

text \<open>\<open>sizeof(struct bio_bio_st)\<close> and \<open>sizeof(BIO)\<close>\<close>

definition sizeof_bio_bio_st :: nat where "sizeof_bio_bio_st = 56"
definition sizeof_BIO :: nat where "sizeof_BIO = 64"

definition bio_new :: "libc_malloc \<Rightarrow> BIO \<Rightarrow> BIO option" where
  "bio_new malloc bio =
     (case OPENSSL_malloc malloc sizeof_bio_bio_st of
        None \<Rightarrow> None
      | Some _ \<Rightarrow> Some (bio\<lparr>ptr := Some \<lparr>peer = None, closed = False, ring_len = 0, offset = 0, ring_size = 17 * 1024,
                                      buf = None, request = 0\<rparr>\<rparr>))"

text \<open>\<open>BIO_new\<close> with the methods of the pair.\<close>

definition BIO_new :: "libc_malloc \<Rightarrow> BIO option" where
  "BIO_new malloc =
     (case OPENSSL_malloc malloc sizeof_BIO of
        None \<Rightarrow> None
      | Some _ \<Rightarrow> bio_new malloc \<lparr>init = False, shutdown = 1, flags = 0, retry_reason = 0, ptr = None, num_read = 0, num_write = 0\<rparr>)"

definition unpair :: "BIO \<Rightarrow> BIO" where
  "unpair bio = bio\<lparr>init := False, ptr := map_option (\<lambda>b. b\<lparr>peer := None, ring_len := 0, offset := 0\<rparr>) (ptr bio)\<rparr>"

definition bio_destroy_pair :: "bio_store \<Rightarrow> nat \<Rightarrow> bio_store" where
  "bio_destroy_pair h bio =
     (case Option.bind (h bio) ptr of
        None \<Rightarrow> h
      | Some b \<Rightarrow>
          (case peer b of
             None \<Rightarrow> h
           | Some peer_bio \<Rightarrow>
               (let h = h(peer_bio := map_option unpair (h peer_bio)) in h(bio := map_option unpair (h bio)))))"

definition bio_free :: "bio_store \<Rightarrow> nat \<Rightarrow> bio_store" where
  "bio_free h bio =
     (let h = (case Option.bind (h bio) ptr of
                 None \<Rightarrow> h | Some b \<Rightarrow> if peer b \<noteq> None then bio_destroy_pair h bio else h)
      in h(bio := None))"

text \<open>The buffer of one side: kept if there is one, otherwise allocated at the requested or the default size.\<close>

definition ensure_buf :: "libc_malloc \<Rightarrow> bio_bio_st \<Rightarrow> nat \<Rightarrow> bool \<times> bio_bio_st" where
  "ensure_buf malloc b writebuf_len =
     (case buf b of
        Some _ \<Rightarrow> (True, b)
      | None \<Rightarrow>
          (let b = (if writebuf_len \<noteq> 0 then b\<lparr>ring_size := writebuf_len\<rparr> else b)
           in case OPENSSL_malloc malloc (ring_size b) of
                None \<Rightarrow> (False, b)
              | Some blk \<Rightarrow> (True, b\<lparr>buf := Some blk, ring_len := 0, offset := 0\<rparr>)))"

definition bio_make_pair :: "libc_malloc \<Rightarrow> bio_store \<Rightarrow> nat \<Rightarrow> nat \<Rightarrow> nat \<Rightarrow> nat \<Rightarrow> bool \<times> bio_store" where
  "bio_make_pair malloc h bio1 bio2 writebuf1_len writebuf2_len =
     (case (h bio1, h bio2) of
        (Some x1, Some x2) \<Rightarrow>
          (case (ptr x1, ptr x2) of
             (Some b1, Some b2) \<Rightarrow>
               if peer b1 \<noteq> None \<or> peer b2 \<noteq> None then (False, h)
               else
                 (case ensure_buf malloc b1 writebuf1_len of
                    (False, b1) \<Rightarrow> (False, h(bio1 \<mapsto> x1\<lparr>ptr := Some b1\<rparr>))
                  | (True, b1) \<Rightarrow>
                      (case ensure_buf malloc b2 writebuf2_len of
                         (False, b2) \<Rightarrow> (False, h(bio1 \<mapsto> x1\<lparr>ptr := Some b1\<rparr>, bio2 \<mapsto> x2\<lparr>ptr := Some b2\<rparr>))
                       | (True, b2) \<Rightarrow>
                           (True, h(bio1 \<mapsto> x1\<lparr>init := True, ptr := Some (b1\<lparr>peer := Some bio2, closed := False, request := 0\<rparr>)\<rparr>,
                                    bio2 \<mapsto> x2\<lparr>init := True, ptr := Some (b2\<lparr>peer := Some bio1, closed := False, request := 0\<rparr>)\<rparr>))))
           | _ \<Rightarrow> (False, h))
      | _ \<Rightarrow> (False, h))"

text \<open>
  The new BIOs are put at the free addresses \<open>a1\<close> and \<open>a2\<close>. On failure both are freed again, which
  leaves the store as it was.
\<close>

definition BIO_new_bio_pair :: "libc_malloc \<Rightarrow> bio_store \<Rightarrow> nat \<Rightarrow> nat \<Rightarrow> nat \<Rightarrow> nat \<Rightarrow> bool \<times> bio_store" where
  "BIO_new_bio_pair malloc h a1 writebuf1_len a2 writebuf2_len =
     (case (BIO_new malloc, BIO_new malloc) of
        (Some x1, Some x2) \<Rightarrow>
          (case bio_make_pair malloc (h(a1 \<mapsto> x1, a2 \<mapsto> x2)) a1 a2 writebuf1_len writebuf2_len of
             (True, h) \<Rightarrow> (True, h)
           | (False, h) \<Rightarrow> (False, bio_free (bio_free h a1) a2))
      | _ \<Rightarrow> (False, h))"

subsection \<open>Reading and writing\<close>

text \<open>The loop of \<open>bio_read\<close> on the peer's ring: what is left of \<open>rest\<close> bytes is appended to \<open>acc\<close>.\<close>

primrec bio_read_loop :: "nat \<Rightarrow> bio_bio_st \<Rightarrow> byte list \<Rightarrow> nat \<Rightarrow> byte list \<Rightarrow> (byte list \<times> bio_bio_st) option" where
  "bio_read_loop 0 peer_b ring rest acc = None"
| "bio_read_loop (Suc fuel) peer_b ring rest acc =
     (let chunk = (if offset peer_b + rest \<le> ring_size peer_b then rest else ring_size peer_b - offset peer_b);
          acc = acc @ slice ring (offset peer_b) chunk;
          peer_b = peer_b\<lparr>ring_len := ring_len peer_b - chunk\<rparr>;
          peer_b = (if ring_len peer_b \<noteq> 0 then
                      (let peer_b = peer_b\<lparr>offset := offset peer_b + chunk\<rparr>
                       in if offset peer_b = ring_size peer_b then peer_b\<lparr>offset := 0\<rparr> else peer_b)
                    else peer_b\<lparr>offset := 0\<rparr>);
          rest = rest - chunk
      in if rest \<noteq> 0 then bio_read_loop fuel peer_b ring rest acc else Some (acc, peer_b))"

text \<open>
  \<open>dst\<close> says whether \<open>buf\<close> is not null. The result is the return value, the bytes copied to
  \<open>buf\<close> and the store; the size is converted to \<open>size_t\<close> as in the code.
\<close>

definition bio_read :: "nat \<Rightarrow> bio_store \<Rightarrow> nat \<Rightarrow> bool \<Rightarrow> int \<Rightarrow> (int \<times> byte list \<times> bio_store) option" where
  "bio_read fuel h bio dst size' =
     (let size = nat (size' mod 2 ^ 64); h = h(bio := map_option BIO_clear_retry_flags (h bio))
      in case h bio of
           None \<Rightarrow> None
         | Some x \<Rightarrow>
             if \<not> init x then Some (0, [], h)
             else
               (case Option.bind (ptr x) peer of
                  None \<Rightarrow> None
                | Some p \<Rightarrow>
                    (case (h p, Option.bind (h p) ptr) of
                       (Some y, Some peer_b) \<Rightarrow>
                         (let peer_b = peer_b\<lparr>request := 0\<rparr>; h = h(p \<mapsto> y\<lparr>ptr := Some peer_b\<rparr>)
                          in if \<not> dst \<or> size = 0 then Some (0, [], h)
                             else if ring_len peer_b = 0 then
                               (if closed peer_b then Some (0, [], h)
                                else
                                  (let h = h(bio := map_option BIO_set_retry_read (h bio));
                                       peer_b = peer_b\<lparr>request := if size \<le> ring_size peer_b then size else ring_size peer_b\<rparr>
                                   in Some (- 1, [], h(p := map_option (\<lambda>y. y\<lparr>ptr := Some peer_b\<rparr>) (h p)))))
                             else
                               (let size = (if ring_len peer_b < size then ring_len peer_b else size)
                                in case bio_read_loop fuel peer_b (the (buf peer_b)) size [] of
                                     None \<Rightarrow> None
                                   | Some (out, peer_b) \<Rightarrow> Some (int size, out, h(p \<mapsto> y\<lparr>ptr := Some peer_b\<rparr>))))
                     | _ \<Rightarrow> None)))"

primrec bio_write_loop :: "nat \<Rightarrow> bio_bio_st \<Rightarrow> byte list \<Rightarrow> byte list \<Rightarrow> nat \<Rightarrow> bio_bio_st option" where
  "bio_write_loop 0 b ring src rest = None"
| "bio_write_loop (Suc fuel) b ring src rest =
     (let write_offset = offset b + ring_len b;
          write_offset = (if write_offset \<ge> ring_size b then write_offset - ring_size b else write_offset);
          chunk = (if write_offset + rest \<le> ring_size b then rest else ring_size b - write_offset);
          ring = splice ring write_offset (take chunk src);
          b = b\<lparr>ring_len := ring_len b + chunk, buf := Some ring\<rparr>;
          rest = rest - chunk;
          src = drop chunk src
      in if rest \<noteq> 0 then bio_write_loop fuel b ring src rest else Some b)"

text \<open>\<open>src = None\<close> is the null pointer; otherwise \<open>num\<close> bytes can be read from it.\<close>

definition bio_write :: "nat \<Rightarrow> bio_store \<Rightarrow> nat \<Rightarrow> byte list option \<Rightarrow> int \<Rightarrow> (int \<times> bio_store) option" where
  "bio_write fuel h bio src num' =
     (let num = nat (num' mod 2 ^ 64); h = h(bio := map_option BIO_clear_retry_flags (h bio))
      in case h bio of
           None \<Rightarrow> None
         | Some x \<Rightarrow>
             if \<not> init x \<or> src = None \<or> num = 0 then Some (0, h)
             else
               (case ptr x of
                  None \<Rightarrow> None
                | Some b \<Rightarrow>
                    (let b = b\<lparr>request := 0\<rparr>; h = h(bio \<mapsto> x\<lparr>ptr := Some b\<rparr>)
                     in if closed b then Some (- 1, h)
                        else if ring_len b = ring_size b then Some (- 1, h(bio := map_option BIO_set_retry_write (h bio)))
                        else
                          (let num = (if num > ring_size b - ring_len b then ring_size b - ring_len b else num)
                           in case bio_write_loop fuel b (the (buf b)) (the src) num of
                                None \<Rightarrow> None
                              | Some b \<Rightarrow> Some (int num, h(bio \<mapsto> x\<lparr>ptr := Some b\<rparr>))))))"

text \<open>The wrappers of \<open>bio.c\<close>; a pair BIO has all the methods they test for.\<close>

definition BIO_read :: "nat \<Rightarrow> bio_store \<Rightarrow> nat option \<Rightarrow> bool \<Rightarrow> int \<Rightarrow> (int \<times> byte list \<times> bio_store) option" where
  "BIO_read fuel h bio dst len =
     (case bio of
        None \<Rightarrow> Some (- 2, [], h)
      | Some a \<Rightarrow>
          (case h a of
             None \<Rightarrow> None
           | Some x \<Rightarrow>
               if \<not> init x then Some (- 2, [], h)
               else if len \<le> 0 then Some (0, [], h)
               else case bio_read fuel h a dst len of
                      None \<Rightarrow> None
                    | Some (ret, out, h) \<Rightarrow>
                        Some (ret, out, if ret > 0 then h(a := map_option (\<lambda>x. x\<lparr>num_read := size_add (num_read x) (nat ret)\<rparr>) (h a)) else h)))"

definition BIO_write :: "nat \<Rightarrow> bio_store \<Rightarrow> nat option \<Rightarrow> byte list option \<Rightarrow> int \<Rightarrow> (int \<times> bio_store) option" where
  "BIO_write fuel h bio src inl =
     (case bio of
        None \<Rightarrow> Some (- 2, h)
      | Some a \<Rightarrow>
          (case h a of
             None \<Rightarrow> None
           | Some x \<Rightarrow>
               if \<not> init x then Some (- 2, h)
               else if inl \<le> 0 then Some (0, h)
               else case bio_write fuel h a src inl of
                      None \<Rightarrow> None
                    | Some (ret, h) \<Rightarrow>
                        Some (ret, if ret > 0 then h(a := map_option (\<lambda>x. x\<lparr>num_write := size_add (num_write x) (nat ret)\<rparr>) (h a)) else h)))"

subsection \<open>Control\<close>

datatype bio_cmd =
    BIO_C_GET_WRITE_BUF_SIZE | BIO_C_GET_WRITE_GUARANTEE | BIO_C_GET_READ_REQUEST | BIO_C_RESET_READ_REQUEST
  | BIO_C_SHUTDOWN_WR | BIO_CTRL_GET_CLOSE | BIO_CTRL_SET_CLOSE int | BIO_CTRL_PENDING | BIO_CTRL_WPENDING
  | BIO_CTRL_FLUSH | BIO_CTRL_EOF "nat option" | BIO_CTRL_OTHER

definition set_pair_state :: "bio_store \<Rightarrow> nat \<Rightarrow> bio_bio_st \<Rightarrow> bio_store" where
  "set_pair_state h bio b = h(bio := map_option (\<lambda>x. x\<lparr>ptr := Some b\<rparr>) (h bio))"

definition bio_ctrl :: "bio_store \<Rightarrow> nat \<Rightarrow> bio_cmd \<Rightarrow> (int \<times> bio_store) option" where
  "bio_ctrl h bio cmd =
     (case (h bio, Option.bind (h bio) ptr) of
        (Some x, Some b) \<Rightarrow>
          (case cmd of
             BIO_C_GET_WRITE_BUF_SIZE \<Rightarrow> Some (int (ring_size b), h)
           | BIO_C_GET_WRITE_GUARANTEE \<Rightarrow> Some (if peer b = None \<or> closed b then 0 else int (ring_size b) - int (ring_len b), h)
           | BIO_C_GET_READ_REQUEST \<Rightarrow> Some (int (request b), h)
           | BIO_C_RESET_READ_REQUEST \<Rightarrow> Some (1, set_pair_state h bio (b\<lparr>request := 0\<rparr>))
           | BIO_C_SHUTDOWN_WR \<Rightarrow> Some (1, set_pair_state h bio (b\<lparr>closed := True\<rparr>))
           | BIO_CTRL_GET_CLOSE \<Rightarrow> Some (shutdown x, h)
           | BIO_CTRL_SET_CLOSE num \<Rightarrow> Some (1, h(bio \<mapsto> x\<lparr>shutdown := num\<rparr>))
           | BIO_CTRL_PENDING \<Rightarrow>
               (case peer b of
                  None \<Rightarrow> Some (0, h)
                | Some p \<Rightarrow> map_option (\<lambda>peer_b. (int (ring_len peer_b), h)) (Option.bind (h p) ptr))
           | BIO_CTRL_WPENDING \<Rightarrow> Some (case buf b of None \<Rightarrow> 0 | Some _ \<Rightarrow> int (ring_len b), h)
           | BIO_CTRL_FLUSH \<Rightarrow> Some (1, h)
           | BIO_CTRL_EOF other \<Rightarrow>
               (case other of
                  None \<Rightarrow> Some (1, h)
                | Some q \<Rightarrow> map_option (\<lambda>other_b. (if ring_len other_b = 0 \<and> closed other_b then 1 else 0, h)) (Option.bind (h q) ptr))
           | BIO_CTRL_OTHER \<Rightarrow> Some (0, h))
      | _ \<Rightarrow> None)"

definition BIO_ctrl_get_read_request :: "bio_store \<Rightarrow> nat \<Rightarrow> (int \<times> bio_store) option" where
  "BIO_ctrl_get_read_request h bio = bio_ctrl h bio BIO_C_GET_READ_REQUEST"

definition BIO_ctrl_get_write_guarantee :: "bio_store \<Rightarrow> nat \<Rightarrow> (int \<times> bio_store) option" where
  "BIO_ctrl_get_write_guarantee h bio = bio_ctrl h bio BIO_C_GET_WRITE_GUARANTEE"

definition BIO_shutdown_wr :: "bio_store \<Rightarrow> nat \<Rightarrow> (int \<times> bio_store) option" where
  "BIO_shutdown_wr h bio = bio_ctrl h bio BIO_C_SHUTDOWN_WR"

section \<open>A ring is a bounded queue\<close>

definition ring_ok :: "bio_bio_st \<Rightarrow> bool" where
  "ring_ok b \<longleftrightarrow> (\<exists>r. buf b = Some r \<and> length r = ring_size b) \<and> offset b < ring_size b \<and> ring_len b \<le> ring_size b"

definition ring_view :: "byte list \<Rightarrow> nat \<Rightarrow> nat \<Rightarrow> byte list" where
  "ring_view r off n = map (\<lambda>i. r ! ((off + i) mod length r)) [0..<n]"

text \<open>The bytes written and not yet read, oldest first.\<close>

definition queue :: "bio_bio_st \<Rightarrow> byte list" where
  "queue b = ring_view (the (buf b)) (offset b) (ring_len b)"

lemma mod_twice: "x < 2 * s \<Longrightarrow> x mod s = (if x < s then x else x - (s :: nat))"
  by (simp add: mod_if)

lemma length_ring_view [simp]: "length (ring_view r off n) = n"
  by (simp add: ring_view_def)

lemma nth_ring_view: "i < n \<Longrightarrow> ring_view r off n ! i = r ! ((off + i) mod length r)"
  by (simp add: ring_view_def)

lemma ring_view_take: "off + k \<le> length r \<Longrightarrow> k \<le> n \<Longrightarrow> take k (ring_view r off n) = slice r off k"
  by (rule nth_equalityI) (auto simp: nth_ring_view nth_slice)

lemma ring_view_drop: "drop k (ring_view r off n) = ring_view r ((off + k) mod length r) (n - k)"
  by (rule nth_equalityI) (auto simp: nth_ring_view mod_add_left_eq add.assoc)

lemma ring_view_splice:
  assumes "off < length r" "n + k \<le> length r" "k \<le> length src" "(off + n) mod length r + k \<le> length r"
  shows "ring_view (splice r ((off + n) mod length r) (take k src)) off (n + k) = ring_view r off n @ take k src"
proof (rule nth_equalityI)
  let ?s = "length r" and ?w = "(off + n) mod length r"
  let ?r = "splice r ?w (take k src)"
  have len: "length ?r = ?s" using assms by simp
  show "length (ring_view ?r off (n + k)) = length (ring_view r off n @ take k src)" using assms by simp
  fix i
  assume "i < length (ring_view ?r off (n + k))"
  then have i: "i < n + k" by simp
  have w: "?w = (if off + n < ?s then off + n else off + n - ?s)" using assms by (intro mod_twice) simp
  have oi: "(off + i) mod ?s = (if off + i < ?s then off + i else off + i - ?s)" using assms i by (intro mod_twice) simp
  have nth: "?r ! j = (if j < ?w then r ! j else if j < ?w + k then src ! (j - ?w) else r ! j)" if "j < ?s" for j
    using that assms by (auto simp: splice_def nth_append min_def)
  have j: "(off + i) mod ?s < ?s" by (rule mod_less_divisor) (use assms(1) in linarith)
  show "ring_view ?r off (n + k) ! i = (ring_view r off n @ take k src) ! i"
  proof (cases "i < n")
    case True
    then have "\<not> (?w \<le> (off + i) mod ?s \<and> (off + i) mod ?s < ?w + k)"
      using assms by (auto simp: w oi split: if_splits)
    then show ?thesis using True i nth [OF j] by (auto simp: nth_ring_view len nth_append)
  next
    case False
    define t where "t = i - n"
    then have t: "i = n + t" "t < k" using False i by simp_all
    then have "(off + i) mod ?s = ?w + t" using assms by (auto simp: w oi [unfolded t(1)] split: if_splits)
    then show ?thesis using t nth [OF j] assms by (simp add: nth_ring_view len nth_append)
  qed
qed

lemmas loop_simps = bio_read_loop.simps(2) bio_write_loop.simps(2)

declare loop_simps [simp del]

lemma read_loop_fit:
  assumes "offset b + k \<le> ring_size b" "ring_ok b" "0 < k" "k \<le> ring_len b"
  shows "\<exists>b'. bio_read_loop (Suc fuel) b (the (buf b)) k acc = Some (acc @ take k (queue b), b') \<and> ring_ok b' \<and>
    queue b' = drop k (queue b) \<and> (peer b', closed b', ring_size b', buf b', request b') = (peer b, closed b, ring_size b, buf b, request b)"
proof -
  obtain r where r: "buf b = Some r" "length r = ring_size b" using assms(2) by (auto simp: ring_ok_def)
  have q: "take k (queue b) = slice r (offset b) k" "drop k (queue b) = ring_view r ((offset b + k) mod length r) (ring_len b - k)"
    using assms r by (simp_all add: queue_def ring_view_take ring_view_drop)
  have m: "(offset b + k) mod length r = (if offset b + k = ring_size b then 0 else offset b + k)"
    using assms(1) r(2) by auto
  show ?thesis using assms r q m by (auto simp: loop_simps Let_def ring_ok_def queue_def ring_view_def)
qed

lemma read_loop_wrap:
  assumes "\<not> offset b + k \<le> ring_size b" "ring_ok b" "k \<le> ring_len b"
  defines "c \<equiv> ring_size b - offset b"
  shows "\<exists>b'. bio_read_loop (Suc fuel) b (the (buf b)) k acc =
      bio_read_loop fuel b' (the (buf b')) (k - c) (acc @ take c (queue b)) \<and> ring_ok b' \<and> offset b' = 0 \<and> queue b' = drop c (queue b) \<and>
      ring_len b' = ring_len b - c \<and> (peer b', closed b', ring_size b', buf b', request b') = (peer b, closed b, ring_size b, buf b, request b)"
proof -
  obtain r where r: "buf b = Some r" "length r = ring_size b" using assms(2) by (auto simp: ring_ok_def)
  have c: "offset b + c = ring_size b" "0 < c" "c < k" "c < ring_len b" using assms by (auto simp: ring_ok_def)
  have q: "take c (queue b) = slice r (offset b) c" "drop c (queue b) = ring_view r 0 (ring_len b - c)"
    using c r by (simp_all add: queue_def ring_view_take ring_view_drop)
  show ?thesis
    by (rule exI [of _ "b\<lparr>ring_len := ring_len b - c, offset := 0\<rparr>"])
       (use assms r q c in \<open>auto simp: loop_simps Let_def ring_ok_def queue_def\<close>)
qed

lemma read_loop_queue:
  assumes "ring_ok b" "0 < k" "k \<le> ring_len b" "2 \<le> fuel"
  shows "\<exists>b'. bio_read_loop fuel b (the (buf b)) k [] = Some (take k (queue b), b') \<and> ring_ok b' \<and> queue b' = drop k (queue b) \<and>
    (peer b', closed b', ring_size b', buf b', request b') = (peer b, closed b, ring_size b, buf b, request b)"
proof -
  obtain f where f: "fuel = Suc (Suc f)" using assms(4) by (metis Suc_le_D numeral_2_eq_2 Suc_le_mono)
  show ?thesis
  proof (cases "offset b + k \<le> ring_size b")
    case True
    then show ?thesis using read_loop_fit [OF True assms(1-3), of "Suc f" "[]"] f by simp
  next
    case False
    define c where "c = ring_size b - offset b"
    obtain b1 where b1: "bio_read_loop fuel b (the (buf b)) k [] = bio_read_loop (Suc f) b1 (the (buf b1)) (k - c) (take c (queue b))"
      "ring_ok b1" "offset b1 = 0" "queue b1 = drop c (queue b)" "ring_len b1 = ring_len b - c"
      "(peer b1, closed b1, ring_size b1, buf b1, request b1) = (peer b, closed b, ring_size b, buf b, request b)"
      using read_loop_wrap [OF False assms(1,3), of "Suc f" "[]"] f by (auto simp: c_def)
    have k: "c < k" using False assms(1) by (auto simp: c_def ring_ok_def)
    have fit: "offset b1 + (k - c) \<le> ring_size b1" using assms(1,3) b1 by (auto simp: ring_ok_def)
    have "0 < k - c" "k - c \<le> ring_len b1" using k assms(3) b1(5) by simp_all
    then obtain b2 where b2: "bio_read_loop (Suc f) b1 (the (buf b1)) (k - c) (take c (queue b)) =
        Some (take c (queue b) @ take (k - c) (drop c (queue b)), b2)" "ring_ok b2" "queue b2 = drop (k - c) (drop c (queue b))"
      "(peer b2, closed b2, ring_size b2, buf b2, request b2) = (peer b1, closed b1, ring_size b1, buf b1, request b1)"
      using read_loop_fit [OF fit b1(2), of f "take c (queue b)"] b1(4) by auto
    have "take c (queue b) @ take (k - c) (drop c (queue b)) = take k (queue b)" "drop (k - c) (drop c (queue b)) = drop k (queue b)"
      using k take_add [of c "k - c" "queue b"] by simp_all
    with b1(1,6) b2 show ?thesis by (intro exI [of _ b2]) simp
  qed
qed

lemma write_offset_mod:
  assumes "ring_ok b"
  shows "(if ring_size b \<le> offset b + ring_len b then offset b + ring_len b - ring_size b else offset b + ring_len b) =
    (offset b + ring_len b) mod ring_size b"
  using assms mod_twice [of "offset b + ring_len b" "ring_size b"] by (auto simp: ring_ok_def)

lemma write_loop_fit:
  assumes "ring_ok b" "(offset b + ring_len b) mod ring_size b + k \<le> ring_size b" "ring_len b + k \<le> ring_size b" "k \<le> length src"
  shows "\<exists>b'. bio_write_loop (Suc fuel) b (the (buf b)) src k = Some b' \<and> ring_ok b' \<and> queue b' = queue b @ take k src \<and>
    (peer b', closed b', ring_size b', request b') = (peer b, closed b, ring_size b, request b)"
proof -
  obtain r where r: "buf b = Some r" "length r = ring_size b" using assms(1) by (auto simp: ring_ok_def)
  let ?w = "(offset b + ring_len b) mod ring_size b"
  have "ring_view (splice r ?w (take k src)) (offset b) (ring_len b + k) = ring_view r (offset b) (ring_len b) @ take k src"
    using ring_view_splice [of "offset b" r "ring_len b" k src] assms r by (simp add: ring_ok_def)
  moreover have "length (splice r ?w (take k src)) = length r" using assms r by simp
  ultimately show ?thesis
    using assms r write_offset_mod [OF assms(1)]
    by (intro exI [of _ "b\<lparr>ring_len := ring_len b + k, buf := Some (splice r ?w (take k src))\<rparr>"])
       (simp add: loop_simps Let_def ring_ok_def queue_def)
qed

lemma write_loop_wrap:
  assumes "ring_ok b" "\<not> (offset b + ring_len b) mod ring_size b + k \<le> ring_size b" "ring_len b + k \<le> ring_size b" "k \<le> length src"
  defines "c \<equiv> ring_size b - (offset b + ring_len b) mod ring_size b"
  shows "\<exists>b'. bio_write_loop (Suc fuel) b (the (buf b)) src k = bio_write_loop fuel b' (the (buf b')) (drop c src) (k - c) \<and>
    ring_ok b' \<and> queue b' = queue b @ take c src \<and> c < k \<and> (offset b' + ring_len b') mod ring_size b' = 0 \<and> ring_len b' = ring_len b + c \<and>
    (peer b', closed b', ring_size b', request b') = (peer b, closed b, ring_size b, request b)"
proof -
  obtain r where r: "buf b = Some r" "length r = ring_size b" using assms(1) by (auto simp: ring_ok_def)
  let ?w = "(offset b + ring_len b) mod ring_size b"
  have w: "?w < ring_size b" using assms(1) by (intro mod_less_divisor) (auto simp: ring_ok_def)
  then have c: "?w + c = ring_size b" "c < k" "ring_len b + c \<le> ring_size b" "c \<le> length src" using assms by (auto simp: c_def)
  have v: "ring_view (splice r ?w (take c src)) (offset b) (ring_len b + c) = ring_view r (offset b) (ring_len b) @ take c src"
    using ring_view_splice [of "offset b" r "ring_len b" c src] assms(1) c r by (simp add: ring_ok_def)
  have l: "length (splice r ?w (take c src)) = length r" using c r by simp
  have "(offset b + (ring_len b + c)) mod ring_size b = (?w + c) mod ring_size b" by (simp add: mod_add_left_eq add.assoc)
  then have z: "(offset b + (ring_len b + c)) mod ring_size b = 0" using c by simp
  have "bio_write_loop (Suc fuel) b (the (buf b)) src k =
      bio_write_loop fuel (b\<lparr>ring_len := ring_len b + c, buf := Some (splice r ?w (take c src))\<rparr>) (splice r ?w (take c src)) (drop c src) (k - c)"
    using assms(2) c r write_offset_mod [OF assms(1)] by (simp add: loop_simps Let_def c_def)
  with v l z c assms(1) r show ?thesis
    by (intro exI [of _ "b\<lparr>ring_len := ring_len b + c, buf := Some (splice r ?w (take c src))\<rparr>"])
       (simp add: ring_ok_def queue_def)
qed

lemma write_loop_queue:
  assumes "ring_ok b" "ring_len b + k \<le> ring_size b" "k \<le> length src" "2 \<le> fuel"
  shows "\<exists>b'. bio_write_loop fuel b (the (buf b)) src k = Some b' \<and> ring_ok b' \<and> queue b' = queue b @ take k src \<and>
    (peer b', closed b', ring_size b', request b') = (peer b, closed b, ring_size b, request b)"
proof -
  obtain f where f: "fuel = Suc (Suc f)" using assms(4) by (metis Suc_le_D numeral_2_eq_2 Suc_le_mono)
  show ?thesis
  proof (cases "(offset b + ring_len b) mod ring_size b + k \<le> ring_size b")
    case True
    then show ?thesis using write_loop_fit [OF assms(1) True assms(2,3), of "Suc f"] f by simp
  next
    case False
    define c where "c = ring_size b - (offset b + ring_len b) mod ring_size b"
    obtain b1 where b1: "bio_write_loop fuel b (the (buf b)) src k = bio_write_loop (Suc f) b1 (the (buf b1)) (drop c src) (k - c)"
      "ring_ok b1" "queue b1 = queue b @ take c src" "c < k" "(offset b1 + ring_len b1) mod ring_size b1 = 0" "ring_len b1 = ring_len b + c"
      "(peer b1, closed b1, ring_size b1, request b1) = (peer b, closed b, ring_size b, request b)"
      using write_loop_wrap [OF assms(1) False assms(2,3), of "Suc f"] f by (auto simp: c_def)
    have "(offset b1 + ring_len b1) mod ring_size b1 + (k - c) \<le> ring_size b1" "ring_len b1 + (k - c) \<le> ring_size b1" "k - c \<le> length (drop c src)"
      using assms(2,3) b1 by auto
    then obtain b2 where b2: "bio_write_loop (Suc f) b1 (the (buf b1)) (drop c src) (k - c) = Some b2" "ring_ok b2"
      "queue b2 = queue b1 @ take (k - c) (drop c src)" "(peer b2, closed b2, ring_size b2, request b2) = (peer b1, closed b1, ring_size b1, request b1)"
      using write_loop_fit [OF b1(2), of "k - c" "drop c src" f] by auto
    have "take c src @ take (k - c) (drop c src) = take k src" using b1(4) take_add [of c "k - c" src] by simp
    with b1(1,3,7) b2 show ?thesis by (intro exI [of _ b2]) simp
  qed
qed

section \<open>The pair\<close>

text \<open>
  The direction from BIO \<open>a\<close> to BIO \<open>p\<close> of a live pair: they are each other's peer, and the ring
  of \<open>a\<close> holds what \<open>p\<close> has yet to read.
\<close>

definition pair_ok :: "bio_store \<Rightarrow> nat \<Rightarrow> nat \<Rightarrow> bool" where
  "pair_ok h a p \<longleftrightarrow> a \<noteq> p \<and> (\<exists>x b y c. h a = Some x \<and> h p = Some y \<and> ptr x = Some b \<and> ptr y = Some c \<and> init x \<and> init y \<and>
     peer b = Some p \<and> peer c = Some a \<and> ring_ok b \<and> ring_ok c)"

definition pair_queue :: "bio_store \<Rightarrow> nat \<Rightarrow> byte list" where
  "pair_queue h a = (case Option.bind (h a) ptr of None \<Rightarrow> [] | Some b \<Rightarrow> queue b)"

definition pair_closed :: "bio_store \<Rightarrow> nat \<Rightarrow> bool" where
  "pair_closed h a = (case Option.bind (h a) ptr of None \<Rightarrow> True | Some b \<Rightarrow> closed b)"

definition pair_size :: "bio_store \<Rightarrow> nat \<Rightarrow> nat" where
  "pair_size h a = (case Option.bind (h a) ptr of None \<Rightarrow> 0 | Some b \<Rightarrow> ring_size b)"

lemmas pair_defs = pair_ok_def pair_queue_def pair_closed_def pair_size_def

lemma pair_ok_sym: "pair_ok h a p \<Longrightarrow> pair_ok h p a"
  by (auto simp: pair_ok_def)

lemma length_queue: "length (queue b) = ring_len b"
  by (simp add: queue_def)

lemma retry_keeps [simp]:
  "init (BIO_clear_retry_flags x) = init x" "ptr (BIO_clear_retry_flags x) = ptr x"
  "init (BIO_set_retry_read x) = init x" "ptr (BIO_set_retry_read x) = ptr x"
  "init (BIO_set_retry_write x) = init x" "ptr (BIO_set_retry_write x) = ptr x"
  by (simp_all add: BIO_clear_retry_flags_def BIO_set_retry_read_def BIO_set_retry_write_def)

lemma ring_ok_request [simp]: "ring_ok (b\<lparr>request := n\<rparr>) = ring_ok b" "queue (b\<lparr>request := n\<rparr>) = queue b"
  by (simp_all add: ring_ok_def queue_def)

text \<open>What one call of \<open>bio_write\<close> accepts and one call of \<open>bio_read\<close> returns, and the other direction unharmed.\<close>

lemma bio_write_queue:
  assumes ok: "pair_ok h a p" and fuel: "2 \<le> fuel" and num: "0 < num" "num < 2 ^ 31" "nat num \<le> length src"
  shows "\<exists>ret h'. bio_write fuel h a (Some src) num = Some (ret, h') \<and> pair_ok h' a p \<and>
    pair_queue h' a = pair_queue h a @ take (nat ret) src \<and> pair_queue h' p = pair_queue h p \<and>
    (\<forall>q \<in> {a, p}. pair_closed h' q = pair_closed h q \<and> pair_size h' q = pair_size h q) \<and>
    ret = (if pair_closed h a \<or> length (pair_queue h a) = pair_size h a then - 1
           else min num (int (pair_size h a - length (pair_queue h a))))"
proof -
  obtain x b y c where s: "a \<noteq> p" "h a = Some x" "h p = Some y" "ptr x = Some b" "ptr y = Some c" "init x" "init y"
    "peer b = Some p" "peer c = Some a" "ring_ok b" "ring_ok c" using ok by (auto simp: pair_ok_def)
  have n: "num mod 2 ^ 64 = num" using num by simp
  consider "closed b" | "\<not> closed b" "ring_len b = ring_size b" | "\<not> closed b" "ring_len b \<noteq> ring_size b" by blast
  then show ?thesis
  proof cases
    case 1
    then show ?thesis using s num n by (auto simp: bio_write_def pair_defs Let_def length_queue)
  next
    case 2
    then show ?thesis using s num n by (auto simp: bio_write_def pair_defs Let_def length_queue)
  next
    case 3
    define k where "k = (if nat num > ring_size b - ring_len b then ring_size b - ring_len b else nat num)"
    let ?b = "b\<lparr>request := 0\<rparr>"
    have lt: "ring_len b < ring_size b" using 3 s(10) by (auto simp: ring_ok_def)
    then have k: "ring_len ?b + k \<le> ring_size ?b" "k \<le> length src" "int k = min num (int (ring_size b - ring_len b))"
      using num by (auto simp: k_def)
    obtain b' where b': "bio_write_loop fuel ?b (the (buf ?b)) src k = Some b'" "ring_ok b'" "queue b' = queue b @ take k src"
      "peer b' = peer b" "closed b' = closed b" "ring_size b' = ring_size b"
      using write_loop_queue [OF _ k(1,2) fuel] s(10) by auto
    have "bio_write fuel h a (Some src) num = Some (int k, h(a \<mapsto> (BIO_clear_retry_flags x)\<lparr>ptr := Some b'\<rparr>))"
      using 3 s num n b'(1) by (auto simp: bio_write_def Let_def k_def)
    moreover have "nat (min num (int (ring_size b) - int (ring_len b))) = k" using lt num by (auto simp: k_def)
    ultimately show ?thesis using b' 3 s k(3) lt by (auto simp: pair_defs length_queue)
  qed
qed

lemma bio_read_queue:
  assumes ok: "pair_ok h a p" and fuel: "2 \<le> fuel" and num: "0 < num" "num < 2 ^ 31"
  shows "\<exists>ret out h'. bio_read fuel h p True num = Some (ret, out, h') \<and> pair_ok h' a p \<and>
    out @ pair_queue h' a = pair_queue h a \<and> pair_queue h' p = pair_queue h p \<and>
    (\<forall>q \<in> {a, p}. pair_closed h' q = pair_closed h q \<and> pair_size h' q = pair_size h q) \<and> length out = nat ret \<and>
    ret = (if pair_queue h a = [] then (if pair_closed h a then 0 else - 1) else min num (int (length (pair_queue h a))))"
proof -
  obtain x b y c where s: "a \<noteq> p" "h a = Some x" "h p = Some y" "ptr x = Some b" "ptr y = Some c" "init x" "init y"
    "peer b = Some p" "peer c = Some a" "ring_ok b" "ring_ok c" using ok by (auto simp: pair_ok_def)
  have n: "num mod 2 ^ 64 = num" using num by simp
  have e: "queue b = [] \<longleftrightarrow> ring_len b = 0" using length_queue [of b] by auto
  show ?thesis
  proof (cases "ring_len b = 0")
    case True
    then show ?thesis using s num n e by (auto simp: bio_read_def pair_defs Let_def)
  next
    case False
    define k where "k = (if ring_len b < nat num then ring_len b else nat num)"
    let ?b = "b\<lparr>request := 0\<rparr>"
    have k: "0 < k" "k \<le> ring_len ?b" "int k = min num (int (ring_len b))" using num False by (auto simp: k_def)
    obtain b' where b': "bio_read_loop fuel ?b (the (buf ?b)) k [] = Some (take k (queue b), b')" "ring_ok b'" "queue b' = drop k (queue b)"
      "peer b' = peer b" "closed b' = closed b" "ring_size b' = ring_size b"
      using read_loop_queue [OF _ k(1,2) fuel] s(10) by auto
    have "bio_read fuel h p True num = Some (int k, take k (queue b), h(p \<mapsto> BIO_clear_retry_flags y, a \<mapsto> x\<lparr>ptr := Some b'\<rparr>))"
      using False s num n b'(1) by (auto simp: bio_read_def Let_def k_def)
    with b' False s k e show ?thesis by (auto simp: pair_defs length_queue)
  qed
qed

section \<open>Properties\<close>

text \<open>Counters and flags do not matter to the pair.\<close>

definition same_rings :: "bio_store \<Rightarrow> bio_store \<Rightarrow> bool" where
  "same_rings h h' \<longleftrightarrow> (\<forall>q. map_option (\<lambda>x. (init x, ptr x)) (h q) = map_option (\<lambda>x. (init x, ptr x)) (h' q))"

lemma same_rings_bind: "same_rings h h' \<Longrightarrow> Option.bind (h q) ptr = Option.bind (h' q) ptr"
  by (cases "h q"; cases "h' q"; auto simp: same_rings_def dest!: spec [of _ q])

lemma same_rings_pair:
  assumes "same_rings h h'"
  shows "pair_queue h q = pair_queue h' q" "pair_closed h q = pair_closed h' q" "pair_size h q = pair_size h' q" "pair_ok h q r \<Longrightarrow> pair_ok h' q r"
proof -
  show "pair_queue h q = pair_queue h' q" "pair_closed h q = pair_closed h' q" "pair_size h q = pair_size h' q"
    by (simp_all add: pair_defs same_rings_bind [OF assms])
  assume "pair_ok h q r"
  moreover have "\<exists>y. h' k = Some y \<and> init y = init x \<and> ptr y = ptr x" if "h k = Some x" for k x
    using assms that by (cases "h' k") (auto simp: same_rings_def dest!: spec [of _ k])
  ultimately show "pair_ok h' q r" unfolding pair_ok_def by metis
qed

lemma BIO_write_bio_write:
  assumes "pair_ok h a p" "0 < num" "bio_write fuel h a src num = Some (ret, h')"
  shows "\<exists>h2. BIO_write fuel h (Some a) src num = Some (ret, h2) \<and> same_rings h' h2"
  using assms by (auto simp: BIO_write_def pair_ok_def same_rings_def option.map_comp comp_def)

lemma BIO_read_bio_read:
  assumes "pair_ok h a p" "0 < num" "bio_read fuel h p dst num = Some (ret, out, h')"
  shows "\<exists>h2. BIO_read fuel h (Some p) dst num = Some (ret, out, h2) \<and> same_rings h' h2"
  using assms by (auto simp: BIO_read_def pair_ok_def same_rings_def option.map_comp comp_def)


lemma BIO_write_queue:
  assumes "pair_ok h a p" "2 \<le> fuel" "0 < num" "num < 2 ^ 31" "nat num \<le> length src"
  shows "\<exists>ret h'. BIO_write fuel h (Some a) (Some src) num = Some (ret, h') \<and> pair_ok h' a p \<and>
    pair_queue h' a = pair_queue h a @ take (nat ret) src \<and> pair_queue h' p = pair_queue h p \<and>
    (\<forall>q \<in> {a, p}. pair_closed h' q = pair_closed h q \<and> pair_size h' q = pair_size h q) \<and>
    ret = (if pair_closed h a \<or> length (pair_queue h a) = pair_size h a then - 1
           else min num (int (pair_size h a - length (pair_queue h a))))"
proof -
  from bio_write_queue [OF assms] obtain ret h' where w: "bio_write fuel h a (Some src) num = Some (ret, h')" "pair_ok h' a p"
    "pair_queue h' a = pair_queue h a @ take (nat ret) src" "pair_queue h' p = pair_queue h p"
    "\<forall>q \<in> {a, p}. pair_closed h' q = pair_closed h q \<and> pair_size h' q = pair_size h q"
    "ret = (if pair_closed h a \<or> length (pair_queue h a) = pair_size h a then - 1
           else min num (int (pair_size h a - length (pair_queue h a))))" by blast
  from BIO_write_bio_write [OF assms(1,3) w(1)] obtain h2 where h2: "BIO_write fuel h (Some a) (Some src) num = Some (ret, h2)" "same_rings h' h2"
    by blast
  show ?thesis by (rule exI [of _ ret], rule exI [of _ h2]) (use h2(1) w same_rings_pair [OF h2(2)] in \<open>simp\<close>)
qed

lemma BIO_read_queue:
  assumes "pair_ok h a p" "2 \<le> fuel" "0 < num" "num < 2 ^ 31"
  shows "\<exists>ret out h'. BIO_read fuel h (Some p) True num = Some (ret, out, h') \<and> pair_ok h' a p \<and>
    out @ pair_queue h' a = pair_queue h a \<and> pair_queue h' p = pair_queue h p \<and>
    (\<forall>q \<in> {a, p}. pair_closed h' q = pair_closed h q \<and> pair_size h' q = pair_size h q) \<and> length out = nat ret \<and>
    ret = (if pair_queue h a = [] then (if pair_closed h a then 0 else - 1) else min num (int (length (pair_queue h a))))"
proof -
  from bio_read_queue [OF assms] obtain ret out h' where w: "bio_read fuel h p True num = Some (ret, out, h')" "pair_ok h' a p"
    "out @ pair_queue h' a = pair_queue h a" "pair_queue h' p = pair_queue h p"
    "\<forall>q \<in> {a, p}. pair_closed h' q = pair_closed h q \<and> pair_size h' q = pair_size h q" "length out = nat ret"
    "ret = (if pair_queue h a = [] then (if pair_closed h a then 0 else - 1) else min num (int (length (pair_queue h a))))" by blast
  from BIO_read_bio_read [OF assms(1,3) w(1)] obtain h2 where h2: "BIO_read fuel h (Some p) True num = Some (ret, out, h2)" "same_rings h' h2"
    by blast
  show ?thesis by (rule exI [of _ ret], rule exI [of _ out], rule exI [of _ h2]) (use h2(1) w same_rings_pair [OF h2(2)] in \<open>simp\<close>)
qed

section \<open>A new pair\<close>

lemma ensure_buf_ok:
  assumes "malloc_law malloc" "buf b = None" "0 < ring_size b" "ring_size b < SIZE_MOD" "n < SIZE_MOD" "ensure_buf malloc b n = (True, b')"
  shows "ring_ok b' \<and> queue b' = [] \<and> ring_size b' = (if n = 0 then ring_size b else n)"
proof -
  define s where "s = (if n = 0 then ring_size b else n)"
  have s: "0 < s" "s < SIZE_MOD" using assms(3-5) by (auto simp: s_def)
  obtain blk where blk: "OPENSSL_malloc malloc s = Some blk" "b' = b\<lparr>ring_size := s, buf := Some blk, ring_len := 0, offset := 0\<rparr>"
    using assms(2,6) by (cases b) (auto simp: ensure_buf_def Let_def s_def split: option.splits if_splits)
  have "length blk = s" using OPENSSL_malloc_length [OF assms(1) s(2) blk(1)] .
  with blk(2) s(1) show ?thesis by (simp add: ring_ok_def queue_def ring_view_def flip: s_def)
qed

lemma new_pair_ok:
  assumes "malloc_law malloc" "a1 \<noteq> a2" "n1 < SIZE_MOD" "n2 < SIZE_MOD" "BIO_new_bio_pair malloc h a1 n1 a2 n2 = (True, h')"
  shows "pair_ok h' a1 a2 \<and> pair_queue h' a1 = [] \<and> pair_queue h' a2 = [] \<and> \<not> pair_closed h' a1 \<and> \<not> pair_closed h' a2"
proof -
  let ?b = "\<lparr>peer = None, closed = False, ring_len = 0, offset = 0, ring_size = 17 * 1024, buf = None, request = 0\<rparr> :: bio_bio_st"
  let ?x = "\<lparr>init = False, shutdown = 1, flags = 0, retry_reason = 0, ptr = Some ?b, num_read = 0, num_write = 0\<rparr> :: BIO"
  have new: "BIO_new malloc = Some x \<Longrightarrow> x = ?x" for x by (auto simp: BIO_new_def bio_new_def split: option.splits)
  obtain b1 b2 where b: "ensure_buf malloc ?b n1 = (True, b1)" "ensure_buf malloc ?b n2 = (True, b2)"
    "h' = h(a1 \<mapsto> ?x\<lparr>init := True, ptr := Some (b1\<lparr>peer := Some a2, closed := False, request := 0\<rparr>)\<rparr>,
            a2 \<mapsto> ?x\<lparr>init := True, ptr := Some (b2\<lparr>peer := Some a1, closed := False, request := 0\<rparr>)\<rparr>)"
    using assms(2,5) by (auto simp: BIO_new_bio_pair_def bio_make_pair_def dest!: new split: option.splits bool.splits prod.splits)
  have sz: "(17 :: nat) * 1024 < SIZE_MOD" by (simp add: SIZE_MOD_def)
  have "ring_ok b1 \<and> queue b1 = []" "ring_ok b2 \<and> queue b2 = []"
    using ensure_buf_ok [OF assms(1) _ _ _ assms(3) b(1)] ensure_buf_ok [OF assms(1) _ _ _ assms(4) b(2)] sz by simp_all
  then show ?thesis using assms(2) by (auto simp: b(3) pair_defs ring_ok_def queue_def)
qed

section \<open>First in, first out\<close>

datatype pipe_op = Send "byte list" | Receive nat

text \<open>
  A history of sends and receives through a pipe: the bytes the pipe accepted, the bytes it gave
  out and its state at the end.
\<close>

fun pipe_run :: "('s \<Rightarrow> byte list \<Rightarrow> nat \<times> 's) \<Rightarrow> ('s \<Rightarrow> nat \<Rightarrow> byte list \<times> 's) \<Rightarrow> pipe_op list \<Rightarrow> 's \<Rightarrow> byte list \<times> byte list \<times> 's" where
  "pipe_run put get [] s = ([], [], s)"
| "pipe_run put get (Send d # xs) s =
     (let (n, s) = put s d; (sent, got, s) = pipe_run put get xs s in (take n d @ sent, got, s))"
| "pipe_run put get (Receive k # xs) s =
     (let (out, s) = get s k; (sent, got, s) = pipe_run put get xs s in (sent, out @ got, s))"

locale byte_pipe =
  fixes ok :: "'s \<Rightarrow> bool" and contents :: "'s \<Rightarrow> byte list"
    and put :: "'s \<Rightarrow> byte list \<Rightarrow> nat \<times> 's" and get :: "'s \<Rightarrow> nat \<Rightarrow> byte list \<times> 's"
  assumes put_law: "ok s \<Longrightarrow> put s d = (n, s') \<Longrightarrow> ok s' \<and> contents s' = contents s @ take n d"
    and get_law: "ok s \<Longrightarrow> get s k = (out, s') \<Longrightarrow> ok s' \<and> contents s = out @ contents s'"
begin

lemma nothing_lost:
  "ok s \<Longrightarrow> pipe_run put get xs s = (sent, got, s') \<Longrightarrow> ok s' \<and> contents s @ sent = got @ contents s'"
proof (induction xs arbitrary: s sent got)
  case (Cons x xs)
  show ?case
  proof (cases x)
    case (Send d)
    obtain n s1 sent1 where "put s d = (n, s1)" "pipe_run put get xs s1 = (sent1, got, s')" "sent = take n d @ sent1"
      using Cons.prems(2) Send by (auto split: prod.splits)
    with put_law [OF Cons.prems(1)] Cons.IH [of s1 sent1 got] show ?thesis by fastforce
  next
    case (Receive k)
    obtain out s1 got1 where "get s k = (out, s1)" "pipe_run put get xs s1 = (sent, got1, s')" "got = out @ got1"
      using Cons.prems(2) Receive by (auto split: prod.splits)
    with get_law [OF Cons.prems(1)] Cons.IH [of s1 sent got1] show ?thesis by fastforce
  qed
qed simp

end

text \<open>A caller's send and receive: at most \<open>INT_MAX\<close> bytes at a time, nothing for an empty request.\<close>

definition pair_send :: "nat \<Rightarrow> bio_store \<Rightarrow> byte list \<Rightarrow> nat \<times> bio_store" where
  "pair_send a h d =
     (let d = take (2 ^ 31 - 1) d
      in if d = [] then (0, h)
         else case BIO_write 2 h (Some a) (Some d) (int (length d)) of None \<Rightarrow> (0, h) | Some (ret, h') \<Rightarrow> (nat ret, h'))"

definition pair_receive :: "nat \<Rightarrow> bio_store \<Rightarrow> nat \<Rightarrow> byte list \<times> bio_store" where
  "pair_receive p h k =
     (let k = min k (2 ^ 31 - 1)
      in if k = 0 then ([], h)
         else case BIO_read 2 h (Some p) True (int k) of None \<Rightarrow> ([], h) | Some (ret, out, h') \<Rightarrow> (out, h'))"

lemma pair_send_law:
  assumes "pair_ok h a p" "pair_send a h d = (n, h')"
  shows "pair_ok h' a p \<and> pair_queue h' a = pair_queue h a @ take n d"
proof (cases "take (2 ^ 31 - 1) d = []")
  case True
  with assms show ?thesis by (simp add: pair_send_def)
next
  case False
  let ?d = "take (2 ^ 31 - 1) d"
  have l: "0 < int (length ?d)" "int (length ?d) < 2 ^ 31" "nat (int (length ?d)) \<le> length ?d" using False by auto
  note w = BIO_write_queue [OF assms(1) order_refl l]
  have "n \<le> length ?d" "pair_ok h' a p" "pair_queue h' a = pair_queue h a @ take n ?d"
    using w assms(2) False by (auto simp: pair_send_def Let_def split: if_splits)
  then show ?thesis by (simp add: min_absorb1)
qed

lemma pair_receive_law:
  assumes "pair_ok h a p" "pair_receive p h k = (out, h')"
  shows "pair_ok h' a p \<and> pair_queue h a = out @ pair_queue h' a"
proof (cases "min k (2 ^ 31 - 1) = 0")
  case True
  with assms show ?thesis by (simp add: pair_receive_def)
next
  case False
  have l: "0 < int (min k (2 ^ 31 - 1))" "int (min k (2 ^ 31 - 1)) < 2 ^ 31" using False by auto
  from BIO_read_queue [OF assms(1) order_refl l] assms(2) False show ?thesis
    by (auto simp: pair_receive_def Let_def split: if_splits)
qed

interpretation pair: byte_pipe "\<lambda>h. pair_ok h a p" "\<lambda>h. pair_queue h a" "pair_send a" "pair_receive p"
  by unfold_locales (use pair_send_law pair_receive_law in blast)+

text \<open>
  C19: a write into a live pair returns: two iterations of its loop are enough. It appends to the
  queue the peer reads as many bytes as fit (all of them if there is room), or fails with -1 and
  changes no queue when the direction is shut down or full; the other direction, the sizes and the
  pairing are untouched.
\<close>

theorem BIO_write_is_enqueue:
  assumes "pair_ok h a p" "2 \<le> fuel" "0 < num" "num < 2 ^ 31" "nat num \<le> length src"
  shows "\<exists>ret h'. BIO_write fuel h (Some a) (Some src) num = Some (ret, h') \<and> pair_ok h' a p \<and>
    pair_queue h' a = pair_queue h a @ take (nat ret) src \<and> pair_queue h' p = pair_queue h p \<and>
    (\<forall>q \<in> {a, p}. pair_closed h' q = pair_closed h q \<and> pair_size h' q = pair_size h q) \<and>
    ret = (if pair_closed h a \<or> length (pair_queue h a) = pair_size h a then - 1
           else min num (int (pair_size h a - length (pair_queue h a))))"
  by (rule BIO_write_queue [OF assms])

text \<open>
  C20: a read from a live pair returns, in two iterations at most, and takes from the front of the
  queue the peer wrote: what it returns and what is left are together what was queued, in order.
  It returns as many bytes as asked for or as there are; on an empty queue it returns 0 after a
  shutdown and -1 otherwise.
\<close>

theorem BIO_read_is_dequeue:
  assumes "pair_ok h a p" "2 \<le> fuel" "0 < num" "num < 2 ^ 31"
  shows "\<exists>ret out h'. BIO_read fuel h (Some p) True num = Some (ret, out, h') \<and> pair_ok h' a p \<and>
    out @ pair_queue h' a = pair_queue h a \<and> pair_queue h' p = pair_queue h p \<and>
    (\<forall>q \<in> {a, p}. pair_closed h' q = pair_closed h q \<and> pair_size h' q = pair_size h q) \<and> length out = nat ret \<and>
    ret = (if pair_queue h a = [] then (if pair_closed h a then 0 else - 1) else min num (int (length (pair_queue h a))))"
  by (rule BIO_read_queue [OF assms])

text \<open>
  C18: a BIO pair loses, invents and reorders nothing: after any history of sends into one end and
  receives from the other of a new pair, of whatever sizes, the bytes received followed by the
  bytes still queued are exactly the bytes accepted, and the pair is still intact.
\<close>

theorem BIO_pair_is_fifo:
  assumes "malloc_law malloc" "a \<noteq> p" "n1 < SIZE_MOD" "n2 < SIZE_MOD" "BIO_new_bio_pair malloc h a n1 p n2 = (True, h1)"
    and "pipe_run (pair_send a) (pair_receive p) xs h1 = (sent, got, h2)"
  shows "sent = got @ pair_queue h2 a \<and> pair_ok h2 a p"
  using pair.nothing_lost [of h1 a p xs sent got h2] new_pair_ok [OF assms(1-5)] assms(6) by auto

text \<open>A pair with rings of four and five bytes at addresses 0 and 1.\<close>

definition tiny_pair :: bio_store where
  "tiny_pair = snd (BIO_new_bio_pair (bounded_malloc 100) Map.empty 0 4 1 5)"

lemma tiny_pair_new: "BIO_new_bio_pair (bounded_malloc 100) Map.empty 0 4 1 5 = (True, tiny_pair)"
proof -
  have m: "OPENSSL_malloc (bounded_malloc 100) n = Some (replicate n 0)" if "n \<le> 64" for n
    using that by (simp add: OPENSSL_malloc_def bounded_malloc_def OPENSSL_MALLOC_PREFIX_def size_add_def SIZE_MOD_def)
  have "fst (BIO_new_bio_pair (bounded_malloc 100) Map.empty 0 4 1 5)"
    by (simp add: BIO_new_bio_pair_def BIO_new_def bio_new_def bio_make_pair_def ensure_buf_def m sizeof_BIO_def sizeof_bio_bio_st_def)
  then show ?thesis by (simp add: tiny_pair_def prod_eq_iff)
qed

lemma tiny_pair_ok: "pair_ok tiny_pair 0 1" "pair_queue tiny_pair 0 = []" "\<not> pair_closed tiny_pair 0" "pair_size tiny_pair 0 = 4"
  using new_pair_ok [OF bounded_malloc_law _ _ _ tiny_pair_new]
proof (simp_all add: SIZE_MOD_def)
  have m: "OPENSSL_malloc (bounded_malloc 100) n = Some (replicate n 0)" if "n \<le> 64" for n
    using that by (simp add: OPENSSL_malloc_def bounded_malloc_def OPENSSL_MALLOC_PREFIX_def size_add_def SIZE_MOD_def)
  show "pair_size tiny_pair 0 = 4"
    by (simp add: tiny_pair_def BIO_new_bio_pair_def BIO_new_def bio_new_def bio_make_pair_def ensure_buf_def m sizeof_BIO_def
        sizeof_bio_bio_st_def pair_size_def)
qed

theorem BIO_write_is_enqueue_witness:
  "\<exists>h'. BIO_write 2 tiny_pair (Some 0) (Some [1, 2, 3, 4, 5, 6]) 6 = Some (4, h') \<and> pair_queue h' 0 = [1, 2, 3, 4]"
  using BIO_write_is_enqueue [OF tiny_pair_ok(1), of 2 6 "[1, 2, 3, 4, 5, 6]"] tiny_pair_ok by auto

theorem BIO_read_is_dequeue_witness:
  "\<exists>h'. BIO_read 2 tiny_pair (Some 1) True 6 = Some (- 1, [], h') \<and> pair_queue h' 0 = []"
  using BIO_read_is_dequeue [OF tiny_pair_ok(1), of 2 6] tiny_pair_ok by auto

theorem BIO_pair_is_fifo_witness:
  "\<exists>sent got h. pipe_run (pair_send 0) (pair_receive 1) [Send [1, 2, 3], Receive 2, Send [4, 5, 6, 7]] tiny_pair = (sent, got, h) \<and>
    sent = got @ pair_queue h 0 \<and> pair_ok h 0 1"
proof -
  let ?run = "pipe_run (pair_send 0) (pair_receive 1) [Send [1, 2, 3], Receive 2, Send [4, 5, 6, 7]] tiny_pair"
  obtain sent got h where r: "?run = (sent, got, h)" by (metis prod_cases3)
  from BIO_pair_is_fifo [OF bounded_malloc_law _ _ _ tiny_pair_new r] r show ?thesis by (simp add: SIZE_MOD_def del: pipe_run.simps)
qed

end
