(* ===== verification/Pb_Stream.thy ===== *)
theory Pb_Stream
  imports Mem
begin

text \<open>
  The streams and the primitive encoders and decoders of nanopb (\<open>pb_encode.c\<close>, \<open>pb_decode.c\<close>), on
  streams over memory: \<open>buf_write\<close>, \<open>buf_read\<close> and the null callback are modelled, callbacks of an
  application are not. Every function returns its result with the stream as it leaves it, so the
  error message and the position after a failure are visible. The theory ends with what a
  writer and a reader promise (\<open>pb_writer\<close>, \<open>pb_reader\<close>) and how they compose.
\<close>

unbundle bit_operations_syntax

section \<open>Output streams\<close>

text \<open>
  An output stream writes into memory (\<open>os_callback\<close>: the callback is \<open>buf_write\<close>) or only counts
  (the callback is null). \<open>os_mem\<close> is the object that \<open>state\<close> points into, \<open>os_pos\<close> the offset of the
  pointer.
\<close>

record pb_ostream_t =
  os_callback :: bool
  os_mem :: "byte list"
  os_pos :: nat
  max_size :: nat
  bytes_written :: nat
  os_errmsg :: "string option"

definition os_error :: "string \<Rightarrow> pb_ostream_t \<Rightarrow> pb_ostream_t" where
  "os_error msg s = s\<lparr>os_errmsg := (case os_errmsg s of None \<Rightarrow> Some msg | Some e \<Rightarrow> Some e)\<rparr>"

definition buf_write :: "pb_ostream_t \<Rightarrow> byte list \<Rightarrow> nat \<Rightarrow> bool \<times> pb_ostream_t" where
  "buf_write s bytes count =
     (True, s\<lparr>os_mem := splice (os_mem s) (os_pos s) (take count bytes), os_pos := os_pos s + count\<rparr>)"

definition pb_ostream_from_buffer :: "byte list \<Rightarrow> nat \<Rightarrow> pb_ostream_t" where
  "pb_ostream_from_buffer mem bufsize =
     \<lparr>os_callback = True, os_mem = mem, os_pos = 0, max_size = bufsize, bytes_written = 0, os_errmsg = None\<rparr>"

definition PB_OSTREAM_SIZING :: pb_ostream_t where
  "PB_OSTREAM_SIZING =
     \<lparr>os_callback = False, os_mem = [], os_pos = 0, max_size = 0, bytes_written = 0, os_errmsg = None\<rparr>"

definition pb_write :: "pb_ostream_t \<Rightarrow> byte list \<Rightarrow> nat \<Rightarrow> bool \<times> pb_ostream_t" where
  "pb_write s bytes count =
     (let count_written = (\<lambda>s. (True, s\<lparr>bytes_written := size_add (bytes_written s) count\<rparr>)) in
      if count > 0 \<and> os_callback s then
        if size_add (bytes_written s) count < bytes_written s \<or> size_add (bytes_written s) count > max_size s
        then (False, os_error ''stream full'' s)
        else (case buf_write s bytes count of
                (False, s) \<Rightarrow> (False, os_error ''io error'' s)
              | (True, s) \<Rightarrow> count_written s)
      else count_written s)"

section \<open>Encoding\<close>

text \<open>The buffer the loop of \<open>pb_encode_varint\<close> fills.\<close>

function encode_varint_loop :: "u64 \<Rightarrow> byte list" where
  "encode_varint_loop value =
     (if value \<noteq> 0 then (ucast (value AND 0x7f) OR 0x80) # encode_varint_loop (drop_bit 7 value) else [])"
  by pat_completeness auto
termination
proof (relation "measure unat")
  fix v :: u64
  assume "v \<noteq> 0"
  then have "unat v \<noteq> 0" by (simp add: unat_eq_zero)
  moreover have "unat (drop_bit 7 v) = unat v div 128" using unsigned_less [of v, where 'a = nat]
    by (simp only: unsigned_drop_bit_eq) (simp add: drop_bit_eq_div take_bit_nat_eq_self)
  ultimately show "(drop_bit 7 v, v) \<in> measure unat" by simp
qed simp

declare encode_varint_loop.simps [simp del]

definition pb_encode_varint :: "pb_ostream_t \<Rightarrow> u64 \<Rightarrow> bool \<times> pb_ostream_t" where
  "pb_encode_varint s value =
     (if value \<le> 0x7f then pb_write s [ucast value] 1
      else
        (let bytes = encode_varint_loop value;
             i = length bytes
         in pb_write s (bytes[i - 1 := (bytes ! (i - 1)) AND 0x7f]) i))"

definition pb_encode_svarint :: "pb_ostream_t \<Rightarrow> u64 \<Rightarrow> bool \<times> pb_ostream_t" where
  "pb_encode_svarint s value =
     pb_encode_varint s (if sint value < 0 then NOT (push_bit 1 value) else push_bit 1 value)"

definition pb_encode_fixed32 :: "pb_ostream_t \<Rightarrow> u32 \<Rightarrow> bool \<times> pb_ostream_t" where
  "pb_encode_fixed32 s val =
     pb_write s [ucast (val AND 0xff), ucast (drop_bit 8 val AND 0xff), ucast (drop_bit 16 val AND 0xff),
       ucast (drop_bit 24 val AND 0xff)] 4"

definition pb_encode_fixed64 :: "pb_ostream_t \<Rightarrow> u64 \<Rightarrow> bool \<times> pb_ostream_t" where
  "pb_encode_fixed64 s val =
     pb_write s [ucast (val AND 0xff), ucast (drop_bit 8 val AND 0xff), ucast (drop_bit 16 val AND 0xff),
       ucast (drop_bit 24 val AND 0xff), ucast (drop_bit 32 val AND 0xff), ucast (drop_bit 40 val AND 0xff),
       ucast (drop_bit 48 val AND 0xff), ucast (drop_bit 56 val AND 0xff)] 8"

text \<open>Wire types are the numbers of the enumeration; a decoder can meet others.\<close>

type_synonym pb_wire_type_t = u32

definition PB_WT_VARINT :: pb_wire_type_t where "PB_WT_VARINT = 0"
definition PB_WT_64BIT :: pb_wire_type_t where "PB_WT_64BIT = 1"
definition PB_WT_STRING :: pb_wire_type_t where "PB_WT_STRING = 2"
definition PB_WT_32BIT :: pb_wire_type_t where "PB_WT_32BIT = 5"

definition pb_encode_tag :: "pb_ostream_t \<Rightarrow> pb_wire_type_t \<Rightarrow> u32 \<Rightarrow> bool \<times> pb_ostream_t" where
  "pb_encode_tag s wiretype field_number = pb_encode_varint s (push_bit 3 (ucast field_number) OR ucast wiretype)"

definition pb_encode_string :: "pb_ostream_t \<Rightarrow> byte list \<Rightarrow> nat \<Rightarrow> bool \<times> pb_ostream_t" where
  "pb_encode_string s bytes sz =
     (case pb_encode_varint s (of_nat sz) of (False, s) \<Rightarrow> (False, s) | (True, s) \<Rightarrow> pb_write s bytes sz)"

text \<open>
  \<open>pb_encode_submessage\<close> calls \<open>pb_encode\<close> twice on the same fields and structure, on a counting stream
  and on a stream limited to the size counted; \<open>encode\<close> stands for that call.
\<close>

definition pb_encode_submessage :: "(pb_ostream_t \<Rightarrow> bool \<times> pb_ostream_t) \<Rightarrow> pb_ostream_t \<Rightarrow> bool \<times> pb_ostream_t" where
  "pb_encode_submessage encode s =
     (case encode PB_OSTREAM_SIZING of
        (False, sub) \<Rightarrow> (False, s\<lparr>os_errmsg := os_errmsg sub\<rparr>)
      | (True, sub) \<Rightarrow>
          (let size = bytes_written sub in
           case pb_encode_varint s (of_nat size) of
             (False, s) \<Rightarrow> (False, s)
           | (True, s) \<Rightarrow>
               if \<not> os_callback s then pb_write s [] size
               else if size_add (bytes_written s) size > max_size s then (False, os_error ''stream full'' s)
               else
                 (let (status, sub) = encode \<lparr>os_callback = os_callback s, os_mem = os_mem s, os_pos = os_pos s,
                                              max_size = size, bytes_written = 0, os_errmsg = None\<rparr>;
                      s = s\<lparr>bytes_written := size_add (bytes_written s) (bytes_written sub),
                            os_mem := os_mem sub, os_pos := os_pos sub, os_errmsg := os_errmsg sub\<rparr>
                  in if bytes_written sub \<noteq> size then (False, os_error ''submsg size changed'' s) else (status, s))))"

section \<open>Input streams\<close>

text \<open>An input stream over memory: \<open>is_pos\<close> is the offset of \<open>state\<close> in the object \<open>is_mem\<close>.\<close>

record pb_istream_t =
  is_mem :: "byte list"
  is_pos :: nat
  bytes_left :: nat
  is_errmsg :: "string option"

type_synonym 'a pb_result = "'a option \<times> pb_istream_t"

definition is_error :: "string \<Rightarrow> pb_istream_t \<Rightarrow> pb_istream_t" where
  "is_error msg s = s\<lparr>is_errmsg := (case is_errmsg s of None \<Rightarrow> Some msg | Some e \<Rightarrow> Some e)\<rparr>"

text \<open>The result of \<open>buf_read\<close> is the bytes copied to the buffer, if one is given.\<close>

definition buf_read :: "pb_istream_t \<Rightarrow> nat \<Rightarrow> byte list pb_result" where
  "buf_read s count = (Some (slice (is_mem s) (is_pos s) count), s\<lparr>is_pos := is_pos s + count\<rparr>)"

definition pb_read :: "pb_istream_t \<Rightarrow> nat \<Rightarrow> byte list pb_result" where
  "pb_read s count =
     (if count = 0 then (Some [], s)
      else if bytes_left s < count then (None, is_error ''end-of-stream'' s)
      else (case buf_read s count of
              (None, s) \<Rightarrow> (None, is_error ''io error'' s)
            | (Some bytes, s) \<Rightarrow> (Some bytes, s\<lparr>bytes_left := bytes_left s - count\<rparr>)))"

definition pb_readbyte :: "pb_istream_t \<Rightarrow> byte pb_result" where
  "pb_readbyte s =
     (if bytes_left s = 0 then (None, is_error ''end-of-stream'' s)
      else (case buf_read s 1 of
              (None, s) \<Rightarrow> (None, is_error ''io error'' s)
            | (Some bytes, s) \<Rightarrow> (Some (hd bytes), s\<lparr>bytes_left := bytes_left s - 1\<rparr>)))"

definition pb_istream_from_buffer :: "byte list \<Rightarrow> nat \<Rightarrow> pb_istream_t" where
  "pb_istream_from_buffer mem bufsize = \<lparr>is_mem = mem, is_pos = 0, bytes_left = bufsize, is_errmsg = None\<rparr>"

lemma pb_readbyte_less: "pb_readbyte s = (Some b, s') \<Longrightarrow> bytes_left s' < bytes_left s"
  by (auto simp: pb_readbyte_def buf_read_def split: if_splits)

section \<open>Decoding\<close>

text \<open>
  The loop of \<open>pb_decode_varint32_eof\<close> over the bytes after the first. \<open>bitpos\<close> is a \<open>uint_fast8_t\<close>,
  eight bits wide, and wraps.
\<close>

function varint32_loop :: "pb_istream_t \<Rightarrow> u32 \<Rightarrow> nat \<Rightarrow> u32 pb_result" where
  "varint32_loop s result bitpos =
     (case pb_readbyte s of
        (None, s1) \<Rightarrow> (None, s1)
      | (Some b, s1) \<Rightarrow>
          (let sign_extension = (if bitpos < 63 then 0xff else 0x01) in
           if bitpos \<ge> 32 \<and> b AND 0x7f \<noteq> 0 \<and> (drop_bit 31 result = 0 \<or> b \<noteq> sign_extension)
           then (None, is_error ''varint overflow'' s1)
           else
             (let result1 = (if bitpos \<ge> 32 then result else result OR push_bit bitpos (ucast (b AND 0x7f)));
                  bitpos1 = (bitpos + 7) mod 256
              in if b AND 0x80 \<noteq> 0 then varint32_loop s1 result1 bitpos1
                 else if bitpos1 = 35 \<and> b AND 0x70 \<noteq> 0 then (None, is_error ''varint overflow'' s1)
                 else (Some result1, s1))))"
  by pat_completeness auto
termination
  by (relation "measure (\<lambda>(s, r, p). bytes_left s)") (auto dest: sym [THEN pb_readbyte_less])

declare varint32_loop.simps [simp del]

text \<open>The second component says whether \<open>*eof\<close> was set.\<close>

definition pb_decode_varint32_eof :: "pb_istream_t \<Rightarrow> u32 option \<times> bool \<times> pb_istream_t" where
  "pb_decode_varint32_eof s =
     (case pb_readbyte s of
        (None, s) \<Rightarrow> (None, bytes_left s = 0, s)
      | (Some b, s) \<Rightarrow>
          if b AND 0x80 = 0 then (Some (ucast b), False, s)
          else (case varint32_loop s (ucast (b AND 0x7f)) 7 of (r, s) \<Rightarrow> (r, False, s)))"

definition pb_decode_varint32 :: "pb_istream_t \<Rightarrow> u32 pb_result" where
  "pb_decode_varint32 s = (case pb_decode_varint32_eof s of (r, _, s) \<Rightarrow> (r, s))"

function varint_loop :: "pb_istream_t \<Rightarrow> u64 \<Rightarrow> nat \<Rightarrow> u64 pb_result" where
  "varint_loop s result bitpos =
     (if bitpos \<ge> 64 then (None, is_error ''varint overflow'' s)
      else
        (case pb_readbyte s of
           (None, s1) \<Rightarrow> (None, s1)
         | (Some b, s1) \<Rightarrow>
             (let result1 = result OR push_bit bitpos (ucast (b AND 0x7f));
                  bitpos1 = (bitpos + 7) mod 256
              in if b AND 0x80 \<noteq> 0 then varint_loop s1 result1 bitpos1 else (Some result1, s1))))"
  by pat_completeness auto
termination
  by (relation "measure (\<lambda>(s, r, p). bytes_left s)") (auto dest: sym [THEN pb_readbyte_less])

declare varint_loop.simps [simp del]

definition pb_decode_varint :: "pb_istream_t \<Rightarrow> u64 pb_result" where
  "pb_decode_varint s = varint_loop s 0 0"

function pb_skip_varint :: "pb_istream_t \<Rightarrow> unit pb_result" where
  "pb_skip_varint s =
     (case pb_read s 1 of
        (None, s1) \<Rightarrow> (None, s1)
      | (Some bytes, s1) \<Rightarrow> if hd bytes AND 0x80 \<noteq> 0 then pb_skip_varint s1 else (Some (), s1))"
  by pat_completeness auto
termination
  by (relation "measure bytes_left") (auto simp: pb_read_def buf_read_def split: if_splits)

declare pb_skip_varint.simps [simp del]

definition pb_skip_string :: "pb_istream_t \<Rightarrow> unit pb_result" where
  "pb_skip_string s =
     (case pb_decode_varint32 s of
        (None, s) \<Rightarrow> (None, s)
      | (Some n, s) \<Rightarrow> (case pb_read s (unat n) of (r, s) \<Rightarrow> (map_option (\<lambda>_. ()) r, s)))"

text \<open>The result is the wire type and the tag; the second component is \<open>*eof\<close>.\<close>

definition pb_decode_tag :: "pb_istream_t \<Rightarrow> (pb_wire_type_t \<times> u32) option \<times> bool \<times> pb_istream_t" where
  "pb_decode_tag s =
     (case pb_decode_varint32_eof s of
        (None, eof, s) \<Rightarrow> (None, eof, s)
      | (Some temp, _, s) \<Rightarrow>
          if temp = 0 then (None, True, s) else (Some (temp AND 7, drop_bit 3 temp), False, s))"

definition pb_skip_field :: "pb_istream_t \<Rightarrow> pb_wire_type_t \<Rightarrow> unit pb_result" where
  "pb_skip_field s wire_type =
     (let skip = (\<lambda>n. case pb_read s n of (r, s) \<Rightarrow> (map_option (\<lambda>_. ()) r, s)) in
      if wire_type = PB_WT_VARINT then pb_skip_varint s
      else if wire_type = PB_WT_64BIT then skip 8
      else if wire_type = PB_WT_STRING then pb_skip_string s
      else if wire_type = PB_WT_32BIT then skip 4
      else (None, is_error ''invalid wire_type'' s))"

text \<open>The bytes read and \<open>*size\<close> are the results; \<open>n\<close> counts the bytes stored.\<close>

function raw_varint_loop :: "pb_istream_t \<Rightarrow> nat \<Rightarrow> byte list \<Rightarrow> byte list pb_result" where
  "raw_varint_loop s limit acc =
     (if length acc + 1 > limit then (None, s)
      else
        (case pb_read s 1 of
           (None, s1) \<Rightarrow> (None, s1)
         | (Some bytes, s1) \<Rightarrow>
             if hd bytes AND 0x80 \<noteq> 0 then raw_varint_loop s1 limit (acc @ bytes) else (Some (acc @ bytes), s1)))"
  by pat_completeness auto
termination
  by (relation "measure (\<lambda>(s, m, acc). bytes_left s)") (auto simp: pb_read_def buf_read_def split: if_splits)

declare raw_varint_loop.simps [simp del]

definition read_raw_value :: "pb_istream_t \<Rightarrow> pb_wire_type_t \<Rightarrow> nat \<Rightarrow> byte list pb_result" where
  "read_raw_value s wire_type limit =
     (if wire_type = PB_WT_VARINT then raw_varint_loop s limit []
      else if wire_type = PB_WT_64BIT then pb_read s 8
      else if wire_type = PB_WT_32BIT then pb_read s 4
      else (None, is_error ''invalid wire_type'' s))"

text \<open>The result is the substream, the state the parent.\<close>

definition pb_make_string_substream :: "pb_istream_t \<Rightarrow> pb_istream_t pb_result" where
  "pb_make_string_substream s =
     (case pb_decode_varint32 s of
        (None, s) \<Rightarrow> (None, s)
      | (Some sz, s) \<Rightarrow>
          if bytes_left s < unat sz then (None, is_error ''parent stream too short'' s)
          else (Some (s\<lparr>bytes_left := unat sz\<rparr>), s\<lparr>bytes_left := bytes_left s - unat sz\<rparr>))"

definition pb_close_string_substream :: "pb_istream_t \<Rightarrow> pb_istream_t \<Rightarrow> bool \<times> pb_istream_t" where
  "pb_close_string_substream s substream =
     (case (if bytes_left substream \<noteq> 0 then pb_read substream (bytes_left substream) else (Some [], substream)) of
        (None, substream) \<Rightarrow> (False, s)
      | (Some _, substream) \<Rightarrow> (True, s\<lparr>is_pos := is_pos substream, is_errmsg := is_errmsg substream\<rparr>))"

definition pb_decode_svarint :: "pb_istream_t \<Rightarrow> u64 pb_result" where
  "pb_decode_svarint s =
     (case pb_decode_varint s of
        (None, s) \<Rightarrow> (None, s)
      | (Some value, s) \<Rightarrow>
          (Some (if value AND 1 \<noteq> 0 then NOT (drop_bit 1 value) else drop_bit 1 value), s))"

definition pb_decode_fixed32 :: "pb_istream_t \<Rightarrow> u32 pb_result" where
  "pb_decode_fixed32 s =
     (case pb_read s 4 of
        (None, s) \<Rightarrow> (None, s)
      | (Some bytes, s) \<Rightarrow>
          (Some (ucast (bytes ! 0) OR push_bit 8 (ucast (bytes ! 1)) OR push_bit 16 (ucast (bytes ! 2)) OR
                 push_bit 24 (ucast (bytes ! 3))), s))"

definition pb_decode_fixed64 :: "pb_istream_t \<Rightarrow> u64 pb_result" where
  "pb_decode_fixed64 s =
     (case pb_read s 8 of
        (None, s) \<Rightarrow> (None, s)
      | (Some bytes, s) \<Rightarrow>
          (Some (ucast (bytes ! 0) OR push_bit 8 (ucast (bytes ! 1)) OR push_bit 16 (ucast (bytes ! 2)) OR
                 push_bit 24 (ucast (bytes ! 3)) OR push_bit 32 (ucast (bytes ! 4)) OR push_bit 40 (ucast (bytes ! 5)) OR
                 push_bit 48 (ucast (bytes ! 6)) OR push_bit 56 (ucast (bytes ! 7))), s))"

section \<open>What a writer promises\<close>

text \<open>
  \<open>os_put\<close> is the stream after writing some bytes, \<open>os_fits\<close> whether they fit, \<open>os_bounded\<close> what holds
  of a stream after any attempt to write: the memory before the position and beyond the limit is
  as it was.
\<close>

definition os_inv :: "pb_ostream_t \<Rightarrow> bool" where
  "os_inv s \<longleftrightarrow> max_size s \<le> PTRDIFF_MAX \<and> bytes_written s < SIZE_MOD \<and>
     (os_callback s \<longrightarrow> bytes_written s \<le> max_size s \<and> os_pos s + (max_size s - bytes_written s) \<le> length (os_mem s))"

definition os_put :: "byte list \<Rightarrow> pb_ostream_t \<Rightarrow> pb_ostream_t" where
  "os_put bs s =
     (if os_callback s
      then s\<lparr>os_mem := splice (os_mem s) (os_pos s) bs, os_pos := os_pos s + length bs, bytes_written := bytes_written s + length bs\<rparr>
      else s\<lparr>bytes_written := size_add (bytes_written s) (length bs)\<rparr>)"

definition os_fits :: "nat \<Rightarrow> pb_ostream_t \<Rightarrow> bool" where
  "os_fits n s \<longleftrightarrow> (os_callback s \<longrightarrow> bytes_written s + n \<le> max_size s)"

definition os_limit :: "pb_ostream_t \<Rightarrow> nat" where
  "os_limit s = os_pos s + (max_size s - bytes_written s)"

definition os_bounded :: "pb_ostream_t \<Rightarrow> pb_ostream_t \<Rightarrow> bool" where
  "os_bounded s s' \<longleftrightarrow> os_inv s' \<and> os_callback s' = os_callback s \<and> max_size s' = max_size s \<and>
     length (os_mem s') = length (os_mem s) \<and>
     (os_callback s \<longrightarrow> os_pos s \<le> os_pos s' \<and> os_limit s' = os_limit s \<and>
        take (os_pos s) (os_mem s') = take (os_pos s) (os_mem s) \<and> drop (os_limit s) (os_mem s') = drop (os_limit s) (os_mem s))"

lemma os_bounded_refl: "os_inv s \<Longrightarrow> os_bounded s s"
  by (simp add: os_bounded_def)

lemma os_bounded_trans:
  assumes "os_bounded s1 s2" "os_bounded s2 s3"
  shows "os_bounded s1 s3"
proof -
  have "take (os_pos s1) (os_mem s3) = take (os_pos s1) (os_mem s1)" if "os_callback s1"
  proof -
    have le: "os_pos s1 \<le> os_pos s2" and eq: "take (os_pos s2) (os_mem s3) = take (os_pos s2) (os_mem s2)"
      "take (os_pos s1) (os_mem s2) = take (os_pos s1) (os_mem s1)"
      using assms that by (simp_all add: os_bounded_def)
    have "take (os_pos s1) (os_mem s3) = take (os_pos s1) (take (os_pos s2) (os_mem s3))" using le by (simp add: min_def)
    also have "\<dots> = take (os_pos s1) (os_mem s2)" unfolding eq(1) using le by (simp add: min_def)
    finally show ?thesis using eq(2) by simp
  qed
  with assms show ?thesis by (auto simp: os_bounded_def)
qed

lemma os_error_simps [simp]:
  "os_inv (os_error m s) = os_inv s" "os_bounded s (os_error m s') = os_bounded s s'" "os_callback (os_error m s) = os_callback s"
  by (simp_all add: os_error_def os_inv_def os_bounded_def os_limit_def)

lemma os_put_bounded:
  assumes "os_inv s" "os_fits (length bs) s"
  shows "os_bounded s (os_put bs s)"
proof (cases "os_callback s")
  case True
  let ?p = "os_pos s"
  have b: "bytes_written s + length bs \<le> max_size s" "?p + (max_size s - bytes_written s) \<le> length (os_mem s)" "max_size s \<le> PTRDIFF_MAX" "max_size s < SIZE_MOD"
    using assms True PTRDIFF_MAX_less by (auto simp: os_inv_def os_fits_def)
  then have l: "length (splice (os_mem s) ?p bs) = length (os_mem s)" by (intro length_splice) simp
  have "take ?p (splice (os_mem s) ?p bs) = take ?p (os_mem s)" using b by (simp add: splice_def)
  moreover have "drop (os_limit s) (splice (os_mem s) ?p bs) = drop (os_limit s) (os_mem s)"
    using b by (auto simp: splice_def os_limit_def min_def ac_simps simp flip: length_0_conv)
  ultimately show ?thesis using True b l by (simp add: os_bounded_def os_inv_def os_put_def os_limit_def)
next
  case False
  then show ?thesis using assms by (simp add: os_bounded_def os_put_def os_inv_def size_add_def SIZE_MOD_def)
qed

lemma os_put_put: "os_inv s \<Longrightarrow> os_fits (length x + length y) s \<Longrightarrow> os_put y (os_put x s) = os_put (x @ y) s"
proof (cases "os_callback s")
  case True
  assume "os_inv s" "os_fits (length x + length y) s"
  with True have "os_pos s + (length x + length y) \<le> length (os_mem s)" by (auto simp: os_inv_def os_fits_def)
  then have "splice (splice (os_mem s) (os_pos s) x) (os_pos s + length x) y = splice (os_mem s) (os_pos s) (x @ y)"
    by (intro splice_splice) simp
  with True show ?thesis by (simp add: os_put_def)
next
  case False
  then show ?thesis by (simp add: os_put_def size_add_def mod_simps ac_simps)
qed

lemma os_put_fits [simp]: "os_fits (length x) s \<Longrightarrow> os_fits n (os_put x s) = os_fits (length x + n) s"
  by (auto simp: os_fits_def os_put_def)

lemma os_put_errmsg [simp]: "os_errmsg (os_put x s) = os_errmsg s" "os_callback (os_put x s) = os_callback s"
  by (simp_all add: os_put_def)

locale pb_writer =
  fixes run :: "pb_ostream_t \<Rightarrow> bool \<times> pb_ostream_t" and written :: "byte list"
  assumes writes: "os_inv s \<Longrightarrow> os_errmsg s = None \<Longrightarrow> os_fits (length written) s \<Longrightarrow> run s = (True, os_put written s)"
    and refuses: "os_inv s \<Longrightarrow> os_errmsg s = None \<Longrightarrow> \<not> os_fits (length written) s \<Longrightarrow>
      \<not> fst (run s) \<and> os_bounded s (snd (run s))"
begin

lemma bounded: "os_inv s \<Longrightarrow> os_errmsg s = None \<Longrightarrow> os_bounded s (snd (run s))"
  by (cases "os_fits (length written) s") (simp_all add: writes refuses os_put_bounded)

lemma succeeds_iff: "os_inv s \<Longrightarrow> os_errmsg s = None \<Longrightarrow> fst (run s) \<longleftrightarrow> os_fits (length written) s"
  by (cases "os_fits (length written) s") (simp_all add: writes refuses)

lemma sizing: "bytes_written (snd (run PB_OSTREAM_SIZING)) = length written mod SIZE_MOD"
  using writes [of PB_OSTREAM_SIZING] by (simp add: PB_OSTREAM_SIZING_def os_inv_def os_fits_def os_put_def size_add_def SIZE_MOD_def)

text \<open>Into a fresh buffer that is large enough.\<close>

lemma to_buffer:
  assumes "length written \<le> length mem" "length mem \<le> PTRDIFF_MAX"
  shows "\<exists>s. run (pb_ostream_from_buffer mem (length mem)) = (True, s) \<and> bytes_written s = length written \<and>
    take (length written) (os_mem s) = written \<and> drop (length written) (os_mem s) = drop (length written) mem"
proof -
  let ?s = "pb_ostream_from_buffer mem (length mem)"
  have "run ?s = (True, os_put written ?s)"
    using assms by (intro writes) (simp_all add: pb_ostream_from_buffer_def os_inv_def os_fits_def SIZE_MOD_def)
  then show ?thesis using assms by (simp add: os_put_def pb_ostream_from_buffer_def splice_def)
qed

end

lemma pb_writer_seq:
  assumes w1: "pb_writer run1 x" and w2: "pb_writer run2 y"
    and run: "\<And>s. run s = (case run1 s of (False, s) \<Rightarrow> (False, s) | (True, s) \<Rightarrow> run2 s)"
  shows "pb_writer run (x @ y)"
proof
  fix s assume s: "os_inv s" "os_errmsg s = None"
  have s1: "os_inv (os_put x s)" "os_errmsg (os_put x s) = None" if "os_fits (length x) s"
    using os_put_bounded [OF s(1) that] s(2) by (simp_all add: os_bounded_def)
  have fx: "os_fits (length x) s" if "os_fits (length x + n) s" for n using that by (auto simp: os_fits_def)
  show "run s = (True, os_put (x @ y) s)" if "os_fits (length (x @ y)) s"
    using that fx [of "length y"] pb_writer.writes [OF w1 s] pb_writer.writes [OF w2 s1] os_put_put [OF s(1)] by (simp add: run)
  assume nf: "\<not> os_fits (length (x @ y)) s"
  show "\<not> fst (run s) \<and> os_bounded s (snd (run s))"
  proof (cases "os_fits (length x) s")
    case True
    then have "\<not> os_fits (length y) (os_put x s)" using nf by simp
    from pb_writer.refuses [OF w2 s1 [OF True] this] pb_writer.writes [OF w1 s True] os_put_bounded [OF s(1) True]
    show ?thesis by (auto simp: run intro: os_bounded_trans)
  next
    case False
    from pb_writer.refuses [OF w1 s False] show ?thesis by (auto simp: run split: prod.splits bool.splits)
  qed
qed

lemma pb_write_writer: "length bs < SIZE_MOD \<Longrightarrow> pb_writer (\<lambda>s. pb_write s bs (length bs)) bs"
proof
  fix s assume n: "length bs < SIZE_MOD" and s: "os_inv s" "os_errmsg s = None"
  have ms: "max_size s < SIZE_MOD" using s(1) PTRDIFF_MAX_less by (simp add: os_inv_def)
  have full: "size_add (bytes_written s) (length bs) < bytes_written s \<or> size_add (bytes_written s) (length bs) > max_size s \<longleftrightarrow>
      bytes_written s + length bs > max_size s" if "os_callback s"
  proof (cases "bytes_written s + length bs < SIZE_MOD")
    case True
    then show ?thesis by (simp add: size_add_no_wrap)
  next
    case False
    then have "size_add (bytes_written s) (length bs) = bytes_written s + length bs - SIZE_MOD"
      using s(1) n ms that by (auto simp: size_add_def os_inv_def le_mod_geq)
    with False n s(1) ms that show ?thesis by (auto simp: os_inv_def)
  qed
  show "pb_write s bs (length bs) = (True, os_put bs s)" if "os_fits (length bs) s"
  proof (cases "length bs > 0 \<and> os_callback s")
    case True
    with that full s(1) ms have "\<not> (size_add (bytes_written s) (length bs) < bytes_written s \<or> size_add (bytes_written s) (length bs) > max_size s)"
      "size_add (bytes_written s) (length bs) = bytes_written s + length bs"
      by (auto simp: os_fits_def os_inv_def size_add_no_wrap)
    with True show ?thesis by (simp add: pb_write_def buf_write_def os_put_def Let_def)
  next
    case False
    have "size_add (bytes_written s) 0 = bytes_written s" using s(1) by (simp add: size_add_def os_inv_def)
    with False show ?thesis by (auto simp: pb_write_def Let_def os_put_def splice_def)
  qed
  assume nf: "\<not> os_fits (length bs) s"
  then have "os_callback s" "bytes_written s + length bs > max_size s" by (auto simp: os_fits_def)
  moreover then have "length bs > 0" using s(1) by (auto simp: os_inv_def)
  ultimately show "\<not> fst (pb_write s bs (length bs)) \<and> os_bounded s (snd (pb_write s bs (length bs)))"
    using full s(1) by (auto simp: pb_write_def Let_def os_bounded_refl)
qed

section \<open>Reading\<close>

definition is_inv :: "pb_istream_t \<Rightarrow> bool" where
  "is_inv s \<longleftrightarrow> is_pos s + bytes_left s \<le> length (is_mem s)"

definition is_bytes :: "pb_istream_t \<Rightarrow> byte list" where
  "is_bytes s = slice (is_mem s) (is_pos s) (bytes_left s)"

text \<open>What any read leaves: the same object, the end of the range where it was.\<close>

definition is_advances :: "pb_istream_t \<Rightarrow> pb_istream_t \<Rightarrow> bool" where
  "is_advances s s' \<longleftrightarrow> is_mem s' = is_mem s \<and> is_pos s \<le> is_pos s' \<and> is_pos s' + bytes_left s' = is_pos s + bytes_left s"

lemma is_advances_refl [simp]: "is_advances s s"
  by (simp add: is_advances_def)

lemma is_advances_trans: "is_advances s s' \<Longrightarrow> is_advances s' s'' \<Longrightarrow> is_advances s s''"
  by (auto simp: is_advances_def)

lemma is_advances_inv: "is_advances s s' \<Longrightarrow> is_inv s \<Longrightarrow> is_inv s'"
  by (simp add: is_advances_def is_inv_def)

lemma is_error_simps [simp]: "is_bytes (is_error m s) = is_bytes s" "is_inv (is_error m s) = is_inv s"
  "is_advances s0 (is_error m s) = is_advances s0 s" "bytes_left (is_error m s) = bytes_left s"
  by (simp_all add: is_error_def is_bytes_def is_inv_def is_advances_def)

lemma length_is_bytes [simp]: "is_inv s \<Longrightarrow> length (is_bytes s) = bytes_left s"
  by (simp add: is_bytes_def is_inv_def)

lemma pb_read_cases:
  assumes "is_inv s"
  shows "if n \<le> bytes_left s
    then \<exists>s'. pb_read s n = (Some (take n (is_bytes s)), s') \<and> is_bytes s' = drop n (is_bytes s) \<and> is_advances s s'
    else pb_read s n = (None, is_error ''end-of-stream'' s)"
proof (cases "n = 0 \<or> bytes_left s < n")
  case True
  then show ?thesis by (auto simp: pb_read_def)
next
  case False
  then have n: "n \<noteq> 0" "n \<le> bytes_left s" by simp_all
  let ?s = "s\<lparr>is_pos := is_pos s + n, bytes_left := bytes_left s - n\<rparr>"
  have "pb_read s n = (Some (take n (is_bytes s)), ?s)"
    using n by (simp add: pb_read_def buf_read_def is_bytes_def slice_def min_absorb1)
  moreover have "is_bytes ?s = drop n (is_bytes s)" by (simp add: is_bytes_def slice_def drop_take add.commute)
  moreover have "is_advances s ?s" using n(2) by (simp add: is_advances_def)
  ultimately show ?thesis using n(2) by auto
qed

lemma pb_read_take:
  assumes "is_inv s" "is_bytes s = bs @ rest"
  obtains s' where "pb_read s (length bs) = (Some bs, s')" "is_bytes s' = rest" "is_advances s s'" "is_inv s'"
proof -
  have "length bs \<le> bytes_left s" using assms length_is_bytes [of s] by simp
  with pb_read_cases [OF assms(1), of "length bs"] assms(2) that is_advances_inv [OF _ assms(1)] show thesis by auto
qed

lemma pb_readbyte_read: "pb_readbyte s = (case pb_read s 1 of (None, s) \<Rightarrow> (None, s) | (Some bs, s) \<Rightarrow> (Some (hd bs), s))"
  by (simp add: pb_readbyte_def pb_read_def buf_read_def)

lemma pb_readbyte_Nil: "is_inv s \<Longrightarrow> is_bytes s = [] \<Longrightarrow> pb_readbyte s = (None, is_error ''end-of-stream'' s)"
  using length_is_bytes [of s] by (simp add: pb_readbyte_def)

lemma pb_readbyte_Cons:
  assumes "is_inv s" "is_bytes s = b # bs"
  obtains s' where "pb_readbyte s = (Some b, s')" "is_bytes s' = bs" "is_advances s s'" "is_inv s'"
proof (rule pb_read_take [OF assms(1), of "[b]" bs])
  show "is_bytes s = [b] @ bs" using assms(2) by simp
  fix s' assume "pb_read s (length [b]) = (Some [b], s')" "is_bytes s' = bs" "is_advances s s'" "is_inv s'"
  then show thesis using that by (simp add: pb_readbyte_read)
qed

section \<open>What every reader promises\<close>

text \<open>
  Whatever the bytes are, a reader moves forward inside the stream it was given, and when it fails
  it has left an error message.
\<close>

locale pb_reader =
  fixes get :: "pb_istream_t \<Rightarrow> 'a pb_result"
  assumes advances: "is_advances s (snd (get s))"
    and reports: "fst (get s) = None \<Longrightarrow> is_errmsg (snd (get s)) \<noteq> None"
begin

lemma keeps_inv: "is_inv s \<Longrightarrow> is_inv (snd (get s))"
  using advances by (rule is_advances_inv)

lemma leaves_suffix: "\<exists>n. is_bytes (snd (get s)) = drop n (is_bytes s)"
proof -
  obtain n where "is_pos (snd (get s)) = is_pos s + n" using advances [of s] by (auto simp: is_advances_def dest: le_Suc_ex)
  with advances [of s] have "is_bytes (snd (get s)) = drop n (is_bytes s)"
    by (simp add: is_advances_def is_bytes_def slice_def drop_take add.commute) (metis add_diff_cancel_left' diff_add_inverse2 add.assoc add.commute)
  then show ?thesis ..
qed

end

lemma is_error_reports [simp]: "\<exists>m'. is_errmsg (is_error m s) = Some m'"
  by (simp add: is_error_def split: option.splits)

lemma pb_reader_bind:
  assumes r1: "pb_reader get1" and r2: "\<And>x. pb_reader (get2 x)"
    and run: "\<And>s. get s = (case get1 s of (None, s) \<Rightarrow> (None, s) | (Some x, s) \<Rightarrow> get2 x s)"
  shows "pb_reader get"
proof
  fix s
  obtain r s1 where g: "get1 s = (r, s1)" by fastforce
  then have "is_advances s s1" "r = None \<longrightarrow> is_errmsg s1 \<noteq> None"
    using pb_reader.advances [OF r1, of s] pb_reader.reports [OF r1, of s] by auto
  then show "is_advances s (snd (get s))" "fst (get s) = None \<Longrightarrow> is_errmsg (snd (get s)) \<noteq> None"
    using g is_advances_trans pb_reader.advances [OF r2] pb_reader.reports [OF r2] by (auto simp: run split: option.splits)
qed

lemma pb_reader_return: "pb_reader (Pair (Some x))"
  by unfold_locales simp_all

lemma pb_reader_fail: "pb_reader (\<lambda>s. (None, is_error m s))"
  by unfold_locales simp_all

lemma pb_reader_read: "pb_reader (\<lambda>s. pb_read s n)"
proof
  fix s
  show "is_advances s (snd (pb_read s n))" by (auto simp: pb_read_def buf_read_def) (simp add: is_advances_def)
  show "is_errmsg (snd (pb_read s n)) \<noteq> None" if "fst (pb_read s n) = None"
    using that by (cases "n = 0"; cases "bytes_left s < n") (auto simp: pb_read_def buf_read_def)
qed

lemma pb_reader_readbyte: "pb_reader pb_readbyte"
  by (rule pb_reader_bind [OF pb_reader_read [of 1] pb_reader_return, of _ hd]) (simp add: pb_readbyte_read)

end
