(* ===== verification/Pb_Encode.thy ===== *)
theory Pb_Encode
  imports Pb_Stream
begin

text \<open>
  The encoders of nanopb against the bytes of the protocol buffers wire format: \<open>varint\<close> is the
  base-128 encoding of a number, the fixed-size values are little-endian, a submessage is its
  length and its bytes. Each encoder is shown to be a \<open>pb_writer\<close> of those bytes.
\<close>

unbundle bit_operations_syntax

section \<open>The encodings\<close>

fun varint :: "nat \<Rightarrow> byte list" where
  "varint n = (if n < 128 then [of_nat n] else of_nat (128 + n mod 128) # varint (n div 128))"

declare varint.simps [simp del]

lemma varint_small: "n < 128 \<Longrightarrow> varint n = [of_nat n]"
  by (simp add: varint.simps)

lemma varint_large: "\<not> n < 128 \<Longrightarrow> varint n = of_nat (128 + n mod 128) # varint (n div 128)"
  by (subst varint.simps) simp

lemma varint_nonempty [simp]: "varint n \<noteq> []"
  by (subst varint.simps) simp

lemma varint_length: "n < 128 ^ k \<Longrightarrow> 0 < k \<Longrightarrow> length (varint n) \<le> k"
proof (induction n arbitrary: k rule: varint.induct)
  case (1 n)
  show ?case
  proof (cases "n < 128")
    case False
    obtain j where j: "k = Suc j" using "1.prems"(2) by (cases k) auto
    with False "1.prems"(1) have "0 < j" "n div 128 < 128 ^ j" by (cases j; auto)+
    with "1.IH" [OF False] False j show ?thesis by (simp add: varint_large)
  qed (use "1.prems"(2) in \<open>simp add: varint_small\<close>)
qed

text \<open>At most ten bytes, the size of the buffer in \<open>pb_encode_varint\<close>.\<close>

lemma varint_length_u64: "length (varint (unat (v :: u64))) \<le> 10"
  using unsigned_less [of v, where 'a = nat] by (intro varint_length) simp_all

lemma varint_mark: "(ucast (v AND 0x7f :: u64) :: byte) OR 0x80 = of_nat (128 + unat v mod 128)"
proof -
  have "unat (v AND 0x7f) = unat v mod 128" by (rule unat_and_7f) simp
  then have "(ucast (v AND 0x7f) :: byte) = of_nat (unat v mod 128)" by (metis of_nat_unat)
  then show ?thesis using or_shift [of "unat v mod 128" 7 1, where 'a = 8] by (simp add: or.commute)
qed

lemma encode_varint_loop_eq:
  "v \<noteq> 0 \<Longrightarrow> (let bytes = encode_varint_loop v; i = length bytes in bytes[i - 1 := (bytes ! (i - 1)) AND 0x7f]) = varint (unat v) \<and>
     encode_varint_loop v \<noteq> []"
proof (induction v rule: encode_varint_loop.induct)
  case (1 v)
  have d: "unat (drop_bit 7 v) = unat v div 128" using unat_drop_bit [of 7 v] by simp
  show ?case
  proof (cases "drop_bit 7 v = 0")
    case True
    then have "unat v div 128 = 0" using d by simp
    then have s: "unat v < 128" by (simp add: div_eq_0_iff)
    have "(of_nat (128 + unat v) :: byte) AND 0x7f = of_nat (unat v)"
      using s by (intro word_unat_eq_iff [THEN iffD2]) (subst byte_and_7f, simp add: unat_of_nat del: of_nat_add of_nat_unat)
    then show ?thesis
      using True "1.prems" s varint_mark [of v] by (simp add: encode_varint_loop.simps [of v] encode_varint_loop.simps [of 0] varint_small del: of_nat_add)
  next
    case False
    then have "\<not> unat v < 128" using d by (auto simp: unat_eq_zero [symmetric])
    moreover from "1.IH" [OF "1.prems" False] obtain b bs where "encode_varint_loop (drop_bit 7 v) = b # bs"
      "(b # bs)[length bs := ((b # bs) ! length bs) AND 0x7f] = varint (unat v div 128)"
      by (cases "encode_varint_loop (drop_bit 7 v)") (auto simp: Let_def d)
    ultimately show ?thesis
      using "1.prems" varint_mark [of v] by (simp add: encode_varint_loop.simps [of v] varint_large Let_def del: of_nat_add)
  qed
qed

interpretation wr_varint: pb_writer "\<lambda>s. pb_encode_varint s v" "varint (unat v)" for v
proof -
  have "length (varint (unat v)) < SIZE_MOD" using varint_length_u64 [of v] by (simp add: SIZE_MOD_def)
  from pb_write_writer [OF this]
  have w: "pb_writer (\<lambda>s. pb_write s (varint (unat v)) (length (varint (unat v)))) (varint (unat v))" .
  have "pb_encode_varint s v = pb_write s (varint (unat v)) (length (varint (unat v)))" for s
  proof (cases "v \<le> 0x7f")
    case True
    then have "unat v < 128" by (auto simp: word_le_nat_alt)
    moreover have "(ucast v :: byte) = of_nat (unat v)" by simp
    ultimately show ?thesis using True by (simp add: pb_encode_varint_def varint_small)
  next
    case False
    then have "v \<noteq> 0" by auto
    from encode_varint_loop_eq [OF this] False show ?thesis
      by (auto simp: pb_encode_varint_def Let_def) (metis length_list_update)
  qed
  with w show "pb_writer (\<lambda>s. pb_encode_varint s v) (varint (unat v))" by simp
qed

lemma pb_writer_string:
  assumes "length bs < SIZE_MOD"
  shows "pb_writer (\<lambda>s. pb_encode_string s bs (length bs)) (varint (length bs) @ bs)"
proof -
  have "unat (of_nat (length bs) :: u64) = length bs" using assms by (simp add: unat_of_nat SIZE_MOD_def)
  then show ?thesis
    using pb_writer_seq [OF wr_varint.pb_writer_axioms [of "of_nat (length bs)"] pb_write_writer [OF assms]]
    by (simp add: pb_encode_string_def)
qed

text \<open>A submessage is written like a string of the bytes its encoder writes.\<close>

lemma pb_writer_submessage:
  assumes enc: "pb_writer encode bs" and p: "length bs \<le> PTRDIFF_MAX"
  shows "pb_writer (pb_encode_submessage encode) (varint (length bs) @ bs)"
proof -
  have n: "length bs < SIZE_MOD" using p PTRDIFF_MAX_less by simp
  have u: "unat (of_nat (length bs) :: u64) = length bs" using n by (simp add: unat_of_nat SIZE_MOD_def)
  have sizing: "encode PB_OSTREAM_SIZING = (True, os_put bs PB_OSTREAM_SIZING)"
    by (rule pb_writer.writes [OF enc]) (simp_all add: PB_OSTREAM_SIZING_def os_inv_def os_fits_def SIZE_MOD_def)
  have size: "bytes_written (os_put bs PB_OSTREAM_SIZING) = length bs"
    using n by (simp add: PB_OSTREAM_SIZING_def os_put_def size_add_def SIZE_MOD_def)
  let ?sub = "\<lambda>s. \<lparr>os_callback = os_callback s, os_mem = os_mem s, os_pos = os_pos s, max_size = length bs, bytes_written = 0, os_errmsg = None\<rparr>"
  let ?rest = "\<lambda>s. if \<not> os_callback s then pb_write s [] (length bs)
      else if size_add (bytes_written s) (length bs) > max_size s then (False, os_error ''stream full'' s)
      else (let (status, sub) = encode (?sub s);
                s = s\<lparr>bytes_written := size_add (bytes_written s) (bytes_written sub), os_mem := os_mem sub, os_pos := os_pos sub, os_errmsg := os_errmsg sub\<rparr>
            in if bytes_written sub \<noteq> length bs then (False, os_error ''submsg size changed'' s) else (status, s))"
  have r: "pb_writer ?rest bs"
  proof
    fix s assume s: "os_inv s" "os_errmsg s = None"
    show "?rest s = (True, os_put bs s)" if f: "os_fits (length bs) s"
    proof (cases "os_callback s")
      case False
      then show ?thesis by (simp add: pb_write_def os_put_def Let_def)
    next
      case True
      have le: "bytes_written s + length bs \<le> max_size s" using f True by (simp add: os_fits_def)
      then have sz: "size_add (bytes_written s) (length bs) = bytes_written s + length bs"
        using s(1) PTRDIFF_MAX_less by (intro size_add_no_wrap) (simp add: os_inv_def)
      have "encode (?sub s) = (True, os_put bs (?sub s))"
        using s(1) True le p by (intro pb_writer.writes [OF enc]) (auto simp: os_inv_def os_fits_def)
      then show ?thesis using True le sz s(2) by (simp add: os_put_def)
    qed
    assume nf: "\<not> os_fits (length bs) s"
    then have c: "os_callback s" "bytes_written s + length bs > max_size s" by (auto simp: os_fits_def)
    show "\<not> fst (?rest s) \<and> os_bounded s (snd (?rest s))"
    proof -
      have "bytes_written s + length bs < SIZE_MOD" using s(1) c(1) p by (simp add: os_inv_def PTRDIFF_MAX_def SIZE_MOD_def)
      then show ?thesis using c s(1) by (simp add: size_add_no_wrap os_bounded_refl)
    qed
  qed
  have e: "pb_encode_submessage encode s =
      (case pb_encode_varint s (of_nat (length bs)) of (False, s) \<Rightarrow> (False, s) | (True, s) \<Rightarrow> ?rest s)" for s
    unfolding pb_encode_submessage_def sizing prod.case bool.case Let_def size by (rule refl)
  show ?thesis
    using pb_writer_seq [OF wr_varint.pb_writer_axioms [of "of_nat (length bs)"] r e] by (simp only: u)
qed

lemma byte_of_drop: "(ucast (drop_bit k (w :: 'a::len word) AND 0xff) :: byte) = of_nat (unat w div 2 ^ k)"
proof -
  have "(ucast (x AND 0xff) :: byte) = ucast x" for x :: "'a word"
  proof -
    have "x AND mask 8 = take_bit 8 x" by (simp add: take_bit_eq_mask)
    then have "(ucast (x AND mask 8) :: byte) = ucast x" by (simp only:) (rule bit_word_eqI, auto simp: bit_simps)
    then show ?thesis by (simp add: mask_eq_exp_minus_1)
  qed
  then have "(ucast (drop_bit k w AND 0xff) :: byte) = of_nat (unat (drop_bit k w))" by (metis of_nat_unat)
  then show ?thesis by (simp only: unat_drop_bit)
qed

lemma byte_of_low: "(ucast ((w :: 'a::len word) AND 0xff) :: byte) = of_nat (unat w)"
  using byte_of_drop [of 0 w] by (simp del: of_nat_unat)

lemma be_bytes_4: "be_bytes 4 n = [of_nat (n div 2 ^ 24), of_nat (n div 2 ^ 16), of_nat (n div 2 ^ 8), of_nat n]"
proof -
  have "(4 :: nat) = Suc (Suc (Suc (Suc 0)))" by simp
  then have "be_bytes 4 n = [of_nat (n div 256 div 256 div 256), of_nat (n div 256 div 256), of_nat (n div 256), of_nat n]"
    by (simp only: be_bytes.simps append.simps)
  then show ?thesis by (simp flip: div_mult2_eq)
qed

lemma be_bytes_8: "be_bytes 8 n = be_bytes 4 (n div 2 ^ 32) @ be_bytes 4 n"
proof -
  have "(8 :: nat) = Suc (Suc (Suc (Suc 4)))" by simp
  then have "be_bytes 8 n = be_bytes 4 (n div 256 div 256 div 256 div 256) @
      [of_nat (n div 256 div 256 div 256), of_nat (n div 256 div 256), of_nat (n div 256), of_nat n]"
    by (simp only: be_bytes.simps append.simps append_assoc)
  then show ?thesis unfolding be_bytes_4 [of n] by (simp flip: div_mult2_eq)
qed

interpretation wr_fixed32: pb_writer "\<lambda>s. pb_encode_fixed32 s v" "rev (be_bytes 4 (unat v))" for v
proof -
  have e: "[ucast (v AND 0xff), ucast (drop_bit 8 v AND 0xff), ucast (drop_bit 16 v AND 0xff), ucast (drop_bit 24 v AND 0xff)] =
      rev (be_bytes 4 (unat v))"
    unfolding byte_of_drop unfolding byte_of_low be_bytes_4 by simp
  have "length (rev (be_bytes 4 (unat v))) < SIZE_MOD" by (simp add: SIZE_MOD_def)
  from pb_write_writer [OF this] show "pb_writer (\<lambda>s. pb_encode_fixed32 s v) (rev (be_bytes 4 (unat v)))"
    by (simp add: pb_encode_fixed32_def e)
qed

interpretation wr_fixed64: pb_writer "\<lambda>s. pb_encode_fixed64 s v" "rev (be_bytes 8 (unat v))" for v
proof -
  have e: "[ucast (v AND 0xff), ucast (drop_bit 8 v AND 0xff), ucast (drop_bit 16 v AND 0xff), ucast (drop_bit 24 v AND 0xff),
      ucast (drop_bit 32 v AND 0xff), ucast (drop_bit 40 v AND 0xff), ucast (drop_bit 48 v AND 0xff), ucast (drop_bit 56 v AND 0xff)] =
      rev (be_bytes 8 (unat v))"
    unfolding byte_of_drop unfolding byte_of_low be_bytes_8 be_bytes_4 by (simp flip: div_mult2_eq)
  have "length (rev (be_bytes 8 (unat v))) < SIZE_MOD" by (simp add: SIZE_MOD_def)
  from pb_write_writer [OF this] show "pb_writer (\<lambda>s. pb_encode_fixed64 s v) (rev (be_bytes 8 (unat v)))"
    by (simp add: pb_encode_fixed64_def e)
qed

section \<open>Writing into a bounded buffer\<close>

text \<open>On a well-formed stream without an error each encoder succeeds exactly when its encoding fits
  under the limit of the stream; whether it succeeds or not, the memory before the position and
  beyond the limit is as it was, and the stream stays well-formed. On a stream that only counts it
  adds the length of the encoding.\<close>

lemma pb_encoders_bounded:
  assumes "os_inv s" "os_errmsg s = None"
  shows "fst (pb_encode_varint s v) = os_fits (length (varint (unat v))) s \<and> os_bounded s (snd (pb_encode_varint s v)) \<and>
    fst (pb_encode_fixed32 s w) = os_fits 4 s \<and> os_bounded s (snd (pb_encode_fixed32 s w)) \<and>
    fst (pb_encode_fixed64 s v) = os_fits 8 s \<and> os_bounded s (snd (pb_encode_fixed64 s v)) \<and>
    (length bs < SIZE_MOD \<longrightarrow>
       fst (pb_encode_string s bs (length bs)) = os_fits (length (varint (length bs)) + length bs) s \<and>
       os_bounded s (snd (pb_encode_string s bs (length bs)))) \<and>
    bytes_written (snd (pb_encode_varint PB_OSTREAM_SIZING v)) = length (varint (unat v))"
proof -
  have "length (varint (unat v)) mod SIZE_MOD = length (varint (unat v))"
    using varint_length_u64 [of v] by (simp add: SIZE_MOD_def)
  then show ?thesis
    using wr_varint.succeeds_iff [OF assms] wr_varint.bounded [OF assms] wr_fixed32.succeeds_iff [OF assms] wr_fixed32.bounded [OF assms]
      wr_fixed64.succeeds_iff [OF assms] wr_fixed64.bounded [OF assms] wr_varint.sizing [of v]
      pb_writer.succeeds_iff [OF pb_writer_string assms] pb_writer.bounded [OF pb_writer_string assms]
    by simp
qed
end
