(* ===== verification/Pb_Decode.thy ===== *)
theory Pb_Decode
  imports Pb_Encode
begin

text \<open>
  The decoders of nanopb on arbitrary input: which varints are accepted and with which value, that
  no decoder leaves its stream and that every failure carries a message, and substreams.
\<close>

unbundle bit_operations_syntax

section \<open>Varints\<close>

text \<open>
  A varint on the wire: bytes with the high bit up to the first without it; \<open>varint_value\<close> is the
  number its low bits make.
\<close>

fun split_varint :: "byte list \<Rightarrow> (byte list \<times> byte list) option" where
  "split_varint [] = None"
| "split_varint (b # bs) =
     (if unat b < 128 then Some ([b], bs) else map_option (\<lambda>(enc, rest). (b # enc, rest)) (split_varint bs))"

fun varint_value :: "byte list \<Rightarrow> nat" where
  "varint_value [] = 0"
| "varint_value (b # bs) = unat b mod 128 + 128 * varint_value bs"

lemma split_varint_append: "split_varint bs = Some (enc, rest) \<Longrightarrow> bs = enc @ rest \<and> enc \<noteq> []"
  by (induction bs arbitrary: enc) (auto split: if_splits)

lemma varint_byte: "unat (of_nat (128 + n mod 128) :: byte) = 128 + n mod 128"
  using mod_less_divisor [of 128 n] by (subst unat_of_nat) (simp del: mod_less_divisor)

lemma varint_split: "split_varint (varint n @ rest) = Some (varint n, rest)" and varint_value [simp]: "varint_value (varint n) = n"
proof (induction n rule: varint.induct)
  case (1 n)
  case 1
  show ?case
  proof (cases "n < 128")
    case True
    then show ?thesis by (simp add: varint_small unat_of_nat)
  next
    case False
    with "1.IH"(1) show ?thesis by (simp add: varint_large varint_byte del: of_nat_add)
  qed
  case 2
  show ?case
  proof (cases "n < 128")
    case True
    then show ?thesis by (simp add: varint_small unat_of_nat)
  next
    case False
    with "1.IH"(2) show ?thesis by (simp add: varint_large varint_byte del: of_nat_add)
  qed
qed

lemma append_seven_bits:
  assumes "v < 128 ^ k"
  shows "of_nat v OR push_bit (7 * k) (ucast (b AND 0x7f :: byte)) = (of_nat (v + 128 ^ k * (unat b mod 128)) :: 'a::len word)"
proof -
  have "(ucast (b AND 0x7f :: byte) :: 'a word) = of_nat (unat b mod 128)" by (metis byte_and_7f of_nat_unat)
  moreover have p: "(2 :: nat) ^ (7 * k) = 128 ^ k" by (simp add: power_mult)
  ultimately show ?thesis
    using or_shift [of v "7 * k" "unat b mod 128", where 'a = 'a] assms by (simp add: p or.commute ac_simps)
qed

lemma varint_step_bound: "v < 128 ^ k \<Longrightarrow> v + 128 ^ k * (n mod 128) < 128 ^ Suc k" for v :: nat
proof -
  assume v: "v < 128 ^ k"
  have "128 ^ k * (n mod 128) \<le> 128 ^ k * 127" using mod_less_divisor [of 128 n] by (intro mult_left_mono) linarith+
  with v have "v + 128 ^ k * (n mod 128) < 128 ^ k + 128 ^ k * 127" by linarith
  then show ?thesis by simp
qed

lemma varint_loop_spec:
  assumes "is_inv s" "v < 128 ^ k" "k \<le> 10"
  shows "case varint_loop s (of_nat v) (7 * k) of
      (Some w, s') \<Rightarrow> is_advances s s' \<and> (\<exists>enc. split_varint (is_bytes s) = Some (enc, is_bytes s') \<and> k + length enc \<le> 10 \<and>
        w = of_nat (v + 128 ^ k * varint_value enc))
    | (None, s') \<Rightarrow> is_advances s s' \<and> (\<forall>enc rest. split_varint (is_bytes s) = Some (enc, rest) \<longrightarrow> 10 < k + length enc)"
  using assms
proof (induction "10 - k" arbitrary: s v k)
  case 0
  then have k: "k = 10" by simp
  have "0 < length enc" if "split_varint (is_bytes s) = Some (enc, rest)" for enc rest
    using split_varint_append [OF that] by simp
  then show ?case by (auto simp: varint_loop.simps [of s] k)
next
  case (Suc n)
  then have k: "7 * k < 64" "(7 * k + 7) mod 256 = 7 * Suc k" "n = 10 - Suc k" "Suc k \<le> 10" by auto
  show ?case
  proof (cases "is_bytes s")
    case Nil
    with pb_readbyte_Nil [OF Suc.prems(1)] k show ?thesis by (simp add: varint_loop.simps [of s])
  next
    case (Cons b bs)
    obtain s1 where s1: "pb_readbyte s = (Some b, s1)" "is_bytes s1 = bs" "is_advances s s1" "is_inv s1"
      using pb_readbyte_Cons [OF Suc.prems(1) Cons] .
    let ?v = "v + 128 ^ k * (unat b mod 128)"
    have lt: "?v < 128 ^ Suc k" by (rule varint_step_bound [OF Suc.prems(2)])
    have run: "varint_loop s (of_nat v) (7 * k) =
        (if 128 \<le> unat b then varint_loop s1 (of_nat ?v) (7 * Suc k) else (Some (of_nat ?v), s1))"
      using k by (simp add: varint_loop.simps [of s] s1(1) append_seven_bits [OF Suc.prems(2)] byte_high_bit_iff Let_def
          del: of_nat_add of_nat_mult mult_Suc_right)
    show ?thesis
    proof (cases "128 \<le> unat b")
      case False
      then show ?thesis using run s1 Cons k by (auto intro!: exI [of _ "[b]"])
    next
      case True
      have pw: "?v + 128 ^ Suc k * x = v + 128 ^ k * (unat b mod 128 + 128 * x)" for x by (simp add: algebra_simps)
      from Suc.hyps(1) [OF k(3) s1(4) lt k(4)] show ?thesis
      proof (cases "varint_loop s1 (of_nat ?v) (7 * Suc k)")
        case (Pair r s')
        from Suc.hyps(1) [OF k(3) s1(4) lt k(4)] show ?thesis
          unfolding run using Pair True Cons s1(2) is_advances_trans [OF s1(3)]
          by (cases r) (auto simp only: pw prod.case option.case if_True split_varint.simps list.size add_Suc_right, fastforce+)
      qed
    qed
  qed
qed

text \<open>\<open>pb_decode_varint\<close> reads every varint of at most ten bytes, modulo \<open>2 ^ 64\<close>, and nothing else.\<close>

lemma pb_decode_varint_exact:
  assumes "is_inv s"
  shows "case pb_decode_varint s of
      (Some w, s') \<Rightarrow> is_advances s s' \<and> (\<exists>enc. split_varint (is_bytes s) = Some (enc, is_bytes s') \<and> length enc \<le> 10 \<and>
        w = of_nat (varint_value enc))
    | (None, s') \<Rightarrow> is_advances s s' \<and> (\<forall>enc rest. split_varint (is_bytes s) = Some (enc, rest) \<longrightarrow> 10 < length enc)"
proof -
  from varint_loop_spec [OF assms, of 0 0] show ?thesis
    by (simp add: pb_decode_varint_def split: prod.splits option.splits)
qed

lemma pb_decode_varint_reads:
  assumes "is_inv s" "is_bytes s = varint (unat v) @ rest"
  obtains s' where "pb_decode_varint s = (Some v, s')" "is_bytes s' = rest" "is_advances s s'" "is_inv s'"
proof -
  obtain r s' where r: "pb_decode_varint s = (r, s')" by fastforce
  have sp: "split_varint (is_bytes s) = Some (varint (unat v), rest)" by (simp add: assms(2) varint_split)
  from pb_decode_varint_exact [OF assms(1)] r sp varint_length_u64 [of v]
  have "r = Some v" "is_bytes s' = rest" "is_advances s s'" by (auto split: option.splits)
  with r that is_advances_inv [OF _ assms(1)] show thesis by blast
qed

text \<open>
  The 32-bit decoder on encodings of at most five bytes whose value fits. Up to there \<open>bitpos\<close> stays
  below 32 and every byte goes into the result.
\<close>

lemma byte_and_70: "(b AND 0x70 :: byte) \<noteq> 0 \<longleftrightarrow> 16 \<le> unat b mod 128"
proof -
  have e: "b AND 0x70 = push_bit 4 (take_bit 3 (drop_bit 4 b))"
  proof -
    have e: "(0x70 :: byte) = push_bit 4 (mask 3)" by (simp add: mask_eq_exp_minus_1)
    show ?thesis by (subst e) (rule bit_word_eqI, auto simp: bit_simps)
  qed
  have "unat (b AND 0x70) = take_bit 8 (push_bit 4 (take_bit 3 (unat b div 2 ^ 4)))"
    unfolding e by (simp only: unsigned_push_bit_eq unsigned_take_bit_eq unat_drop_bit) simp
  then have "unat (b AND 0x70) = unat b div 16 mod 8 * 16" by (simp add: take_bit_eq_mod push_bit_eq_mult)
  moreover have "unat b div 16 mod 8 = unat b mod 128 div 16" using mod_mult2_eq [of "unat b" 16 8] by simp
  ultimately show ?thesis by (simp add: unat_eq_zero [symmetric] div_eq_0_iff not_less)
qed

lemma varint32_loop_spec:
  assumes "is_inv s" "v < 128 ^ k" "k < 5" "split_varint (is_bytes s) = Some (enc, rest)" "k + length enc \<le> 5"
  shows "\<exists>s'. varint32_loop s (of_nat v) (7 * k) =
      (if v + 128 ^ k * varint_value enc < 2 ^ 32 then Some (of_nat (v + 128 ^ k * varint_value enc)) else None, s') \<and>
      is_bytes s' = rest \<and> is_advances s s'"
  using assms
proof (induction enc arbitrary: s v k)
  case Nil
  then show ?case using split_varint_append by blast
next
  case (Cons b enc)
  obtain bs where bs: "is_bytes s = b # bs" using split_varint_append [OF Cons.prems(4)] by auto
  obtain s1 where s1: "pb_readbyte s = (Some b, s1)" "is_bytes s1 = bs" "is_advances s s1" "is_inv s1"
    using pb_readbyte_Cons [OF Cons.prems(1) bs] .
  let ?v = "v + 128 ^ k * (unat b mod 128)"
  have lt: "?v < 128 ^ Suc k" by (rule varint_step_bound [OF Cons.prems(2)])
  have k: "\<not> 32 \<le> 7 * k" "(7 * k + 7) mod 256 = 7 * Suc k" "7 * Suc k = 35 \<longleftrightarrow> k = 4" using Cons.prems(3) by auto
  have run: "varint32_loop s (of_nat v) (7 * k) =
      (if 128 \<le> unat b then varint32_loop s1 (of_nat ?v) (7 * Suc k)
       else if k = 4 \<and> 16 \<le> unat b mod 128 then (None, is_error ''varint overflow'' s1)
       else (Some (of_nat ?v), s1))"
    using k by (simp add: varint32_loop.simps [of s] s1(1) append_seven_bits [OF Cons.prems(2)] byte_high_bit_iff byte_and_70 Let_def
        del: of_nat_add of_nat_mult mult_Suc_right)
  show ?case
  proof (cases "128 \<le> unat b")
    case True
    then have sp: "split_varint (is_bytes s1) = Some (enc, rest)" using Cons.prems(4) bs s1(2) by auto
    have "0 < length enc" using split_varint_append [OF sp] by simp
    then have k5: "Suc k < 5" "Suc k + length enc \<le> 5" using Cons.prems(5) unfolding list.size by linarith+
    have pw: "?v + 128 ^ Suc k * x = v + 128 ^ k * (unat b mod 128 + 128 * x)" for x by (simp add: algebra_simps)
    from Cons.IH [OF s1(4) lt k5(1) sp k5(2)] show ?thesis
      unfolding run pw varint_value.simps using True is_advances_trans [OF s1(3)] by auto
  next
    case False
    then have e: "enc = []" "rest = bs" using Cons.prems(4) bs by auto
    have "?v < 2 ^ 32 \<longleftrightarrow> \<not> (k = 4 \<and> 16 \<le> unat b mod 128)"
    proof (cases "k = 4")
      case True
      then show ?thesis using Cons.prems(2) by auto
    next
      case False
      then have "(128 :: nat) ^ Suc k \<le> 128 ^ 4" using Cons.prems(3) by (intro power_increasing) simp_all
      then show ?thesis using False lt by simp
    qed
    then show ?thesis using False run s1 e by auto
  qed
qed

lemma pb_decode_varint32_eof_spec:
  assumes "is_inv s" "split_varint (is_bytes s) = Some (enc, rest)" "length enc \<le> 5"
  shows "\<exists>s'. pb_decode_varint32_eof s = (if varint_value enc < 2 ^ 32 then Some (of_nat (varint_value enc)) else None, False, s') \<and>
      is_bytes s' = rest \<and> is_advances s s'"
proof -
  obtain b enc' bs where e: "enc = b # enc'" "is_bytes s = b # bs"
    using split_varint_append [OF assms(2)] by (cases enc) auto
  obtain s1 where s1: "pb_readbyte s = (Some b, s1)" "is_bytes s1 = bs" "is_advances s s1" "is_inv s1"
    using pb_readbyte_Cons [OF assms(1) e(2)] .
  show ?thesis
  proof (cases "128 \<le> unat b")
    case True
    then have sp: "split_varint (is_bytes s1) = Some (enc', rest)" using assms(2) e s1(2) by auto
    have u: "(ucast (b AND 0x7f) :: u32) = of_nat (unat b mod 128)" by (metis byte_and_7f of_nat_unat)
    have l: "1 + length enc' \<le> 5" using assms(3) e(1) by simp
    have "unat b mod 128 < 128 ^ 1" by simp
    from varint32_loop_spec [OF s1(4) this _ sp l] obtain s' where
      "varint32_loop s1 (of_nat (unat b mod 128)) 7 = (if varint_value enc < 2 ^ 32 then Some (of_nat (varint_value enc)) else None, s')"
      "is_bytes s' = rest" "is_advances s1 s'" unfolding e(1) varint_value.simps by auto
    moreover have "b AND 0x80 \<noteq> 0" using True by (simp add: byte_high_bit_iff)
    ultimately show ?thesis using s1(1) is_advances_trans [OF s1(3)] by (simp add: pb_decode_varint32_eof_def u)
  next
    case False
    then have "enc' = []" "rest = bs" using assms(2) e by auto
    moreover have "b AND 0x80 = 0" using False byte_high_bit_iff [of b] by blast
    ultimately show ?thesis using False s1 e(1) unsigned_less [of b, where 'a = nat] by (simp add: pb_decode_varint32_eof_def)
  qed
qed

lemma pb_decode_varint32_eof_reads:
  assumes "is_inv s" "is_bytes s = varint n @ rest" "n < 2 ^ 32"
  obtains s' where "pb_decode_varint32_eof s = (Some (of_nat n), False, s')" "is_bytes s' = rest" "is_advances s s'" "is_inv s'"
proof -
  have "length (varint n) \<le> 5" using assms(3) by (intro varint_length) simp_all
  from pb_decode_varint32_eof_spec [OF assms(1) _ this] assms(2,3) that is_advances_inv [OF _ assms(1)]
  show thesis by (auto simp: varint_split)
qed

lemma pb_decode_varint32_reads:
  assumes "is_inv s" "is_bytes s = varint n @ rest" "n < 2 ^ 32"
  obtains s' where "pb_decode_varint32 s = (Some (of_nat n), s')" "is_bytes s' = rest" "is_advances s s'" "is_inv s'"
proof (rule pb_decode_varint32_eof_reads [OF assms])
  fix s' assume "pb_decode_varint32_eof s = (Some (of_nat n), False, s')" "is_bytes s' = rest" "is_advances s s'" "is_inv s'"
  then show thesis using that by (simp add: pb_decode_varint32_def)
qed

text \<open>At the end of the stream the caller is told so.\<close>

lemma pb_decode_varint32_eof_end:
  "is_inv s \<Longrightarrow> is_bytes s = [] \<Longrightarrow> pb_decode_varint32_eof s = (None, True, is_error ''end-of-stream'' s)"
  using length_is_bytes [of s] by (simp add: pb_decode_varint32_eof_def pb_readbyte_Nil)

lemma varint_loop_reader:
  "is_advances s (snd (varint_loop s r p)) \<and> (fst (varint_loop s r p) = None \<longrightarrow> is_errmsg (snd (varint_loop s r p)) \<noteq> None)"
proof (induction s r p rule: varint_loop.induct)
  case (1 s r p)
  have a: "is_advances s (snd (pb_readbyte s))" "fst (pb_readbyte s) = None \<longrightarrow> is_errmsg (snd (pb_readbyte s)) \<noteq> None"
    using pb_reader_readbyte by (auto simp: pb_reader_def)
  with 1 show ?case
    by (auto simp: varint_loop.simps [of s] Let_def split: prod.splits option.splits intro: is_advances_trans)
qed

lemma varint32_loop_reader:
  "is_advances s (snd (varint32_loop s r p)) \<and> (fst (varint32_loop s r p) = None \<longrightarrow> is_errmsg (snd (varint32_loop s r p)) \<noteq> None)"
proof (induction s r p rule: varint32_loop.induct)
  case (1 s r p)
  have a: "is_advances s (snd (pb_readbyte s))" "fst (pb_readbyte s) = None \<longrightarrow> is_errmsg (snd (pb_readbyte s)) \<noteq> None"
    using pb_reader_readbyte by (auto simp: pb_reader_def)
  show ?case
  proof (cases "pb_readbyte s")
    case (Pair x s1)
    show ?thesis
    proof (cases x)
      case None
      then show ?thesis using a Pair by (simp add: varint32_loop.simps [of s])
    next
      case (Some b)
      let ?ov = "32 \<le> p \<and> b AND 0x7f \<noteq> 0 \<and> (drop_bit 31 r = 0 \<or> b \<noteq> (if p < 63 then 0xff else 0x01))"
      let ?r = "if 32 \<le> p then r else r OR push_bit p (ucast (b AND 0x7f))" and ?p = "(p + 7) mod 256"
      have run: "varint32_loop s r p = (if ?ov then (None, is_error ''varint overflow'' s1)
          else if b AND 0x80 \<noteq> 0 then varint32_loop s1 ?r ?p
          else if ?p = 35 \<and> b AND 0x70 \<noteq> 0 then (None, is_error ''varint overflow'' s1) else (Some ?r, s1))"
        by (subst varint32_loop.simps) (simp only: Pair Some prod.case option.case Let_def)
      have ih: "\<not> ?ov \<Longrightarrow> b AND 0x80 \<noteq> 0 \<Longrightarrow> is_advances s1 (snd (varint32_loop s1 ?r ?p)) \<and>
          (fst (varint32_loop s1 ?r ?p) = None \<longrightarrow> is_errmsg (snd (varint32_loop s1 ?r ?p)) \<noteq> None)"
        using "1.IH" [OF Pair [symmetric] Some refl _ refl refl] by simp
      have "is_advances s s1" using a(1) Pair by simp
      with ih show ?thesis unfolding run by (auto intro: is_advances_trans)
    qed
  qed
qed

interpretation rd_varint: pb_reader pb_decode_varint
  by unfold_locales (use varint_loop_reader in \<open>auto simp: pb_decode_varint_def\<close>)

interpretation rd_varint32: pb_reader pb_decode_varint32
proof (rule pb_reader_bind [OF pb_reader_readbyte])
  fix b
  show "pb_reader (\<lambda>s. if b AND 0x80 = 0 then (Some (ucast b), s) else varint32_loop s (ucast (b AND 0x7f)) 7)"
    by unfold_locales (use varint32_loop_reader in auto)
qed (auto simp: pb_decode_varint32_def pb_decode_varint32_eof_def split: prod.splits option.splits)

lemma pb_reader_unit: "pb_reader get \<Longrightarrow> pb_reader (\<lambda>s. case get s of (r, s) \<Rightarrow> (map_option (\<lambda>_. ()) r, s))"
  by (erule pb_reader_bind [OF _ pb_reader_return]) (auto split: prod.splits option.splits)

interpretation rd_skip_varint: pb_reader pb_skip_varint
proof -
  have "is_advances s (snd (pb_skip_varint s)) \<and> (fst (pb_skip_varint s) = None \<longrightarrow> is_errmsg (snd (pb_skip_varint s)) \<noteq> None)" for s
  proof (induction s rule: pb_skip_varint.induct)
    case (1 s)
    have a: "is_advances s (snd (pb_read s 1))" "fst (pb_read s 1) = None \<longrightarrow> is_errmsg (snd (pb_read s 1)) \<noteq> None"
      using pb_reader_read [of 1] by (auto simp: pb_reader_def)
    with 1 show ?case
      by (auto simp: pb_skip_varint.simps [of s] split: prod.splits option.splits intro: is_advances_trans)
  qed
  then show "pb_reader pb_skip_varint" by unfold_locales auto
qed

interpretation rd_skip_field: pb_reader "\<lambda>s. pb_skip_field s wt" for wt
proof -
  have s: "pb_reader pb_skip_string"
    by (rule pb_reader_bind [OF rd_varint32.pb_reader_axioms pb_reader_unit [OF pb_reader_read]]) (simp add: pb_skip_string_def)
  have "pb_reader (if wt = PB_WT_VARINT then pb_skip_varint
      else if wt = PB_WT_64BIT then (\<lambda>s. case pb_read s 8 of (r, s) \<Rightarrow> (map_option (\<lambda>_. ()) r, s))
      else if wt = PB_WT_STRING then pb_skip_string
      else if wt = PB_WT_32BIT then (\<lambda>s. case pb_read s 4 of (r, s) \<Rightarrow> (map_option (\<lambda>_. ()) r, s))
      else (\<lambda>s. (None, is_error ''invalid wire_type'' s)))"
    by (simp add: rd_skip_varint.pb_reader_axioms s pb_reader_unit [OF pb_reader_read] pb_reader_fail)
  also have "(if wt = PB_WT_VARINT then pb_skip_varint
      else if wt = PB_WT_64BIT then (\<lambda>s. case pb_read s 8 of (r, s) \<Rightarrow> (map_option (\<lambda>_. ()) r, s))
      else if wt = PB_WT_STRING then pb_skip_string
      else if wt = PB_WT_32BIT then (\<lambda>s. case pb_read s 4 of (r, s) \<Rightarrow> (map_option (\<lambda>_. ()) r, s))
      else (\<lambda>s. (None, is_error ''invalid wire_type'' s))) = (\<lambda>s. pb_skip_field s wt)"
    by (auto simp: pb_skip_field_def)
  finally show "pb_reader (\<lambda>s. pb_skip_field s wt)" .
qed

interpretation rd_svarint: pb_reader pb_decode_svarint
  by (rule pb_reader_bind [OF rd_varint.pb_reader_axioms pb_reader_return]) (simp add: pb_decode_svarint_def)

interpretation rd_fixed32: pb_reader pb_decode_fixed32
  by (rule pb_reader_bind [OF pb_reader_read [of 4] pb_reader_return]) (simp add: pb_decode_fixed32_def)

interpretation rd_fixed64: pb_reader pb_decode_fixed64
  by (rule pb_reader_bind [OF pb_reader_read [of 8] pb_reader_return]) (simp add: pb_decode_fixed64_def)

section \<open>Substreams\<close>

text \<open>
  The bytes of the parent are a length, those of the substream and those the parent continues
  with. However much of the substream was read, closing it puts the parent after all of it.
\<close>

lemma substream_closes:
  assumes "is_inv s" "pb_make_string_substream s = (Some sub, s1)" "is_advances sub sub'"
  obtains s2 len where "pb_close_string_substream s1 sub' = (True, s2)" "is_advances s s2" "is_inv sub"
    "is_bytes s = len @ is_bytes sub @ is_bytes s2"
proof -
  obtain n p where p: "pb_decode_varint32 s = (Some n, p)" "unat n \<le> bytes_left p"
      "sub = p\<lparr>bytes_left := unat n\<rparr>" "s1 = p\<lparr>bytes_left := bytes_left p - unat n\<rparr>"
    using assms(2) by (auto simp: pb_make_string_substream_def split: prod.splits option.splits if_splits)
  have adv: "is_advances s p" and inv: "is_inv p"
    using rd_varint32.advances [of s] rd_varint32.keeps_inv [OF assms(1)] p(1) by auto
  have sub: "is_inv sub" using inv p(2) by (simp add: p(3) is_inv_def)
  have sub': "is_inv sub'" by (rule is_advances_inv [OF assms(3) sub])
  obtain j where j: "is_bytes p = drop j (is_bytes s)" using rd_varint32.leaves_suffix [of s] p(1) by auto
  obtain e where "pb_close_string_substream s1 sub' = (True, s1\<lparr>is_pos := is_pos p + unat n, is_errmsg := e\<rparr>)"
  proof (cases "bytes_left sub' = 0")
    case True
    then have "is_pos sub' = is_pos p + unat n" using assms(3) by (simp add: is_advances_def p(3))
    then show thesis using True that by (simp add: pb_close_string_substream_def)
  next
    case False
    then have "is_pos sub' + bytes_left sub' = is_pos p + unat n" using assms(3) by (simp add: is_advances_def p(3))
    then show thesis using False that by (simp add: pb_close_string_substream_def pb_read_def buf_read_def)
  qed
  moreover have "is_bytes s = take j (is_bytes s) @ is_bytes sub @ is_bytes (s1\<lparr>is_pos := is_pos p + unat n, is_errmsg := e\<rparr>)" for e
  proof -
    have "is_bytes p = take (unat n) (is_bytes p) @ drop (unat n) (is_bytes p)" by simp
    also have "take (unat n) (is_bytes p) = is_bytes sub" using p(2) by (simp add: p(3) is_bytes_def slice_def min_absorb1)
    also have "drop (unat n) (is_bytes p) = is_bytes (s1\<lparr>is_pos := is_pos p + unat n, is_errmsg := e\<rparr>)"
      by (simp add: p(4) is_bytes_def slice_def drop_take add.commute)
    finally show ?thesis using j by (metis append_take_drop_id)
  qed
  moreover have "is_advances s (s1\<lparr>is_pos := is_pos p + unat n, is_errmsg := e\<rparr>)" for e
    using adv p(2) by (simp add: is_advances_def p(4))
  ultimately show thesis using that sub by blast
qed

section \<open>Properties of the decoders\<close>

text \<open>C32: On any stream, whatever its bytes, the decoders and the skipper stay inside it: the memory is the
  same, the position moves forward and what is left ends where it ended before, so a well-formed
  stream stays well-formed; and a decoder that fails has left an error message.\<close>

theorem pb_decoders_well_behaved:
  "is_advances s (snd (pb_decode_varint s)) \<and> (fst (pb_decode_varint s) = None \<longrightarrow> is_errmsg (snd (pb_decode_varint s)) \<noteq> None) \<and>
   is_advances s (snd (pb_decode_varint32 s)) \<and> (fst (pb_decode_varint32 s) = None \<longrightarrow> is_errmsg (snd (pb_decode_varint32 s)) \<noteq> None) \<and>
   is_advances s (snd (pb_decode_svarint s)) \<and> (fst (pb_decode_svarint s) = None \<longrightarrow> is_errmsg (snd (pb_decode_svarint s)) \<noteq> None) \<and>
   is_advances s (snd (pb_decode_fixed32 s)) \<and> (fst (pb_decode_fixed32 s) = None \<longrightarrow> is_errmsg (snd (pb_decode_fixed32 s)) \<noteq> None) \<and>
   is_advances s (snd (pb_decode_fixed64 s)) \<and> (fst (pb_decode_fixed64 s) = None \<longrightarrow> is_errmsg (snd (pb_decode_fixed64 s)) \<noteq> None) \<and>
   is_advances s (snd (pb_skip_field s wt)) \<and> (fst (pb_skip_field s wt) = None \<longrightarrow> is_errmsg (snd (pb_skip_field s wt)) \<noteq> None) \<and>
   (is_inv s \<longrightarrow> is_inv (snd (pb_decode_varint s)) \<and> is_inv (snd (pb_decode_varint32 s)) \<and> is_inv (snd (pb_skip_field s wt)))"
  using rd_varint.advances rd_varint.reports rd_varint32.advances rd_varint32.reports rd_svarint.advances rd_svarint.reports
    rd_fixed32.advances rd_fixed32.reports rd_fixed64.advances rd_fixed64.reports rd_skip_field.advances rd_skip_field.reports
    rd_varint.keeps_inv rd_varint32.keeps_inv rd_skip_field.keeps_inv by simp

theorem pb_decoders_well_behaved_witness:
  "is_errmsg (snd (pb_skip_field (pb_istream_from_buffer [1, 2, 3] 3) PB_WT_64BIT)) \<noteq> None \<and>
   is_inv (snd (pb_skip_field (pb_istream_from_buffer [1, 2, 3] 3) PB_WT_64BIT))"
proof -
  have "fst (pb_skip_field (pb_istream_from_buffer [1, 2, 3] 3) PB_WT_64BIT) = None" "is_inv (pb_istream_from_buffer [1, 2, 3] 3)"
    by (simp_all add: pb_skip_field_def PB_WT_64BIT_def PB_WT_VARINT_def pb_read_def pb_istream_from_buffer_def is_inv_def)
  then show ?thesis using pb_decoders_well_behaved [of "pb_istream_from_buffer [1, 2, 3] 3" PB_WT_64BIT] by blast
qed

text \<open>C33: \<open>pb_decode_varint\<close> accepts exactly the inputs that start with a varint of at most ten bytes. It
  returns the number modulo \<open>2 ^ 64\<close> and leaves the bytes after it.\<close>

theorem pb_decode_varint_accepts_exactly:
  assumes "is_inv s"
  shows "(\<exists>s'. pb_decode_varint s = (Some w, s') \<and> is_bytes s' = rest) \<longleftrightarrow>
    (\<exists>enc. split_varint (is_bytes s) = Some (enc, rest) \<and> length enc \<le> 10 \<and> w = of_nat (varint_value enc))"
proof -
  obtain r s' where r: "pb_decode_varint s = (r, s')" by fastforce
  from pb_decode_varint_exact [OF assms] show ?thesis by (cases r) (force simp: r)+
qed

theorem pb_decode_varint_accepts_exactly_witness:
  "\<exists>s'. pb_decode_varint (pb_istream_from_buffer [0xac, 0x02, 7] 3) = (Some 300, s') \<and> is_bytes s' = [7]"
proof -
  have "is_inv (pb_istream_from_buffer [0xac, 0x02, 7] 3)" by (simp add: is_inv_def pb_istream_from_buffer_def)
  from pb_decode_varint_accepts_exactly [OF this, of 300 "[7]"] show ?thesis
    by (simp add: is_bytes_def pb_istream_from_buffer_def slice_def)
qed

text \<open>\<open>pb_decode_varint32\<close> accepts overlong encodings with a wrong value. The shift counter is eight
  bits wide and wraps after 37 bytes, so that a varint of 38 bytes decodes to 8; and the bits of
  the fifth byte above the 32-bit range are checked only when it is the last byte, so that a
  number not below \<open>2 ^ 32\<close> decodes to 0. \<open>pb_decode_varint\<close> refuses the first and reads the second
  as what it is.\<close>

lemma pb_decode_varint32_overflow_missed:
  "fst (pb_decode_varint32 (pb_istream_from_buffer (replicate 37 0x80 @ [1]) 38)) = Some 8 \<and>
   fst (pb_decode_varint (pb_istream_from_buffer (replicate 37 0x80 @ [1]) 38)) = None \<and>
   fst (pb_decode_varint32 (pb_istream_from_buffer [0x80, 0x80, 0x80, 0x80, 0xf0, 0x00] 6)) = Some 0 \<and>
   fst (pb_decode_varint (pb_istream_from_buffer [0x80, 0x80, 0x80, 0x80, 0xf0, 0x00] 6)) = Some (112 * 2 ^ 28)"
  by code_simp

end
