(* ===== verification/Pb_Wire.thy ===== *)
theory Pb_Wire
  imports Pb_Decode
begin

text \<open>
  Encoders and decoders of nanopb together: each pair is a \<open>pb_codec\<close>, and so is a tag followed by a
  value of its wire type. Skipping a field and reading it raw are compared with reading it.
\<close>

unbundle bit_operations_syntax

section \<open>Round trips\<close>

text \<open>
  A codec is a writer of each of its values with a reader that takes the value back off the front
  of a stream, whatever follows.
\<close>

locale pb_codec =
  fixes put :: "'a \<Rightarrow> pb_ostream_t \<Rightarrow> bool \<times> pb_ostream_t" and get :: "pb_istream_t \<Rightarrow> 'a pb_result"
    and valid :: "'a \<Rightarrow> bool" and enc :: "'a \<Rightarrow> byte list"
  assumes put_writes: "valid x \<Longrightarrow> pb_writer (put x) (enc x)"
    and get_reads: "valid x \<Longrightarrow> is_inv s \<Longrightarrow> is_bytes s = enc x @ rest \<Longrightarrow>
      \<exists>s'. get s = (Some x, s') \<and> is_bytes s' = rest \<and> is_advances s s'"
begin

lemma round_trip:
  assumes "valid x" "length (enc x) \<le> length mem" "length mem \<le> PTRDIFF_MAX"
  shows "\<exists>s s'. put x (pb_ostream_from_buffer mem (length mem)) = (True, s) \<and>
    get (pb_istream_from_buffer (os_mem s) (bytes_written s)) = (Some x, s') \<and> bytes_left s' = 0"
proof -
  obtain s where s: "put x (pb_ostream_from_buffer mem (length mem)) = (True, s)" "bytes_written s = length (enc x)"
      "take (length (enc x)) (os_mem s) = enc x" "drop (length (enc x)) (os_mem s) = drop (length (enc x)) mem"
    using pb_writer.to_buffer [OF put_writes [OF assms(1)] assms(2,3)] by blast
  let ?i = "pb_istream_from_buffer (os_mem s) (bytes_written s)"
  have "length (enc x) \<le> length (os_mem s)" using s(3) by (metis nat_le_linear take_all order_refl)
  then have i: "is_inv ?i" "is_bytes ?i = enc x @ []"
    using s(2,3) by (simp_all add: is_inv_def is_bytes_def pb_istream_from_buffer_def slice_def)
  from get_reads [OF assms(1) i] obtain s' where "get ?i = (Some x, s')" "is_bytes s' = []" "is_advances ?i s'" by blast
  moreover then have "bytes_left s' = 0" using is_advances_inv [OF _ i(1)] length_is_bytes [of s'] by auto
  ultimately show ?thesis using s(1) by blast
qed

end

text \<open>Two codecs after each other; the reader of the second may depend on what the first one read.\<close>

lemma pb_codec_seq:
  assumes c1: "pb_codec put1 get1 valid1 enc1" and c2: "\<And>x. pb_codec (put2 x) (get2 x) (valid2 x) (enc2 x)"
  shows "pb_codec
    (\<lambda>(x, y) s. case put1 x s of (False, s) \<Rightarrow> (False, s) | (True, s) \<Rightarrow> put2 x y s)
    (\<lambda>s. case get1 s of (None, s) \<Rightarrow> (None, s) | (Some x, s) \<Rightarrow>
       (case get2 x s of (None, s) \<Rightarrow> (None, s) | (Some y, s) \<Rightarrow> (Some (x, y), s)))
    (\<lambda>(x, y). valid1 x \<and> valid2 x y) (\<lambda>(x, y). enc1 x @ enc2 x y)"
proof (rule pb_codec.intro, goal_cases)
  case (1 xy)
  then obtain x y where xy: "xy = (x, y)" "valid1 x" "valid2 x y" by (cases xy) auto
  show ?case unfolding xy(1) prod.case
    by (rule pb_writer_seq [OF pb_codec.put_writes [OF c1 xy(2)] pb_codec.put_writes [OF c2 xy(3)]]) simp
next
  case (2 xy s rest)
  then obtain x y where xy: "xy = (x, y)" "valid1 x" "valid2 x y" "is_bytes s = enc1 x @ enc2 x y @ rest" by (cases xy) auto
  from pb_codec.get_reads [OF c1 xy(2) 2(2) xy(4)] obtain s1 where
    s1: "get1 s = (Some x, s1)" "is_bytes s1 = enc2 x y @ rest" "is_advances s s1" by blast
  from pb_codec.get_reads [OF c2 xy(3) is_advances_inv [OF s1(3) 2(2)] s1(2)] s1 show ?case
    by (auto simp: xy(1) intro: is_advances_trans)
qed

interpretation co_varint: pb_codec "\<lambda>v s. pb_encode_varint s v" pb_decode_varint "\<lambda>_. True" "\<lambda>v. varint (unat v)"
proof (rule pb_codec.intro, goal_cases)
  case (1 v)
  show ?case by (rule wr_varint.pb_writer_axioms)
next
  case (2 v s rest)
  from pb_decode_varint_reads [OF 2(2,3)] show ?case by blast
qed

text \<open>Zig-zag: a signed value goes to an unsigned one with its sign in the lowest bit.\<close>

definition zigzag :: "u64 \<Rightarrow> u64" where
  "zigzag v = (if sint v < 0 then NOT (push_bit 1 v) else push_bit 1 v)"

lemma zigzag_bit: "bit (zigzag v) i \<longleftrightarrow> i < 64 \<and> ((sint v < 0) \<noteq> (0 < i \<and> bit v (i - 1)))"
proof -
  have "bit (push_bit 1 v) i \<longleftrightarrow> i < 64 \<and> 0 < i \<and> bit v (i - 1)"
    by (simp only: bit_push_bit_iff) (cases i, auto)
  moreover have "bit (NOT w) i \<longleftrightarrow> i < 64 \<and> \<not> bit w i" for w :: u64 by (simp add: bit_not_iff)
  ultimately show ?thesis by (auto simp only: zigzag_def split: if_splits)
qed

lemma zigzag_low_bit: "zigzag v AND 1 \<noteq> 0 \<longleftrightarrow> sint v < 0"
  using zigzag_bit [of v 0] by (simp add: and_one_eq bit_0 mod_2_eq_odd)

lemma zigzag_inverse: "(if zigzag v AND 1 \<noteq> 0 then NOT (drop_bit 1 (zigzag v)) else drop_bit 1 (zigzag v)) = v"
proof -
  have top: "bit v 63 \<longleftrightarrow> sint v < 0" using bit_last_iff [of v] by simp
  have "(if sint v < 0 then NOT (drop_bit 1 (zigzag v)) else drop_bit 1 (zigzag v)) = v"
  proof (rule bit_word_eqI)
    fix i assume "i < LENGTH(64)"
    then have "i < 63 \<or> i = 63" by auto
    then show "bit (if sint v < 0 then NOT (drop_bit 1 (zigzag v)) else drop_bit 1 (zigzag v)) i = bit v i"
      using top by (auto simp: zigzag_bit bit_drop_bit_eq bit_not_iff)
  qed
  then show ?thesis by (simp only: zigzag_low_bit)
qed

interpretation co_svarint: pb_codec "\<lambda>v s. pb_encode_svarint s v" pb_decode_svarint "\<lambda>_. True" "\<lambda>v. varint (unat (zigzag v))"
proof (rule pb_codec.intro, goal_cases)
  case (1 v)
  show ?case unfolding pb_encode_svarint_def zigzag_def [symmetric] by (rule wr_varint.pb_writer_axioms)
next
  case (2 v s rest)
  obtain s' where "pb_decode_varint s = (Some (zigzag v), s')" "is_bytes s' = rest" "is_advances s s'"
    using pb_decode_varint_reads [OF 2(2,3)] by blast
  then show ?case using zigzag_inverse [of v] by (simp add: pb_decode_svarint_def)
qed

lemma rev_be_bytes_4: "rev (be_bytes 4 (unat v)) =
    [ucast v, ucast (drop_bit 8 v), ucast (drop_bit 16 v), ucast (drop_bit 24 v)]" for v :: "'a::len word"
proof -
  have "(ucast (drop_bit k v) :: byte) = of_nat (unat v div 2 ^ k)" for k by (metis of_nat_unat unat_drop_bit)
  moreover have "(ucast v :: byte) = of_nat (unat v)" by simp
  ultimately show ?thesis unfolding be_bytes_4 by simp
qed

lemma rev_be_bytes_8: "rev (be_bytes 8 (unat v)) = rev (be_bytes 4 (unat v)) @ rev (be_bytes 4 (unat (drop_bit 32 v)))"
  by (simp add: be_bytes_8 unat_drop_bit)

text \<open>A byte of a word, put back in its place, has the bits of that place.\<close>

lemma bit_byte_lane:
  "bit (push_bit k (ucast (ucast (drop_bit k w) :: byte) :: 'a word)) i \<longleftrightarrow> k \<le> i \<and> i < k + 8 \<and> bit w i"
  "bit (ucast (ucast w :: byte) :: 'a word) i \<longleftrightarrow> i < 8 \<and> bit w i" for w :: "'a::len word"
  by (auto simp: bit_simps dest: bit_imp_le_length)

lemma fixed32_bytes: "ucast (ucast v :: byte) OR push_bit 8 (ucast (ucast (drop_bit 8 v) :: byte)) OR
    push_bit 16 (ucast (ucast (drop_bit 16 v) :: byte)) OR push_bit 24 (ucast (ucast (drop_bit 24 v) :: byte)) = (v :: u32)" (is "?w = v")
proof (rule bit_word_eqI)
  fix i assume "i < LENGTH(32)"
  then have "i < 32" by simp
  then show "bit ?w i = bit v i" unfolding bit_or_iff bit_byte_lane by (cases "bit v i") auto
qed

interpretation co_fixed32: pb_codec "\<lambda>v s. pb_encode_fixed32 s v" pb_decode_fixed32 "\<lambda>_. True" "\<lambda>v. rev (be_bytes 4 (unat v))"
proof (rule pb_codec.intro, goal_cases)
  case (1 v)
  show ?case by (rule wr_fixed32.pb_writer_axioms)
next
  case (2 v s rest)
  let ?bs = "rev (be_bytes 4 (unat v))"
  have "length ?bs = 4" by simp
  then obtain s' where s': "pb_read s 4 = (Some ?bs, s')" "is_bytes s' = rest" "is_advances s s'"
    using pb_read_take [OF 2(2,3)] by metis
  then show ?case using fixed32_bytes [of v] by (simp add: pb_decode_fixed32_def rev_be_bytes_4)
qed

lemma fixed64_bytes: "ucast (ucast v :: byte) OR push_bit 8 (ucast (ucast (drop_bit 8 v) :: byte)) OR
    push_bit 16 (ucast (ucast (drop_bit 16 v) :: byte)) OR push_bit 24 (ucast (ucast (drop_bit 24 v) :: byte)) OR
    push_bit 32 (ucast (ucast (drop_bit 32 v) :: byte)) OR push_bit 40 (ucast (ucast (drop_bit 40 v) :: byte)) OR
    push_bit 48 (ucast (ucast (drop_bit 48 v) :: byte)) OR push_bit 56 (ucast (ucast (drop_bit 56 v) :: byte)) = (v :: u64)" (is "?w = v")
proof (rule bit_word_eqI)
  fix i assume "i < LENGTH(64)"
  then have "i < 64" by simp
  then show "bit ?w i = bit v i" unfolding bit_or_iff bit_byte_lane by (cases "bit v i") (simp_all, presburger)
qed

interpretation co_fixed64: pb_codec "\<lambda>v s. pb_encode_fixed64 s v" pb_decode_fixed64 "\<lambda>_. True" "\<lambda>v. rev (be_bytes 8 (unat v))"
proof (rule pb_codec.intro, goal_cases)
  case (1 v)
  show ?case by (rule wr_fixed64.pb_writer_axioms)
next
  case (2 v s rest)
  let ?bs = "rev (be_bytes 8 (unat v))"
  have "length ?bs = 8" by simp
  then obtain s' where "pb_read s 8 = (Some ?bs, s')" "is_bytes s' = rest" "is_advances s s'"
    using pb_read_take [OF 2(2,3)] by metis
  then show ?case using fixed64_bytes [of v]
    by (simp add: pb_decode_fixed64_def rev_be_bytes_8 rev_be_bytes_4)
qed

text \<open>A tag with its field number and wire type; zero is not a tag, it ends a message.\<close>

definition tag_number :: "pb_wire_type_t \<times> u32 \<Rightarrow> nat" where
  "tag_number t = 8 * unat (snd t) + unat (fst t)"

definition valid_tag :: "pb_wire_type_t \<times> u32 \<Rightarrow> bool" where
  "valid_tag t \<longleftrightarrow> unat (fst t) < 8 \<and> unat (snd t) < 2 ^ 29 \<and> t \<noteq> (0, 0)"

definition read_tag :: "pb_istream_t \<Rightarrow> (pb_wire_type_t \<times> u32) pb_result" where
  "read_tag s = (case pb_decode_tag s of (r, _, s) \<Rightarrow> (r, s))"

lemma tag_number_bounds: "valid_tag t \<Longrightarrow> tag_number t < 2 ^ 32 \<and> tag_number t \<noteq> 0"
  by (cases t) (auto simp: valid_tag_def tag_number_def unat_eq_zero)

lemma pb_encode_tag_eq:
  assumes "unat wt < 8"
  shows "unat (push_bit 3 (ucast num) OR ucast wt :: u64) = tag_number (wt, num)"
proof -
  have "(push_bit 3 (ucast num) OR ucast wt :: u64) = of_nat (8 * unat num + unat wt)"
    using or_shift [of "unat wt" 3 "unat num", where 'a = 64] assms by (simp add: or.commute ac_simps)
  moreover have "8 * unat num + unat wt < 2 ^ 64" using assms unsigned_less [of num, where 'a = nat] by simp
  ultimately show ?thesis by (simp add: tag_number_def unat_of_nat take_bit_nat_eq_self del: of_nat_add of_nat_mult)
qed

interpretation co_tag: pb_codec "\<lambda>(wt, num) s. pb_encode_tag s wt num" read_tag valid_tag "\<lambda>t. varint (tag_number t)"
proof (rule pb_codec.intro, goal_cases)
  case (1 t)
  obtain wt num where t: "t = (wt, num)" "unat wt < 8" using 1 by (cases t) (auto simp: valid_tag_def)
  show ?case unfolding t(1) prod.case pb_encode_tag_def pb_encode_tag_eq [OF t(2), symmetric] by (rule wr_varint.pb_writer_axioms)
next
  case (2 t s rest)
  let ?w = "of_nat (tag_number t) :: u32"
  obtain s' where s': "pb_decode_varint32_eof s = (Some ?w, False, s')" "is_bytes s' = rest" "is_advances s s'"
    using pb_decode_varint32_eof_reads [OF 2(2,3)] tag_number_bounds [OF 2(1)] by blast
  have u: "unat ?w = tag_number t" using tag_number_bounds [OF 2(1)] by (simp add: unat_of_nat take_bit_nat_eq_self)
  have "?w \<noteq> 0" using u tag_number_bounds [OF 2(1)] by (auto simp: unat_eq_zero [symmetric])
  moreover have "?w AND 7 = fst t"
  proof -
    have "unat (?w AND mask 3) = tag_number t mod 8" by (simp only: take_bit_eq_mask [symmetric] unsigned_take_bit_eq u) (simp add: take_bit_eq_mod)
    also have "\<dots> = unat (fst t)" using 2(1) by (simp add: tag_number_def valid_tag_def)
    finally show ?thesis by (simp add: mask_eq_exp_minus_1 word_unat_eq_iff)
  qed
  moreover have "drop_bit 3 ?w = snd t"
    using 2(1) by (simp add: word_unat_eq_iff unat_drop_bit u) (simp add: tag_number_def valid_tag_def)
  ultimately show ?case using s' by (simp add: read_tag_def pb_decode_tag_def)
qed

text \<open>A length-prefixed string, read through a substream that is then closed.\<close>

definition read_string :: "pb_istream_t \<Rightarrow> byte list pb_result" where
  "read_string s =
     (case pb_make_string_substream s of
        (None, s) \<Rightarrow> (None, s)
      | (Some sub, s) \<Rightarrow>
          (case pb_read sub (bytes_left sub) of
             (None, sub) \<Rightarrow> (None, s)
           | (Some bs, sub) \<Rightarrow>
               (case pb_close_string_substream s sub of (False, s) \<Rightarrow> (None, s) | (True, s) \<Rightarrow> (Some bs, s))))"

lemma pb_make_string_substream_reads:
  assumes "is_inv s" "is_bytes s = varint (length bs) @ bs @ rest" "length bs < 2 ^ 32"
  obtains s' sub where "pb_make_string_substream s = (Some sub, s')" "is_bytes sub = bs" "bytes_left sub = length bs" "is_inv sub"
    "is_mem sub = is_mem s" "is_mem s' = is_mem s" "is_pos sub = is_pos s'" "is_pos s \<le> is_pos s'"
    "is_pos s' + length bs + bytes_left s' = is_pos s + bytes_left s" "is_errmsg sub = is_errmsg s'"
    "slice (is_mem s) (is_pos s' + length bs) (bytes_left s') = rest"
proof -
  obtain s1 where s1: "pb_decode_varint32 s = (Some (of_nat (length bs)), s1)" "is_bytes s1 = bs @ rest" "is_advances s s1" "is_inv s1"
    using pb_decode_varint32_reads [OF assms(1,2)] assms(3) by metis
  have u: "unat (of_nat (length bs) :: u32) = length bs" using assms(3) by (simp add: unat_of_nat take_bit_nat_eq_self)
  have l: "bytes_left s1 = length bs + length rest" using length_is_bytes [OF s1(4)] s1(2) by simp
  have "is_bytes (s1\<lparr>bytes_left := length bs\<rparr>) = bs"
    using s1(2) l by (metis (no_types, lifting) append_eq_conv_conj is_bytes_def le_add1 min.absorb1 pb_istream_t.select_convs(1-3)
        pb_istream_t.surjective pb_istream_t.update_convs(3) slice_def take_take)
  moreover have "slice (is_mem s1) (is_pos s1 + length bs) (length rest) = rest"
  proof -
    have "drop (length bs) (is_bytes s1) = rest" using s1(2) by simp
    then show ?thesis by (simp add: is_bytes_def slice_def drop_take l add.commute)
  qed
  ultimately show thesis
    using that [of "s1\<lparr>bytes_left := length bs\<rparr>" "s1\<lparr>bytes_left := bytes_left s1 - length bs\<rparr>"] s1(1,3,4) l u
    by (simp add: pb_make_string_substream_def is_advances_def is_inv_def)
qed

interpretation co_string: pb_codec "\<lambda>bs s. pb_encode_string s bs (length bs)" read_string "\<lambda>bs. length bs < 2 ^ 32"
  "\<lambda>bs. varint (length bs) @ bs"
proof (rule pb_codec.intro, goal_cases)
  case (1 bs)
  then show ?case by (intro pb_writer_string) (simp add: SIZE_MOD_def)
next
  case (2 bs s rest)
  have b: "is_bytes s = varint (length bs) @ bs @ rest" using 2(3) by simp
  show ?case
  proof (rule pb_make_string_substream_reads [OF 2(2) b 2(1)], goal_cases)
    case (1 s1 sub)
    have "is_bytes sub = bs @ []" using 1(2) by simp
    then obtain sub' where sub': "pb_read sub (length bs) = (Some bs, sub')" "is_bytes sub' = []" "is_advances sub sub'" "is_inv sub'"
      using pb_read_take [OF 1(4)] by metis
    have "bytes_left sub' = 0" using length_is_bytes [OF sub'(4)] sub'(2) by simp
    moreover then have "is_pos sub' = is_pos s1 + length bs" using sub'(3) 1(3,7) by (simp add: is_advances_def)
    ultimately show ?case using 1 sub'(1)
      by (simp add: read_string_def pb_close_string_substream_def is_bytes_def is_advances_def)
  qed
qed

section \<open>Fields on the wire\<close>

text \<open>
  A field as the encoder emits it and the decoder meets it: a tag, then a value of the tag's wire
  type.
\<close>

datatype wire_value = WVarint u64 | W64 u64 | WString "byte list" | W32 u32

fun wire_type_of :: "wire_value \<Rightarrow> pb_wire_type_t" where
  "wire_type_of (WVarint _) = PB_WT_VARINT"
| "wire_type_of (W64 _) = PB_WT_64BIT"
| "wire_type_of (WString _) = PB_WT_STRING"
| "wire_type_of (W32 _) = PB_WT_32BIT"

fun wire_bytes :: "wire_value \<Rightarrow> byte list" where
  "wire_bytes (WVarint v) = varint (unat v)"
| "wire_bytes (W64 v) = rev (be_bytes 8 (unat v))"
| "wire_bytes (WString bs) = varint (length bs) @ bs"
| "wire_bytes (W32 v) = rev (be_bytes 4 (unat v))"

fun valid_wire :: "wire_value \<Rightarrow> bool" where
  "valid_wire (WString bs) \<longleftrightarrow> length bs < 2 ^ 32"
| "valid_wire _ \<longleftrightarrow> True"

fun put_wire :: "wire_value \<Rightarrow> pb_ostream_t \<Rightarrow> bool \<times> pb_ostream_t" where
  "put_wire (WVarint v) s = pb_encode_varint s v"
| "put_wire (W64 v) s = pb_encode_fixed64 s v"
| "put_wire (WString bs) s = pb_encode_string s bs (length bs)"
| "put_wire (W32 v) s = pb_encode_fixed32 s v"

definition map_result :: "('a \<Rightarrow> 'b) \<Rightarrow> 'a pb_result \<Rightarrow> 'b pb_result" where
  "map_result f r = (map_option f (fst r), snd r)"

definition get_wire :: "pb_wire_type_t \<Rightarrow> pb_istream_t \<Rightarrow> wire_value pb_result" where
  "get_wire wt s =
     (if wt = PB_WT_VARINT then map_result WVarint (pb_decode_varint s)
      else if wt = PB_WT_64BIT then map_result W64 (pb_decode_fixed64 s)
      else if wt = PB_WT_STRING then map_result WString (read_string s)
      else if wt = PB_WT_32BIT then map_result W32 (pb_decode_fixed32 s)
      else (None, is_error ''invalid wire_type'' s))"

lemmas wire_types = PB_WT_VARINT_def PB_WT_64BIT_def PB_WT_STRING_def PB_WT_32BIT_def

lemma co_wire: "pb_codec put_wire (get_wire wt) (\<lambda>v. wire_type_of v = wt \<and> valid_wire v) wire_bytes"
proof (rule pb_codec.intro, goal_cases)
  case (1 v)
  have "put_wire v = (case v of WVarint x \<Rightarrow> \<lambda>s. pb_encode_varint s x | W64 x \<Rightarrow> \<lambda>s. pb_encode_fixed64 s x
      | WString bs \<Rightarrow> \<lambda>s. pb_encode_string s bs (length bs) | W32 x \<Rightarrow> \<lambda>s. pb_encode_fixed32 s x)"
    by (cases v) auto
  then show ?case using 1
    co_varint.put_writes co_fixed64.put_writes co_string.put_writes co_fixed32.put_writes by (cases v) auto
next
  case (2 v s rest)
  show ?case
  proof (cases v)
    case (WVarint x)
    with 2 co_varint.get_reads [where x = x and s = s and rest = rest] show ?thesis by (auto simp: get_wire_def map_result_def)
  next
    case (W64 x)
    with 2 co_fixed64.get_reads [where x = x and s = s and rest = rest] show ?thesis by (auto simp: get_wire_def map_result_def wire_types)
  next
    case (WString bs)
    with 2 co_string.get_reads [where x = bs and s = s and rest = rest] show ?thesis by (auto simp: get_wire_def map_result_def wire_types)
  next
    case (W32 x)
    with 2 co_fixed32.get_reads [where x = x and s = s and rest = rest] show ?thesis by (auto simp: get_wire_def map_result_def wire_types)
  qed
qed

type_synonym wire_field = "(pb_wire_type_t \<times> u32) \<times> wire_value"

fun field_bytes :: "wire_field \<Rightarrow> byte list" where
  "field_bytes (t, v) = varint (tag_number t) @ wire_bytes v"

fun valid_field :: "wire_field \<Rightarrow> bool" where
  "valid_field (t, v) \<longleftrightarrow> valid_tag t \<and> wire_type_of v = fst t \<and> valid_wire v"

fun put_field :: "wire_field \<Rightarrow> pb_ostream_t \<Rightarrow> bool \<times> pb_ostream_t" where
  "put_field ((wt, num), v) s = (case pb_encode_tag s wt num of (False, s) \<Rightarrow> (False, s) | (True, s) \<Rightarrow> put_wire v s)"

definition get_field :: "pb_istream_t \<Rightarrow> wire_field pb_result" where
  "get_field s =
     (case read_tag s of
        (None, s) \<Rightarrow> (None, s)
      | (Some t, s) \<Rightarrow> (case get_wire (fst t) s of (None, s) \<Rightarrow> (None, s) | (Some v, s) \<Rightarrow> (Some (t, v), s)))"

interpretation co_field: pb_codec put_field get_field valid_field field_bytes
proof -
  have "put_field = (\<lambda>(t, v) s. case (case t of (wt, num) \<Rightarrow> \<lambda>s. pb_encode_tag s wt num) s of
      (False, s) \<Rightarrow> (False, s) | (True, s) \<Rightarrow> put_wire v s)"
    "valid_field = (\<lambda>(t, v). valid_tag t \<and> wire_type_of v = fst t \<and> valid_wire v)"
    "field_bytes = (\<lambda>(t, v). varint (tag_number t) @ wire_bytes v)"
    "get_field = (\<lambda>s. case read_tag s of (None, s) \<Rightarrow> (None, s) | (Some t, s) \<Rightarrow>
       (case get_wire (fst t) s of (None, s) \<Rightarrow> (None, s) | (Some v, s) \<Rightarrow> (Some (t, v), s)))"
    by (auto simp: fun_eq_iff get_field_def)
  then show "pb_codec put_field get_field valid_field field_bytes"
    using pb_codec_seq [OF co_tag.pb_codec_axioms, of "\<lambda>_. put_wire" "\<lambda>t. get_wire (fst t)"
        "\<lambda>t v. wire_type_of v = fst t \<and> valid_wire v" "\<lambda>_. wire_bytes", OF co_wire] by simp
qed

text \<open>Skipping a field leaves the stream where reading it would.\<close>

lemma pb_skip_varint_spec:
  assumes "is_inv s" "split_varint (is_bytes s) = Some (enc, rest)"
  shows "\<exists>s'. pb_skip_varint s = (Some (), s') \<and> is_bytes s' = rest \<and> is_advances s s'"
  using assms
proof (induction enc arbitrary: s)
  case Nil
  then show ?case using split_varint_append by blast
next
  case (Cons b enc)
  obtain bs where bs: "is_bytes s = [b] @ bs" using split_varint_append [OF Cons.prems(2)] by auto
  have "length [b] = 1" by simp
  then obtain s1 where s1: "pb_read s 1 = (Some [b], s1)" "is_bytes s1 = bs" "is_advances s s1" "is_inv s1"
    using pb_read_take [OF Cons.prems(1) bs] by metis
  show ?case
  proof (cases "128 \<le> unat b")
    case True
    then have "split_varint (is_bytes s1) = Some (enc, rest)" using Cons.prems(2) bs s1(2) by auto
    from Cons.IH [OF s1(4) this] True s1(1) is_advances_trans [OF s1(3)] show ?thesis
      by (auto simp: pb_skip_varint.simps [of s] byte_high_bit_iff)
  next
    case False
    moreover then have "b AND 0x80 = 0" using byte_high_bit_iff [of b] by blast
    ultimately show ?thesis using Cons.prems(2) bs s1 by (auto simp: pb_skip_varint.simps [of s])
  qed
qed

lemma skip_bytes:
  assumes "is_inv s" "is_bytes s = bs @ rest"
  shows "\<exists>s'. (case pb_read s (length bs) of (r, s) \<Rightarrow> (map_option (\<lambda>_. ()) r, s)) = (Some (), s') \<and> is_bytes s' = rest \<and> is_advances s s'"
  by (rule pb_read_take [OF assms]) auto

lemma pb_skip_field_spec:
  assumes "is_inv s" "is_bytes s = wire_bytes v @ rest" "valid_wire v"
  shows "\<exists>s'. pb_skip_field s (wire_type_of v) = (Some (), s') \<and> is_bytes s' = rest \<and> is_advances s s'"
proof (cases v)
  case (WVarint x)
  then show ?thesis using assms(2) pb_skip_varint_spec [OF assms(1), of "varint (unat x)" rest]
    by (simp add: pb_skip_field_def varint_split)
next
  case (W64 x)
  have "length (wire_bytes v) = 8" by (simp add: W64)
  with skip_bytes [OF assms(1,2)] W64 show ?thesis by (simp add: pb_skip_field_def wire_types)
next
  case (W32 x)
  have "length (wire_bytes v) = 4" by (simp add: W32)
  with skip_bytes [OF assms(1,2)] W32 show ?thesis by (simp add: pb_skip_field_def wire_types)
next
  case (WString bs)
  then have "is_bytes s = varint (length bs) @ bs @ rest" "length bs < 2 ^ 32" using assms(2,3) by simp_all
  from pb_decode_varint32_reads [OF assms(1) this] obtain s1 where
    s1: "pb_decode_varint32 s = (Some (of_nat (length bs)), s1)" "is_bytes s1 = bs @ rest" "is_advances s s1" "is_inv s1" .
  moreover have "unat (of_nat (length bs) :: u32) = length bs"
    using WString assms(3) by (simp add: unat_of_nat take_bit_nat_eq_self)
  ultimately show ?thesis using skip_bytes [OF s1(4,2)] is_advances_trans [OF s1(3)] WString
    by (auto simp: pb_skip_field_def wire_types pb_skip_string_def)
qed

text \<open>Reading the bytes of a numeric value undecoded, for the field callbacks.\<close>

lemma raw_varint_loop_spec:
  assumes "is_inv s" "split_varint (is_bytes s) = Some (enc, rest)" "length acc + length enc \<le> limit"
  shows "\<exists>s'. raw_varint_loop s limit acc = (Some (acc @ enc), s') \<and> is_bytes s' = rest \<and> is_advances s s'"
  using assms
proof (induction enc arbitrary: s acc)
  case Nil
  then show ?case using split_varint_append by blast
next
  case (Cons b enc)
  obtain bs where bs: "is_bytes s = [b] @ bs" using split_varint_append [OF Cons.prems(2)] by auto
  have "length [b] = 1" by simp
  then obtain s1 where s1: "pb_read s 1 = (Some [b], s1)" "is_bytes s1 = bs" "is_advances s s1" "is_inv s1"
    using pb_read_take [OF Cons.prems(1) bs] by metis
  show ?case
  proof (cases "128 \<le> unat b")
    case True
    then have "split_varint (is_bytes s1) = Some (enc, rest)" using Cons.prems(2) bs s1(2) by auto
    from Cons.IH [OF s1(4) this, of "acc @ [b]"] True s1(1) is_advances_trans [OF s1(3)] Cons.prems(3) show ?thesis
      by (auto simp: raw_varint_loop.simps [of s] byte_high_bit_iff)
  next
    case False
    moreover then have "b AND 0x80 = 0" using byte_high_bit_iff [of b] by blast
    ultimately show ?thesis using Cons.prems(2,3) bs s1 by (auto simp: raw_varint_loop.simps [of s])
  qed
qed

lemma read_raw_value_spec:
  assumes "is_inv s" "is_bytes s = wire_bytes v @ rest" "wire_type_of v \<noteq> PB_WT_STRING" "length (wire_bytes v) \<le> limit"
  shows "\<exists>s'. read_raw_value s (wire_type_of v) limit = (Some (wire_bytes v), s') \<and> is_bytes s' = rest \<and> is_advances s s'"
proof (cases v)
  case (WVarint x)
  then show ?thesis using assms(2,4) raw_varint_loop_spec [OF assms(1), of "varint (unat x)" rest "[]"]
    by (simp add: read_raw_value_def varint_split)
next
  case (W64 x)
  have "length (wire_bytes v) = 8" by (simp add: W64)
  with pb_read_take [OF assms(1,2)] W64 show ?thesis by (auto simp: read_raw_value_def wire_types)
next
  case (W32 x)
  have "length (wire_bytes v) = 4" by (simp add: W32)
  with pb_read_take [OF assms(1,2)] W32 show ?thesis by (auto simp: read_raw_value_def wire_types)
qed (use assms(3) in simp)

section \<open>Properties of the wire format\<close>

text \<open>A field, that is a tag and a varint, 64-bit, string or 32-bit value, written by the encoders into a
  buffer large enough is produced, and read back by the decoders from the bytes written, which
  they consume to the end.\<close>

lemma pb_field_roundtrip:
  assumes "valid_field f" "length (field_bytes f) \<le> length mem" "length mem \<le> PTRDIFF_MAX"
  shows "\<exists>s s'. put_field f (pb_ostream_from_buffer mem (length mem)) = (True, s) \<and>
    get_field (pb_istream_from_buffer (os_mem s) (bytes_written s)) = (Some f, s') \<and> bytes_left s' = 0"
  by (rule co_field.round_trip [OF assms])
text \<open>C34: \<open>pb_skip_field\<close> on the encoding of a value of any wire type succeeds and leaves exactly the
  bytes after it, where the decoder of that value leaves the stream too.\<close>

theorem pb_skip_field_correct:
  assumes "is_inv s" "is_bytes s = wire_bytes v @ rest" "valid_wire v"
  shows "\<exists>s' t. pb_skip_field s (wire_type_of v) = (Some (), s') \<and> is_bytes s' = rest \<and> is_advances s s' \<and>
    get_wire (wire_type_of v) s = (Some v, t) \<and> is_bytes t = rest"
  using pb_skip_field_spec [OF assms] pb_codec.get_reads [OF co_wire _ assms(1,2)] assms(3) by blast

theorem pb_skip_field_correct_witness:
  "\<exists>s' t. pb_skip_field (pb_istream_from_buffer [2, 8, 9, 5] 4) PB_WT_STRING = (Some (), s') \<and> is_bytes s' = [5] \<and>
    is_advances (pb_istream_from_buffer [2, 8, 9, 5] 4) s' \<and>
    get_wire PB_WT_STRING (pb_istream_from_buffer [2, 8, 9, 5] 4) = (Some (WString [8, 9]), t) \<and> is_bytes t = [5]"
  using pb_skip_field_correct [of "pb_istream_from_buffer [2, 8, 9, 5] 4" "WString [8, 9]" "[5]"]
  by (simp add: is_inv_def is_bytes_def pb_istream_from_buffer_def slice_def varint_small)

end
