(* ===== verification/Pb_Iter.thy ===== *)
theory Pb_Iter
  imports Mem
begin

text \<open>
  The iterator over the fields of a message (\<open>pb_common.c\<close>). It computes the address of each field
  from the relative offsets in the descriptors as it goes; the layout it walks is stated apart
  from it (\<open>data_at\<close>, \<open>size_at\<close>), with the number of required fields passed.
\<close>

unbundle bit_operations_syntax

section \<open>The code\<close>

text \<open>
  A field descriptor. \<open>fld_ptr\<close> is the address of the descriptors of a submessage or of a default value;
  the iterator does not use it. A message type is an array of descriptors that ends with one whose
  tag is zero. Pointers into the message are addresses, zero is the null pointer.
\<close>

record pb_field_t =
  fld_tag :: u32
  fld_type :: byte
  data_offset :: u32
  size_offset :: int
  data_size :: u32
  array_size :: u32
  fld_ptr :: int

definition PB_LTYPE :: "byte \<Rightarrow> byte" where "PB_LTYPE x = x AND 0x0F"
definition PB_HTYPE :: "byte \<Rightarrow> byte" where "PB_HTYPE x = x AND 0x30"
definition PB_ATYPE :: "byte \<Rightarrow> byte" where "PB_ATYPE x = x AND 0xC0"

definition PB_LTYPE_EXTENSION :: byte where "PB_LTYPE_EXTENSION = 0x09"
definition PB_HTYPE_REQUIRED :: byte where "PB_HTYPE_REQUIRED = 0x00"
definition PB_HTYPE_REPEATED :: byte where "PB_HTYPE_REPEATED = 0x20"
definition PB_HTYPE_ONEOF :: byte where "PB_HTYPE_ONEOF = 0x30"
definition PB_ATYPE_STATIC :: byte where "PB_ATYPE_STATIC = 0x00"
definition PB_ATYPE_POINTER :: byte where "PB_ATYPE_POINTER = 0x80"
definition PB_SIZE_MAX :: u32 where "PB_SIZE_MAX = - 1"

record pb_field_iter_t =
  iter_fields :: "pb_field_t list"
  iter_pos :: nat
  required_field_index :: u32
  dest_struct :: int
  pData :: int
  pSize :: int

definition iter_field :: "pb_field_iter_t \<Rightarrow> pb_field_t" where
  "iter_field iter = iter_fields iter ! iter_pos iter"

definition pb_field_iter_begin :: "pb_field_t list \<Rightarrow> int \<Rightarrow> bool \<times> pb_field_iter_t" where
  "pb_field_iter_begin fs dest =
     (let f = fs ! 0;
          data = (if dest = 0 then 0 else dest + uint (data_offset f))
      in (fld_tag f \<noteq> 0,
          \<lparr>iter_fields = fs, iter_pos = 0, required_field_index = 0, dest_struct = dest,
           pData = data, pSize = (if dest = 0 then 0 else data + size_offset f)\<rparr>))"

definition pb_field_iter_next :: "pb_field_iter_t \<Rightarrow> bool \<times> pb_field_iter_t" where
  "pb_field_iter_next iter =
     (let prev_field = iter_field iter in
      if fld_tag prev_field = 0 then (False, iter)
      else
        (let iter = iter\<lparr>iter_pos := iter_pos iter + 1\<rparr>;
             f = iter_field iter
         in if fld_tag f = 0
            then (False, snd (pb_field_iter_begin (iter_fields iter) (dest_struct iter)))
            else if PB_HTYPE (fld_type prev_field) = PB_HTYPE_ONEOF \<and> PB_HTYPE (fld_type f) = PB_HTYPE_ONEOF \<and>
                    data_offset f = PB_SIZE_MAX
            then (True, iter)
            else
              (let prev_size =
                     (if PB_ATYPE (fld_type prev_field) = PB_ATYPE_STATIC \<and> PB_HTYPE (fld_type prev_field) = PB_HTYPE_REPEATED
                      then uint (data_size prev_field) * uint (array_size prev_field)
                      else if PB_ATYPE (fld_type prev_field) = PB_ATYPE_POINTER then 8
                      else uint (data_size prev_field));
                   iter = (if PB_HTYPE (fld_type prev_field) = PB_HTYPE_REQUIRED
                           then iter\<lparr>required_field_index := required_field_index iter + 1\<rparr> else iter);
                   data = pData iter + prev_size + uint (data_offset f)
               in (True, iter\<lparr>pData := data, pSize := data + size_offset f\<rparr>))))"

partial_function (option) iter_find_loop :: "nat \<Rightarrow> u32 \<Rightarrow> pb_field_iter_t \<Rightarrow> (bool \<times> pb_field_iter_t) option" where
  [code]: "iter_find_loop start tag iter =
     (if fld_tag (iter_field iter) = tag \<and> PB_LTYPE (fld_type (iter_field iter)) \<noteq> PB_LTYPE_EXTENSION
      then Some (True, iter)
      else
        (let iter = snd (pb_field_iter_next iter)
         in if iter_pos iter \<noteq> start then iter_find_loop start tag iter else Some (False, iter)))"

definition pb_field_iter_find :: "pb_field_iter_t \<Rightarrow> u32 \<Rightarrow> (bool \<times> pb_field_iter_t) option" where
  "pb_field_iter_find iter tag = iter_find_loop (iter_pos iter) tag iter"

section \<open>Where a field lies\<close>

text \<open>
  The layout a message type describes: the address of the data of field \<open>i\<close> follows from those
  before it. Members of a union share one address.
\<close>

definition wf_fields :: "pb_field_t list \<Rightarrow> bool" where
  "wf_fields fs \<longleftrightarrow> fs \<noteq> [] \<and> fld_tag (last fs) = 0 \<and> (\<forall>f\<in>set (butlast fs). fld_tag f \<noteq> 0)"

definition nfields :: "pb_field_t list \<Rightarrow> nat" where
  "nfields fs = length fs - 1"

definition in_union :: "pb_field_t \<Rightarrow> pb_field_t \<Rightarrow> bool" where
  "in_union f g \<longleftrightarrow> PB_HTYPE (fld_type f) = PB_HTYPE_ONEOF \<and> PB_HTYPE (fld_type g) = PB_HTYPE_ONEOF \<and> data_offset g = PB_SIZE_MAX"

definition extent :: "pb_field_t \<Rightarrow> int" where
  "extent f =
     (if PB_ATYPE (fld_type f) = PB_ATYPE_STATIC \<and> PB_HTYPE (fld_type f) = PB_HTYPE_REPEATED then uint (data_size f) * uint (array_size f)
      else if PB_ATYPE (fld_type f) = PB_ATYPE_POINTER then 8
      else uint (data_size f))"

primrec data_at :: "pb_field_t list \<Rightarrow> int \<Rightarrow> nat \<Rightarrow> int" where
  "data_at fs dest 0 = dest + uint (data_offset (fs ! 0))"
| "data_at fs dest (Suc i) =
     (if in_union (fs ! i) (fs ! Suc i) then data_at fs dest i
      else data_at fs dest i + extent (fs ! i) + uint (data_offset (fs ! Suc i)))"

primrec size_at :: "pb_field_t list \<Rightarrow> int \<Rightarrow> nat \<Rightarrow> int" where
  "size_at fs dest 0 = data_at fs dest 0 + size_offset (fs ! 0)"
| "size_at fs dest (Suc i) =
     (if in_union (fs ! i) (fs ! Suc i) then size_at fs dest i else data_at fs dest (Suc i) + size_offset (fs ! Suc i))"

definition iter_at :: "pb_field_t list \<Rightarrow> int \<Rightarrow> nat \<Rightarrow> pb_field_iter_t" where
  "iter_at fs dest i =
     \<lparr>iter_fields = fs, iter_pos = i,
      required_field_index = of_nat (length (filter (\<lambda>f. PB_HTYPE (fld_type f) = PB_HTYPE_REQUIRED) (take i fs))),
      dest_struct = dest, pData = data_at fs dest i, pSize = size_at fs dest i\<rparr>"

section \<open>The iterator walks the layout\<close>

lemma iter_at_simps [simp]: "iter_pos (iter_at fs dest i) = i" "iter_field (iter_at fs dest i) = fs ! i"
  "iter_fields (iter_at fs dest i) = fs" "dest_struct (iter_at fs dest i) = dest"
  by (simp_all add: iter_at_def iter_field_def)

lemma field_tag_zero_iff:
  assumes "wf_fields fs" "i \<le> nfields fs"
  shows "fld_tag (fs ! i) = 0 \<longleftrightarrow> i = nfields fs"
proof (cases "i = nfields fs")
  case True
  then show ?thesis using assms(1) by (auto simp: wf_fields_def nfields_def last_conv_nth)
next
  case False
  then have "i < length (butlast fs)" using assms(2) by (simp add: nfields_def)
  then have "fs ! i \<in> set (butlast fs)" by (metis nth_butlast nth_mem)
  then show ?thesis using assms(1) False by (simp add: wf_fields_def)
qed

lemma pb_field_iter_begin_at:
  assumes "wf_fields fs" "dest \<noteq> 0"
  shows "pb_field_iter_begin fs dest = (0 < nfields fs, iter_at fs dest 0)"
  using field_tag_zero_iff [OF assms(1), of 0] assms(2) by (auto simp: pb_field_iter_begin_def iter_at_def Let_def)

lemma pb_field_iter_next_eq:
  assumes "fld_tag (iter_fields it ! iter_pos it) \<noteq> 0" "f = iter_fields it ! iter_pos it" "g = iter_fields it ! Suc (iter_pos it)"
  shows "pb_field_iter_next it =
    (if fld_tag g = 0 then (False, snd (pb_field_iter_begin (iter_fields it) (dest_struct it)))
     else if in_union f g then (True, it\<lparr>iter_pos := Suc (iter_pos it)\<rparr>)
     else (True, it\<lparr>iter_pos := Suc (iter_pos it),
       required_field_index := required_field_index it + (if PB_HTYPE (fld_type f) = PB_HTYPE_REQUIRED then 1 else 0),
       pData := pData it + extent f + uint (data_offset g), pSize := pData it + extent f + uint (data_offset g) + size_offset g\<rparr>))"
proof -
  have "iter_field (it\<lparr>iter_pos := iter_pos it + 1\<rparr>) = g" "iter_field it = f" by (simp_all add: iter_field_def assms)
  moreover have "fld_tag f \<noteq> 0" using assms by simp
  ultimately show ?thesis
    unfolding pb_field_iter_next_def Let_def in_union_def [symmetric] extent_def [symmetric] by simp
qed

lemma pb_field_iter_next_at:
  assumes "wf_fields fs" "dest \<noteq> 0" "i < nfields fs"
  shows "pb_field_iter_next (iter_at fs dest i) = (if Suc i < nfields fs then (True, iter_at fs dest (Suc i)) else (False, iter_at fs dest 0))"
proof -
  let ?f = "fs ! i" and ?g = "fs ! Suc i"
  have t: "fld_tag ?f \<noteq> 0" "fld_tag ?g = 0 \<longleftrightarrow> \<not> Suc i < nfields fs"
    using field_tag_zero_iff [OF assms(1), of i] field_tag_zero_iff [OF assms(1), of "Suc i"] assms(3) by auto
  have "i < length fs" using assms(3) by (simp add: nfields_def)
  then have req: "take (Suc i) fs = take i fs @ [?f]" by (rule take_Suc_conv_app_nth)
  have nr: "PB_HTYPE (fld_type ?f) \<noteq> PB_HTYPE_REQUIRED" if "in_union ?f ?g"
    using that by (simp add: in_union_def PB_HTYPE_ONEOF_def PB_HTYPE_REQUIRED_def)
  have eq: "pb_field_iter_next (iter_at fs dest i) =
    (if fld_tag ?g = 0 then (False, snd (pb_field_iter_begin fs dest))
     else if in_union ?f ?g then (True, iter_at fs dest i\<lparr>iter_pos := Suc i\<rparr>)
     else (True, iter_at fs dest i\<lparr>iter_pos := Suc i,
       required_field_index := required_field_index (iter_at fs dest i) + (if PB_HTYPE (fld_type ?f) = PB_HTYPE_REQUIRED then 1 else 0),
       pData := data_at fs dest i + extent ?f + uint (data_offset ?g),
       pSize := data_at fs dest i + extent ?f + uint (data_offset ?g) + size_offset ?g\<rparr>))"
    using t(1) by (subst pb_field_iter_next_eq [where f = ?f and g = ?g]) (simp_all add: iter_at_def)
  show ?thesis
  proof (cases "Suc i < nfields fs")
    case False
    then show ?thesis using t eq by (simp add: pb_field_iter_begin_at [OF assms(1,2)])
  next
    case True
    have "iter_at fs dest (Suc i) = (if in_union ?f ?g then iter_at fs dest i\<lparr>iter_pos := Suc i\<rparr> else iter_at fs dest i\<lparr>iter_pos := Suc i,
       required_field_index := required_field_index (iter_at fs dest i) + (if PB_HTYPE (fld_type ?f) = PB_HTYPE_REQUIRED then 1 else 0),
       pData := data_at fs dest i + extent ?f + uint (data_offset ?g),
       pSize := data_at fs dest i + extent ?f + uint (data_offset ?g) + size_offset ?g\<rparr>)"
      using nr unfolding iter_at_def req by simp
    then show ?thesis using True t eq by simp
  qed
qed

text \<open>On the empty message type the iterator stays on the terminator.\<close>

lemma pb_field_iter_next_empty:
  "wf_fields fs \<Longrightarrow> nfields fs = 0 \<Longrightarrow> pb_field_iter_next (iter_at fs dest 0) = (False, iter_at fs dest 0)"
  using field_tag_zero_iff [of fs 0] by (simp add: pb_field_iter_next_def Let_def)

section \<open>Searching\<close>

definition matches :: "pb_field_t list \<Rightarrow> u32 \<Rightarrow> nat \<Rightarrow> bool" where
  "matches fs tag i \<longleftrightarrow> fld_tag (fs ! i) = tag \<and> PB_LTYPE (fld_type (fs ! i)) \<noteq> PB_LTYPE_EXTENSION"

lemma iter_find_loop_at:
  assumes wf: "wf_fields fs" "dest \<noteq> 0" and start: "start < nfields fs" and k: "k < nfields fs"
    and none: "\<forall>j<k. \<not> matches fs tag ((start + j) mod nfields fs)"
  shows "(\<exists>j<nfields fs. matches fs tag ((start + j) mod nfields fs) \<and> (\<forall>l<j. \<not> matches fs tag ((start + l) mod nfields fs)) \<and>
       iter_find_loop start tag (iter_at fs dest ((start + k) mod nfields fs)) = Some (True, iter_at fs dest ((start + j) mod nfields fs))) \<or>
     ((\<forall>j<nfields fs. \<not> matches fs tag ((start + j) mod nfields fs)) \<and>
       iter_find_loop start tag (iter_at fs dest ((start + k) mod nfields fs)) = Some (False, iter_at fs dest start))"
  using k none
proof (induction "nfields fs - k" arbitrary: k)
  case 0
  then show ?case by simp
next
  case (Suc d)
  let ?n = "nfields fs" and ?i = "(start + k) mod nfields fs"
  have i: "?i < ?n" using start by simp
  show ?case
  proof (cases "matches fs tag ?i")
    case True
    then have "iter_find_loop start tag (iter_at fs dest ?i) = Some (True, iter_at fs dest ?i)"
      by (subst iter_find_loop.simps) (simp add: matches_def)
    with True Suc.prems show ?thesis by blast
  next
    case False
    have nx: "snd (pb_field_iter_next (iter_at fs dest ?i)) = iter_at fs dest ((start + Suc k) mod ?n)"
      using pb_field_iter_next_at [OF wf i] i by (simp add: mod_Suc)
    have un: "iter_find_loop start tag (iter_at fs dest ?i) =
        (if (start + Suc k) mod ?n \<noteq> start then iter_find_loop start tag (iter_at fs dest ((start + Suc k) mod ?n))
         else Some (False, iter_at fs dest start))"
      using False nx by (subst iter_find_loop.simps) (auto simp: matches_def Let_def)
    have none: "\<forall>j<Suc k. \<not> matches fs tag ((start + j) mod ?n)" using False Suc.prems(2) by (auto simp: less_Suc_eq)
    show ?thesis
    proof (cases "Suc k < ?n")
      case True
      have "(start + Suc k) mod ?n \<noteq> start"
        using start True by (cases "start + Suc k < ?n") (simp_all add: le_mod_geq)
      with un Suc.hyps(1) [of "Suc k"] Suc.hyps(2) True none show ?thesis by simp
    next
      case False
      then have "Suc k = ?n" using Suc.prems(1) by simp
      then show ?thesis using un none start by simp
    qed
  qed
qed

text \<open>The iterators a program can hold: started on the message, moved on, or searched with.\<close>

inductive iter_reach :: "pb_field_t list \<Rightarrow> int \<Rightarrow> pb_field_iter_t \<Rightarrow> bool" for fs dest where
  reach_begin: "iter_reach fs dest (snd (pb_field_iter_begin fs dest))"
| reach_next: "iter_reach fs dest it \<Longrightarrow> iter_reach fs dest (snd (pb_field_iter_next it))"
| reach_find: "iter_reach fs dest it \<Longrightarrow> tag \<noteq> 0 \<Longrightarrow> pb_field_iter_find it tag = Some (found, it') \<Longrightarrow> iter_reach fs dest it'"

lemma cyclic_search:
  assumes "i < n" "j < n"
  shows "\<exists>k<n. (i + k) mod n = (j :: nat)"
proof (cases "i \<le> j")
  case True
  with assms show ?thesis by (intro exI [of _ "j - i"]) simp
next
  case False
  with assms show ?thesis by (intro exI [of _ "n + j - i"]) auto
qed

lemma pb_field_iter_find_at:
  assumes wf: "wf_fields fs" "dest \<noteq> 0" and i: "i < max 1 (nfields fs)" and tag: "tag \<noteq> 0"
  shows "if \<exists>j<nfields fs. matches fs tag j
    then \<exists>j<nfields fs. matches fs tag j \<and> pb_field_iter_find (iter_at fs dest i) tag = Some (True, iter_at fs dest j)
    else pb_field_iter_find (iter_at fs dest i) tag = Some (False, iter_at fs dest i)"
proof (cases "nfields fs = 0")
  case True
  then have "fld_tag (fs ! 0) = 0" using field_tag_zero_iff [OF wf(1), of 0] by simp
  with True i tag pb_field_iter_next_empty [OF wf(1) True] show ?thesis
    by (auto simp: pb_field_iter_find_def iter_find_loop.simps [of _ _ "iter_at fs dest 0"])
next
  case False
  then have i: "i < nfields fs" "0 < nfields fs" using i by auto
  have m: "(\<exists>k<nfields fs. matches fs tag ((i + k) mod nfields fs)) \<longleftrightarrow> (\<exists>j<nfields fs. matches fs tag j)"
    using cyclic_search [OF i(1)] i(2) by (metis mod_less_divisor)
  from iter_find_loop_at [OF wf i(1,2), of tag] i(1) show ?thesis
    unfolding pb_field_iter_find_def m [symmetric] by (auto simp: i) (metis i(2) mod_less_divisor)
qed

lemma iter_reach_at:
  assumes "iter_reach fs dest it" "wf_fields fs" "dest \<noteq> 0"
  shows "\<exists>i<max 1 (nfields fs). it = iter_at fs dest i"
  using assms(1)
proof induction
  case reach_begin
  then show ?case by (intro exI [of _ 0]) (simp add: pb_field_iter_begin_at [OF assms(2,3)])
next
  case (reach_next it)
  then obtain i where i: "i < max 1 (nfields fs)" "it = iter_at fs dest i" by blast
  show ?case
  proof (cases "nfields fs = 0")
    case True
    then show ?thesis using i pb_field_iter_next_empty [OF assms(2) True] by simp
  next
    case False
    then have "i < nfields fs" using i by auto
    from pb_field_iter_next_at [OF assms(2,3) this] False show ?thesis
      by (cases "Suc i < nfields fs") (auto simp: i(2) intro: exI [of _ "Suc i"] exI [of _ 0])
  qed
next
  case (reach_find it tag found it')
  then obtain i where i: "i < max 1 (nfields fs)" "it = iter_at fs dest i" by blast
  from pb_field_iter_find_at [OF assms(2,3) i(1) reach_find.hyps(2)] reach_find.hyps(3) i show ?case
    by (auto split: if_splits)
qed

text \<open>C35: However an iterator over a well-formed message type was reached, it stands on one of the fields
  with the data pointer, the size pointer and the number of required fields before it that the
  layout gives; a search returns, finds a field with the tag that is not an extension whenever
  there is one, and otherwise fails with the iterator where it was.\<close>

theorem pb_field_iter_find_correct:
  assumes "wf_fields fs" "dest \<noteq> 0" "iter_reach fs dest it" "tag \<noteq> 0"
  shows "(\<exists>i<max 1 (nfields fs). it = iter_at fs dest i) \<and>
    (if \<exists>j<nfields fs. matches fs tag j
     then \<exists>j<nfields fs. matches fs tag j \<and> pb_field_iter_find it tag = Some (True, iter_at fs dest j)
     else pb_field_iter_find it tag = Some (False, it))"
proof -
  obtain i where i: "i < max 1 (nfields fs)" "it = iter_at fs dest i" using iter_reach_at [OF assms(3,1,2)] by blast
  with pb_field_iter_find_at [OF assms(1,2) i(1) assms(4)] show ?thesis by blast
qed

theorem pb_field_iter_find_correct_witness:
  "\<exists>j<nfields [\<lparr>fld_tag = 5, fld_type = 0x11, data_offset = 4, size_offset = - 4, data_size = 4, array_size = 0, fld_ptr = 0\<rparr>,
      \<lparr>fld_tag = 0, fld_type = 0, data_offset = 0, size_offset = 0, data_size = 0, array_size = 0, fld_ptr = 0\<rparr>].
    pb_field_iter_find (snd (pb_field_iter_begin [\<lparr>fld_tag = 5, fld_type = 0x11, data_offset = 4, size_offset = - 4, data_size = 4, array_size = 0, fld_ptr = 0\<rparr>,
      \<lparr>fld_tag = 0, fld_type = 0, data_offset = 0, size_offset = 0, data_size = 0, array_size = 0, fld_ptr = 0\<rparr>] 1000)) 5 =
    Some (True, iter_at [\<lparr>fld_tag = 5, fld_type = 0x11, data_offset = 4, size_offset = - 4, data_size = 4, array_size = 0, fld_ptr = 0\<rparr>,
      \<lparr>fld_tag = 0, fld_type = 0, data_offset = 0, size_offset = 0, data_size = 0, array_size = 0, fld_ptr = 0\<rparr>] 1000 j)"
proof -
  let ?fs = "[\<lparr>fld_tag = 5, fld_type = 0x11, data_offset = 4, size_offset = - 4, data_size = 4, array_size = 0, fld_ptr = 0\<rparr>,
      \<lparr>fld_tag = 0, fld_type = 0, data_offset = 0, size_offset = 0, data_size = 0, array_size = 0, fld_ptr = 0\<rparr>]"
  have "wf_fields ?fs" "(1000 :: int) \<noteq> 0" "(5 :: u32) \<noteq> 0" "0 < nfields ?fs \<and> matches ?fs 5 0"
    by (simp_all add: wf_fields_def nfields_def matches_def PB_LTYPE_def PB_LTYPE_EXTENSION_def)
  then show ?thesis using pb_field_iter_find_correct [of ?fs 1000 _ 5, OF _ _ reach_begin] by meson
qed

end
