(* ===== verification/Pb_Field.thy ===== *)
theory Pb_Field
  imports Pb_Wire Pb_Iter
begin

text \<open>
  The encoders and decoders of single fields of nanopb (\<open>pb_enc_*\<close>, \<open>pb_dec_*\<close>): integers of every
  size, bytes, strings and byte arrays of fixed length, between the bytes of the message structure
  and a stream, with the allocation of pointer fields. Each pair is a \<open>pb_codec\<close> again.
\<close>

unbundle bit_operations_syntax

section \<open>The code\<close>

text \<open>
  A pointer to a value that is encoded is the function that reads the bytes from there on; the
  destination of a decoder is the bytes of its object. Integers are loaded and stored little-endian
  as on the platforms the program is built for.
\<close>

definition PB_LTYPE_BOOL :: byte where "PB_LTYPE_BOOL = 0x00"
definition PB_LTYPE_VARINT :: byte where "PB_LTYPE_VARINT = 0x01"
definition PB_LTYPE_UVARINT :: byte where "PB_LTYPE_UVARINT = 0x02"
definition PB_LTYPE_SVARINT :: byte where "PB_LTYPE_SVARINT = 0x03"
definition PB_LTYPE_FIXED32 :: byte where "PB_LTYPE_FIXED32 = 0x04"
definition PB_LTYPE_FIXED64 :: byte where "PB_LTYPE_FIXED64 = 0x05"
definition PB_LTYPE_BYTES :: byte where "PB_LTYPE_BYTES = 0x06"
definition PB_LTYPE_STRING :: byte where "PB_LTYPE_STRING = 0x07"
definition PB_LTYPE_SUBMESSAGE :: byte where "PB_LTYPE_SUBMESSAGE = 0x08"
definition PB_LTYPE_FIXED_LENGTH_BYTES :: byte where "PB_LTYPE_FIXED_LENGTH_BYTES = 0x0A"

type_synonym const_ptr = "nat \<Rightarrow> byte"

definition load_bytes :: "nat \<Rightarrow> const_ptr \<Rightarrow> byte list" where
  "load_bytes n p = map p [0..<n]"

definition load_uint :: "nat \<Rightarrow> const_ptr \<Rightarrow> nat" where
  "load_uint d p = be_value (rev (load_bytes d p))"

definition load_int :: "nat \<Rightarrow> const_ptr \<Rightarrow> int" where
  "load_int d p = signed_take_bit (8 * d - 1) (int (load_uint d p))"

definition store_int :: "nat \<Rightarrow> int \<Rightarrow> byte list \<Rightarrow> byte list" where
  "store_int d v mem = splice mem 0 (rev (be_bytes d (nat (v mod 256 ^ d))))"

subsection \<open>Encoders\<close>

definition pb_encode_tag_for_field :: "pb_ostream_t \<Rightarrow> pb_field_t \<Rightarrow> bool \<times> pb_ostream_t" where
  "pb_encode_tag_for_field s field =
     (let t = PB_LTYPE (fld_type field) in
      if t = PB_LTYPE_BOOL \<or> t = PB_LTYPE_VARINT \<or> t = PB_LTYPE_UVARINT \<or> t = PB_LTYPE_SVARINT
      then pb_encode_tag s PB_WT_VARINT (fld_tag field)
      else if t = PB_LTYPE_FIXED32 then pb_encode_tag s PB_WT_32BIT (fld_tag field)
      else if t = PB_LTYPE_FIXED64 then pb_encode_tag s PB_WT_64BIT (fld_tag field)
      else if t = PB_LTYPE_BYTES \<or> t = PB_LTYPE_STRING \<or> t = PB_LTYPE_SUBMESSAGE \<or> t = PB_LTYPE_FIXED_LENGTH_BYTES
      then pb_encode_tag s PB_WT_STRING (fld_tag field)
      else (False, os_error ''invalid field type'' s))"

text \<open>\<open>sizeof(bool)\<close> is one.\<close>

definition safe_read_bool :: "const_ptr \<Rightarrow> bool" where
  "safe_read_bool p = (\<exists>i\<in>set [0..<1]. p i \<noteq> 0)"

definition pb_enc_bool :: "pb_ostream_t \<Rightarrow> pb_field_t \<Rightarrow> const_ptr \<Rightarrow> bool \<times> pb_ostream_t" where
  "pb_enc_bool s field src = pb_encode_varint s (if safe_read_bool src then 1 else 0)"

definition pb_enc_varint :: "pb_ostream_t \<Rightarrow> pb_field_t \<Rightarrow> const_ptr \<Rightarrow> bool \<times> pb_ostream_t" where
  "pb_enc_varint s field src =
     (if data_size field = 1 then pb_encode_varint s (of_int (load_int 1 src))
      else if data_size field = 2 then pb_encode_varint s (of_int (load_int 2 src))
      else if data_size field = 4 then pb_encode_varint s (of_int (load_int 4 src))
      else if data_size field = 8 then pb_encode_varint s (of_int (load_int 8 src))
      else (False, os_error ''invalid data_size'' s))"

definition pb_enc_uvarint :: "pb_ostream_t \<Rightarrow> pb_field_t \<Rightarrow> const_ptr \<Rightarrow> bool \<times> pb_ostream_t" where
  "pb_enc_uvarint s field src =
     (if data_size field = 1 then pb_encode_varint s (of_nat (load_uint 1 src))
      else if data_size field = 2 then pb_encode_varint s (of_nat (load_uint 2 src))
      else if data_size field = 4 then pb_encode_varint s (of_nat (load_uint 4 src))
      else if data_size field = 8 then pb_encode_varint s (of_nat (load_uint 8 src))
      else (False, os_error ''invalid data_size'' s))"

definition pb_enc_svarint :: "pb_ostream_t \<Rightarrow> pb_field_t \<Rightarrow> const_ptr \<Rightarrow> bool \<times> pb_ostream_t" where
  "pb_enc_svarint s field src =
     (if data_size field = 1 then pb_encode_svarint s (of_int (load_int 1 src))
      else if data_size field = 2 then pb_encode_svarint s (of_int (load_int 2 src))
      else if data_size field = 4 then pb_encode_svarint s (of_int (load_int 4 src))
      else if data_size field = 8 then pb_encode_svarint s (of_int (load_int 8 src))
      else (False, os_error ''invalid data_size'' s))"

definition pb_enc_fixed64 :: "pb_ostream_t \<Rightarrow> pb_field_t \<Rightarrow> const_ptr \<Rightarrow> bool \<times> pb_ostream_t" where
  "pb_enc_fixed64 s field src = pb_encode_fixed64 s (of_nat (load_uint 8 src))"

definition pb_enc_fixed32 :: "pb_ostream_t \<Rightarrow> pb_field_t \<Rightarrow> const_ptr \<Rightarrow> bool \<times> pb_ostream_t" where
  "pb_enc_fixed32 s field src = pb_encode_fixed32 s (of_nat (load_uint 4 src))"

text \<open>
  A byte array is its size in four bytes and the bytes. For bytes and strings \<open>src\<close> can be the null
  pointer, \<open>None\<close>.
\<close>

definition pb_enc_bytes :: "pb_ostream_t \<Rightarrow> pb_field_t \<Rightarrow> const_ptr option \<Rightarrow> bool \<times> pb_ostream_t" where
  "pb_enc_bytes s field src =
     (case src of
        None \<Rightarrow> pb_encode_string s [] 0
      | Some p \<Rightarrow>
          if PB_ATYPE (fld_type field) = PB_ATYPE_STATIC \<and>
             load_uint 4 p > (unat (data_size field) + SIZE_MOD - 4) mod SIZE_MOD
          then (False, os_error ''bytes size exceeded'' s)
          else pb_encode_string s (load_bytes (load_uint 4 p) (\<lambda>i. p (4 + i))) (load_uint 4 p))"

function enc_string_loop :: "const_ptr \<Rightarrow> nat \<Rightarrow> nat \<Rightarrow> nat" where
  "enc_string_loop p limit sz = (if sz < limit \<and> p sz \<noteq> 0 then enc_string_loop p limit (sz + 1) else sz)"
  by pat_completeness auto
termination
  by (relation "measure (\<lambda>(p, limit, sz). limit - sz)") auto

declare enc_string_loop.simps [simp del]

definition pb_enc_string :: "pb_ostream_t \<Rightarrow> pb_field_t \<Rightarrow> const_ptr option \<Rightarrow> bool \<times> pb_ostream_t" where
  "pb_enc_string s field src =
     (let limit = (if PB_ATYPE (fld_type field) = PB_ATYPE_POINTER then SIZE_MOD - 1 else unat (data_size field))
      in case src of
           None \<Rightarrow> pb_encode_string s [] 0
         | Some p \<Rightarrow> (let size = enc_string_loop p limit 0 in pb_encode_string s (load_bytes size p) size))"

definition pb_enc_fixed_length_bytes :: "pb_ostream_t \<Rightarrow> pb_field_t \<Rightarrow> const_ptr \<Rightarrow> bool \<times> pb_ostream_t" where
  "pb_enc_fixed_length_bytes s field src = pb_encode_string s (load_bytes (unat (data_size field)) src) (unat (data_size field))"

subsection \<open>Decoders\<close>

type_synonym 'm pb_decoded = "bool \<times> 'm \<times> pb_istream_t"

definition pb_dec_bool :: "pb_istream_t \<Rightarrow> pb_field_t \<Rightarrow> byte list \<Rightarrow> byte list pb_decoded" where
  "pb_dec_bool s field dest =
     (case pb_decode_varint32 s of
        (None, s) \<Rightarrow> (False, dest, s)
      | (Some v, s) \<Rightarrow> (True, store_int 1 (if v \<noteq> 0 then 1 else 0) dest, s))"

definition pb_dec_varint :: "pb_istream_t \<Rightarrow> pb_field_t \<Rightarrow> byte list \<Rightarrow> byte list pb_decoded" where
  "pb_dec_varint s field dest =
     (case pb_decode_varint s of
        (None, s) \<Rightarrow> (False, dest, s)
      | (Some v, s) \<Rightarrow>
          (let svalue = (if data_size field = 8 then sint v else sint (ucast v :: u32));
               store = (\<lambda>d. if signed_take_bit (8 * d - 1) svalue \<noteq> svalue
                            then (False, store_int d svalue dest, is_error ''integer too large'' s)
                            else (True, store_int d svalue dest, s))
           in if data_size field = 8 then store 8
              else if data_size field = 4 then store 4
              else if data_size field = 2 then store 2
              else if data_size field = 1 then store 1
              else (False, dest, is_error ''invalid data_size'' s)))"

definition pb_dec_uvarint :: "pb_istream_t \<Rightarrow> pb_field_t \<Rightarrow> byte list \<Rightarrow> byte list pb_decoded" where
  "pb_dec_uvarint s field dest =
     (case pb_decode_varint s of
        (None, s) \<Rightarrow> (False, dest, s)
      | (Some v, s) \<Rightarrow>
          (let store = (\<lambda>d. if take_bit (8 * d) (uint v) \<noteq> uint v
                            then (False, store_int d (uint v) dest, is_error ''integer too large'' s)
                            else (True, store_int d (uint v) dest, s))
           in if data_size field = 8 then store 8
              else if data_size field = 4 then store 4
              else if data_size field = 2 then store 2
              else if data_size field = 1 then store 1
              else (False, dest, is_error ''invalid data_size'' s)))"

definition pb_dec_svarint :: "pb_istream_t \<Rightarrow> pb_field_t \<Rightarrow> byte list \<Rightarrow> byte list pb_decoded" where
  "pb_dec_svarint s field dest =
     (case pb_decode_svarint s of
        (None, s) \<Rightarrow> (False, dest, s)
      | (Some v, s) \<Rightarrow>
          (let store = (\<lambda>d. if signed_take_bit (8 * d - 1) (sint v) \<noteq> sint v
                            then (False, store_int d (sint v) dest, is_error ''integer too large'' s)
                            else (True, store_int d (sint v) dest, s))
           in if data_size field = 8 then store 8
              else if data_size field = 4 then store 4
              else if data_size field = 2 then store 2
              else if data_size field = 1 then store 1
              else (False, dest, is_error ''invalid data_size'' s)))"

definition pb_dec_fixed32 :: "pb_istream_t \<Rightarrow> pb_field_t \<Rightarrow> byte list \<Rightarrow> byte list pb_decoded" where
  "pb_dec_fixed32 s field dest =
     (case pb_decode_fixed32 s of (None, s) \<Rightarrow> (False, dest, s) | (Some v, s) \<Rightarrow> (True, store_int 4 (uint v) dest, s))"

definition pb_dec_fixed64 :: "pb_istream_t \<Rightarrow> pb_field_t \<Rightarrow> byte list \<Rightarrow> byte list pb_decoded" where
  "pb_dec_fixed64 s field dest =
     (case pb_decode_fixed64 s of (None, s) \<Rightarrow> (False, dest, s) | (Some v, s) \<Rightarrow> (True, store_int 8 (uint v) dest, s))"

text \<open>
  The C library's \<open>realloc\<close> is a parameter: it returns \<open>None\<close> for \<open>NULL\<close>, otherwise a block of the size
  asked for that starts with what the old one held.
\<close>

type_synonym libc_realloc = "byte list option \<Rightarrow> nat \<Rightarrow> byte list option"

definition realloc_law :: "libc_realloc \<Rightarrow> bool" where
  "realloc_law realloc \<longleftrightarrow> (\<forall>p n blk. realloc p n = Some blk \<longrightarrow> length blk = n \<and>
     (\<forall>old. p = Some old \<longrightarrow> take (min n (length old)) blk = take (min n (length old)) old))"

definition allocate_field :: "libc_realloc \<Rightarrow> pb_istream_t \<Rightarrow> byte list option \<Rightarrow> nat \<Rightarrow> nat \<Rightarrow> byte list option pb_decoded" where
  "allocate_field realloc s ptr dsize asize =
     (if dsize = 0 \<or> asize = 0 then (False, ptr, is_error ''invalid size'' s)
      else if (dsize \<ge> 2 ^ 32 \<or> asize \<ge> 2 ^ 32) \<and> (SIZE_MOD - 1) div asize < dsize
      then (False, ptr, is_error ''size too large'' s)
      else (case realloc ptr (size_mul asize dsize) of
              None \<Rightarrow> (False, ptr, is_error ''realloc failed'' s)
            | Some blk \<Rightarrow> (True, Some blk, s)))"

text \<open>
  For bytes and strings \<open>dest\<close> is the array in the structure, or what the pointer there points to.
\<close>

definition pb_dec_bytes :: "libc_realloc \<Rightarrow> pb_istream_t \<Rightarrow> pb_field_t \<Rightarrow> byte list option \<Rightarrow> byte list option pb_decoded" where
  "pb_dec_bytes realloc s field dest =
     (case pb_decode_varint32 s of
        (None, s) \<Rightarrow> (False, dest, s)
      | (Some n, s) \<Rightarrow>
          (let size = unat n;
               alloc_size = size_add size 4;
               fill = (\<lambda>dest s.
                 (let bdest = splice (the dest) 0 (rev (be_bytes 4 size)) in
                  case pb_read s size of
                    (None, s) \<Rightarrow> (False, Some bdest, s)
                  | (Some bytes, s) \<Rightarrow> (True, Some (splice bdest 4 bytes), s)))
           in if n > PB_SIZE_MAX then (False, dest, is_error ''bytes overflow'' s)
              else if size > alloc_size then (False, dest, is_error ''size too large'' s)
              else if PB_ATYPE (fld_type field) = PB_ATYPE_POINTER then
                if bytes_left s < size then (False, dest, is_error ''end-of-stream'' s)
                else (case allocate_field realloc s dest alloc_size 1 of
                        (False, dest, s) \<Rightarrow> (False, dest, s)
                      | (True, dest, s) \<Rightarrow> fill dest s)
              else if alloc_size > unat (data_size field) then (False, dest, is_error ''bytes overflow'' s)
              else fill dest s))"

text \<open>\<open>size + 1\<close> is computed in 32 bits. The terminator is written whether the bytes came or not.\<close>

definition pb_dec_string :: "libc_realloc \<Rightarrow> pb_istream_t \<Rightarrow> pb_field_t \<Rightarrow> byte list option \<Rightarrow> byte list option pb_decoded" where
  "pb_dec_string realloc s field dest =
     (case pb_decode_varint32 s of
        (None, s) \<Rightarrow> (False, dest, s)
      | (Some n, s) \<Rightarrow>
          (let size = unat n;
               alloc_size = unat (n + 1);
               fill = (\<lambda>dest s.
                 (case pb_read s size of
                    (None, s) \<Rightarrow> (False, Some (splice (the dest) size [0]), s)
                  | (Some bytes, s) \<Rightarrow> (True, Some (splice (splice (the dest) 0 bytes) size [0]), s)))
           in if alloc_size < size then (False, dest, is_error ''size too large'' s)
              else if PB_ATYPE (fld_type field) = PB_ATYPE_POINTER then
                if bytes_left s < size then (False, dest, is_error ''end-of-stream'' s)
                else (case allocate_field realloc s dest alloc_size 1 of
                        (False, dest, s) \<Rightarrow> (False, dest, s)
                      | (True, dest, s) \<Rightarrow> fill dest s)
              else if alloc_size > unat (data_size field) then (False, dest, is_error ''string overflow'' s)
              else fill dest s))"

definition pb_dec_fixed_length_bytes :: "pb_istream_t \<Rightarrow> pb_field_t \<Rightarrow> byte list \<Rightarrow> byte list pb_decoded" where
  "pb_dec_fixed_length_bytes s field dest =
     (case pb_decode_varint32 s of
        (None, s) \<Rightarrow> (False, dest, s)
      | (Some n, s) \<Rightarrow>
          if n > PB_SIZE_MAX then (False, dest, is_error ''bytes overflow'' s)
          else if n = 0 then (True, splice dest 0 (replicate (unat (data_size field)) 0), s)
          else if n \<noteq> data_size field then (False, dest, is_error ''incorrect fixed length bytes size'' s)
          else (case pb_read s (unat (data_size field)) of
                  (None, s) \<Rightarrow> (False, dest, s)
                | (Some bytes, s) \<Rightarrow> (True, splice dest 0 bytes, s)))"

section \<open>Integers\<close>

abbreviation int_size :: "pb_field_t \<Rightarrow> bool" where
  "int_size field \<equiv> data_size field = 1 \<or> data_size field = 2 \<or> data_size field = 4 \<or> data_size field = 8"

abbreviation bytes_of :: "pb_field_t \<Rightarrow> nat" where
  "bytes_of field \<equiv> unat (data_size field)"

lemma int_256_power: "(256 :: int) ^ d = 2 ^ (8 * d)"
  by (simp add: power_mult)

lemma load_nth [simp]: "length mem = d \<Longrightarrow> load_bytes d ((!) mem) = mem"
  using map_nth [of mem] by (auto simp: load_bytes_def)

lemma length_load_bytes [simp]: "length (load_bytes n p) = n"
  by (simp add: load_bytes_def)

lemma store_same:
  assumes "length mem = d" "length dest = d" "v mod 256 ^ d = int (load_uint d ((!) mem)) mod 256 ^ d"
  shows "store_int d v dest = mem"
proof -
  have "be_value (rev mem) < 256 ^ d" using be_value_less [of "rev mem"] assms(1) by simp
  then have "int (load_uint d ((!) mem)) < 256 ^ d" using assms(1) by (simp add: load_uint_def flip: of_nat_power)
  then have "nat (v mod 256 ^ d) = be_value (rev mem)" using assms by (simp add: load_uint_def)
  moreover have "be_bytes d (be_value (rev mem)) = rev mem" using be_bytes_be_value [of "rev mem"] assms(1) by simp
  ultimately show ?thesis using assms by (simp add: store_int_def splice_def)
qed

lemma load_int_mod: "0 < d \<Longrightarrow> load_int d mem mod 256 ^ d = int (load_uint d mem) mod 256 ^ d"
proof -
  assume "0 < d"
  then have "take_bit (8 * d) (load_int d mem) = take_bit (8 * d) (int (load_uint d mem))"
    unfolding load_int_def by (simp add: take_bit_signed_take_bit)
  then show ?thesis by (simp add: take_bit_eq_mod int_256_power)
qed

lemma load_int_fits: "0 < d \<Longrightarrow> d \<le> e \<Longrightarrow> signed_take_bit (8 * e - 1) (load_int d mem) = load_int d mem"
  by (simp add: load_int_def signed_take_bit_signed_take_bit min_absorb2)

lemma sint_load:
  assumes "0 < d" "d \<le> 8"
  shows "sint (of_int (load_int d mem) :: u64) = load_int d mem"
  using load_int_fits [OF assms(1), of 8] assms(2) by (simp add: signed_of_int)

lemma sint_ucast_load:
  assumes "0 < d" "d \<le> 4"
  shows "sint (ucast (of_int (load_int d mem) :: u64) :: u32) = load_int d mem"
proof -
  have "(ucast (of_int (load_int d mem) :: u64) :: u32) = of_int (load_int d mem)"
    by (rule bit_word_eqI) (auto simp: bit_simps)
  then show ?thesis using load_int_fits [OF assms(1), of 4] assms(2) by (simp add: signed_of_int)
qed

text \<open>A field decoder as a reader of the bytes it leaves in the destination.\<close>

definition dec_value :: "(pb_istream_t \<Rightarrow> pb_field_t \<Rightarrow> 'm \<Rightarrow> 'm pb_decoded) \<Rightarrow> pb_field_t \<Rightarrow> 'm \<Rightarrow> pb_istream_t \<Rightarrow> 'm pb_result" where
  "dec_value dec field dest s = (case dec s field dest of (ok, m, s) \<Rightarrow> (if ok then Some m else None, s))"

lemma pb_dec_varint_eq:
  assumes "int_size field" "pb_decode_varint s = (Some v, s')"
  shows "pb_dec_varint s field dest =
    (let d = bytes_of field; k = (if d = 8 then sint v else sint (ucast v :: u32)) in
     if signed_take_bit (8 * d - 1) k \<noteq> k then (False, store_int d k dest, is_error ''integer too large'' s') else (True, store_int d k dest, s'))"
  using assms by (auto simp: pb_dec_varint_def Let_def)

lemma pb_dec_uvarint_eq:
  assumes "int_size field" "pb_decode_varint s = (Some v, s')"
  shows "pb_dec_uvarint s field dest =
    (let d = bytes_of field in
     if take_bit (8 * d) (uint v) \<noteq> uint v then (False, store_int d (uint v) dest, is_error ''integer too large'' s')
     else (True, store_int d (uint v) dest, s'))"
  using assms by (auto simp: pb_dec_uvarint_def Let_def)

lemma pb_dec_svarint_eq:
  assumes "int_size field" "pb_decode_svarint s = (Some v, s')"
  shows "pb_dec_svarint s field dest =
    (let d = bytes_of field in
     if signed_take_bit (8 * d - 1) (sint v) \<noteq> sint v then (False, store_int d (sint v) dest, is_error ''integer too large'' s')
     else (True, store_int d (sint v) dest, s'))"
  using assms by (auto simp: pb_dec_svarint_def Let_def)

lemma int_size_cases: "int_size field \<Longrightarrow> 0 < bytes_of field \<and> bytes_of field \<le> 8 \<and> (bytes_of field \<noteq> 8 \<longrightarrow> bytes_of field \<le> 4)"
  by auto

lemma co_enc_varint:
  assumes i: "int_size field" and dest: "length dest = bytes_of field"
  shows "pb_codec (\<lambda>src s. pb_enc_varint s field ((!) src)) (dec_value pb_dec_varint field dest) (\<lambda>src. length src = bytes_of field)
    (\<lambda>src. varint (unat (of_int (load_int (bytes_of field) ((!) src)) :: u64)))"
proof (rule pb_codec.intro, goal_cases)
  case (1 src)
  have "(\<lambda>s. pb_enc_varint s field ((!) src)) = (\<lambda>s. pb_encode_varint s (of_int (load_int (bytes_of field) ((!) src))))"
    using i by (auto simp: pb_enc_varint_def)
  then show ?case by (simp only: wr_varint.pb_writer_axioms)
next
  case (2 src s rest)
  let ?k = "load_int (bytes_of field) ((!) src)"
  obtain s' where s': "pb_decode_varint s = (Some (of_int ?k), s')" "is_bytes s' = rest" "is_advances s s'"
    using pb_decode_varint_reads [OF 2(2,3)] by blast
  have "(if bytes_of field = 8 then sint (of_int ?k :: u64) else sint (ucast (of_int ?k :: u64) :: u32)) = ?k"
    using int_size_cases [OF i] sint_load sint_ucast_load by simp
  moreover have "store_int (bytes_of field) ?k dest = src"
    using int_size_cases [OF i] load_int_mod by (intro store_same [OF 2(1) dest]) simp
  moreover have "signed_take_bit (8 * bytes_of field - 1) ?k = ?k" using int_size_cases [OF i] by (intro load_int_fits) simp_all
  ultimately show ?case using s' unfolding dec_value_def pb_dec_varint_eq [OF i s'(1)] Let_def by (simp only:) simp
qed

lemma co_enc_uvarint:
  assumes i: "int_size field" and dest: "length dest = bytes_of field"
  shows "pb_codec (\<lambda>src s. pb_enc_uvarint s field ((!) src)) (dec_value pb_dec_uvarint field dest) (\<lambda>src. length src = bytes_of field)
    (\<lambda>src. varint (unat (of_nat (load_uint (bytes_of field) ((!) src)) :: u64)))"
proof (rule pb_codec.intro, goal_cases)
  case (1 src)
  have "(\<lambda>s. pb_enc_uvarint s field ((!) src)) = (\<lambda>s. pb_encode_varint s (of_nat (load_uint (bytes_of field) ((!) src))))"
    using i by (auto simp: pb_enc_uvarint_def)
  then show ?case by (simp only: wr_varint.pb_writer_axioms)
next
  case (2 src s rest)
  let ?k = "load_uint (bytes_of field) ((!) src)"
  obtain s' where s': "pb_decode_varint s = (Some (of_nat ?k), s')" "is_bytes s' = rest" "is_advances s s'"
    using pb_decode_varint_reads [OF 2(2,3)] by blast
  have k: "?k < 2 ^ (8 * bytes_of field)"
    using be_value_less [of "rev src"] 2(1) by (simp add: load_uint_def power_mult)
  also have "\<dots> \<le> 2 ^ 64" using int_size_cases [OF i] by (intro power_increasing) simp_all
  finally have u: "uint (of_nat ?k :: u64) = int ?k" by (simp add: uint_nat unat_of_nat take_bit_nat_eq_self)
  moreover have "store_int (bytes_of field) (int ?k) dest = src" by (intro store_same [OF 2(1) dest]) simp
  moreover have "take_bit (8 * bytes_of field) (int ?k) = int ?k"
    using k by (metis of_nat_take_bit take_bit_nat_eq_self_iff)
  ultimately show ?case using s' unfolding dec_value_def pb_dec_uvarint_eq [OF i s'(1)] Let_def by (simp only:) simp
qed

lemma co_enc_svarint:
  assumes i: "int_size field" and dest: "length dest = bytes_of field"
  shows "pb_codec (\<lambda>src s. pb_enc_svarint s field ((!) src)) (dec_value pb_dec_svarint field dest) (\<lambda>src. length src = bytes_of field)
    (\<lambda>src. varint (unat (zigzag (of_int (load_int (bytes_of field) ((!) src))))))"
proof (rule pb_codec.intro, goal_cases)
  case (1 src)
  have "(\<lambda>s. pb_enc_svarint s field ((!) src)) = (\<lambda>s. pb_encode_svarint s (of_int (load_int (bytes_of field) ((!) src))))"
    using i by (auto simp: pb_enc_svarint_def)
  then show ?case using co_svarint.put_writes by simp
next
  case (2 src s rest)
  let ?k = "load_int (bytes_of field) ((!) src)"
  obtain s' where s': "pb_decode_svarint s = (Some (of_int ?k), s')" "is_bytes s' = rest" "is_advances s s'"
    using co_svarint.get_reads [OF _ 2(2,3)] by blast
  have "sint (of_int ?k :: u64) = ?k" using int_size_cases [OF i] sint_load by simp
  moreover have "store_int (bytes_of field) ?k dest = src"
    using int_size_cases [OF i] load_int_mod by (intro store_same [OF 2(1) dest]) simp
  moreover have "signed_take_bit (8 * bytes_of field - 1) ?k = ?k" using int_size_cases [OF i] by (intro load_int_fits) simp_all
  ultimately show ?case using s' unfolding dec_value_def pb_dec_svarint_eq [OF i s'(1)] Let_def by (simp only:) simp
qed

section \<open>Bytes and strings\<close>

text \<open>Where a decoder may put \<open>n\<close> bytes: a static array of the size in the descriptor, or a new block.\<close>

definition dest_room :: "libc_realloc \<Rightarrow> pb_field_t \<Rightarrow> byte list option \<Rightarrow> nat \<Rightarrow> bool" where
  "dest_room realloc field dest n \<longleftrightarrow>
     (if PB_ATYPE (fld_type field) = PB_ATYPE_POINTER then n < 2 ^ 32 \<and> realloc dest n \<noteq> None
      else n \<le> bytes_of field \<and> (\<exists>m. dest = Some m \<and> length m = bytes_of field))"

lemma allocate_field_one:
  assumes "0 < n" "n < SIZE_MOD"
  shows "allocate_field realloc s p n 1 =
    (case realloc p n of None \<Rightarrow> (False, p, is_error ''realloc failed'' s) | Some blk \<Rightarrow> (True, Some blk, s))"
  using assms by (auto simp: allocate_field_def size_mul_def)

lemma pb_read_length: "fst (pb_read s n) = Some bs \<Longrightarrow> length bs \<le> n"
  by (auto simp: pb_read_def buf_read_def slice_def split: if_splits)

lemma PB_SIZE_MAX_top: "\<not> n > PB_SIZE_MAX"
  by (simp add: PB_SIZE_MAX_def not_less)

lemma u32_nat_bound: "unat (n :: u32) + 4 < SIZE_MOD"
  using unsigned_less [of n, where 'a = nat] by (simp add: SIZE_MOD_def)

text \<open>Both decoders run the same course: the length, the room for it, then the bytes.\<close>

lemma pb_dec_bytes_eq:
  assumes "pb_decode_varint32 s = (Some n, s1)"
  shows "pb_dec_bytes realloc s field dest =
    (let fill = (\<lambda>m. let m = splice m 0 (rev (be_bytes 4 (unat n))) in
         case pb_read s1 (unat n) of (None, s) \<Rightarrow> (False, Some m, s) | (Some bytes, s) \<Rightarrow> (True, Some (splice m 4 bytes), s))
     in if PB_ATYPE (fld_type field) = PB_ATYPE_POINTER then
          if bytes_left s1 < unat n then (False, dest, is_error ''end-of-stream'' s1)
          else (case realloc dest (unat n + 4) of None \<Rightarrow> (False, dest, is_error ''realloc failed'' s1) | Some blk \<Rightarrow> fill blk)
        else if unat n + 4 > bytes_of field then (False, dest, is_error ''bytes overflow'' s1)
        else fill (the dest))"
  using assms u32_nat_bound [of n] allocate_field_one [of "unat n + 4" realloc s1 dest]
  by (auto simp: pb_dec_bytes_def Let_def PB_SIZE_MAX_top size_add_no_wrap split: option.splits prod.splits)

lemma pb_dec_string_eq:
  assumes "pb_decode_varint32 s = (Some n, s1)"
  shows "pb_dec_string realloc s field dest =
    (let fill = (\<lambda>m. case pb_read s1 (unat n) of
         (None, s) \<Rightarrow> (False, Some (splice m (unat n) [0]), s) | (Some bytes, s) \<Rightarrow> (True, Some (splice (splice m 0 bytes) (unat n) [0]), s))
     in if unat n + 1 = 2 ^ 32 then (False, dest, is_error ''size too large'' s1)
        else if PB_ATYPE (fld_type field) = PB_ATYPE_POINTER then
          if bytes_left s1 < unat n then (False, dest, is_error ''end-of-stream'' s1)
          else (case realloc dest (unat n + 1) of None \<Rightarrow> (False, dest, is_error ''realloc failed'' s1) | Some blk \<Rightarrow> fill blk)
        else if unat n + 1 > bytes_of field then (False, dest, is_error ''string overflow'' s1)
        else fill (the dest))"
proof (cases "unat n + 1 = 2 ^ 32")
  case True
  moreover then have "unat (n + 1) = 0" by (simp add: unat_word_ariths)
  ultimately show ?thesis using assms by (simp add: pb_dec_string_def Let_def)
next
  case False
  then have "unat n + 1 < 2 ^ 32" using unsigned_less [of n, where 'a = nat] by simp
  then have "unat (n + 1) = unat n + 1" by (simp add: unat_word_ariths)
  with False show ?thesis using assms allocate_field_one [of "unat n + 1" realloc s1 dest] u32_nat_bound [of n]
    by (auto simp: pb_dec_string_def Let_def split: option.splits prod.splits)
qed

text \<open>A static array keeps its size whatever arrives, so nothing beyond it is written.\<close>

lemma splice_inside: "i + n \<le> length xs \<Longrightarrow> length ys \<le> n \<Longrightarrow> length (splice xs i ys) = length xs"
  by (rule length_splice) simp

lemma pb_dec_bytes_length:
  assumes "PB_ATYPE (fld_type field) \<noteq> PB_ATYPE_POINTER" "length mem = bytes_of field"
  shows "\<exists>ok m s'. pb_dec_bytes realloc s field (Some mem) = (ok, Some m, s') \<and> length m = length mem"
proof (cases "pb_decode_varint32 s")
  case (Pair r s1)
  show ?thesis
  proof (cases r)
    case (Some n)
    show ?thesis
    proof (cases "unat n + 4 \<le> bytes_of field")
      case True
      let ?m = "splice mem 0 (rev (be_bytes 4 (unat n)))"
      have l: "length ?m = length mem" using True assms(2) by (intro length_splice) simp
      have "length (splice ?m 4 bs) = length mem" if "length bs \<le> unat n" for bs
        using splice_inside [of 4 "unat n" ?m bs] that True assms(2) l by simp
      then show ?thesis
        using True l assms(1) pb_read_length [of s1 "unat n"] Pair Some
        by (auto simp: pb_dec_bytes_eq [of s n s1] Let_def split: prod.splits option.splits)
    qed (use assms(1) Pair Some in \<open>auto simp: pb_dec_bytes_eq [of s n s1] Let_def\<close>)
  qed (use Pair in \<open>auto simp: pb_dec_bytes_def\<close>)
qed

lemma pb_dec_string_length:
  assumes "PB_ATYPE (fld_type field) \<noteq> PB_ATYPE_POINTER" "length mem = bytes_of field"
  shows "\<exists>ok m s'. pb_dec_string realloc s field (Some mem) = (ok, Some m, s') \<and> length m = length mem"
proof (cases "pb_decode_varint32 s")
  case (Pair r s1)
  show ?thesis
  proof (cases r)
    case (Some n)
    show ?thesis
    proof (cases "unat n + 1 \<le> bytes_of field")
      case True
      have "length (splice mem 0 bs) = length mem" if "length bs \<le> unat n" for bs
        using splice_inside [of 0 "unat n" mem bs] that True assms(2) by simp
      moreover have "length (splice xs (unat n) [0]) = length xs" if "length xs = length mem" for xs :: "byte list"
        using that True assms(2) by (intro length_splice) simp
      ultimately show ?thesis
        using True assms pb_read_length [of s1 "unat n"] Pair Some
        by (auto simp: pb_dec_string_eq [of s n s1] Let_def split: prod.splits option.splits)
    qed (use assms(1) Pair Some in \<open>auto simp: pb_dec_string_eq [of s n s1] Let_def\<close>)
  qed (use Pair in \<open>auto simp: pb_dec_string_def\<close>)
qed

lemma pb_dec_fixed_length_bytes_length:
  assumes "length mem = bytes_of field"
  shows "\<exists>ok m s'. pb_dec_fixed_length_bytes s field mem = (ok, m, s') \<and> length m = length mem"
proof (cases "pb_decode_varint32 s")
  case (Pair r s1)
  have "length (splice mem 0 bs) = length mem" if "length bs \<le> bytes_of field" for bs
    using splice_inside [of 0 "bytes_of field" mem bs] that assms by simp
  then show ?thesis using Pair pb_read_length [of s1 "bytes_of field"]
    by (auto simp: pb_dec_fixed_length_bytes_def split: prod.splits option.splits)
qed

lemma length_store_int [simp]: "d \<le> length mem \<Longrightarrow> length (store_int d v mem) = length mem"
  by (simp add: store_int_def)

text \<open>What a byte array and a string hold, whatever follows in their object.\<close>

definition array_bytes :: "byte list option \<Rightarrow> byte list" where
  "array_bytes dest = slice (the dest) 4 (load_uint 4 ((!) (the dest)))"

definition string_bytes :: "byte list option \<Rightarrow> byte list" where
  "string_bytes dest = takeWhile (\<lambda>b. b \<noteq> 0) (the dest)"

definition array_of :: "byte list \<Rightarrow> byte list \<Rightarrow> byte list" where
  "array_of bs pad = rev (be_bytes 4 (length bs)) @ bs @ pad"

lemma load_size [simp]: "length bs < 2 ^ 32 \<Longrightarrow> load_uint 4 ((!) (rev (be_bytes 4 (length bs)) @ xs)) = length bs"
proof -
  assume "length bs < 2 ^ 32"
  moreover have "load_bytes 4 ((!) (rev (be_bytes 4 (length bs)) @ xs)) = rev (be_bytes 4 (length bs))"
    by (rule nth_equalityI) (simp_all add: load_bytes_def nth_append del: upt.simps)
  ultimately show ?thesis by (simp add: load_uint_def be_value_be_bytes)
qed

lemma load_bytes_append: "n = length bs \<Longrightarrow> load_bytes n ((!) (bs @ xs)) = bs"
  by (rule nth_equalityI) (simp_all add: load_bytes_def nth_append)

lemma array_of_load: "load_bytes (length bs) (\<lambda>i. array_of bs pad ! (4 + i)) = bs"
  by (rule nth_equalityI) (simp_all add: load_bytes_def array_of_def nth_append)

lemma enc_string_loop_eq:
  assumes "0 \<notin> set bs" "length bs < limit"
  shows "k \<le> length bs \<Longrightarrow> enc_string_loop ((!) (bs @ 0 # pad)) limit k = length bs"
proof (induction "length bs - k" arbitrary: k)
  case 0
  then have "k = length bs" by simp
  then show ?case by (subst enc_string_loop.simps) simp
next
  case (Suc d)
  then have k: "k < length bs" by simp
  then have "(bs @ 0 # pad) ! k \<noteq> 0" using assms(1) by (metis nth_append nth_mem)
  then show ?case using Suc.hyps(1) [of "Suc k"] Suc.hyps(2) k assms(2) by (subst enc_string_loop.simps) simp
qed

text \<open>Reading the length and the bytes of a string with something to follow.\<close>

lemma string_on_wire:
  assumes "is_inv s" "is_bytes s = (varint (length bs) @ bs) @ rest" "length bs < 2 ^ 32"
  obtains n s1 s2 where "pb_decode_varint32 s = (Some n, s1)" "unat n = length bs" "length bs \<le> bytes_left s1"
    "pb_read s1 (length bs) = (Some bs, s2)" "is_bytes s2 = rest" "is_advances s s2"
proof -
  have b: "is_bytes s = varint (length bs) @ bs @ rest" using assms(2) by simp
  obtain s1 where s1: "pb_decode_varint32 s = (Some (of_nat (length bs)), s1)" "is_bytes s1 = bs @ rest" "is_advances s s1" "is_inv s1"
    using pb_decode_varint32_reads [OF assms(1) b assms(3)] .
  obtain s2 where s2: "pb_read s1 (length bs) = (Some bs, s2)" "is_bytes s2 = rest" "is_advances s1 s2"
    using pb_read_take [OF s1(4,2)] by blast
  have "unat (of_nat (length bs) :: u32) = length bs" using assms(3) by (simp add: unat_of_nat take_bit_nat_eq_self)
  moreover have "length bs \<le> bytes_left s1" using length_is_bytes [OF s1(4)] s1(2) by simp
  ultimately show thesis using that s1 s2 is_advances_trans by blast
qed

lemma array_bytes_fill:
  assumes "length bs < 2 ^ 32" "length bs + 4 \<le> length m"
  shows "array_bytes (Some (splice (splice m 0 (rev (be_bytes 4 (length bs)))) 4 bs)) = bs"
  using assms splice_splice [of 0 m "rev (be_bytes 4 (length bs))" bs]
  by (simp add: array_bytes_def splice_def [of m 0] slice_def)

lemma co_enc_bytes:
  assumes law: "realloc_law realloc"
  shows "pb_codec (\<lambda>bs s. pb_enc_bytes s field (Some ((!) (array_of bs pad))))
    (\<lambda>s. map_result array_bytes (dec_value (pb_dec_bytes realloc) field dest s))
    (\<lambda>bs. length bs + 4 < 2 ^ 32 \<and> dest_room realloc field dest (length bs + 4) \<and>
       (PB_ATYPE (fld_type field) = PB_ATYPE_STATIC \<longrightarrow> length bs + 4 \<le> bytes_of field))
    (\<lambda>bs. varint (length bs) @ bs)"
proof (rule pb_codec.intro, goal_cases)
  case (1 bs)
  have "bytes_of field < SIZE_MOD" using u32_nat_bound [of "data_size field"] by simp
  then have "PB_ATYPE (fld_type field) = PB_ATYPE_STATIC \<longrightarrow> (bytes_of field + SIZE_MOD - 4) mod SIZE_MOD = bytes_of field - 4"
    using 1 by (auto simp: le_mod_geq)
  then have "pb_enc_bytes s field (Some ((!) (array_of bs pad))) = pb_encode_string s bs (length bs)" for s
    using 1 array_of_load [of bs pad] by (auto simp: pb_enc_bytes_def array_of_def)
  then show ?case using pb_writer_string [of bs] 1 by (simp add: SIZE_MOD_def)
next
  case (2 bs s rest)
  then have len: "length bs < 2 ^ 32" by simp
  obtain n s1 s2 where r: "pb_decode_varint32 s = (Some n, s1)" "unat n = length bs" "length bs \<le> bytes_left s1"
      "pb_read s1 (length bs) = (Some bs, s2)" "is_bytes s2 = rest" "is_advances s s2"
    using string_on_wire [OF 2(2,3) len] .
  note fill = array_bytes_fill [OF len]
  have "realloc dest (length bs + 4) = Some blk \<Longrightarrow> length blk = length bs + 4" for blk
    using law by (auto simp: realloc_law_def)
  then show ?case using 2(1) r fill
    by (auto simp: dec_value_def map_result_def pb_dec_bytes_eq [OF r(1)] Let_def dest_room_def split: if_splits)
qed

text \<open>The block of a pointer field is as long as what is stored there.\<close>

lemma pb_dec_bytes_block:
  assumes law: "realloc_law realloc" and ptr: "PB_ATYPE (fld_type field) = PB_ATYPE_POINTER" and inv: "is_inv s"
    and run: "pb_dec_bytes realloc s field dest = (True, m, s')"
  shows "length (the m) = 4 + length (array_bytes m)"
proof -
  obtain n s1 where n: "pb_decode_varint32 s = (Some n, s1)"
    using run by (cases "pb_decode_varint32 s"; cases "fst (pb_decode_varint32 s)") (auto simp: pb_dec_bytes_def)
  then have inv1: "is_inv s1" using rd_varint32.keeps_inv [OF inv] by simp
  have le: "unat n \<le> bytes_left s1" using run ptr by (auto simp: pb_dec_bytes_eq [OF n] Let_def split: if_splits)
  obtain blk where blk: "realloc dest (unat n + 4) = Some blk" "length blk = unat n + 4"
    using run ptr le law by (auto simp: pb_dec_bytes_eq [OF n] Let_def realloc_law_def split: option.splits)
  let ?bs = "take (unat n) (is_bytes s1)"
  obtain s2 where s2: "pb_read s1 (unat n) = (Some ?bs, s2)" using pb_read_cases [OF inv1, of "unat n"] le by auto
  have l: "length ?bs = unat n" using length_is_bytes [OF inv1] le by simp
  have "m = Some (splice (splice blk 0 (rev (be_bytes 4 (unat n)))) 4 ?bs)"
    using run ptr le blk s2 by (simp add: pb_dec_bytes_eq [OF n] Let_def)
  moreover have "length ?bs < 2 ^ 32" "length ?bs + 4 \<le> length blk" using l blk(2) unsigned_less [of n, where 'a = nat] by simp_all
  moreover have "length (splice (splice blk 0 (rev (be_bytes 4 (unat n)))) 4 ?bs) = unat n + 4"
    using blk(2) l by (simp add: length_splice)
  ultimately show ?thesis using array_bytes_fill [of ?bs blk] l by simp
qed

lemma co_enc_string:
  assumes law: "realloc_law realloc"
  shows "pb_codec (\<lambda>bs s. pb_enc_string s field (Some ((!) (bs @ 0 # pad))))
    (\<lambda>s. map_result string_bytes (dec_value (pb_dec_string realloc) field dest s))
    (\<lambda>bs. length bs + 1 < 2 ^ 32 \<and> 0 \<notin> set bs \<and> dest_room realloc field dest (length bs + 1))
    (\<lambda>bs. varint (length bs) @ bs)"
proof (rule pb_codec.intro, goal_cases)
  case (1 bs)
  let ?limit = "if PB_ATYPE (fld_type field) = PB_ATYPE_POINTER then SIZE_MOD - 1 else bytes_of field"
  have "length bs < ?limit" using 1 by (auto simp: dest_room_def SIZE_MOD_def)
  then have "pb_enc_string s field (Some ((!) (bs @ 0 # pad))) = pb_encode_string s bs (length bs)" for s
    using 1 enc_string_loop_eq [of bs ?limit 0 pad] by (simp add: pb_enc_string_def Let_def load_bytes_append)
  then show ?case using pb_writer_string [of bs] 1 by (simp add: SIZE_MOD_def)
next
  case (2 bs s rest)
  then have len: "length bs < 2 ^ 32" "length bs + 1 \<noteq> 2 ^ 32" by simp_all
  obtain n s1 s2 where r: "pb_decode_varint32 s = (Some n, s1)" "unat n = length bs" "length bs \<le> bytes_left s1"
      "pb_read s1 (length bs) = (Some bs, s2)" "is_bytes s2 = rest" "is_advances s s2"
    using string_on_wire [OF 2(2,3) len(1)] .
  have fill: "string_bytes (Some (splice (splice m 0 bs) (length bs) [0])) = bs" if "length bs + 1 \<le> length m" for m
  proof -
    have "splice (splice m 0 bs) (length bs) [0] = (bs @ [0]) @ drop (length bs + 1) m"
      using that splice_splice [of 0 m bs "[0]"] by (simp add: splice_def [of m 0])
    then show ?thesis using 2(1) by (simp add: string_bytes_def takeWhile_append)
  qed
  have "realloc dest (length bs + 1) = Some blk \<Longrightarrow> length blk = length bs + 1" for blk
    using law by (auto simp: realloc_law_def)
  then show ?case using 2(1) r fill len(2)
    by (auto simp: dec_value_def map_result_def pb_dec_string_eq [OF r(1)] Let_def dest_room_def split: if_splits)
qed

section \<open>Properties of the field codecs\<close>

lemma dec_value_SomeD: "dec_value dec field dest s = (Some m, s') \<Longrightarrow> dec s field dest = (True, m, s')"
  by (auto simp: dec_value_def split: prod.splits if_splits)

lemma map_result_SomeD: "map_result f r = (Some y, s') \<Longrightarrow> \<exists>x. r = (Some x, s') \<and> f x = y"
  by (cases r) (auto simp: map_result_def)

text \<open>An integer field of one, two, four or eight bytes, signed, unsigned or zig-zag, comes back from the
  wire as it was: the encoder succeeds into ten bytes and the decoder of the same descriptor puts
  the very same bytes into the destination and consumes the input.\<close>

lemma pb_integer_field_roundtrip:
  assumes "int_size field" "length src = bytes_of field" "length dest = bytes_of field" "10 \<le> length mem" "length mem \<le> PTRDIFF_MAX"
  shows "(\<exists>s s'. pb_enc_varint (pb_ostream_from_buffer mem (length mem)) field ((!) src) = (True, s) \<and>
      pb_dec_varint (pb_istream_from_buffer (os_mem s) (bytes_written s)) field dest = (True, src, s') \<and> bytes_left s' = 0) \<and>
    (\<exists>s s'. pb_enc_uvarint (pb_ostream_from_buffer mem (length mem)) field ((!) src) = (True, s) \<and>
      pb_dec_uvarint (pb_istream_from_buffer (os_mem s) (bytes_written s)) field dest = (True, src, s') \<and> bytes_left s' = 0) \<and>
    (\<exists>s s'. pb_enc_svarint (pb_ostream_from_buffer mem (length mem)) field ((!) src) = (True, s) \<and>
      pb_dec_svarint (pb_istream_from_buffer (os_mem s) (bytes_written s)) field dest = (True, src, s') \<and> bytes_left s' = 0)"
proof -
  have l: "length (varint (unat v)) \<le> length mem" for v :: u64 using varint_length_u64 [of v] assms(4) by simp
  show ?thesis
    using pb_codec.round_trip [OF co_enc_varint [OF assms(1,3)] assms(2) l assms(5)]
      pb_codec.round_trip [OF co_enc_uvarint [OF assms(1,3)] assms(2) l assms(5)]
      pb_codec.round_trip [OF co_enc_svarint [OF assms(1,3)] assms(2) l assms(5)]
    by (blast dest: dec_value_SomeD)
qed

definition int16_field :: pb_field_t where
  "int16_field = \<lparr>fld_tag = 3, fld_type = 0x01, data_offset = 0, size_offset = 0, data_size = 2, array_size = 0, fld_ptr = 0\<rparr>"
text \<open>C36: Bytes and strings that fit the static array of their field come back from the wire: the encoder
  succeeds into a buffer large enough, and after the decoder the array holds the same bytes, the
  string terminated.\<close>

theorem pb_bytes_and_string_roundtrip:
  assumes "realloc_law realloc" "PB_ATYPE (fld_type field) = PB_ATYPE_STATIC" "length dest = bytes_of field"
    "length (varint (length bs)) + length bs \<le> length mem" "length mem \<le> PTRDIFF_MAX"
  shows "(length bs + 4 \<le> bytes_of field \<longrightarrow>
      (\<exists>s m s'. pb_enc_bytes (pb_ostream_from_buffer mem (length mem)) field (Some ((!) (array_of bs pad))) = (True, s) \<and>
        pb_dec_bytes realloc (pb_istream_from_buffer (os_mem s) (bytes_written s)) field (Some dest) = (True, m, s') \<and>
        array_bytes m = bs \<and> bytes_left s' = 0)) \<and>
    (length bs + 1 \<le> bytes_of field \<and> 0 \<notin> set bs \<longrightarrow>
      (\<exists>s m s'. pb_enc_string (pb_ostream_from_buffer mem (length mem)) field (Some ((!) (bs @ 0 # pad))) = (True, s) \<and>
        pb_dec_string realloc (pb_istream_from_buffer (os_mem s) (bytes_written s)) field (Some dest) = (True, m, s') \<and>
        string_bytes m = bs \<and> bytes_left s' = 0))"
proof -
  have np: "PB_ATYPE (fld_type field) \<noteq> PB_ATYPE_POINTER" using assms(2) by (simp add: PB_ATYPE_STATIC_def PB_ATYPE_POINTER_def)
  have room: "n \<le> bytes_of field \<Longrightarrow> n < 2 ^ 32 \<and> dest_room realloc field (Some dest) n" for n
    using unsigned_less [of "data_size field", where 'a = nat] assms(3) np by (simp add: dest_room_def)
  have l: "length (varint (length bs) @ bs) \<le> length mem" using assms(4) by simp
  have "\<exists>s m s'. pb_enc_bytes (pb_ostream_from_buffer mem (length mem)) field (Some ((!) (array_of bs pad))) = (True, s) \<and>
      pb_dec_bytes realloc (pb_istream_from_buffer (os_mem s) (bytes_written s)) field (Some dest) = (True, m, s') \<and>
      array_bytes m = bs \<and> bytes_left s' = 0" if "length bs + 4 \<le> bytes_of field"
    using pb_codec.round_trip [OF co_enc_bytes [OF assms(1)] _ l assms(5), of field "Some dest" pad] room [OF that] that
    by (fastforce dest!: map_result_SomeD dec_value_SomeD)
  moreover have "\<exists>s m s'. pb_enc_string (pb_ostream_from_buffer mem (length mem)) field (Some ((!) (bs @ 0 # pad))) = (True, s) \<and>
      pb_dec_string realloc (pb_istream_from_buffer (os_mem s) (bytes_written s)) field (Some dest) = (True, m, s') \<and>
      string_bytes m = bs \<and> bytes_left s' = 0" if "length bs + 1 \<le> bytes_of field" "0 \<notin> set bs"
    using pb_codec.round_trip [OF co_enc_string [OF assms(1)] _ l assms(5), of field "Some dest" pad] room [OF that(1)] that(2)
    by (fastforce dest!: map_result_SomeD dec_value_SomeD)
  ultimately show ?thesis by blast
qed

definition text_field :: pb_field_t where
  "text_field = \<lparr>fld_tag = 4, fld_type = 0x07, data_offset = 0, size_offset = 0, data_size = 6, array_size = 0, fld_ptr = 0\<rparr>"

definition no_realloc :: libc_realloc where
  "no_realloc p n = None"

theorem pb_bytes_and_string_roundtrip_witness:
  "\<exists>s m s'. pb_enc_string (pb_ostream_from_buffer (replicate 8 0) 8) text_field (Some ((!) ([104, 105] @ 0 # [9, 9, 9]))) = (True, s) \<and>
    pb_dec_string no_realloc (pb_istream_from_buffer (os_mem s) (bytes_written s)) text_field (Some (replicate 6 7)) = (True, m, s') \<and>
    string_bytes m = [104, 105] \<and> bytes_left s' = 0"
  using pb_bytes_and_string_roundtrip [of no_realloc text_field "replicate 6 7" "[104, 105]" "replicate 8 0" "[9, 9, 9]"]
  by (simp add: text_field_def no_realloc_def realloc_law_def PB_ATYPE_def PB_ATYPE_STATIC_def varint_small PTRDIFF_MAX_def)

text \<open>C37: Whatever bytes arrive, the decoders write only into the destination of their field: a static
  array or an integer keeps its size, and the block allocated for a bytes field by pointer is exactly as long
  as what is stored there.\<close>

theorem pb_decoders_stay_in_destination:
  assumes "realloc_law realloc" "length mem = bytes_of field"
  shows "(PB_ATYPE (fld_type field) \<noteq> PB_ATYPE_POINTER \<longrightarrow>
      (\<exists>ok m s'. pb_dec_bytes realloc s field (Some mem) = (ok, Some m, s') \<and> length m = length mem) \<and>
      (\<exists>ok m s'. pb_dec_string realloc s field (Some mem) = (ok, Some m, s') \<and> length m = length mem)) \<and>
    (PB_ATYPE (fld_type field) = PB_ATYPE_POINTER \<and> is_inv s \<longrightarrow>
      (\<forall>m s'. pb_dec_bytes realloc s field dest = (True, m, s') \<longrightarrow> length (the m) = 4 + length (array_bytes m))) \<and>
    (\<exists>ok m s'. pb_dec_fixed_length_bytes s field mem = (ok, m, s') \<and> length m = length mem) \<and>
    (\<exists>ok m s'. pb_dec_varint s field mem = (ok, m, s') \<and> length m = length mem) \<and>
    (\<exists>ok m s'. pb_dec_uvarint s field mem = (ok, m, s') \<and> length m = length mem) \<and>
    (\<exists>ok m s'. pb_dec_svarint s field mem = (ok, m, s') \<and> length m = length mem)"
proof (intro conjI impI allI, goal_cases)
  case 1
  then show ?case using pb_dec_bytes_length assms(2) by blast
next
  case 2
  then show ?case using pb_dec_string_length assms(2) by blast
next
  case (3 m s')
  then show ?case using pb_dec_bytes_block [OF assms(1)] by blast
next
  case 4
  then show ?case using pb_dec_fixed_length_bytes_length assms(2) by blast
next
  case 5
  then show ?case using assms(2) by (cases "fst (pb_decode_varint s)") (auto simp: pb_dec_varint_def Let_def split: prod.splits option.splits)
next
  case 6
  then show ?case using assms(2) by (cases "fst (pb_decode_varint s)") (auto simp: pb_dec_uvarint_def Let_def split: prod.splits option.splits)
next
  case 7
  then show ?case using assms(2) by (cases "fst (pb_decode_svarint s)") (auto simp: pb_dec_svarint_def Let_def split: prod.splits option.splits)
qed

theorem pb_decoders_stay_in_destination_witness:
  "\<exists>ok m s'. pb_dec_string no_realloc (pb_istream_from_buffer [5, 1, 2, 3, 4, 5] 6) text_field (Some (replicate 6 7)) = (ok, Some m, s') \<and>
    length m = 6"
  using pb_decoders_stay_in_destination [of no_realloc "replicate 6 7" text_field "pb_istream_from_buffer [5, 1, 2, 3, 4, 5] 6"]
  by (simp add: text_field_def no_realloc_def realloc_law_def PB_ATYPE_def PB_ATYPE_POINTER_def)

end
