(* ===== verification/Pb_Message.thy ===== *)
theory Pb_Message
  imports Pb_Field
begin

text \<open>
  Encoding whole messages with nanopb (\<open>pb_encode\<close> and what it calls): the walk over the fields of a
  structure, arrays, optional and union members, nested messages, extensions and callbacks. What a
  structure stands for on the wire is stated apart from the code, without streams
  (\<open>message_bytes\<close>), and the encoder is shown to be a \<open>pb_writer\<close> of these bytes.
\<close>

unbundle bit_operations_syntax

section \<open>The code\<close>

text \<open>
  What the encoder sees: the memory, the descriptor arrays in it, and the functions of the
  application that are reached through pointers in it, which are parameters: the encoding callback
  of a callback structure (\<open>None\<close> when its function pointer is null), called with the field and the
  address of the structure, and the encoder and the descriptor of an extension type.
\<close>

type_synonym encoder = "pb_ostream_t \<Rightarrow> bool \<times> pb_ostream_t"

record pb_world =
  w_mem :: "int \<Rightarrow> byte"
  w_fields :: "int \<Rightarrow> pb_field_t list"
  w_callback :: "pb_field_t \<Rightarrow> int \<Rightarrow> encoder option"
  w_ext_encode :: "int \<Rightarrow> (int \<Rightarrow> encoder) option"
  w_ext_field :: "int \<Rightarrow> pb_field_t"

definition at :: "pb_world \<Rightarrow> int \<Rightarrow> const_ptr" where
  "at w a = (\<lambda>i. w_mem w (a + int i))"

definition nullable_at :: "pb_world \<Rightarrow> int \<Rightarrow> const_ptr option" where
  "nullable_at w a = (if a = 0 then None else Some (at w a))"

definition load_ptr :: "pb_world \<Rightarrow> int \<Rightarrow> int" where
  "load_ptr w a = int (load_uint 8 (at w a))"

definition PB_LTYPE_LAST_PACKABLE :: byte where "PB_LTYPE_LAST_PACKABLE = 0x05"
definition PB_HTYPE_OPTIONAL :: byte where "PB_HTYPE_OPTIONAL = 0x10"
definition PB_ATYPE_CALLBACK :: byte where "PB_ATYPE_CALLBACK = 0x40"

text \<open>
  Encoding a message recurses through its submessages. The functions below take the recursive call
  as an argument, \<open>encode\<close>, and \<open>pb_encode\<close> ties the knot.
\<close>

type_synonym message_encoder = "pb_field_t list \<Rightarrow> int \<Rightarrow> encoder"

definition pb_enc_submessage :: "message_encoder \<Rightarrow> pb_world \<Rightarrow> pb_ostream_t \<Rightarrow> pb_field_t \<Rightarrow> int \<Rightarrow> bool \<times> pb_ostream_t" where
  "pb_enc_submessage encode w s field src =
     (if fld_ptr field = 0 then (False, os_error ''invalid field descriptor'' s)
      else pb_encode_submessage (encode (w_fields w (fld_ptr field)) src) s)"

text \<open>
  The table of encoders by type. There is none for extensions and for the types beyond the table;
  the code never calls one, and the model fails.
\<close>

definition PB_ENCODERS :: "message_encoder \<Rightarrow> pb_world \<Rightarrow> pb_field_t \<Rightarrow> int \<Rightarrow> encoder" where
  "PB_ENCODERS encode w field src s =
     (let t = PB_LTYPE (fld_type field) in
      if t = PB_LTYPE_BOOL then pb_enc_bool s field (at w src)
      else if t = PB_LTYPE_VARINT then pb_enc_varint s field (at w src)
      else if t = PB_LTYPE_UVARINT then pb_enc_uvarint s field (at w src)
      else if t = PB_LTYPE_SVARINT then pb_enc_svarint s field (at w src)
      else if t = PB_LTYPE_FIXED32 then pb_enc_fixed32 s field (at w src)
      else if t = PB_LTYPE_FIXED64 then pb_enc_fixed64 s field (at w src)
      else if t = PB_LTYPE_BYTES then pb_enc_bytes s field (nullable_at w src)
      else if t = PB_LTYPE_STRING then pb_enc_string s field (nullable_at w src)
      else if t = PB_LTYPE_SUBMESSAGE then pb_enc_submessage encode w s field src
      else if t = PB_LTYPE_FIXED_LENGTH_BYTES then pb_enc_fixed_length_bytes s field (at w src)
      else (False, s))"

text \<open>The loops of \<open>encode_array\<close>: \<open>n\<close> entries from \<open>p\<close> on, \<open>d\<close> bytes apart.\<close>

primrec array_loop :: "(int \<Rightarrow> encoder) \<Rightarrow> int \<Rightarrow> nat \<Rightarrow> int \<Rightarrow> encoder" where
  "array_loop f d 0 p s = (True, s)"
| "array_loop f d (Suc n) p s = (case f p s of (False, s) \<Rightarrow> (False, s) | (True, s) \<Rightarrow> array_loop f d n (p + d) s)"

definition encode_array :: "pb_world \<Rightarrow> pb_ostream_t \<Rightarrow> pb_field_t \<Rightarrow> int \<Rightarrow> nat \<Rightarrow> (int \<Rightarrow> encoder) \<Rightarrow> bool \<times> pb_ostream_t" where
  "encode_array w s field data count func =
     (let d = uint (data_size field);
          t = PB_LTYPE (fld_type field);
          by_pointer = (PB_ATYPE (fld_type field) = PB_ATYPE_POINTER)
      in if count = 0 then (True, s)
         else if \<not> by_pointer \<and> count > unat (array_size field) then (False, os_error ''array max size exceeded'' s)
         else if t \<le> PB_LTYPE_LAST_PACKABLE then
           (case pb_encode_tag s PB_WT_STRING (fld_tag field) of
              (False, s) \<Rightarrow> (False, s)
            | (True, s) \<Rightarrow>
                (let write = (\<lambda>size.
                   case pb_encode_varint s (of_nat size) of
                     (False, s) \<Rightarrow> (False, s)
                   | (True, s) \<Rightarrow> if \<not> os_callback s then pb_write s [] size else array_loop func d count data s)
                 in if t = PB_LTYPE_FIXED32 then write (size_mul 4 count)
                    else if t = PB_LTYPE_FIXED64 then write (size_mul 8 count)
                    else (case array_loop func d count data PB_OSTREAM_SIZING of
                            (False, _) \<Rightarrow> (False, s)
                          | (True, sizestream) \<Rightarrow> write (bytes_written sizestream))))
         else
           array_loop
             (\<lambda>p s. case pb_encode_tag_for_field s field of
                (False, s) \<Rightarrow> (False, s)
              | (True, s) \<Rightarrow> if by_pointer \<and> (t = PB_LTYPE_STRING \<or> t = PB_LTYPE_BYTES) then func (load_ptr w p) s else func p s)
             d count data s)"

text \<open>
  The check for a zero value. The recursion into a static submessage is the argument \<open>sub\<close>; \<open>None\<close> is
  the result when the nesting is deeper than the recursion allowed.
\<close>

definition check_default :: "(pb_field_t list \<Rightarrow> int \<Rightarrow> bool option) \<Rightarrow> pb_world \<Rightarrow> pb_field_t \<Rightarrow> int \<Rightarrow> bool option" where
  "check_default sub w field data =
     (let h = PB_HTYPE (fld_type field);
          t = PB_LTYPE (fld_type field);
          static = (PB_ATYPE (fld_type field) = PB_ATYPE_STATIC);
          size = data + size_offset field
      in if h = PB_HTYPE_REQUIRED then Some False
         else if h = PB_HTYPE_REPEATED \<and> size_offset field \<noteq> 0 then Some (load_uint 4 (at w size) = 0)
         else if h = PB_HTYPE_REPEATED \<and> static then Some False
         else if h = PB_HTYPE_ONEOF then Some (load_uint 4 (at w size) = 0)
         else if h = PB_HTYPE_OPTIONAL \<and> size_offset field \<noteq> 0 then Some (\<not> safe_read_bool (at w size))
         else if static \<and> t = PB_LTYPE_BYTES then Some (load_uint 4 (at w data) = 0)
         else if static \<and> t = PB_LTYPE_STRING then Some (at w data 0 = 0)
         else if static \<and> t = PB_LTYPE_FIXED_LENGTH_BYTES then Some (data_size field = 0)
         else if static \<and> t = PB_LTYPE_SUBMESSAGE then sub (w_fields w (fld_ptr field)) data
         else if PB_ATYPE (fld_type field) = PB_ATYPE_POINTER \<and> t > PB_LTYPE_LAST_PACKABLE then Some (load_ptr w data = 0)
         else Some (\<forall>b\<in>set (load_bytes (unat (data_size field)) (at w data)). b = 0))"

text \<open>
  The loops over the fields of a message run once for each descriptor; the length of the array
  bounds them.
\<close>

primrec default_loop :: "(pb_field_t \<Rightarrow> int \<Rightarrow> bool option) \<Rightarrow> nat \<Rightarrow> pb_field_iter_t \<Rightarrow> bool option" where
  "default_loop check 0 iter = None"
| "default_loop check (Suc k) iter =
     (case check (iter_field iter) (pData iter) of
        None \<Rightarrow> None
      | Some False \<Rightarrow> Some False
      | Some True \<Rightarrow>
          (case pb_field_iter_next iter of (True, iter) \<Rightarrow> default_loop check k iter | (False, _) \<Rightarrow> Some True))"

definition fields_default :: "(pb_field_t \<Rightarrow> int \<Rightarrow> bool option) \<Rightarrow> pb_field_t list \<Rightarrow> int \<Rightarrow> bool option" where
  "fields_default check fs data =
     (case pb_field_iter_begin fs data of
        (False, _) \<Rightarrow> Some True
      | (True, iter) \<Rightarrow> default_loop check (length fs) iter)"

primrec pb_check_proto3_default_value :: "nat \<Rightarrow> pb_world \<Rightarrow> pb_field_t \<Rightarrow> int \<Rightarrow> bool option" where
  "pb_check_proto3_default_value 0 w = check_default (\<lambda>_ _. None) w"
| "pb_check_proto3_default_value (Suc n) w = check_default (fields_default (pb_check_proto3_default_value n w)) w"

text \<open>
  \<open>check\<close> is the check for a zero value. A member of a union always has the offset of its selector.
\<close>

definition encode_basic_field ::
  "(pb_field_t \<Rightarrow> int \<Rightarrow> bool option) \<Rightarrow> message_encoder \<Rightarrow> pb_world \<Rightarrow> pb_ostream_t \<Rightarrow> pb_field_t \<Rightarrow> int \<Rightarrow> bool \<times> pb_ostream_t" where
  "encode_basic_field check encode w s field data =
     (let h = PB_HTYPE (fld_type field);
          size = data + size_offset field;
          func = PB_ENCODERS encode w field
      in case (if size_offset field \<noteq> 0 then Some True
               else if h = PB_HTYPE_OPTIONAL then map_option Not (check field data)
               else Some True) of
           None \<Rightarrow> (False, s)
         | Some implicit_has \<Rightarrow>
             (let by_pointer = (PB_ATYPE (fld_type field) = PB_ATYPE_POINTER);
                  value = (if by_pointer then load_ptr w data else data);
                  implicit_has = (if by_pointer then value \<noteq> 0 else implicit_has);
                  has = (if size_offset field \<noteq> 0 then safe_read_bool (at w size) else implicit_has);
                  write = (case pb_encode_tag_for_field s field of (False, s) \<Rightarrow> (False, s) | (True, s) \<Rightarrow> func value s)
              in if h = PB_HTYPE_REQUIRED then
                   if value = 0 then (False, os_error ''missing required field'' s) else write
                 else if h = PB_HTYPE_OPTIONAL then if has then write else (True, s)
                 else if h = PB_HTYPE_REPEATED then
                   encode_array w s field value
                     (if size_offset field \<noteq> 0 then load_uint 4 (at w size) else unat (array_size field)) func
                 else if h = PB_HTYPE_ONEOF then
                   if load_uint 4 (at w size) = unat (fld_tag field) then write else (True, s)
                 else (False, os_error ''invalid field type'' s)))"

definition encode_callback_field :: "pb_world \<Rightarrow> pb_ostream_t \<Rightarrow> pb_field_t \<Rightarrow> int \<Rightarrow> bool \<times> pb_ostream_t" where
  "encode_callback_field w s field data =
     (case w_callback w field data of
        None \<Rightarrow> (True, s)
      | Some callback \<Rightarrow>
          (case callback s of (False, s) \<Rightarrow> (False, os_error ''callback error'' s) | (True, s) \<Rightarrow> (True, s)))"

definition encode_field ::
  "(pb_field_t \<Rightarrow> int \<Rightarrow> bool option) \<Rightarrow> message_encoder \<Rightarrow> pb_world \<Rightarrow> pb_ostream_t \<Rightarrow> pb_field_t \<Rightarrow> int \<Rightarrow> bool \<times> pb_ostream_t" where
  "encode_field check encode w s field data =
     (let a = PB_ATYPE (fld_type field) in
      if a = PB_ATYPE_STATIC \<or> a = PB_ATYPE_POINTER then encode_basic_field check encode w s field data
      else if a = PB_ATYPE_CALLBACK then encode_callback_field w s field data
      else (False, os_error ''invalid field type'' s))"

text \<open>
  An extension structure holds the pointers to its type, its data and the next extension, eight
  bytes each. The chain is followed for at most \<open>k\<close> extensions.
\<close>

definition default_extension_encoder ::
  "(pb_field_t \<Rightarrow> int \<Rightarrow> bool option) \<Rightarrow> message_encoder \<Rightarrow> pb_world \<Rightarrow> pb_ostream_t \<Rightarrow> int \<Rightarrow> bool \<times> pb_ostream_t" where
  "default_extension_encoder check encode w s extension =
     (let field = w_ext_field w (load_ptr w extension) in
      if PB_ATYPE (fld_type field) = PB_ATYPE_POINTER then encode_field check encode w s field (extension + 8)
      else encode_field check encode w s field (load_ptr w (extension + 8)))"

primrec extension_loop ::
  "(pb_field_t \<Rightarrow> int \<Rightarrow> bool option) \<Rightarrow> message_encoder \<Rightarrow> pb_world \<Rightarrow> nat \<Rightarrow> int \<Rightarrow> encoder" where
  "extension_loop check encode w 0 extension s = (False, s)"
| "extension_loop check encode w (Suc k) extension s =
     (if extension = 0 then (True, s)
      else
        (case (case w_ext_encode w (load_ptr w extension) of
                 Some ext_encode \<Rightarrow> ext_encode extension s
               | None \<Rightarrow> default_extension_encoder check encode w s extension) of
           (False, s) \<Rightarrow> (False, s)
         | (True, s) \<Rightarrow> extension_loop check encode w k (load_ptr w (extension + 16)) s))"

definition encode_extension_field ::
  "(pb_field_t \<Rightarrow> int \<Rightarrow> bool option) \<Rightarrow> message_encoder \<Rightarrow> pb_world \<Rightarrow> nat \<Rightarrow> pb_ostream_t \<Rightarrow> int \<Rightarrow> bool \<times> pb_ostream_t" where
  "encode_extension_field check encode w k s data = extension_loop check encode w k (load_ptr w data) s"

primrec encode_loop :: "(pb_field_t \<Rightarrow> int \<Rightarrow> encoder) \<Rightarrow> nat \<Rightarrow> pb_field_iter_t \<Rightarrow> encoder" where
  "encode_loop f 0 iter s = (False, s)"
| "encode_loop f (Suc k) iter s =
     (case f (iter_field iter) (pData iter) s of
        (False, s) \<Rightarrow> (False, s)
      | (True, s) \<Rightarrow>
          (case pb_field_iter_next iter of (True, iter) \<Rightarrow> encode_loop f k iter s | (False, _) \<Rightarrow> (True, s)))"

text \<open>\<open>n\<close> bounds the nesting of submessages and the chains of extensions.\<close>

primrec pb_encode :: "nat \<Rightarrow> pb_world \<Rightarrow> pb_field_t list \<Rightarrow> int \<Rightarrow> encoder" where
  "pb_encode 0 w fs src s = (False, s)"
| "pb_encode (Suc n) w fs src s =
     (let check = pb_check_proto3_default_value n w;
          encode = pb_encode n w
      in case pb_field_iter_begin fs src of
           (False, _) \<Rightarrow> (True, s)
         | (True, iter) \<Rightarrow>
             encode_loop
               (\<lambda>field data s.
                  if PB_LTYPE (fld_type field) = PB_LTYPE_EXTENSION then encode_extension_field check encode w (Suc n) s data
                  else encode_field check encode w s field data)
               (length fs) iter s)"

definition pb_encode_delimited :: "nat \<Rightarrow> pb_world \<Rightarrow> pb_ostream_t \<Rightarrow> pb_field_t list \<Rightarrow> int \<Rightarrow> bool \<times> pb_ostream_t" where
  "pb_encode_delimited n w s fs src = pb_encode_submessage (pb_encode n w fs src) s"

definition pb_encode_nullterminated :: "nat \<Rightarrow> pb_world \<Rightarrow> pb_ostream_t \<Rightarrow> pb_field_t list \<Rightarrow> int \<Rightarrow> bool \<times> pb_ostream_t" where
  "pb_encode_nullterminated n w s fs src =
     (case pb_encode n w fs src s of (False, s) \<Rightarrow> (False, s) | (True, s) \<Rightarrow> pb_write s [0] 1)"

definition pb_get_encoded_size :: "nat \<Rightarrow> pb_world \<Rightarrow> pb_field_t list \<Rightarrow> int \<Rightarrow> nat option" where
  "pb_get_encoded_size n w fs src =
     (case pb_encode n w fs src PB_OSTREAM_SIZING of (False, _) \<Rightarrow> None | (True, s) \<Rightarrow> Some (bytes_written s))"

section \<open>The bytes of a message\<close>

text \<open>
  What a message in memory stands for on the wire, without streams: \<open>None\<close> where the code refuses or
  the nesting is not bounded by \<open>n\<close>. \<open>sub\<close> are the bytes of a submessage; \<open>app_bytes\<close> and \<open>ext_bytes\<close>
  those that the callbacks and the extension encoders of the application write.
\<close>

type_synonym message_bytes = "pb_field_t list \<Rightarrow> int \<Rightarrow> byte list option"

definition flag_set :: "const_ptr \<Rightarrow> bool" where
  "flag_set p \<longleftrightarrow> p 0 \<noteq> 0"

text \<open>The length of the C string at \<open>p\<close>, of at most \<open>limit\<close> characters.\<close>

definition string_length :: "const_ptr \<Rightarrow> nat \<Rightarrow> nat" where
  "string_length p limit = length (takeWhile (\<lambda>c. c \<noteq> 0) (load_bytes limit p))"

definition value_bytes :: "message_bytes \<Rightarrow> pb_world \<Rightarrow> pb_field_t \<Rightarrow> int \<Rightarrow> byte list option" where
  "value_bytes sub w field src =
     (let t = PB_LTYPE (fld_type field);
          p = at w src;
          limit = (if PB_ATYPE (fld_type field) = PB_ATYPE_POINTER then SIZE_MOD - 1 else bytes_of field)
      in if t = PB_LTYPE_BOOL then Some (varint (if flag_set p then 1 else 0))
         else if t = PB_LTYPE_VARINT then
           if int_size field then Some (varint (unat (of_int (load_int (bytes_of field) p) :: u64))) else None
         else if t = PB_LTYPE_UVARINT then if int_size field then Some (varint (load_uint (bytes_of field) p)) else None
         else if t = PB_LTYPE_SVARINT then
           if int_size field then Some (varint (unat (zigzag (of_int (load_int (bytes_of field) p))))) else None
         else if t = PB_LTYPE_FIXED32 then Some (load_bytes 4 p)
         else if t = PB_LTYPE_FIXED64 then Some (load_bytes 8 p)
         else if t = PB_LTYPE_BYTES then
           if src = 0 then Some (varint 0)
           else if PB_ATYPE (fld_type field) = PB_ATYPE_STATIC \<and> bytes_of field < load_uint 4 p + 4 then None
           else Some (varint (load_uint 4 p) @ load_bytes (load_uint 4 p) (\<lambda>i. p (4 + i)))
         else if t = PB_LTYPE_STRING then
           if src = 0 then Some (varint 0)
           else Some (varint (string_length p limit) @ load_bytes (string_length p limit) p)
         else if t = PB_LTYPE_SUBMESSAGE then
           if fld_ptr field = 0 then None
           else (case sub (w_fields w (fld_ptr field)) src of
                   None \<Rightarrow> None
                 | Some bs \<Rightarrow> if length bs \<le> PTRDIFF_MAX then Some (varint (length bs) @ bs) else None)
         else if t = PB_LTYPE_FIXED_LENGTH_BYTES then Some (varint (bytes_of field) @ load_bytes (bytes_of field) p)
         else None)"

definition wire_type_for :: "pb_field_t \<Rightarrow> pb_wire_type_t option" where
  "wire_type_for field =
     (let t = PB_LTYPE (fld_type field) in
      if t = PB_LTYPE_BOOL \<or> t = PB_LTYPE_VARINT \<or> t = PB_LTYPE_UVARINT \<or> t = PB_LTYPE_SVARINT then Some PB_WT_VARINT
      else if t = PB_LTYPE_FIXED32 then Some PB_WT_32BIT
      else if t = PB_LTYPE_FIXED64 then Some PB_WT_64BIT
      else if t = PB_LTYPE_BYTES \<or> t = PB_LTYPE_STRING \<or> t = PB_LTYPE_SUBMESSAGE \<or> t = PB_LTYPE_FIXED_LENGTH_BYTES then Some PB_WT_STRING
      else None)"

definition app2 :: "byte list option \<Rightarrow> byte list option \<Rightarrow> byte list option" where
  "app2 x y = (case x of None \<Rightarrow> None | Some a \<Rightarrow> map_option ((@) a) y)"

definition tag_bytes :: "pb_field_t \<Rightarrow> byte list option" where
  "tag_bytes field = map_option (\<lambda>wt. varint (tag_number (wt, fld_tag field))) (wire_type_for field)"

primrec entries :: "(int \<Rightarrow> byte list option) \<Rightarrow> int \<Rightarrow> nat \<Rightarrow> int \<Rightarrow> byte list option" where
  "entries f d 0 p = Some []"
| "entries f d (Suc n) p = app2 (f p) (entries f d n (p + d))"

text \<open>A packed array has one tag and one length, any other array a tag for every entry.\<close>

definition repeated_bytes :: "pb_world \<Rightarrow> pb_field_t \<Rightarrow> int \<Rightarrow> nat \<Rightarrow> (int \<Rightarrow> byte list option) \<Rightarrow> byte list option" where
  "repeated_bytes w field data count value =
     (let d = uint (data_size field);
          t = PB_LTYPE (fld_type field);
          by_pointer = (PB_ATYPE (fld_type field) = PB_ATYPE_POINTER)
      in if count = 0 then Some []
         else if \<not> by_pointer \<and> count > unat (array_size field) then None
         else if t \<le> PB_LTYPE_LAST_PACKABLE then
           (case entries value d count data of
              None \<Rightarrow> None
            | Some bs \<Rightarrow>
                if length bs \<le> PTRDIFF_MAX
                then Some (varint (tag_number (PB_WT_STRING, fld_tag field)) @ varint (length bs) @ bs) else None)
         else entries (\<lambda>p. app2 (tag_bytes field)
             (value (if by_pointer \<and> (t = PB_LTYPE_STRING \<or> t = PB_LTYPE_BYTES) then load_ptr w p else p))) d count data)"

text \<open>
  Proto3 leaves out fields that are absent. A required field never is; a repeated field is when it has
  no entries, a member of a union when nothing is selected, an optional field with a flag when the
  flag is not set. Any other field is absent when its value is zero: the number zero, the null
  pointer, no bytes, the empty string, a submessage all of whose fields are absent.
\<close>

definition zero_value :: "(pb_field_t list \<Rightarrow> int \<Rightarrow> bool option) \<Rightarrow> pb_world \<Rightarrow> pb_field_t \<Rightarrow> int \<Rightarrow> bool option" where
  "zero_value sub w field data =
     (let t = PB_LTYPE (fld_type field);
          a = PB_ATYPE (fld_type field)
      in if a = PB_ATYPE_STATIC \<and> t = PB_LTYPE_SUBMESSAGE then sub (w_fields w (fld_ptr field)) data
         else Some
           (if a = PB_ATYPE_STATIC \<and> t = PB_LTYPE_BYTES then load_uint 4 (at w data) = 0
            else if a = PB_ATYPE_STATIC \<and> t = PB_LTYPE_STRING then string_length (at w data) 1 = 0
            else if a = PB_ATYPE_STATIC \<and> t = PB_LTYPE_FIXED_LENGTH_BYTES then bytes_of field = 0
            else if a = PB_ATYPE_POINTER \<and> \<not> t \<le> PB_LTYPE_LAST_PACKABLE then load_ptr w data = 0
            else load_uint (bytes_of field) (at w data) = 0))"

definition absent :: "(pb_field_t list \<Rightarrow> int \<Rightarrow> bool option) \<Rightarrow> pb_world \<Rightarrow> pb_field_t \<Rightarrow> int \<Rightarrow> bool option" where
  "absent sub w field data =
     (let h = PB_HTYPE (fld_type field);
          counted = (size_offset field \<noteq> 0);
          extra = at w (data + size_offset field)
      in if h = PB_HTYPE_REQUIRED then Some False
         else if h = PB_HTYPE_ONEOF \<or> h = PB_HTYPE_REPEATED \<and> counted then Some (load_uint 4 extra = 0)
         else if h = PB_HTYPE_OPTIONAL \<and> counted then Some (\<not> flag_set extra)
         else if h = PB_HTYPE_REPEATED \<and> PB_ATYPE (fld_type field) = PB_ATYPE_STATIC then Some False
         else zero_value sub w field data)"

definition fields_absent :: "(pb_field_t \<Rightarrow> int \<Rightarrow> bool option) \<Rightarrow> pb_field_t list \<Rightarrow> int \<Rightarrow> bool option" where
  "fields_absent field_absent fs src =
     (let answers = map (\<lambda>i. field_absent (fs ! i) (data_at fs src i)) [0..<nfields fs] in
      if \<not> wf_fields fs \<or> src = 0 \<or> None \<in> set answers then None
      else Some (\<forall>r\<in>set answers. r = Some True))"

primrec field_absent :: "nat \<Rightarrow> pb_world \<Rightarrow> pb_field_t \<Rightarrow> int \<Rightarrow> bool option" where
  "field_absent 0 w = absent (\<lambda>_ _. None) w"
| "field_absent (Suc n) w = absent (fields_absent (field_absent n w)) w"

text \<open>
  Which values of a field are written: a required one always, an optional one when its flag is set
  or, without a flag, when it is not absent, the members of a union when the selector names them.
\<close>

definition basic_field_bytes :: "(pb_field_t \<Rightarrow> int \<Rightarrow> bool option) \<Rightarrow> message_bytes \<Rightarrow> pb_world \<Rightarrow> pb_field_t \<Rightarrow> int \<Rightarrow> byte list option" where
  "basic_field_bytes zero sub w field data =
     (let h = PB_HTYPE (fld_type field);
          size = data + size_offset field;
          by_pointer = (PB_ATYPE (fld_type field) = PB_ATYPE_POINTER);
          value = (if by_pointer then load_ptr w data else data);
          one = app2 (tag_bytes field) (value_bytes sub w field value)
      in if h = PB_HTYPE_REQUIRED then if value = 0 then None else one
         else if h = PB_HTYPE_OPTIONAL then
           if size_offset field \<noteq> 0 then if flag_set (at w size) then one else Some []
           else (case zero field data of
                   None \<Rightarrow> None
                 | Some is_zero \<Rightarrow> if (if by_pointer then value \<noteq> 0 else \<not> is_zero) then one else Some [])
         else if h = PB_HTYPE_REPEATED then
           repeated_bytes w field value (if size_offset field \<noteq> 0 then load_uint 4 (at w size) else unat (array_size field))
             (value_bytes sub w field)
         else if h = PB_HTYPE_ONEOF then if load_uint 4 (at w size) = unat (fld_tag field) then one else Some []
         else None)"

record app_writes =
  app_bytes :: "pb_field_t \<Rightarrow> int \<Rightarrow> byte list option"
  ext_bytes :: "int \<Rightarrow> byte list option"

definition any_field_bytes ::
  "app_writes \<Rightarrow> (pb_field_t \<Rightarrow> int \<Rightarrow> bool option) \<Rightarrow> message_bytes \<Rightarrow> pb_world \<Rightarrow> pb_field_t \<Rightarrow> int \<Rightarrow> byte list option" where
  "any_field_bytes app zero sub w field data =
     (let a = PB_ATYPE (fld_type field) in
      if a = PB_ATYPE_STATIC \<or> a = PB_ATYPE_POINTER then basic_field_bytes zero sub w field data
      else if a = PB_ATYPE_CALLBACK then if w_callback w field data = None then Some [] else app_bytes app field data
      else None)"

primrec extension_bytes ::
  "app_writes \<Rightarrow> (pb_field_t \<Rightarrow> int \<Rightarrow> bool option) \<Rightarrow> message_bytes \<Rightarrow> pb_world \<Rightarrow> nat \<Rightarrow> int \<Rightarrow> byte list option" where
  "extension_bytes app zero sub w 0 extension = None"
| "extension_bytes app zero sub w (Suc k) extension =
     (if extension = 0 then Some []
      else app2
        (if w_ext_encode w (load_ptr w extension) \<noteq> None then ext_bytes app extension
         else (let field = w_ext_field w (load_ptr w extension)
               in any_field_bytes app zero sub w field
                    (if PB_ATYPE (fld_type field) = PB_ATYPE_POINTER then extension + 8 else load_ptr w (extension + 8))))
        (extension_bytes app zero sub w k (load_ptr w (extension + 16))))"

primrec concat_upto :: "(nat \<Rightarrow> byte list option) \<Rightarrow> nat \<Rightarrow> nat \<Rightarrow> byte list option" where
  "concat_upto f i 0 = Some []"
| "concat_upto f i (Suc k) = app2 (f i) (concat_upto f (Suc i) k)"

text \<open>The fields in order, each at the place the layout gives it.\<close>

definition fields_bytes ::
  "app_writes \<Rightarrow> (pb_field_t \<Rightarrow> int \<Rightarrow> bool option) \<Rightarrow> message_bytes \<Rightarrow> pb_world \<Rightarrow> nat \<Rightarrow> message_bytes" where
  "fields_bytes app zero sub w k fs src =
     (if \<not> wf_fields fs \<or> src = 0 then None
      else concat_upto
        (\<lambda>i. let field = fs ! i; data = data_at fs src i in
           if PB_LTYPE (fld_type field) = PB_LTYPE_EXTENSION then extension_bytes app zero sub w k (load_ptr w data)
           else any_field_bytes app zero sub w field data) 0 (nfields fs))"

primrec message_bytes :: "nat \<Rightarrow> app_writes \<Rightarrow> pb_world \<Rightarrow> message_bytes" where
  "message_bytes 0 app w fs src = None"
| "message_bytes (Suc n) app w fs src =
     fields_bytes app (field_absent n w) (message_bytes n app w) w (Suc n) fs src"

section \<open>The encoder writes these bytes\<close>

lemma app2_SomeD: "app2 x y = Some z \<Longrightarrow> \<exists>a b. x = Some a \<and> y = Some b \<and> z = a @ b"
  by (cases x; cases y) (simp_all add: app2_def)

lemma pb_writer_nop: "pb_writer (Pair True) []"
  by unfold_locales (auto simp: os_put_def os_fits_def os_inv_def size_add_def splice_def)

lemma pb_writer_tag: "unat wt < 8 \<Longrightarrow> pb_writer (\<lambda>s. pb_encode_tag s wt num) (varint (tag_number (wt, num)))"
  unfolding pb_encode_tag_def pb_encode_tag_eq [symmetric] by (rule wr_varint.pb_writer_axioms)

lemma pb_writer_tag_for_field: "tag_bytes field = Some bs \<Longrightarrow> pb_writer (\<lambda>s. pb_encode_tag_for_field s field) bs"
proof -
  assume "tag_bytes field = Some bs"
  then obtain wt where wt: "wire_type_for field = Some wt" "bs = varint (tag_number (wt, fld_tag field))" by (auto simp: tag_bytes_def)
  then have "unat wt < 8" "pb_encode_tag_for_field s field = pb_encode_tag s wt (fld_tag field)" for s
    by (auto simp: wire_type_for_def pb_encode_tag_for_field_def Let_def wire_types split: if_splits)
  then show ?thesis using pb_writer_tag wt(2) by presburger
qed

lemma safe_read_flag [simp]: "safe_read_bool p = flag_set p"
  by (simp add: safe_read_bool_def flag_set_def)

lemma string_length_loop: "k \<le> limit \<Longrightarrow> (\<forall>i<k. p i \<noteq> 0) \<Longrightarrow> enc_string_loop p limit k = string_length p limit"
proof (induction p limit k rule: enc_string_loop.induct)
  case (1 p limit k)
  show ?case
  proof (cases "k < limit \<and> p k \<noteq> 0")
    case True
    then have "\<forall>i<k + 1. p i \<noteq> 0" using "1.prems"(2) by (auto simp: less_Suc_eq)
    then show ?thesis using 1 True by (subst enc_string_loop.simps) auto
  next
    case False
    let ?run = "takeWhile (\<lambda>c. c \<noteq> 0) (load_bytes limit p)"
    have le: "k \<le> length ?run" by (rule length_takeWhile_less_P_nth) (use 1(2,3) in \<open>simp_all add: load_bytes_def\<close>)
    have "\<not> k < length ?run"
    proof
      assume k: "k < length ?run"
      then have "k < limit" using length_takeWhile_le [of "\<lambda>c. c \<noteq> 0" "load_bytes limit p"] by simp
      moreover from this have "?run ! k = p k" using takeWhile_nth [OF k] by (simp add: load_bytes_def)
      ultimately show False using set_takeWhileD [OF nth_mem [OF k]] False by simp
    qed
    then show ?thesis using le False by (subst enc_string_loop.simps) (auto simp: string_length_def)
  qed
qed

text \<open>The check of the code answers whether a field is absent.\<close>

lemma load_uint_0_iff: "load_uint n p = 0 \<longleftrightarrow> (\<forall>b\<in>set (load_bytes n p). b = 0)"
  by (simp add: load_uint_def be_value_0_iff)

lemma check_default_absent:
  assumes sub: "\<And>fs a b. sub fs a = Some b \<Longrightarrow> sub' fs a = Some b" and a: "absent sub w field data = Some b"
  shows "check_default sub' w field data = Some b"
proof -
  have s: "string_length p 1 = 0 \<longleftrightarrow> p 0 = 0" for p by (simp add: string_length_def load_bytes_def)
  have d: "unat (data_size field) = 0 \<longleftrightarrow> data_size field = 0" by (simp add: unat_eq_0)
  have h: "PB_HTYPE_REPEATED \<noteq> PB_HTYPE_ONEOF" "PB_HTYPE_OPTIONAL \<noteq> PB_HTYPE_REPEATED" "PB_HTYPE_OPTIONAL \<noteq> PB_HTYPE_ONEOF"
    "PB_HTYPE_REQUIRED \<noteq> PB_HTYPE_ONEOF" "PB_HTYPE_REQUIRED \<noteq> PB_HTYPE_REPEATED" "PB_HTYPE_REQUIRED \<noteq> PB_HTYPE_OPTIONAL"
    by (simp_all add: PB_HTYPE_REQUIRED_def PB_HTYPE_REPEATED_def PB_HTYPE_ONEOF_def PB_HTYPE_OPTIONAL_def)
  have l: "PB_LTYPE_SUBMESSAGE \<noteq> PB_LTYPE_BYTES" "PB_LTYPE_SUBMESSAGE \<noteq> PB_LTYPE_STRING"
    "PB_LTYPE_SUBMESSAGE \<noteq> PB_LTYPE_FIXED_LENGTH_BYTES"
    by (simp_all add: PB_LTYPE_SUBMESSAGE_def PB_LTYPE_BYTES_def PB_LTYPE_STRING_def PB_LTYPE_FIXED_LENGTH_BYTES_def)
  have eq: "check_default sub' w field data = zero_value sub' w field data"
    if "PB_HTYPE (fld_type field) \<noteq> PB_HTYPE_REQUIRED" "PB_HTYPE (fld_type field) \<noteq> PB_HTYPE_ONEOF"
      "\<not> (PB_HTYPE (fld_type field) = PB_HTYPE_REPEATED \<and> size_offset field \<noteq> 0)"
      "\<not> (PB_HTYPE (fld_type field) = PB_HTYPE_REPEATED \<and> PB_ATYPE (fld_type field) = PB_ATYPE_STATIC)"
      "\<not> (PB_HTYPE (fld_type field) = PB_HTYPE_OPTIONAL \<and> size_offset field \<noteq> 0)"
  proof (cases "PB_ATYPE (fld_type field) = PB_ATYPE_STATIC \<and> PB_LTYPE (fld_type field) = PB_LTYPE_SUBMESSAGE")
    case True
    then show ?thesis using that l by (auto simp: zero_value_def check_default_def Let_def)
  next
    case False
    show ?thesis
      unfolding zero_value_def check_default_def Let_def if_not_P [OF False] if_not_P [OF that(1)] if_not_P [OF that(2)]
        if_not_P [OF that(3)] if_not_P [OF that(4)] if_not_P [OF that(5)] s d load_uint_0_iff [of "unat (data_size field)"]
      by (simp add: not_le)
  qed
  have z: "zero_value sub w field data = Some b \<Longrightarrow> zero_value sub' w field data = Some b"
    using sub unfolding zero_value_def Let_def
    by (cases "PB_ATYPE (fld_type field) = PB_ATYPE_STATIC \<and> PB_LTYPE (fld_type field) = PB_LTYPE_SUBMESSAGE")
      (simp_all only: if_True if_False simp_thms)
  let ?h = "PB_HTYPE (fld_type field)" and ?counted = "size_offset field \<noteq> 0" and ?static = "PB_ATYPE (fld_type field) = PB_ATYPE_STATIC"
  show ?thesis
  proof (cases "?h = PB_HTYPE_REQUIRED \<or> ?h = PB_HTYPE_ONEOF \<or> ?h = PB_HTYPE_REPEATED \<and> ?counted \<or>
      ?h = PB_HTYPE_REPEATED \<and> ?static \<or> ?h = PB_HTYPE_OPTIONAL \<and> ?counted")
    case True
    then show ?thesis using a
      by (cases ?counted; elim disjE conjE) (simp_all add: absent_def check_default_def Let_def h h [THEN not_sym] del: not_None_eq split del: if_split)
  next
    case False
    then have "zero_value sub w field data = Some b" using a
      by (cases ?counted; cases ?static) (auto simp: absent_def Let_def)
    with z eq False show ?thesis by simp
  qed
qed

lemma default_loop_absent:
  assumes wf: "wf_fields fs" "src \<noteq> 0"
    and z: "\<And>i. i < nfields fs \<Longrightarrow> check (fs ! i) (data_at fs src i) = Some (z i)"
  shows "k = nfields fs - i \<Longrightarrow> i < nfields fs \<Longrightarrow> k \<le> j \<Longrightarrow>
    default_loop check j (iter_at fs src i) = Some (\<forall>l. i \<le> l \<and> l < nfields fs \<longrightarrow> z l)"
proof (induction k arbitrary: i j)
  case (Suc k)
  obtain j' where j: "j = Suc j'" "k \<le> j'" using Suc.prems(3) by (cases j) auto
  have d: "pData (iter_at fs src i) = data_at fs src i" by (simp add: iter_at_def)
  have split: "(\<forall>l. i \<le> l \<and> l < nfields fs \<longrightarrow> z l) \<longleftrightarrow> z i \<and> (\<forall>l. Suc i \<le> l \<and> l < nfields fs \<longrightarrow> z l)"
    using Suc.prems(2) by (metis Suc_leI le_eq_less_or_eq Suc_leD order_refl)
  show ?case
  proof (cases "Suc i < nfields fs")
    case True
    then show ?thesis using Suc.IH [OF _ True j(2)] Suc.prems(1) j(1) z [OF Suc.prems(2)] pb_field_iter_next_at [OF wf Suc.prems(2)]
      by (cases "z i") (simp_all add: d split)
  next
    case False
    then show ?thesis using j(1) z [OF Suc.prems(2)] pb_field_iter_next_at [OF wf Suc.prems(2)]
      by (cases "z i") (auto simp add: d split)
  qed
qed simp

lemma fields_absentD:
  assumes "fields_absent zero fs src = Some b"
  shows "wf_fields fs" "src \<noteq> 0" "\<And>i. i < nfields fs \<Longrightarrow> zero (fs ! i) (data_at fs src i) \<noteq> None"
    "b = (\<forall>i<nfields fs. zero (fs ! i) (data_at fs src i) = Some True)"
proof -
  let ?answers = "map (\<lambda>i. zero (fs ! i) (data_at fs src i)) [0..<nfields fs]"
  have n: "wf_fields fs \<and> src \<noteq> 0 \<and> None \<notin> set ?answers" "b = (\<forall>r\<in>set ?answers. r = Some True)"
    using assms by (simp_all only: fields_absent_def Let_def split: if_split_asm) simp_all
  have "zero (fs ! i) (data_at fs src i) \<in> set ?answers" if "i < nfields fs" for i using that by simp
  then show "\<And>i. i < nfields fs \<Longrightarrow> zero (fs ! i) (data_at fs src i) \<noteq> None" using n(1) by metis
  show "wf_fields fs" "src \<noteq> 0" using n(1) by blast+
  show "b = (\<forall>i<nfields fs. zero (fs ! i) (data_at fs src i) = Some True)" using n(2) by auto
qed

lemma fields_default_absent:
  assumes "\<And>f a b. zero f a = Some b \<Longrightarrow> check f a = Some b" "fields_absent zero fs src = Some b"
  shows "fields_default check fs src = Some b"
proof -
  let ?z = "\<lambda>i. the (zero (fs ! i) (data_at fs src i))"
  have wf: "wf_fields fs" "src \<noteq> 0" and s: "\<And>i. i < nfields fs \<Longrightarrow> zero (fs ! i) (data_at fs src i) \<noteq> None"
    and b: "b = (\<forall>i<nfields fs. zero (fs ! i) (data_at fs src i) = Some True)"
    using fields_absentD [OF assms(2)] by blast+
  have z: "check (fs ! i) (data_at fs src i) = Some (?z i)" if "i < nfields fs" for i
    using s [OF that] assms(1) by auto
  have b': "b = (\<forall>i<nfields fs. ?z i)" unfolding b using s by fastforce
  show ?thesis
  proof (cases "nfields fs = 0")
    case True
    then show ?thesis using b' by (simp add: fields_default_def pb_field_iter_begin_at [OF wf])
  next
    case False
    have "nfields fs \<le> length fs" by (simp add: nfields_def)
    with default_loop_absent [where check = check and z = ?z, OF wf z, of _ 0 "length fs"] False b'
    show ?thesis by (simp add: fields_default_def pb_field_iter_begin_at [OF wf])
  qed
qed

lemma check_field_absent: "field_absent n w f a = Some b \<Longrightarrow> pb_check_proto3_default_value n w f a = Some b"
proof (induction n arbitrary: f a b)
  case 0
  then show ?case using check_default_absent [of "\<lambda>_ _. None" "\<lambda>_ _. None"] by simp
next
  case (Suc n)
  then show ?case using check_default_absent [OF fields_default_absent [OF Suc.IH]] by simp
qed

lemma array_loop_writer:
  assumes "\<And>p b. value p = Some b \<Longrightarrow> pb_writer (f p) b"
  shows "entries value d n p = Some bs \<Longrightarrow> pb_writer (array_loop f d n p) bs"
proof (induction n arbitrary: p bs)
  case 0
  have "array_loop f d 0 p = Pair True" by (simp add: fun_eq_iff)
  then show ?case using 0 pb_writer_nop by simp
next
  case (Suc n)
  then obtain a b where ab: "value p = Some a" "entries value d n (p + d) = Some b" "bs = a @ b" by (auto dest: app2_SomeD)
  show ?case unfolding ab(3) by (rule pb_writer_seq [OF assms [OF ab(1)] Suc.IH [OF ab(2)]]) simp
qed

lemma load_uint_less: "load_uint d p < 256 ^ d"
  using be_value_less [of "rev (load_bytes d p)"] by (simp add: load_uint_def)

lemma be_bytes_load: "rev (be_bytes d (load_uint d p)) = load_bytes d p"
  using be_bytes_be_value [of "rev (load_bytes d p)"] by (simp add: load_uint_def)

lemma enc_string_loop_le: "k \<le> limit \<Longrightarrow> enc_string_loop p limit k \<le> limit"
proof (induction p limit k rule: enc_string_loop.induct)
  case (1 p limit k)
  then show ?case by (subst enc_string_loop.simps) auto
qed

lemma pb_writer_load: "n < SIZE_MOD \<Longrightarrow> pb_writer (\<lambda>s. pb_encode_string s (load_bytes n p) n) (varint n @ load_bytes n p)"
  using pb_writer_string [of "load_bytes n p"] by simp

lemma pb_writer_null: "pb_writer (\<lambda>s. pb_encode_string s [] 0) (varint 0)"
  using pb_writer_string [of "[]"] by (simp add: SIZE_MOD_def)

lemma uvarint_writer:
  assumes "int_size field"
  shows "pb_writer (\<lambda>s. pb_encode_varint s (of_nat (load_uint (bytes_of field) p))) (varint (load_uint (bytes_of field) p))"
proof -
  have "load_uint (bytes_of field) p < 256 ^ bytes_of field" by (rule load_uint_less)
  also have "\<dots> \<le> 256 ^ 8" using int_size_cases [OF assms] by (intro power_increasing) simp_all
  finally have "unat (of_nat (load_uint (bytes_of field) p) :: u64) = load_uint (bytes_of field) p"
    by (simp add: unat_of_nat take_bit_nat_eq_self)
  then show ?thesis using wr_varint.pb_writer_axioms [of "of_nat (load_uint (bytes_of field) p)"] by simp
qed

lemma fixed_writers: "pb_writer (\<lambda>s. pb_enc_fixed32 s field p) (load_bytes 4 p)" "pb_writer (\<lambda>s. pb_enc_fixed64 s field p) (load_bytes 8 p)"
proof -
  have "unat (of_nat (load_uint 4 p) :: u32) = load_uint 4 p" "unat (of_nat (load_uint 8 p) :: u64) = load_uint 8 p"
    using load_uint_less [of 4 p] load_uint_less [of 8 p] by (simp_all add: unat_of_nat take_bit_nat_eq_self)
  then show "pb_writer (\<lambda>s. pb_enc_fixed32 s field p) (load_bytes 4 p)" "pb_writer (\<lambda>s. pb_enc_fixed64 s field p) (load_bytes 8 p)"
    using wr_fixed32.pb_writer_axioms [of "of_nat (load_uint 4 p)"] wr_fixed64.pb_writer_axioms [of "of_nat (load_uint 8 p)"]
    by (simp_all add: pb_enc_fixed32_def pb_enc_fixed64_def be_bytes_load)
qed

lemma enc_bytes_writer:
  assumes "PB_ATYPE (fld_type field) = PB_ATYPE_STATIC \<Longrightarrow> load_uint 4 p + 4 \<le> bytes_of field"
  shows "pb_writer (\<lambda>s. pb_enc_bytes s field (Some p)) (varint (load_uint 4 p) @ load_bytes (load_uint 4 p) (\<lambda>i. p (4 + i)))"
proof -
  have "bytes_of field < SIZE_MOD" using u32_nat_bound [of "data_size field"] by simp
  then have "\<not> (PB_ATYPE (fld_type field) = PB_ATYPE_STATIC \<and> load_uint 4 p > (bytes_of field + SIZE_MOD - 4) mod SIZE_MOD)"
    using assms by (auto simp: le_mod_geq)
  then have "pb_enc_bytes s field (Some p) = pb_encode_string s (load_bytes (load_uint 4 p) (\<lambda>i. p (4 + i))) (load_uint 4 p)" for s
    by (auto simp: pb_enc_bytes_def)
  then show ?thesis using pb_writer_load [of "load_uint 4 p"] load_uint_less [of 4 p] by (simp add: SIZE_MOD_def)
qed

lemma enc_string_writer:
  assumes "limit = (if PB_ATYPE (fld_type field) = PB_ATYPE_POINTER then SIZE_MOD - 1 else bytes_of field)"
  shows "pb_writer (\<lambda>s. pb_enc_string s field (Some p)) (varint (string_length p limit) @ load_bytes (string_length p limit) p)"
proof -
  have "limit < SIZE_MOD" using assms u32_nat_bound [of "data_size field"] by (simp add: SIZE_MOD_def)
  then have "string_length p limit < SIZE_MOD" using enc_string_loop_le [of 0 limit p] string_length_loop [of 0 limit p] by simp
  from pb_writer_load [OF this] show ?thesis by (simp add: pb_enc_string_def Let_def assms string_length_loop)
qed

lemmas ltypes = PB_LTYPE_BOOL_def PB_LTYPE_VARINT_def PB_LTYPE_UVARINT_def PB_LTYPE_SVARINT_def PB_LTYPE_FIXED32_def
  PB_LTYPE_FIXED64_def PB_LTYPE_BYTES_def PB_LTYPE_STRING_def PB_LTYPE_SUBMESSAGE_def PB_LTYPE_FIXED_LENGTH_BYTES_def

lemma integer_writers:
  assumes "int_size field"
  shows "pb_writer (\<lambda>s. pb_enc_varint s field p) (varint (unat (of_int (load_int (bytes_of field) p) :: u64)))"
    "pb_writer (\<lambda>s. pb_enc_uvarint s field p) (varint (load_uint (bytes_of field) p))"
    "pb_writer (\<lambda>s. pb_enc_svarint s field p) (varint (unat (zigzag (of_int (load_int (bytes_of field) p)))))"
proof -
  have e: "pb_enc_varint s field p = pb_encode_varint s (of_int (load_int (bytes_of field) p))"
    "pb_enc_uvarint s field p = pb_encode_varint s (of_nat (load_uint (bytes_of field) p))"
    "pb_enc_svarint s field p = pb_encode_svarint s (of_int (load_int (bytes_of field) p))" for s
    using assms by (auto simp: pb_enc_varint_def pb_enc_uvarint_def pb_enc_svarint_def)
  show "pb_writer (\<lambda>s. pb_enc_varint s field p) (varint (unat (of_int (load_int (bytes_of field) p) :: u64)))"
    unfolding e by (rule wr_varint.pb_writer_axioms)
  show "pb_writer (\<lambda>s. pb_enc_uvarint s field p) (varint (load_uint (bytes_of field) p))"
    unfolding e by (rule uvarint_writer [OF assms])
  show "pb_writer (\<lambda>s. pb_enc_svarint s field p) (varint (unat (zigzag (of_int (load_int (bytes_of field) p)))))"
    unfolding e using co_svarint.put_writes by simp
qed

lemma encoder_by_type:
  "PB_LTYPE (fld_type field) = PB_LTYPE_BOOL \<Longrightarrow> PB_ENCODERS encode w field src = (\<lambda>s. pb_enc_bool s field (at w src))"
  "PB_LTYPE (fld_type field) = PB_LTYPE_VARINT \<Longrightarrow> PB_ENCODERS encode w field src = (\<lambda>s. pb_enc_varint s field (at w src))"
  "PB_LTYPE (fld_type field) = PB_LTYPE_UVARINT \<Longrightarrow> PB_ENCODERS encode w field src = (\<lambda>s. pb_enc_uvarint s field (at w src))"
  "PB_LTYPE (fld_type field) = PB_LTYPE_SVARINT \<Longrightarrow> PB_ENCODERS encode w field src = (\<lambda>s. pb_enc_svarint s field (at w src))"
  "PB_LTYPE (fld_type field) = PB_LTYPE_FIXED32 \<Longrightarrow> PB_ENCODERS encode w field src = (\<lambda>s. pb_enc_fixed32 s field (at w src))"
  "PB_LTYPE (fld_type field) = PB_LTYPE_FIXED64 \<Longrightarrow> PB_ENCODERS encode w field src = (\<lambda>s. pb_enc_fixed64 s field (at w src))"
  "PB_LTYPE (fld_type field) = PB_LTYPE_BYTES \<Longrightarrow> PB_ENCODERS encode w field src = (\<lambda>s. pb_enc_bytes s field (nullable_at w src))"
  "PB_LTYPE (fld_type field) = PB_LTYPE_STRING \<Longrightarrow> PB_ENCODERS encode w field src = (\<lambda>s. pb_enc_string s field (nullable_at w src))"
  "PB_LTYPE (fld_type field) = PB_LTYPE_SUBMESSAGE \<Longrightarrow> PB_ENCODERS encode w field src = (\<lambda>s. pb_enc_submessage encode w s field src)"
  "PB_LTYPE (fld_type field) = PB_LTYPE_FIXED_LENGTH_BYTES \<Longrightarrow>
     PB_ENCODERS encode w field src = (\<lambda>s. pb_enc_fixed_length_bytes s field (at w src))"
  by (simp_all add: fun_eq_iff PB_ENCODERS_def Let_def ltypes)

lemma value_writer:
  assumes sub: "\<And>fs a bs. sub fs a = Some bs \<Longrightarrow> pb_writer (encode fs a) bs"
    and v: "value_bytes sub w field src = Some bs"
  shows "pb_writer (PB_ENCODERS encode w field src) bs"
proof -
  let ?t = "PB_LTYPE (fld_type field)"
  have nz: "src \<noteq> 0 \<Longrightarrow> nullable_at w src = Some (at w src)" "src = 0 \<Longrightarrow> nullable_at w src = None" by (simp_all add: nullable_at_def)
  consider "?t = PB_LTYPE_BOOL" | "?t = PB_LTYPE_VARINT" | "?t = PB_LTYPE_UVARINT" | "?t = PB_LTYPE_SVARINT" | "?t = PB_LTYPE_FIXED32"
    | "?t = PB_LTYPE_FIXED64" | "?t = PB_LTYPE_BYTES" | "?t = PB_LTYPE_STRING" | "?t = PB_LTYPE_SUBMESSAGE" | "?t = PB_LTYPE_FIXED_LENGTH_BYTES"
    using v by (auto simp: value_bytes_def Let_def split: if_splits)
  then show ?thesis
  proof cases
    case 1
    have "pb_writer (\<lambda>s. pb_encode_varint s (if b then 1 else 0)) (varint (if b then 1 else 0))" for b
      using wr_varint.pb_writer_axioms [of "if b then 1 else 0"] by (cases b) simp_all
    moreover have "bs = varint (if flag_set (at w src) then 1 else 0)" using v 1 by (simp add: value_bytes_def Let_def)
    ultimately show ?thesis unfolding encoder_by_type(1) [OF 1] pb_enc_bool_def by simp
  next
    case 2
    then have "int_size field" "bs = varint (unat (of_int (load_int (bytes_of field) (at w src)) :: u64))"
      using v by (simp_all add: value_bytes_def Let_def ltypes split: if_split_asm)
    then show ?thesis unfolding encoder_by_type(2) [OF 2] by (simp only: integer_writers)
  next
    case 3
    then have "int_size field" "bs = varint (load_uint (bytes_of field) (at w src))"
      using v by (simp_all add: value_bytes_def Let_def ltypes split: if_split_asm)
    then show ?thesis unfolding encoder_by_type(3) [OF 3] by (simp only: integer_writers)
  next
    case 4
    then have "int_size field" "bs = varint (unat (zigzag (of_int (load_int (bytes_of field) (at w src)))))"
      using v by (simp_all add: value_bytes_def Let_def ltypes split: if_split_asm)
    then show ?thesis unfolding encoder_by_type(4) [OF 4] by (simp only: integer_writers)
  next
    case 5
    then have "bs = load_bytes 4 (at w src)" using v by (simp add: value_bytes_def Let_def ltypes)
    then show ?thesis unfolding encoder_by_type(5) [OF 5] by (simp only: fixed_writers)
  next
    case 6
    then have "bs = load_bytes 8 (at w src)" using v by (simp add: value_bytes_def Let_def ltypes)
    then show ?thesis unfolding encoder_by_type(6) [OF 6] by (simp only: fixed_writers)
  next
    case 7
    then show ?thesis using v nz enc_bytes_writer [of field "at w src"] pb_writer_null unfolding encoder_by_type(7) [OF 7]
      by (cases "src = 0") (auto simp: value_bytes_def Let_def ltypes pb_enc_bytes_def [of _ _ None] split: if_splits)
  next
    case 8
    then show ?thesis using v nz enc_string_writer [OF refl, of field "at w src"] pb_writer_null unfolding encoder_by_type(8) [OF 8]
      by (cases "src = 0") (auto simp: value_bytes_def Let_def ltypes pb_enc_string_def [of _ _ None])
  next
    case 9
    then obtain b where "fld_ptr field \<noteq> 0" "sub (w_fields w (fld_ptr field)) src = Some b" "length b \<le> PTRDIFF_MAX" "bs = varint (length b) @ b"
      using v by (auto simp: value_bytes_def Let_def ltypes split: if_splits option.splits)
    then show ?thesis using pb_writer_submessage [OF sub] unfolding encoder_by_type(9) [OF 9] by (simp add: pb_enc_submessage_def)
  next
    case 10
    have "bytes_of field < SIZE_MOD" using u32_nat_bound [of "data_size field"] by simp
    then show ?thesis using 10 v pb_writer_load [of "bytes_of field" "at w src"] unfolding encoder_by_type(10) [OF 10]
      by (simp add: value_bytes_def Let_def ltypes pb_enc_fixed_length_bytes_def)
  qed
qed

text \<open>What follows the length: on a stream that only counts, the length itself is counted.\<close>

lemma pb_writer_counted:
  assumes "pb_writer loop bs" "length bs < SIZE_MOD"
  shows "pb_writer (\<lambda>s. if \<not> os_callback s then pb_write s [] (length bs) else loop s) bs"
proof
  fix s assume s: "os_inv s" "os_errmsg s = None"
  show "(if \<not> os_callback s then pb_write s [] (length bs) else loop s) = (True, os_put bs s)" if "os_fits (length bs) s"
    using pb_writer.writes [OF assms(1) s that] by (simp add: pb_write_def os_put_def Let_def)
  show "\<not> fst (if \<not> os_callback s then pb_write s [] (length bs) else loop s) \<and>
      os_bounded s (snd (if \<not> os_callback s then pb_write s [] (length bs) else loop s))" if "\<not> os_fits (length bs) s"
    using pb_writer.refuses [OF assms(1) s that] that by (simp add: os_fits_def)
qed

lemma entries_length: "(\<And>p b. value p = Some b \<Longrightarrow> length b = k) \<Longrightarrow> entries value d n p = Some bs \<Longrightarrow> length bs = k * n"
  by (induction n arbitrary: p bs) (auto dest!: app2_SomeD)

lemma packed_writer:
  assumes "pb_writer loop bs" "length bs \<le> PTRDIFF_MAX"
  shows "pb_writer (\<lambda>s. case pb_encode_tag s PB_WT_STRING num of
      (False, s) \<Rightarrow> (False, s)
    | (True, s) \<Rightarrow> (case pb_encode_varint s (of_nat (length bs)) of
        (False, s) \<Rightarrow> (False, s)
      | (True, s) \<Rightarrow> if \<not> os_callback s then pb_write s [] (length bs) else loop s))
    (varint (tag_number (PB_WT_STRING, num)) @ varint (length bs) @ bs)"
proof -
  have l: "length bs < SIZE_MOD" using assms(2) PTRDIFF_MAX_less by simp
  then have u: "unat (of_nat (length bs) :: u64) = length bs" by (simp add: unat_of_nat take_bit_nat_eq_self SIZE_MOD_def)
  have "pb_writer (\<lambda>s. case pb_encode_varint s (of_nat (length bs)) of
        (False, s) \<Rightarrow> (False, s)
      | (True, s) \<Rightarrow> if \<not> os_callback s then pb_write s [] (length bs) else loop s) (varint (length bs) @ bs)"
    using pb_writer_seq [OF wr_varint.pb_writer_axioms [of "of_nat (length bs)"] pb_writer_counted [OF assms(1) l]] by (simp add: u)
  from pb_writer_seq [OF pb_writer_tag this] show ?thesis by (simp add: PB_WT_STRING_def)
qed

lemma array_writer:
  assumes f: "\<And>p b. value p = Some b \<Longrightarrow> pb_writer (func p) b"
    and fixed: "\<And>p b. value p = Some b \<Longrightarrow> PB_LTYPE (fld_type field) = PB_LTYPE_FIXED32 \<Longrightarrow> length b = 4"
      "\<And>p b. value p = Some b \<Longrightarrow> PB_LTYPE (fld_type field) = PB_LTYPE_FIXED64 \<Longrightarrow> length b = 8"
    and bs: "repeated_bytes w field data n value = Some bs"
  shows "pb_writer (\<lambda>s. encode_array w s field data n func) bs"
proof -
  let ?t = "PB_LTYPE (fld_type field)" and ?d = "uint (data_size field)"
  let ?ptr = "PB_ATYPE (fld_type field) = PB_ATYPE_POINTER"
  show ?thesis
  proof (cases "n = 0")
    case True
    then have "(\<lambda>s. encode_array w s field data n func) = Pair True" "bs = []"
      using bs by (auto simp: fun_eq_iff encode_array_def repeated_bytes_def)
    then show ?thesis using pb_writer_nop by simp
  next
    case nz: False
    have ok: "\<not> (\<not> ?ptr \<and> n > unat (array_size field))" using bs nz by (auto simp: repeated_bytes_def Let_def split: if_splits)
    show ?thesis
    proof (cases "?t \<le> PB_LTYPE_LAST_PACKABLE")
      case True
      then obtain items where items: "entries value ?d n data = Some items" "length items \<le> PTRDIFF_MAX"
          "bs = varint (tag_number (PB_WT_STRING, fld_tag field)) @ varint (length items) @ items"
        using bs nz ok by (auto simp: repeated_bytes_def Let_def split: if_splits option.splits)
      have loop: "pb_writer (array_loop func ?d n data) items" by (rule array_loop_writer [OF f items(1)])
      have l: "length items < SIZE_MOD" using items(2) PTRDIFF_MAX_less by simp
      have "?t = PB_LTYPE_FIXED32 \<Longrightarrow> length items = 4 * n" "?t = PB_LTYPE_FIXED64 \<Longrightarrow> length items = 8 * n"
        using entries_length [OF fixed(1) items(1)] entries_length [OF fixed(2) items(1)] by auto
      then have sz: "?t = PB_LTYPE_FIXED32 \<Longrightarrow> size_mul 4 n = length items" "?t = PB_LTYPE_FIXED64 \<Longrightarrow> size_mul 8 n = length items"
        using l by (simp_all add: size_mul_def)
      obtain ss where ss: "array_loop func ?d n data PB_OSTREAM_SIZING = (True, ss)" "bytes_written ss = length items"
        using pb_writer.writes [OF loop, of PB_OSTREAM_SIZING] l
        by (auto simp: PB_OSTREAM_SIZING_def os_inv_def os_fits_def os_put_def size_add_def)
      have pick: "(if ?t = PB_LTYPE_FIXED32 then W (size_mul 4 n) else if ?t = PB_LTYPE_FIXED64 then W (size_mul 8 n) else W (length items)) =
          W (length items)" for W :: "nat \<Rightarrow> bool \<times> pb_ostream_t"
        using sz by auto
      have "encode_array w s field data n func =
          (case pb_encode_tag s PB_WT_STRING (fld_tag field) of
            (False, s) \<Rightarrow> (False, s)
          | (True, s) \<Rightarrow> (case pb_encode_varint s (of_nat (length items)) of
              (False, s) \<Rightarrow> (False, s)
            | (True, s) \<Rightarrow> if \<not> os_callback s then pb_write s [] (length items) else array_loop func ?d n data s))" for s
        unfolding encode_array_def Let_def ss(1) prod.case bool.case ss(2)
          pick [of "\<lambda>size. case pb_encode_varint s (of_nat size) of (False, s) \<Rightarrow> (False, s)
            | (True, s) \<Rightarrow> if \<not> os_callback s then pb_write s [] size else array_loop func ?d n data s" for s]
        by (simp only: nz ok True if_False if_True)
      then show ?thesis using packed_writer [OF loop items(2), of "fld_tag field"] items(3) by simp
    next
      case False
      let ?v = "\<lambda>p. if ?ptr \<and> (?t = PB_LTYPE_STRING \<or> ?t = PB_LTYPE_BYTES) then load_ptr w p else p"
      have "entries (\<lambda>p. app2 (tag_bytes field) (value (?v p))) ?d n data = Some bs"
        using bs nz ok False by (simp add: repeated_bytes_def Let_def)
      moreover have "pb_writer (\<lambda>s. case pb_encode_tag_for_field s field of (False, s) \<Rightarrow> (False, s) | (True, s) \<Rightarrow> func (?v p) s) b"
        if "app2 (tag_bytes field) (value (?v p)) = Some b" for p b
        using app2_SomeD [OF that] pb_writer_seq [OF pb_writer_tag_for_field f] by fastforce
      ultimately have "pb_writer (array_loop (\<lambda>p s. case pb_encode_tag_for_field s field of (False, s) \<Rightarrow> (False, s)
          | (True, s) \<Rightarrow> func (?v p) s) ?d n data) bs" by (intro array_loop_writer)
      moreover have "encode_array w s field data n func = array_loop (\<lambda>p s. case pb_encode_tag_for_field s field of (False, s) \<Rightarrow> (False, s)
          | (True, s) \<Rightarrow> func (?v p) s) ?d n data s" for s
      proof -
        have v: "func (?v p) s = (if ?ptr \<and> (?t = PB_LTYPE_STRING \<or> ?t = PB_LTYPE_BYTES) then func (load_ptr w p) s else func p s)" for p s
          by auto
        show ?thesis unfolding v encode_array_def Let_def by (simp only: nz ok False if_False)
      qed
      ultimately show ?thesis by simp
    qed
  qed
qed

lemma value_length:
  "value_bytes sub w field p = Some b \<Longrightarrow> PB_LTYPE (fld_type field) = PB_LTYPE_FIXED32 \<Longrightarrow> length b = 4"
  "value_bytes sub w field p = Some b \<Longrightarrow> PB_LTYPE (fld_type field) = PB_LTYPE_FIXED64 \<Longrightarrow> length b = 8"
  by (auto simp: value_bytes_def Let_def ltypes)

text \<open>The code without the check for a zero value, once that has answered.\<close>

lemma encode_basic_field_eq:
  assumes "PB_HTYPE (fld_type field) = PB_HTYPE_OPTIONAL \<Longrightarrow> size_offset field = 0 \<Longrightarrow> check field data = Some zero"
    and "value = (if PB_ATYPE (fld_type field) = PB_ATYPE_POINTER then load_ptr w data else data)"
    and "has = (if size_offset field \<noteq> 0 then flag_set (at w (data + size_offset field))
      else if PB_ATYPE (fld_type field) = PB_ATYPE_POINTER then value \<noteq> 0 else \<not> zero)"
    and "write = (case pb_encode_tag_for_field s field of (False, s) \<Rightarrow> (False, s) | (True, s) \<Rightarrow> PB_ENCODERS encode w field value s)"
  shows "encode_basic_field check encode w s field data =
    (if PB_HTYPE (fld_type field) = PB_HTYPE_REQUIRED then if value = 0 then (False, os_error ''missing required field'' s) else write
     else if PB_HTYPE (fld_type field) = PB_HTYPE_OPTIONAL then if has then write else (True, s)
     else if PB_HTYPE (fld_type field) = PB_HTYPE_REPEATED then
       encode_array w s field value
         (if size_offset field \<noteq> 0 then load_uint 4 (at w (data + size_offset field)) else unat (array_size field)) (PB_ENCODERS encode w field)
     else if PB_HTYPE (fld_type field) = PB_HTYPE_ONEOF then
       if load_uint 4 (at w (data + size_offset field)) = unat (fld_tag field) then write else (True, s)
     else (False, os_error ''invalid field type'' s))"
proof -
  have "(if size_offset field \<noteq> 0 then Some True
      else if PB_HTYPE (fld_type field) = PB_HTYPE_OPTIONAL then map_option Not (check field data) else Some True) =
    Some (size_offset field \<noteq> 0 \<or> PB_HTYPE (fld_type field) \<noteq> PB_HTYPE_OPTIONAL \<or> \<not> zero)"
    using assms(1) by auto
  then show ?thesis
    unfolding encode_basic_field_def Let_def assms(2-4) option.case by (simp only: option.case) auto
qed

lemma optional_writer:
  "(if c then x else Some []) = Some bs \<Longrightarrow> (\<And>b. x = Some b \<Longrightarrow> pb_writer f b) \<Longrightarrow> pb_writer (\<lambda>s. if c then f s else (True, s)) bs"
  using pb_writer_nop by (cases c) auto

lemma basic_field_writer:
  assumes sub: "\<And>fs a bs. sub fs a = Some bs \<Longrightarrow> pb_writer (encode fs a) bs"
    and bs: "basic_field_bytes check sub w field data = Some bs"
  shows "pb_writer (\<lambda>s. encode_basic_field check encode w s field data) bs"
proof -
  let ?h = "PB_HTYPE (fld_type field)" and ?ptr = "PB_ATYPE (fld_type field) = PB_ATYPE_POINTER"
  let ?val = "if ?ptr then load_ptr w data else data" and ?size = "data + size_offset field"
  let ?func = "PB_ENCODERS encode w field"
  let ?wr = "\<lambda>s. case pb_encode_tag_for_field s field of (False, s) \<Rightarrow> (False, s) | (True, s) \<Rightarrow> ?func ?val s"
  have one: "pb_writer ?wr b" if b: "app2 (tag_bytes field) (value_bytes sub w field ?val) = Some b" for b
  proof -
    obtain x y where xy: "tag_bytes field = Some x" "value_bytes sub w field ?val = Some y" "b = x @ y"
      using app2_SomeD [OF b] by blast
    show ?thesis unfolding xy(3) by (rule pb_writer_seq [OF pb_writer_tag_for_field [OF xy(1)] value_writer [OF sub xy(2)]]) simp_all
  qed
  have arr: "pb_writer (\<lambda>s. encode_array w s field v n ?func) bs" if "repeated_bytes w field v n (value_bytes sub w field) = Some bs" for v n
    by (rule array_writer [OF value_writer [OF sub] value_length that])
  have h: "PB_HTYPE_REQUIRED \<noteq> PB_HTYPE_OPTIONAL" "PB_HTYPE_REPEATED \<noteq> PB_HTYPE_OPTIONAL" "PB_HTYPE_ONEOF \<noteq> PB_HTYPE_OPTIONAL"
      "PB_HTYPE_REPEATED \<noteq> PB_HTYPE_REQUIRED" "PB_HTYPE_ONEOF \<noteq> PB_HTYPE_REQUIRED" "PB_HTYPE_ONEOF \<noteq> PB_HTYPE_REPEATED"
    by (simp_all add: PB_HTYPE_REQUIRED_def PB_HTYPE_OPTIONAL_def PB_HTYPE_REPEATED_def PB_HTYPE_ONEOF_def)
  consider "?h = PB_HTYPE_REQUIRED" | "?h = PB_HTYPE_OPTIONAL" | "?h = PB_HTYPE_REPEATED" | "?h = PB_HTYPE_ONEOF"
    using bs by (auto simp: basic_field_bytes_def Let_def split: if_splits)
  then show ?thesis
  proof cases
    case 1
    then have "?val \<noteq> 0" "app2 (tag_bytes field) (value_bytes sub w field ?val) = Some bs"
      using bs by (simp_all add: basic_field_bytes_def Let_def split: if_split_asm)
    moreover from this(1) have "encode_basic_field check encode w s field data = ?wr s" for s
      by (subst encode_basic_field_eq [OF _ refl refl refl]) (use 1 h in \<open>simp_all only: if_True if_False simp_thms\<close>)
    ultimately show ?thesis using one by simp
  next
    case 2
    have "size_offset field = 0 \<longrightarrow> (\<exists>zero. check field data = Some zero)"
      using bs 2 h by (cases "check field data"; cases "size_offset field = 0") (simp_all add: basic_field_bytes_def Let_def)
    then obtain zero where zero: "size_offset field = 0 \<Longrightarrow> check field data = Some zero" by blast
    let ?has = "if size_offset field \<noteq> 0 then flag_set (at w ?size) else if ?ptr then ?val \<noteq> 0 else \<not> zero"
    have b: "(if ?has then app2 (tag_bytes field) (value_bytes sub w field ?val) else Some []) = Some bs"
      using bs 2 h zero by (cases "size_offset field = 0") (simp_all add: basic_field_bytes_def Let_def split del: if_split)
    have "encode_basic_field check encode w s field data = (if ?has then ?wr s else (True, s))" for s
      by (subst encode_basic_field_eq [where zero = zero, OF _ refl refl refl]) (use 2 h h [THEN not_sym] zero in \<open>simp_all only: if_True if_False simp_thms\<close>)
    then show ?thesis using optional_writer [OF b one] by (simp only:)
  next
    case 3
    then have "repeated_bytes w field ?val (if size_offset field \<noteq> 0 then load_uint 4 (at w ?size) else unat (array_size field))
        (value_bytes sub w field) = Some bs"
      using bs h by (simp add: basic_field_bytes_def Let_def split del: if_split)
    moreover have "encode_basic_field check encode w s field data = encode_array w s field ?val
        (if size_offset field \<noteq> 0 then load_uint 4 (at w ?size) else unat (array_size field)) ?func" for s
      by (subst encode_basic_field_eq [OF _ refl refl refl]) (use 3 h in \<open>simp_all only: if_True if_False simp_thms\<close>)
    ultimately show ?thesis using arr by (simp only:)
  next
    case 4
    have "encode_basic_field check encode w s field data = (if load_uint 4 (at w ?size) = unat (fld_tag field) then ?wr s else (True, s))" for s
      by (subst encode_basic_field_eq [OF _ refl refl refl]) (use 4 h in \<open>simp_all only: if_True if_False simp_thms\<close>)
    moreover have "(if load_uint 4 (at w ?size) = unat (fld_tag field) then app2 (tag_bytes field) (value_bytes sub w field ?val)
        else Some []) = Some bs"
      using bs 4 h by (simp add: basic_field_bytes_def Let_def split del: if_split)
    ultimately show ?thesis using optional_writer [OF _ one] by (simp only:)
  qed
qed

text \<open>
  What is asked of the application: a callback or an extension encoder writes the same bytes each
  time it is called on a stream, as \<open>pb_encode_submessage\<close> requires.
\<close>

definition app_law :: "app_writes \<Rightarrow> pb_world \<Rightarrow> bool" where
  "app_law app w \<longleftrightarrow>
     (\<forall>field data enc bs. w_callback w field data = Some enc \<and> app_bytes app field data = Some bs \<longrightarrow> pb_writer enc bs) \<and>
     (\<forall>ext enc bs. w_ext_encode w (load_ptr w ext) = Some enc \<and> ext_bytes app ext = Some bs \<longrightarrow> pb_writer (enc ext) bs)"

lemma pb_writer_error:
  assumes "pb_writer f bs"
  shows "pb_writer (\<lambda>s. case f s of (False, s) \<Rightarrow> (False, os_error m s) | (True, s) \<Rightarrow> (True, s)) bs"
proof
  fix s assume s: "os_inv s" "os_errmsg s = None"
  show "(case f s of (False, s) \<Rightarrow> (False, os_error m s) | (True, s) \<Rightarrow> (True, s)) = (True, os_put bs s)" if "os_fits (length bs) s"
    using pb_writer.writes [OF assms s that] by simp
  show "\<not> fst (case f s of (False, s) \<Rightarrow> (False, os_error m s) | (True, s) \<Rightarrow> (True, s)) \<and>
      os_bounded s (snd (case f s of (False, s) \<Rightarrow> (False, os_error m s) | (True, s) \<Rightarrow> (True, s)))" if "\<not> os_fits (length bs) s"
    using pb_writer.refuses [OF assms s that] by (cases "f s") (simp split: bool.splits)
qed

lemma any_field_writer:
  assumes sub: "\<And>fs a bs. sub fs a = Some bs \<Longrightarrow> pb_writer (encode fs a) bs" and app: "app_law app w"
    and bs: "any_field_bytes app check sub w field data = Some bs"
  shows "pb_writer (\<lambda>s. encode_field check encode w s field data) bs"
proof -
  let ?a = "PB_ATYPE (fld_type field)"
  have nop: "pb_writer (\<lambda>s. (True, s)) []" using pb_writer_nop by (simp add: Pair_def [symmetric])
  show ?thesis
  proof (cases "?a = PB_ATYPE_STATIC \<or> ?a = PB_ATYPE_POINTER")
    case True
    then show ?thesis using basic_field_writer [OF sub] bs by (auto simp: encode_field_def any_field_bytes_def Let_def)
  next
    case False
    then have cb: "?a = PB_ATYPE_CALLBACK" "(if w_callback w field data = None then Some [] else app_bytes app field data) = Some bs"
      using bs by (auto simp: any_field_bytes_def Let_def split: if_split_asm)
    then have "encode_field check encode w s field data = encode_callback_field w s field data" for s
      using False by (simp add: encode_field_def Let_def)
    moreover have "pb_writer (\<lambda>s. encode_callback_field w s field data) bs"
    proof (cases "w_callback w field data")
      case None
      then show ?thesis using cb(2) nop by (simp add: encode_callback_field_def)
    next
      case (Some enc)
      then have "pb_writer enc bs" using app cb(2) by (simp add: app_law_def)
      from pb_writer_error [OF this] show ?thesis using Some by (simp add: encode_callback_field_def)
    qed
    ultimately show ?thesis by simp
  qed
qed

lemma extension_writer:
  assumes sub: "\<And>fs a bs. sub fs a = Some bs \<Longrightarrow> pb_writer (encode fs a) bs" and app: "app_law app w"
  shows "extension_bytes app check sub w k ext = Some bs \<Longrightarrow> pb_writer (extension_loop check encode w k ext) bs"
proof (induction k arbitrary: ext bs)
  case (Suc k)
  show ?case
  proof (cases "ext = 0")
    case True
    then have "extension_loop check encode w (Suc k) ext = Pair True" "bs = []" using Suc.prems by (auto simp: fun_eq_iff)
    then show ?thesis using pb_writer_nop by simp
  next
    case False
    let ?field = "w_ext_field w (load_ptr w ext)"
    let ?one = "if w_ext_encode w (load_ptr w ext) \<noteq> None then ext_bytes app ext
      else any_field_bytes app check sub w ?field
        (if PB_ATYPE (fld_type ?field) = PB_ATYPE_POINTER then ext + 8 else load_ptr w (ext + 8))"
    let ?run = "\<lambda>s. case w_ext_encode w (load_ptr w ext) of Some enc \<Rightarrow> enc ext s | None \<Rightarrow> default_extension_encoder check encode w s ext"
    have "app2 ?one (extension_bytes app check sub w k (load_ptr w (ext + 16))) = Some bs"
      using Suc.prems False unfolding extension_bytes.simps Let_def by (simp only: if_False)
    then obtain x y where xy: "?one = Some x" "extension_bytes app check sub w k (load_ptr w (ext + 16)) = Some y" "bs = x @ y"
      by (blast dest: app2_SomeD)
    have "pb_writer ?run x"
    proof (cases "w_ext_encode w (load_ptr w ext)")
      case None
      have "default_extension_encoder check encode w s ext = encode_field check encode w s ?field
          (if PB_ATYPE (fld_type ?field) = PB_ATYPE_POINTER then ext + 8 else load_ptr w (ext + 8))" for s
        by (simp add: default_extension_encoder_def Let_def)
      then show ?thesis using None xy(1) any_field_writer [OF sub app] by (simp split del: if_split)
    next
      case (Some enc)
      then show ?thesis using xy(1) app by (simp add: app_law_def)
    qed
    show ?thesis unfolding xy(3) by (rule pb_writer_seq [OF \<open>pb_writer ?run x\<close> Suc.IH [OF xy(2)]]) (simp add: False)
  qed
qed simp

lemma encode_loop_writer:
  assumes wf: "wf_fields fs" "src \<noteq> 0"
    and f: "\<And>i b. i < nfields fs \<Longrightarrow> bytes i = Some b \<Longrightarrow> pb_writer (f (fs ! i) (data_at fs src i)) b"
  shows "k = nfields fs - i \<Longrightarrow> i < nfields fs \<Longrightarrow> concat_upto bytes i k = Some bs \<Longrightarrow> k \<le> j \<Longrightarrow> pb_writer (encode_loop f j (iter_at fs src i)) bs"
proof (induction k arbitrary: i j bs)
  case (Suc k)
  obtain j' where j: "j = Suc j'" using Suc.prems(4) by (cases j) auto
  obtain x y where xy: "bytes i = Some x" "concat_upto bytes (Suc i) k = Some y" "bs = x @ y"
    using Suc.prems(3) by (auto dest: app2_SomeD)
  have d: "pData (iter_at fs src i) = data_at fs src i" by (simp add: iter_at_def)
  have rest: "pb_writer (\<lambda>s. case pb_field_iter_next (iter_at fs src i) of (True, iter) \<Rightarrow> encode_loop f j' iter s | (False, _) \<Rightarrow> (True, s)) y"
  proof (cases "Suc i < nfields fs")
    case True
    then show ?thesis using Suc.IH [OF _ True xy(2), of j'] Suc.prems(1,4) j pb_field_iter_next_at [OF wf Suc.prems(2)] by simp
  next
    case False
    then have "k = 0" using Suc.prems(1,2) by linarith
    then have "y = []" using xy(2) by simp
    then show ?thesis using False pb_field_iter_next_at [OF wf Suc.prems(2)] pb_writer_nop by (simp add: Pair_def [symmetric])
  qed
  show ?case unfolding xy(3) j by (rule pb_writer_seq [OF f [OF Suc.prems(2) xy(1)] rest]) (simp add: d)
qed simp

text \<open>The bytes of a field, once determined, stay the same when more is known about absent fields and
  submessages or a longer chain of extensions is followed.\<close>

lemma app2_mono:
  "app2 x y = Some z \<Longrightarrow> (\<And>a. x = Some a \<Longrightarrow> x' = Some a) \<Longrightarrow> (\<And>b. y = Some b \<Longrightarrow> y' = Some b) \<Longrightarrow> app2 x' y' = Some z"
  by (cases x; cases y) (simp_all add: app2_def)

lemma entries_mono:
  assumes "\<And>p b. f p = Some b \<Longrightarrow> g p = Some b"
  shows "entries f d n p = Some bs \<Longrightarrow> entries g d n p = Some bs"
  by (induction n arbitrary: p bs) (auto elim!: app2_mono intro: assms)

lemma value_bytes_mono:
  assumes "\<And>fs a bs. sub fs a = Some bs \<Longrightarrow> sub' fs a = Some bs" "value_bytes sub w field p = Some b"
  shows "value_bytes sub' w field p = Some b"
proof (cases "PB_LTYPE (fld_type field) = PB_LTYPE_SUBMESSAGE")
  case True
  then obtain x where "sub (w_fields w (fld_ptr field)) p = Some x"
    using assms(2) by (auto simp: value_bytes_def Let_def ltypes split: if_splits option.splits)
  with assms(1) [OF this] assms(2) True show ?thesis by (auto simp: value_bytes_def Let_def ltypes split: if_splits)
next
  case False
  then have "value_bytes sub' w field p = value_bytes sub w field p" unfolding value_bytes_def Let_def by (simp only: if_False)
  with assms(2) show ?thesis by simp
qed

lemma repeated_bytes_mono:
  assumes "\<And>p b. value p = Some b \<Longrightarrow> value' p = Some b" "repeated_bytes w field data n value = Some bs"
  shows "repeated_bytes w field data n value' = Some bs"
proof (cases "PB_LTYPE (fld_type field) \<le> PB_LTYPE_LAST_PACKABLE")
  case True
  show ?thesis
  proof (cases "entries value (uint (data_size field)) n data")
    case None
    then show ?thesis using assms(2) True by (simp add: repeated_bytes_def Let_def split: if_splits)
  next
    case (Some x)
    with entries_mono [OF assms(1) Some] assms(2) True show ?thesis by (auto simp: repeated_bytes_def Let_def split: if_splits)
  qed
next
  case False
  show ?thesis using assms(2) False unfolding repeated_bytes_def Let_def
    by (simp split: if_split_asm del: not_less) (auto elim!: entries_mono [rotated] app2_mono intro: assms(1))
qed

lemma basic_field_bytes_mono:
  assumes "\<And>f a b. zero f a = Some b \<Longrightarrow> zero' f a = Some b" "\<And>fs a bs. sub fs a = Some bs \<Longrightarrow> sub' fs a = Some bs"
    "basic_field_bytes zero sub w field data = Some bs"
  shows "basic_field_bytes zero' sub' w field data = Some bs"
proof -
  let ?val = "if PB_ATYPE (fld_type field) = PB_ATYPE_POINTER then load_ptr w data else data"
  have one: "app2 (tag_bytes field) (value_bytes sub w field ?val) = Some b \<Longrightarrow>
      app2 (tag_bytes field) (value_bytes sub' w field ?val) = Some b" for b
    by (elim app2_mono) (auto intro: value_bytes_mono [OF assms(2)])
  have rep: "repeated_bytes w field v n (value_bytes sub w field) = Some b \<Longrightarrow> repeated_bytes w field v n (value_bytes sub' w field) = Some b" for v n b
    by (erule repeated_bytes_mono [rotated]) (rule value_bytes_mono [OF assms(2)])
  have opt: "(case zero field data of None \<Rightarrow> None | Some z \<Rightarrow> if P z then x else Some []) = Some b \<Longrightarrow> (x = Some b \<Longrightarrow> y = Some b) \<Longrightarrow>
      (case zero' field data of None \<Rightarrow> None | Some z \<Rightarrow> if P z then y else Some []) = Some b" for P x y b
    using assms(1) [of field data] by (cases "zero field data") auto
  show ?thesis using assms(3) unfolding basic_field_bytes_def Let_def
    by (simp only: split: if_split_asm) (use one rep opt [OF _ one] in \<open>simp_all only: if_True if_False simp_thms\<close>)
qed

lemma any_field_bytes_mono:
  assumes "\<And>f a b. zero f a = Some b \<Longrightarrow> zero' f a = Some b" "\<And>fs a bs. sub fs a = Some bs \<Longrightarrow> sub' fs a = Some bs"
    "any_field_bytes app zero sub w field data = Some bs"
  shows "any_field_bytes app zero' sub' w field data = Some bs"
  using assms(3) basic_field_bytes_mono [OF assms(1,2)] by (auto simp: any_field_bytes_def Let_def split: if_splits)

lemma extension_bytes_mono:
  assumes "\<And>f a b. zero f a = Some b \<Longrightarrow> zero' f a = Some b" "\<And>fs a bs. sub fs a = Some bs \<Longrightarrow> sub' fs a = Some bs"
  shows "extension_bytes app zero sub w k ext = Some bs \<Longrightarrow> k \<le> j \<Longrightarrow> extension_bytes app zero' sub' w j ext = Some bs"
proof (induction k arbitrary: ext bs j)
  case (Suc k)
  obtain j' where j: "j = Suc j'" "k \<le> j'" using Suc.prems(2) by (cases j) auto
  show ?case
  proof (cases "ext = 0")
    case True
    then show ?thesis using Suc.prems(1) j by simp
  next
    case False
    show ?thesis using Suc.prems(1) False Suc.IH [OF _ j(2)] any_field_bytes_mono [OF assms]
      unfolding j(1) extension_bytes.simps(2) [of _ _ _ _ k] extension_bytes.simps(2) [of _ _ _ _ j'] Let_def
      by (simp only: if_False) (erule app2_mono; simp split: if_splits)
  qed
qed simp

lemma concat_upto_mono:
  assumes "\<And>i b. f i = Some b \<Longrightarrow> g i = Some b"
  shows "concat_upto f i k = Some bs \<Longrightarrow> concat_upto g i k = Some bs"
  by (induction k arbitrary: i bs) (auto elim!: app2_mono intro: assms)

lemma fields_bytes_mono:
  assumes "\<And>f a b. zero f a = Some b \<Longrightarrow> zero' f a = Some b" "\<And>fs a bs. sub fs a = Some bs \<Longrightarrow> sub' fs a = Some bs"
    "fields_bytes app zero sub w k fs src = Some bs" "k \<le> j"
  shows "fields_bytes app zero' sub' w j fs src = Some bs"
proof -
  have wf: "\<not> (\<not> wf_fields fs \<or> src = 0)" using assms(3) by (auto simp: fields_bytes_def split: if_split_asm)
  show ?thesis using assms(3) unfolding fields_bytes_def Let_def if_not_P [OF wf]
    by (rule concat_upto_mono [rotated])
      (auto split: if_split_asm simp del: extension_bytes.simps intro: extension_bytes_mono [OF assms(1,2) _ assms(4)] any_field_bytes_mono [OF assms(1,2)])
qed

text \<open>\<open>pb_encode\<close> writes the bytes the message stands for.\<close>

lemma pb_encode_writer:
  assumes app: "app_law app w"
  shows "message_bytes n app w fs src = Some bs \<Longrightarrow> pb_writer (pb_encode n w fs src) bs"
proof (induction n arbitrary: fs src bs)
  case (Suc n)
  let ?check = "pb_check_proto3_default_value n w" and ?encode = "pb_encode n w" and ?sub = "message_bytes n app w"
  let ?f = "\<lambda>field data s. if PB_LTYPE (fld_type field) = PB_LTYPE_EXTENSION
    then encode_extension_field ?check ?encode w (Suc n) s data else encode_field ?check ?encode w s field data"
  let ?bytes = "\<lambda>i. if PB_LTYPE (fld_type (fs ! i)) = PB_LTYPE_EXTENSION
    then extension_bytes app ?check ?sub w (Suc n) (load_ptr w (data_at fs src i))
    else any_field_bytes app ?check ?sub w (fs ! i) (data_at fs src i)"
  have "fields_bytes app ?check ?sub w (Suc n) fs src = Some bs"
    by (rule fields_bytes_mono [of "field_absent n w"]) (use Suc.prems in \<open>auto simp: check_field_absent\<close>)
  then have wf: "wf_fields fs" "src \<noteq> 0" and bs: "concat_upto ?bytes 0 (nfields fs) = Some bs"
    by (simp_all add: fields_bytes_def Let_def split: if_split_asm)
  have f: "pb_writer (?f (fs ! i) (data_at fs src i)) b" if "?bytes i = Some b" for i b
  proof (cases "PB_LTYPE (fld_type (fs ! i)) = PB_LTYPE_EXTENSION")
    case True
    have "pb_writer (extension_loop ?check ?encode w (Suc n) (load_ptr w (data_at fs src i))) b"
      by (rule extension_writer [OF Suc.IH app]) (use that True in \<open>simp_all only: if_True simp_thms\<close>)
    then show ?thesis using True by (simp only: encode_extension_field_def if_True simp_thms)
  next
    case False
    have "pb_writer (\<lambda>s. encode_field ?check ?encode w s (fs ! i) (data_at fs src i)) b"
      by (rule any_field_writer [OF Suc.IH app]) (use that False in \<open>simp_all only: if_False\<close>)
    then show ?thesis using False by (simp only: if_False)
  qed
  show ?case
  proof (cases "nfields fs = 0")
    case True
    then have "pb_encode (Suc n) w fs src = Pair True" "bs = []"
      using bs by (auto simp: fun_eq_iff Let_def pb_field_iter_begin_at [OF wf])
    then show ?thesis using pb_writer_nop by simp
  next
    case False
    have "nfields fs \<le> length fs" by (simp add: nfields_def)
    with encode_loop_writer [where f = ?f and bytes = ?bytes, OF wf f _ _ bs, of "length fs"] False
    have "pb_writer (encode_loop ?f (length fs) (iter_at fs src 0)) bs" by simp
    moreover have "pb_encode (Suc n) w fs src = encode_loop ?f (length fs) (iter_at fs src 0)"
      using False by (simp add: fun_eq_iff Let_def pb_field_iter_begin_at [OF wf])
    ultimately show ?thesis by simp
  qed
qed simp

section \<open>More fuel changes nothing\<close>

lemma absent_mono:
  assumes "\<And>fs a b. sub fs a = Some b \<Longrightarrow> sub' fs a = Some b" "absent sub w field data = Some b"
  shows "absent sub' w field data = Some b"
  using assms(2) unfolding absent_def zero_value_def Let_def by (simp only: assms(1) split: if_split_asm if_split; blast)

lemma fields_absent_mono:
  assumes "\<And>f a b. zero f a = Some b \<Longrightarrow> zero' f a = Some b" "fields_absent zero fs src = Some b"
  shows "fields_absent zero' fs src = Some b"
proof -
  have "zero (fs ! i) (data_at fs src i) \<noteq> None" if "i < nfields fs" for i
    using fields_absentD(3) [OF assms(2) that] .
  then have "zero' (fs ! i) (data_at fs src i) = zero (fs ! i) (data_at fs src i)" if "i < nfields fs" for i
    using assms(1) that by fastforce
  then have "map (\<lambda>i. zero' (fs ! i) (data_at fs src i)) [0..<nfields fs] = map (\<lambda>i. zero (fs ! i) (data_at fs src i)) [0..<nfields fs]"
    by simp
  with assms(2) show ?thesis by (simp only: fields_absent_def Let_def)
qed

lemma field_absent_mono: "field_absent n w field data = Some b \<Longrightarrow> field_absent (Suc n) w field data = Some b"
proof (induction n arbitrary: field data b)
  case 0
  then show ?case by (auto intro: absent_mono)
next
  case (Suc n)
  show ?case using Suc.prems
    unfolding field_absent.simps(2) [of n] field_absent.simps(2) [of "Suc n"]
    by (rule absent_mono [rotated]) (erule fields_absent_mono [rotated],
        unfold field_absent.simps(2) [symmetric], erule Suc.IH)
qed

lemma message_bytes_Suc:
  "message_bytes n app w fs src = Some bs \<Longrightarrow> message_bytes (Suc n) app w fs src = Some bs"
proof (induction n arbitrary: fs src bs)
  case (Suc n)
  have "fields_bytes app (field_absent n w) (message_bytes n app w) w (Suc n) fs src = Some bs"
    using Suc.prems by simp
  then have "fields_bytes app (field_absent (Suc n) w) (message_bytes (Suc n) app w) w (Suc (Suc n)) fs src = Some bs"
    using fields_bytes_mono [where zero' = "field_absent (Suc n) w" and sub' = "message_bytes (Suc n) app w", OF field_absent_mono Suc.IH]
    by (simp only: le_SucI order_refl)
  then show ?case by simp
qed simp

lemma message_bytes_mono:
  "message_bytes n app w fs src = Some bs \<Longrightarrow> n \<le> m \<Longrightarrow> message_bytes m app w fs src = Some bs"
  by (induction m) (auto simp: le_Suc_eq simp del: message_bytes.simps(2) intro: message_bytes_Suc)

section \<open>Whole messages\<close>

lemma pb_encode_writer_fuel:
  assumes "app_law app w" "message_bytes n app w fs src = Some bs" "n \<le> m"
  shows "pb_writer (pb_encode m w fs src) bs"
  by (rule pb_encode_writer [OF assms(1) message_bytes_mono [OF assms(2,3)]])


text \<open>
  A structure at address 1000 with an optional integer (flag, then value 300) and a submessage with
  the required integer 1.
\<close>

definition sample_fields :: "pb_field_t list" where
  "sample_fields =
     [\<lparr>fld_tag = 1, fld_type = 0x11, data_offset = 4, size_offset = - 4, data_size = 4, array_size = 0, fld_ptr = 0\<rparr>,
      \<lparr>fld_tag = 2, fld_type = 0x08, data_offset = 0, size_offset = 0, data_size = 4, array_size = 0, fld_ptr = 7\<rparr>,
      \<lparr>fld_tag = 0, fld_type = 0, data_offset = 0, size_offset = 0, data_size = 0, array_size = 0, fld_ptr = 0\<rparr>]"

definition sample_world :: pb_world where
  "sample_world =
     \<lparr>w_mem = (\<lambda>a. if a = 1000 then 1 else if a = 1004 then 0x2c else if a = 1005 then 1 else if a = 1008 then 1 else 0),
      w_fields = (\<lambda>_. [\<lparr>fld_tag = 1, fld_type = 0x01, data_offset = 0, size_offset = 0, data_size = 4, array_size = 0, fld_ptr = 0\<rparr>,
        \<lparr>fld_tag = 0, fld_type = 0, data_offset = 0, size_offset = 0, data_size = 0, array_size = 0, fld_ptr = 0\<rparr>]),
      w_callback = (\<lambda>_ _. None), w_ext_encode = (\<lambda>_. None), w_ext_field = (\<lambda>_. hd sample_fields)\<rparr>"

definition no_app :: app_writes where
  "no_app = \<lparr>app_bytes = (\<lambda>_ _. None), ext_bytes = (\<lambda>_. None)\<rparr>"

lemma sample_app_law: "app_law no_app sample_world"
  by (simp add: app_law_def no_app_def)

lemmas sample_eval = sample_fields_def sample_world_def no_app_def ltypes PB_HTYPE_REQUIRED_def PB_HTYPE_OPTIONAL_def PB_HTYPE_REPEATED_def PB_LTYPE_EXTENSION_def
  PB_ATYPE_STATIC_def PB_ATYPE_POINTER_def PB_LTYPE_def PB_HTYPE_def PB_ATYPE_def wf_fields_def nfields_def in_union_def extent_def


lemma load_bytes_4: "load_bytes 4 p = [p 0, p 1, p 2, p 3]"
  by (simp add: load_bytes_def upt_rec numeral_eq_Suc)

lemma sample_bytes: "message_bytes 2 no_app sample_world sample_fields 1000 = Some [0x08, 0xac, 0x02, 0x12, 0x02, 0x08, 0x01]"
  unfolding numeral_2_eq_2
  by (simp add: fields_bytes_def sample_eval any_field_bytes_def basic_field_bytes_def value_bytes_def tag_bytes_def flag_set_def PTRDIFF_MAX_def
    wire_type_for_def wire_types app2_def Let_def load_int_def load_uint_def load_bytes_4 at_def be_value_def tag_number_def varint_small varint_large)








text \<open>C27: The length in front of a delimited message, the zero byte behind a null-terminated one and the
  size announced by \<open>pb_get_encoded_size\<close> belong to the same bytes: in a fresh buffer that is large
  enough the framed message is written completely, and the rest of the buffer keeps its contents.\<close>

theorem pb_message_framing:
  assumes "app_law app w" "message_bytes n app w fs src = Some bs" "n \<le> m" "length mem \<le> PTRDIFF_MAX"
    "length (varint (length bs)) + length bs \<le> length mem"
  shows "pb_get_encoded_size m w fs src = Some (length bs) \<and>
    (\<exists>s. pb_encode_delimited m w (pb_ostream_from_buffer mem (length mem)) fs src = (True, s) \<and>
       os_mem s = varint (length bs) @ bs @ drop (length (varint (length bs)) + length bs) mem) \<and>
    (\<exists>s. pb_encode_nullterminated m w (pb_ostream_from_buffer mem (length mem)) fs src = (True, s) \<and>
       os_mem s = bs @ 0 # drop (length bs + 1) mem)"
proof -
  note wr = pb_encode_writer_fuel [OF assms(1-3)]
  have len: "length bs \<le> PTRDIFF_MAX" "length bs < SIZE_MOD" using assms(4,5) PTRDIFF_MAX_less by linarith+
  have "length (varint (length bs)) > 0" by simp
  then have fit: "length (bs @ [0]) \<le> length mem" using assms(5) by (simp only: length_append list.size)
  have size: "pb_encode m w fs src PB_OSTREAM_SIZING = (True, os_put bs PB_OSTREAM_SIZING)"
    by (rule pb_writer.writes [OF wr]) (simp_all add: PB_OSTREAM_SIZING_def os_inv_def os_fits_def SIZE_MOD_def)
  have d: "pb_writer (\<lambda>s. pb_encode_delimited m w s fs src) (varint (length bs) @ bs)"
    unfolding pb_encode_delimited_def by (rule pb_writer_submessage [OF wr len(1)])
  have "pb_writer (\<lambda>s. pb_write s [0] 1) [0]" using pb_write_writer [of "[0]"] by (simp add: SIZE_MOD_def)
  then have z: "pb_writer (\<lambda>s. pb_encode_nullterminated m w s fs src) (bs @ [0])"
    by (rule pb_writer_seq [OF wr]) (simp add: pb_encode_nullterminated_def)
  have put: "\<exists>s. run (pb_ostream_from_buffer mem (length mem)) = (True, s) \<and> os_mem s = x @ drop (length x) mem"
    if "pb_writer run x" "length x \<le> length mem" for run x
    using pb_writer.to_buffer [OF that assms(4)] by (metis append_take_drop_id)
  show ?thesis using put [OF d] put [OF z fit] assms(5) size len(2)
    by (simp add: pb_get_encoded_size_def PB_OSTREAM_SIZING_def os_put_def size_add_def)
qed

theorem pb_message_framing_witness:
  "pb_get_encoded_size 2 sample_world sample_fields 1000 = Some 7 \<and>
   (\<exists>s. pb_encode_delimited 2 sample_world (pb_ostream_from_buffer [9, 9, 9, 9, 9, 9, 9, 9, 9] 9) sample_fields 1000 = (True, s) \<and>
      os_mem s = [0x07, 0x08, 0xac, 0x02, 0x12, 0x02, 0x08, 0x01, 9]) \<and>
   (\<exists>s. pb_encode_nullterminated 2 sample_world (pb_ostream_from_buffer [9, 9, 9, 9, 9, 9, 9, 9, 9] 9) sample_fields 1000 = (True, s) \<and>
      os_mem s = [0x08, 0xac, 0x02, 0x12, 0x02, 0x08, 0x01, 0x00, 9])"
proof -
  have "length ([9, 9, 9, 9, 9, 9, 9, 9, 9] :: byte list) = 9" by simp
  from pb_message_framing [OF sample_app_law sample_bytes, of 2 "[9, 9, 9, 9, 9, 9, 9, 9, 9]", unfolded this] show ?thesis
    by (simp add: PTRDIFF_MAX_def varint_small)
qed

end
