(* ===== verification/Pb_Message_Decode.thy ===== *)
theory Pb_Message_Decode
  imports Pb_Message "HOL-Library.Monad_Syntax"
begin

text \<open>
  Decoding whole messages with nanopb (\<open>pb_decode\<close> and what it calls): default values and release of
  structures, static, allocated and callback fields, unions, packed and growing arrays, nested
  messages, extensions, fixed-count arrays and the check of the required fields, on a memory of
  bytes. The first group of lemmas shows that decoding reads only inside of the stream it is given.
\<close>

unbundle bit_operations_syntax

section \<open>Memory\<close>

text \<open>
  The decoder writes to memory. Integers and pointers are little-endian, of four and eight bytes.
  What it calls outside of the library is a parameter: \<open>realloc\<close> and \<open>free\<close>, which get and return the
  memory (the null pointer when no memory is served), the decoding callbacks of an application, found
  by the function pointer in a callback structure, and the decoders of extension types. The
  descriptor arrays are constants of the program. \<open>d_stack\<close> is where the local variable of
  \<open>pb_decode_noinit\<close> lies whose address is taken, by the depth of the call, and \<open>d_depth\<close> bounds the nesting of
  message types and the chains of extensions that are followed.
\<close>

type_synonym memory = "int \<Rightarrow> byte"
type_synonym app_decoder = "memory \<Rightarrow> pb_istream_t \<Rightarrow> memory pb_decoded"

record pb_decode_env =
  d_fields :: "int \<Rightarrow> pb_field_t list"
  d_callback :: "pb_field_t \<Rightarrow> int \<Rightarrow> memory \<Rightarrow> app_decoder option"
  d_ext_decode :: "int \<Rightarrow> (int \<Rightarrow> u32 \<Rightarrow> pb_wire_type_t \<Rightarrow> app_decoder) option"
  d_ext_fields :: "int \<Rightarrow> pb_field_t list"
  d_realloc :: "memory \<Rightarrow> int \<Rightarrow> nat \<Rightarrow> int \<times> memory"
  d_free :: "memory \<Rightarrow> int \<Rightarrow> memory"
  d_stack :: "nat \<Rightarrow> int"
  d_depth :: nat

definition mem_at :: "memory \<Rightarrow> int \<Rightarrow> const_ptr" where
  "mem_at m a = (\<lambda>i. m (a + int i))"

definition store_bytes :: "memory \<Rightarrow> int \<Rightarrow> byte list \<Rightarrow> memory" where
  "store_bytes m a bs = (\<lambda>x. if a \<le> x \<and> x < a + int (length bs) then bs ! nat (x - a) else m x)"

definition get_u32 :: "memory \<Rightarrow> int \<Rightarrow> u32" where
  "get_u32 m a = of_nat (load_uint 4 (mem_at m a))"

definition put_u32 :: "memory \<Rightarrow> int \<Rightarrow> u32 \<Rightarrow> memory" where
  "put_u32 m a v = store_bytes m a (rev (be_bytes 4 (unat v)))"

definition get_ptr :: "memory \<Rightarrow> int \<Rightarrow> int" where
  "get_ptr m a = int (load_uint 8 (mem_at m a))"

definition put_ptr :: "memory \<Rightarrow> int \<Rightarrow> int \<Rightarrow> memory" where
  "put_ptr m a p = store_bytes m a (rev (be_bytes 8 (nat p)))"

section \<open>Default values\<close>

text \<open>The iterator of an extension structure: type, destination, next extension and the flag.\<close>

definition iter_from_extension :: "pb_decode_env \<Rightarrow> memory \<Rightarrow> int \<Rightarrow> pb_field_iter_t" where
  "iter_from_extension env m extension =
     (let fs = d_ext_fields env (get_ptr m extension);
          dest = get_ptr m (extension + 8);
          iter = (snd (pb_field_iter_begin fs dest))\<lparr>pData := dest, pSize := extension + 24\<rparr>
      in if PB_ATYPE (fld_type (fs ! 0)) = PB_ATYPE_POINTER then iter\<lparr>pData := extension + 8\<rparr> else iter)"

text \<open>
  \<open>set_field\<close> and \<open>release\<close> are what is done to one field. The loops over the fields of a message are bounded by
  the length of its descriptor array, those over the extensions by \<open>k\<close>; \<open>None\<close> is the result beyond.
\<close>

primrec fields_loop :: "(memory \<Rightarrow> pb_field_iter_t \<Rightarrow> memory option) \<Rightarrow> nat \<Rightarrow> pb_field_iter_t \<Rightarrow> memory \<Rightarrow> memory option" where
  "fields_loop visit 0 iter m = None"
| "fields_loop visit (Suc k) iter m =
     do { m \<leftarrow> visit m iter;
          case pb_field_iter_next iter of (True, iter) \<Rightarrow> fields_loop visit k iter m | (False, _) \<Rightarrow> Some m }"

definition each_field :: "(memory \<Rightarrow> pb_field_iter_t \<Rightarrow> memory option) \<Rightarrow> pb_field_t list \<Rightarrow> int \<Rightarrow> memory \<Rightarrow> memory option" where
  "each_field visit fs dest m =
     (case pb_field_iter_begin fs dest of
        (False, _) \<Rightarrow> Some m
      | (True, iter) \<Rightarrow> fields_loop visit (length fs) iter m)"

primrec default_extensions ::
  "(memory \<Rightarrow> pb_field_iter_t \<Rightarrow> memory option) \<Rightarrow> pb_decode_env \<Rightarrow> nat \<Rightarrow> int \<Rightarrow> memory \<Rightarrow> memory option" where
  "default_extensions set_field env 0 ext m = None"
| "default_extensions set_field env (Suc k) ext m =
     (if ext = 0 then Some m
      else (let m = store_bytes m (ext + 24) [0] in
            do { m \<leftarrow> set_field m (iter_from_extension env m ext);
                 default_extensions set_field env k (get_ptr m (ext + 16)) m }))"

primrec pb_field_set_to_default :: "nat \<Rightarrow> pb_decode_env \<Rightarrow> memory \<Rightarrow> pb_field_iter_t \<Rightarrow> memory option" where
  "pb_field_set_to_default 0 env m iter = None"
| "pb_field_set_to_default (Suc n) env m iter =
     (let field = iter_field iter;
          h = PB_HTYPE (fld_type field);
          a = PB_ATYPE (fld_type field);
          t = PB_LTYPE (fld_type field)
      in if t = PB_LTYPE_EXTENSION then
           default_extensions (pb_field_set_to_default n env) env (Suc n) (get_ptr m (pData iter)) m
         else if a = PB_ATYPE_STATIC then
           (let has_flag = (h = PB_HTYPE_OPTIONAL \<and> pSize iter \<noteq> pData iter);
                counted = (\<not> has_flag \<and> (h = PB_HTYPE_REPEATED \<or> h = PB_HTYPE_ONEOF));
                m = (if has_flag then store_bytes m (pSize iter) [0]
                     else if counted then put_u32 m (pSize iter) 0 else m)
            in if counted then Some m
               else if t = PB_LTYPE_SUBMESSAGE then
                 each_field (pb_field_set_to_default n env) (d_fields env (fld_ptr field)) (pData iter) m
               else if fld_ptr field \<noteq> 0 then
                 Some (store_bytes m (pData iter) (load_bytes (unat (data_size field)) (mem_at m (fld_ptr field))))
               else Some (store_bytes m (pData iter) (replicate (unat (data_size field)) 0)))
         else if a = PB_ATYPE_POINTER then
           (let m = put_ptr m (pData iter) 0
            in Some (if h = PB_HTYPE_REPEATED \<or> h = PB_HTYPE_ONEOF then put_u32 m (pSize iter) 0 else m))
         else Some m)"

definition pb_message_set_to_defaults :: "pb_decode_env \<Rightarrow> pb_field_t list \<Rightarrow> int \<Rightarrow> memory \<Rightarrow> memory option" where
  "pb_message_set_to_defaults env = each_field (pb_field_set_to_default (d_depth env) env)"

section \<open>Releasing\<close>

primrec release_extensions ::
  "(memory \<Rightarrow> pb_field_iter_t \<Rightarrow> memory option) \<Rightarrow> pb_decode_env \<Rightarrow> nat \<Rightarrow> int \<Rightarrow> memory \<Rightarrow> memory option" where
  "release_extensions release env 0 ext m = None"
| "release_extensions release env (Suc k) ext m =
     (if ext = 0 then Some m
      else do { m \<leftarrow> release m (iter_from_extension env m ext);
                release_extensions release env k (get_ptr m (ext + 16)) m })"

text \<open>\<open>pb_release\<close> with what it does to one field as an argument.\<close>

definition release_fields :: "(memory \<Rightarrow> pb_field_iter_t \<Rightarrow> memory option) \<Rightarrow> pb_field_t list \<Rightarrow> int \<Rightarrow> memory \<Rightarrow> memory option" where
  "release_fields release fs dest m = (if dest = 0 then Some m else each_field release fs dest m)"

primrec release_items :: "(int \<Rightarrow> memory \<Rightarrow> memory option) \<Rightarrow> int \<Rightarrow> nat \<Rightarrow> int \<Rightarrow> memory \<Rightarrow> memory option" where
  "release_items release d 0 item m = Some m"
| "release_items release d (Suc n) item m = do { m \<leftarrow> release item m; release_items release d n (item + d) m }"

primrec free_items :: "pb_decode_env \<Rightarrow> nat \<Rightarrow> int \<Rightarrow> memory \<Rightarrow> memory" where
  "free_items env 0 item m = m"
| "free_items env (Suc n) item m = free_items env n (item + 8) (put_ptr (d_free env m (get_ptr m item)) item 0)"

primrec pb_release_single_field :: "nat \<Rightarrow> pb_decode_env \<Rightarrow> memory \<Rightarrow> pb_field_iter_t \<Rightarrow> memory option" where
  "pb_release_single_field 0 env m iter = None"
| "pb_release_single_field (Suc n) env m iter =
     (let field = iter_field iter;
          h = PB_HTYPE (fld_type field);
          a = PB_ATYPE (fld_type field);
          t = PB_LTYPE (fld_type field);
          release = pb_release_single_field n env
      in if h = PB_HTYPE_ONEOF \<and> get_u32 m (pSize iter) \<noteq> fld_tag field then Some m
         else do {
           m \<leftarrow> (if t = PB_LTYPE_EXTENSION then release_extensions release env (Suc n) (get_ptr m (pData iter)) m
                 else if t = PB_LTYPE_SUBMESSAGE \<and> a \<noteq> PB_ATYPE_CALLBACK then
                   (let item = (if a = PB_ATYPE_POINTER then get_ptr m (pData iter) else pData iter);
                        stored = (if a = PB_ATYPE_STATIC \<and> pSize iter = pData iter then array_size field else get_u32 m (pSize iter));
                        count = (if h = PB_HTYPE_REPEATED
                                 then if a = PB_ATYPE_STATIC \<and> stored > array_size field then array_size field else stored
                                 else 1)
                    in if item \<noteq> 0
                       then release_items (release_fields release (d_fields env (fld_ptr field))) (uint (data_size field)) (unat count) item m
                       else Some m)
                 else Some m);
           if a = PB_ATYPE_POINTER then
             (let m = (if h = PB_HTYPE_REPEATED \<and> (t = PB_LTYPE_STRING \<or> t = PB_LTYPE_BYTES)
                       then free_items env (unat (get_u32 m (pSize iter))) (get_ptr m (pData iter)) m else m);
                  m = (if h = PB_HTYPE_REPEATED then put_u32 m (pSize iter) 0 else m);
                  m = d_free env m (get_ptr m (pData iter))
              in Some (put_ptr m (pData iter) 0))
           else Some m })"

definition pb_release :: "pb_decode_env \<Rightarrow> pb_field_t list \<Rightarrow> int \<Rightarrow> memory \<Rightarrow> memory option" where
  "pb_release env = release_fields (pb_release_single_field (d_depth env) env)"

text \<open>A failed search in the descriptors is an error; the iterator is moved by the searches.\<close>

definition pb_release_union_field ::
  "pb_decode_env \<Rightarrow> memory \<Rightarrow> pb_istream_t \<Rightarrow> pb_field_iter_t \<Rightarrow> (memory pb_decoded \<times> pb_field_iter_t) option" where
  "pb_release_union_field env m s iter =
     (let old_tag = get_u32 m (pSize iter);
          new_tag = fld_tag (iter_field iter)
      in if old_tag = 0 then Some ((True, m, s), iter)
         else if old_tag = new_tag then Some ((True, m, s), iter)
         else do {
           (found, iter) \<leftarrow> pb_field_iter_find iter old_tag;
           if \<not> found then Some ((False, m, is_error ''invalid union tag'' s), iter)
           else do {
             m \<leftarrow> pb_release_single_field (d_depth env) env m iter;
             (found, iter) \<leftarrow> pb_field_iter_find iter new_tag;
             if \<not> found then Some ((False, m, is_error ''iterator error'' s), iter)
             else Some ((True, if PB_ATYPE (fld_type (iter_field iter)) = PB_ATYPE_POINTER then put_ptr m (pData iter) 0 else m, s), iter) } })"

section \<open>Decoding one field\<close>

text \<open>
  The decoders of single fields on memory: on the bytes of the object at \<open>dest\<close>, or, for bytes and
  strings of pointer fields, on the block that \<open>realloc\<close> makes of the one the pointer at \<open>dest\<close> points to.
\<close>

definition in_place ::
  "(pb_istream_t \<Rightarrow> pb_field_t \<Rightarrow> byte list \<Rightarrow> byte list pb_decoded) \<Rightarrow> pb_field_t \<Rightarrow> int \<Rightarrow> memory \<Rightarrow> pb_istream_t \<Rightarrow> memory pb_decoded" where
  "in_place dec field dest m s =
     (case dec s field (load_bytes (unat (data_size field)) (mem_at m dest)) of (ok, bs, s) \<Rightarrow> (ok, store_bytes m dest bs, s))"

definition block_realloc :: "pb_decode_env \<Rightarrow> memory \<Rightarrow> int \<Rightarrow> libc_realloc" where
  "block_realloc env m ptr old n =
     (case d_realloc env m ptr n of (p, m') \<Rightarrow> if p = 0 then None else Some (load_bytes n (mem_at m' p)))"

definition in_block ::
  "(libc_realloc \<Rightarrow> pb_istream_t \<Rightarrow> pb_field_t \<Rightarrow> byte list option \<Rightarrow> byte list option pb_decoded) \<Rightarrow>
   pb_decode_env \<Rightarrow> pb_field_t \<Rightarrow> int \<Rightarrow> memory \<Rightarrow> pb_istream_t \<Rightarrow> memory pb_decoded" where
  "in_block dec env field dest m s =
     (if PB_ATYPE (fld_type field) = PB_ATYPE_POINTER then
        (let ptr = get_ptr m dest in
         case dec (block_realloc env m ptr) s field None of
           (ok, None, s) \<Rightarrow> (ok, m, s)
         | (ok, Some block, s) \<Rightarrow>
             (case d_realloc env m ptr (length block) of (p, m') \<Rightarrow> (ok, store_bytes (put_ptr m' dest p) p block, s)))
      else
        (case dec (block_realloc env m 0) s field (Some (load_bytes (unat (data_size field)) (mem_at m dest))) of
           (ok, r, s) \<Rightarrow> (ok, store_bytes m dest (the r), s)))"

definition allocate_at :: "pb_decode_env \<Rightarrow> memory \<Rightarrow> pb_istream_t \<Rightarrow> int \<Rightarrow> nat \<Rightarrow> nat \<Rightarrow> memory pb_decoded" where
  "allocate_at env m s data dsize asize =
     (let ptr = get_ptr m data in
      case allocate_field (block_realloc env m ptr) s None dsize asize of
        (False, _, s) \<Rightarrow> (False, m, s)
      | (True, _, s) \<Rightarrow> (case d_realloc env m ptr (size_mul asize dsize) of (p, m') \<Rightarrow> (True, put_ptr m' data p, s)))"

text \<open>
  The decoding of a nested message is an argument: \<open>noinit\<close> and \<open>init\<close> are \<open>pb_decode_noinit\<close> and \<open>pb_decode\<close>.
  \<open>None\<close> is the result of a call that is nested too deeply or does not return.
\<close>

type_synonym message_decoder = "pb_field_t list \<Rightarrow> int \<Rightarrow> memory \<Rightarrow> pb_istream_t \<Rightarrow> memory pb_decoded option"

definition close_substream :: "pb_istream_t \<Rightarrow> memory pb_decoded \<Rightarrow> memory pb_decoded" where
  "close_substream s r =
     (case r of (status, m, substream) \<Rightarrow>
        (case pb_close_string_substream s substream of (False, s) \<Rightarrow> (False, m, s) | (True, s) \<Rightarrow> (status, m, s)))"

definition pb_dec_submessage :: "message_decoder \<Rightarrow> message_decoder \<Rightarrow> pb_decode_env \<Rightarrow> pb_field_t \<Rightarrow> int \<Rightarrow> memory \<Rightarrow> pb_istream_t \<Rightarrow> memory pb_decoded option" where
  "pb_dec_submessage noinit init env field dest m s =
     (case pb_make_string_substream s of
        (None, s) \<Rightarrow> Some (False, m, s)
      | (Some substream, s) \<Rightarrow>
          if fld_ptr field = 0 then Some (False, m, is_error ''invalid field descriptor'' s)
          else map_option (close_substream s)
            ((if PB_HTYPE (fld_type field) = PB_HTYPE_REPEATED then init else noinit) (d_fields env (fld_ptr field)) dest m substream))"

text \<open>The table of decoders. There is none for extensions and for the types beyond the table.\<close>

definition PB_DECODERS :: "message_decoder \<Rightarrow> message_decoder \<Rightarrow> pb_decode_env \<Rightarrow> pb_field_t \<Rightarrow> int \<Rightarrow> memory \<Rightarrow> pb_istream_t \<Rightarrow> memory pb_decoded option" where
  "PB_DECODERS noinit init env field dest m s =
     (let t = PB_LTYPE (fld_type field) in
      if t = PB_LTYPE_BOOL then Some (in_place pb_dec_bool field dest m s)
      else if t = PB_LTYPE_VARINT then Some (in_place pb_dec_varint field dest m s)
      else if t = PB_LTYPE_UVARINT then Some (in_place pb_dec_uvarint field dest m s)
      else if t = PB_LTYPE_SVARINT then Some (in_place pb_dec_svarint field dest m s)
      else if t = PB_LTYPE_FIXED32 then Some (in_place pb_dec_fixed32 field dest m s)
      else if t = PB_LTYPE_FIXED64 then Some (in_place pb_dec_fixed64 field dest m s)
      else if t = PB_LTYPE_BYTES then Some (in_block pb_dec_bytes env field dest m s)
      else if t = PB_LTYPE_STRING then Some (in_block pb_dec_string env field dest m s)
      else if t = PB_LTYPE_SUBMESSAGE then pb_dec_submessage noinit init env field dest m s
      else if t = PB_LTYPE_FIXED_LENGTH_BYTES then Some (in_place pb_dec_fixed_length_bytes field dest m s)
      else None)"

text \<open>\<open>data_size * (*size)\<close> is a product of 32-bit numbers.\<close>

definition item_at :: "pb_field_t \<Rightarrow> int \<Rightarrow> u32 \<Rightarrow> int" where
  "item_at field data i = data + uint (data_size field * i)"

type_synonym field_decoder = "int \<Rightarrow> memory \<Rightarrow> pb_istream_t \<Rightarrow> memory pb_decoded option"

primrec packed_loop :: "field_decoder \<Rightarrow> pb_field_iter_t \<Rightarrow> nat \<Rightarrow> memory \<Rightarrow> pb_istream_t \<Rightarrow> memory pb_decoded option" where
  "packed_loop func iter 0 m s = None"
| "packed_loop func iter (Suc k) m s =
     (let size = get_u32 m (pSize iter) in
      if bytes_left s > 0 \<and> size < array_size (iter_field iter) then
        do { (ok, m, s) \<leftarrow> func (item_at (iter_field iter) (pData iter) size) m s;
             if ok then packed_loop func iter k (put_u32 m (pSize iter) (get_u32 m (pSize iter) + 1)) s
             else Some (False, m, s) }
      else Some (True, m, s))"

definition decode_static_field ::
  "message_decoder \<Rightarrow> message_decoder \<Rightarrow> pb_decode_env \<Rightarrow> pb_wire_type_t \<Rightarrow> pb_field_iter_t \<Rightarrow> memory \<Rightarrow> pb_istream_t \<Rightarrow> memory pb_decoded option" where
  "decode_static_field noinit init env wire_type iter m s =
     (let field = iter_field iter;
          h = PB_HTYPE (fld_type field);
          t = PB_LTYPE (fld_type field);
          func = PB_DECODERS noinit init env field
      in if h = PB_HTYPE_REQUIRED then func (pData iter) m s
         else if h = PB_HTYPE_OPTIONAL then
           func (pData iter) (if pSize iter \<noteq> pData iter then store_bytes m (pSize iter) [1] else m) s
         else if h = PB_HTYPE_REPEATED then
           if wire_type = PB_WT_STRING \<and> t \<le> PB_LTYPE_LAST_PACKABLE then
             (case pb_make_string_substream s of
                (None, s) \<Rightarrow> Some (False, m, s)
              | (Some substream, s) \<Rightarrow>
                  do { (status, m, substream) \<leftarrow> packed_loop func iter (Suc (bytes_left substream)) m substream;
                       if bytes_left substream \<noteq> 0 then Some (False, m, is_error ''array overflow'' s)
                       else Some (close_substream s (status, m, substream)) })
           else
             (let size = get_u32 m (pSize iter);
                  m = put_u32 m (pSize iter) (size + 1)
              in if size \<ge> array_size field then Some (False, m, is_error ''array overflow'' s)
                 else func (item_at field (pData iter) size) m s)
         else if h = PB_HTYPE_ONEOF then
           do { m \<leftarrow> (if t = PB_LTYPE_SUBMESSAGE \<and> get_u32 m (pSize iter) \<noteq> fld_tag field
                     then pb_message_set_to_defaults env (d_fields env (fld_ptr field)) (pData iter)
                       (store_bytes m (pData iter) (replicate (unat (data_size field)) 0))
                     else Some m);
                func (pData iter) (put_u32 m (pSize iter) (fld_tag field)) s }
         else Some (False, m, is_error ''invalid field type'' s))"

definition initialize_pointer_field :: "pb_decode_env \<Rightarrow> pb_field_t \<Rightarrow> int \<Rightarrow> memory \<Rightarrow> memory option" where
  "initialize_pointer_field env field item m =
     (let t = PB_LTYPE (fld_type field) in
      if t = PB_LTYPE_STRING \<or> t = PB_LTYPE_BYTES then Some (put_ptr m item 0)
      else if t = PB_LTYPE_SUBMESSAGE then
        pb_message_set_to_defaults env (d_fields env (fld_ptr field)) item (store_bytes m item (replicate (unat (data_size field)) 0))
      else Some m)"

text \<open>
  The loop over a packed array that grows. \<open>err\<close> is the message the code stores in the enclosing
  stream. The division is by the size of an entry, which is not zero.
\<close>

primrec grow_loop ::
  "field_decoder \<Rightarrow> pb_decode_env \<Rightarrow> pb_field_iter_t \<Rightarrow> nat \<Rightarrow> nat \<Rightarrow> memory \<Rightarrow> pb_istream_t \<Rightarrow> (string option \<times> memory pb_decoded) option" where
  "grow_loop func env iter 0 allocated m s = None"
| "grow_loop func env iter (Suc k) allocated m s =
     (let field = iter_field iter;
          size = get_u32 m (pSize iter);
          remain = (bytes_left s - 1) div unat (data_size field) + 1;
          more = (unat size + 1 > allocated);
          allocated = (if \<not> more then allocated
                       else if remain < (unat PB_SIZE_MAX + SIZE_MOD - allocated) mod SIZE_MOD then size_add allocated remain else size_add allocated 1)
      in if bytes_left s = 0 then Some (None, True, m, s)
         else if size = PB_SIZE_MAX then Some (Some ''too many array entries'', False, m, s)
         else
           (case (if more then allocate_at env m s (pData iter) (unat (data_size field)) allocated else (True, m, s)) of
              (False, m, s) \<Rightarrow> Some (None, False, m, s)
            | (True, m, s) \<Rightarrow>
                (let item = item_at field (get_ptr m (pData iter)) (get_u32 m (pSize iter)) in
                 if item = 0 then Some (None, False, m, s)
                 else do { m \<leftarrow> initialize_pointer_field env field item m;
                           (ok, m, s) \<leftarrow> func item m s;
                           if ok then grow_loop func env iter k allocated (put_u32 m (pSize iter) (get_u32 m (pSize iter) + 1)) s
                           else Some (None, False, m, s) })))"

definition decode_pointer_field ::
  "message_decoder \<Rightarrow> message_decoder \<Rightarrow> pb_decode_env \<Rightarrow> pb_wire_type_t \<Rightarrow> pb_field_iter_t \<Rightarrow> memory \<Rightarrow> pb_istream_t \<Rightarrow> memory pb_decoded option" where
  "decode_pointer_field noinit init env wire_type iter m s =
     (let field = iter_field iter;
          h = PB_HTYPE (fld_type field);
          t = PB_LTYPE (fld_type field);
          func = PB_DECODERS noinit init env field
      in if h = PB_HTYPE_REQUIRED \<or> h = PB_HTYPE_OPTIONAL \<or> h = PB_HTYPE_ONEOF then
           do { m \<leftarrow> (if t = PB_LTYPE_SUBMESSAGE \<and> get_ptr m (pData iter) \<noteq> 0
                     then pb_release_single_field (d_depth env) env m iter else Some m);
                let m = (if h = PB_HTYPE_ONEOF then put_u32 m (pSize iter) (fld_tag field) else m);
                if t = PB_LTYPE_STRING \<or> t = PB_LTYPE_BYTES then func (pData iter) m s
                else (case allocate_at env m s (pData iter) (unat (data_size field)) 1 of
                        (False, m, s) \<Rightarrow> Some (False, m, s)
                      | (True, m, s) \<Rightarrow>
                          do { m \<leftarrow> initialize_pointer_field env field (get_ptr m (pData iter)) m;
                               func (get_ptr m (pData iter)) m s }) }
         else if h = PB_HTYPE_REPEATED then
           if wire_type = PB_WT_STRING \<and> t \<le> PB_LTYPE_LAST_PACKABLE then
             (case pb_make_string_substream s of
                (None, s) \<Rightarrow> Some (False, m, s)
              | (Some substream, s) \<Rightarrow>
                  do { (err, r) \<leftarrow> grow_loop func env iter (Suc (bytes_left substream)) (unat (get_u32 m (pSize iter))) m substream;
                       Some (close_substream (if err = None then s else s\<lparr>is_errmsg := err\<rparr>) r) })
           else
             (let size = get_u32 m (pSize iter) in
              if size = PB_SIZE_MAX then Some (False, m, is_error ''too many array entries'' s)
              else
                (case allocate_at env m s (pData iter) (unat (data_size field)) (unat (size + 1)) of
                   (False, m, s) \<Rightarrow> Some (False, m, s)
                 | (True, m, s) \<Rightarrow>
                     (let item = item_at field (get_ptr m (pData iter)) (get_u32 m (pSize iter));
                          m = put_u32 m (pSize iter) (get_u32 m (pSize iter) + 1)
                      in do { m \<leftarrow> initialize_pointer_field env field item m; func item m s })))
         else Some (False, m, is_error ''invalid field type'' s))"

text \<open>
  The callback is called until it has read the whole substream. The function pointer of the callback
  structure is read once: a callback that replaces its own function pointer is not modelled.
\<close>

primrec callback_loop :: "app_decoder \<Rightarrow> nat \<Rightarrow> memory \<Rightarrow> pb_istream_t \<Rightarrow> memory pb_decoded option" where
  "callback_loop decode 0 m s = None"
| "callback_loop decode (Suc k) m s =
     (case decode m s of
        (False, m, s) \<Rightarrow> Some (False, m, s)
      | (True, m, s) \<Rightarrow> if bytes_left s \<noteq> 0 then callback_loop decode k m s else Some (True, m, s))"

definition decode_callback_field ::
  "pb_decode_env \<Rightarrow> pb_wire_type_t \<Rightarrow> pb_field_iter_t \<Rightarrow> memory \<Rightarrow> pb_istream_t \<Rightarrow> memory pb_decoded option" where
  "decode_callback_field env wire_type iter m s =
     (case (if pData iter = 0 then None else d_callback env (iter_field iter) (pData iter) m) of
        None \<Rightarrow> (case pb_skip_field s wire_type of (r, s) \<Rightarrow> Some (r \<noteq> None, m, s))
      | Some decode \<Rightarrow>
          if wire_type = PB_WT_STRING then
            (case pb_make_string_substream s of
               (None, s) \<Rightarrow> Some (False, m, s)
             | (Some substream, s) \<Rightarrow>
                 do { (ok, m, substream) \<leftarrow> callback_loop decode (Suc (bytes_left substream)) m substream;
                      if ok then Some (close_substream s (True, m, substream))
                      else Some (False, m, is_error ''callback failed'' s) })
          else
            (case read_raw_value s wire_type 10 of
               (None, s) \<Rightarrow> Some (False, m, s)
             | (Some buffer, s) \<Rightarrow>
                 (case decode m (pb_istream_from_buffer buffer (length buffer)) of (ok, m, _) \<Rightarrow> Some (ok, m, s))))"

definition decode_field ::
  "message_decoder \<Rightarrow> message_decoder \<Rightarrow> pb_decode_env \<Rightarrow> pb_wire_type_t \<Rightarrow> pb_field_iter_t \<Rightarrow> memory \<Rightarrow> pb_istream_t \<Rightarrow>
   (memory pb_decoded \<times> pb_field_iter_t) option" where
  "decode_field noinit init env wire_type iter m s =
     do { ((ok, m, s), iter) \<leftarrow> (if PB_HTYPE (fld_type (iter_field iter)) = PB_HTYPE_ONEOF then pb_release_union_field env m s iter
                                 else Some ((True, m, s), iter));
          if \<not> ok then Some ((False, m, s), iter)
          else (let a = PB_ATYPE (fld_type (iter_field iter)) in
                map_option (\<lambda>r. (r, iter))
                  (if a = PB_ATYPE_STATIC then decode_static_field noinit init env wire_type iter m s
                   else if a = PB_ATYPE_POINTER then decode_pointer_field noinit init env wire_type iter m s
                   else if a = PB_ATYPE_CALLBACK then decode_callback_field env wire_type iter m s
                   else Some (False, m, is_error ''invalid field type'' s))) }"

section \<open>Extensions\<close>

text \<open>As above, with the decoding of one field as an argument.\<close>

type_synonym iter_decoder =
  "pb_wire_type_t \<Rightarrow> pb_field_iter_t \<Rightarrow> memory \<Rightarrow> pb_istream_t \<Rightarrow> (memory pb_decoded \<times> pb_field_iter_t) option"

definition default_extension_decoder ::
  "iter_decoder \<Rightarrow> pb_decode_env \<Rightarrow> int \<Rightarrow> u32 \<Rightarrow> pb_wire_type_t \<Rightarrow> memory \<Rightarrow> pb_istream_t \<Rightarrow> memory pb_decoded option" where
  "default_extension_decoder decode env extension tag wire_type m s =
     (if fld_tag (d_ext_fields env (get_ptr m extension) ! 0) \<noteq> tag then Some (True, m, s)
      else map_option fst (decode wire_type (iter_from_extension env m extension) (store_bytes m (extension + 24) [1]) s))"

primrec decode_extension_loop ::
  "iter_decoder \<Rightarrow> pb_decode_env \<Rightarrow> u32 \<Rightarrow> pb_wire_type_t \<Rightarrow> nat \<Rightarrow> nat \<Rightarrow> int \<Rightarrow> memory \<Rightarrow> pb_istream_t \<Rightarrow> memory pb_decoded option" where
  "decode_extension_loop decode env tag wire_type pos 0 extension m s = None"
| "decode_extension_loop decode env tag wire_type pos (Suc k) extension m s =
     (if extension \<noteq> 0 \<and> pos = bytes_left s then
        do { (ok, m, s) \<leftarrow> (case d_ext_decode env (get_ptr m extension) of
                             Some ext_decode \<Rightarrow> Some (ext_decode extension tag wire_type m s)
                           | None \<Rightarrow> default_extension_decoder decode env extension tag wire_type m s);
             if ok then decode_extension_loop decode env tag wire_type pos k (get_ptr m (extension + 16)) m s
             else Some (False, m, s) }
      else Some (True, m, s))"

definition decode_extension ::
  "iter_decoder \<Rightarrow> pb_decode_env \<Rightarrow> u32 \<Rightarrow> pb_wire_type_t \<Rightarrow> pb_field_iter_t \<Rightarrow> memory \<Rightarrow> pb_istream_t \<Rightarrow> memory pb_decoded option" where
  "decode_extension decode env tag wire_type iter m s =
     decode_extension_loop decode env tag wire_type (bytes_left s) (Suc (d_depth env)) (get_ptr m (pData iter)) m s"

primrec find_extension_loop :: "nat \<Rightarrow> nat \<Rightarrow> pb_field_iter_t \<Rightarrow> (bool \<times> pb_field_iter_t) option" where
  "find_extension_loop start 0 iter = None"
| "find_extension_loop start (Suc k) iter =
     (if PB_LTYPE (fld_type (iter_field iter)) = PB_LTYPE_EXTENSION then Some (True, iter)
      else (let iter = snd (pb_field_iter_next iter) in
            if iter_pos iter \<noteq> start then find_extension_loop start k iter else Some (False, iter)))"

definition find_extension_field :: "pb_field_iter_t \<Rightarrow> (bool \<times> pb_field_iter_t) option" where
  "find_extension_field iter = find_extension_loop (iter_pos iter) (length (iter_fields iter)) iter"

section \<open>Decoding a message\<close>

definition PB_MAX_REQUIRED_FIELDS :: nat where "PB_MAX_REQUIRED_FIELDS = 64"

text \<open>
  The local variables of \<open>pb_decode_noinit\<close>: the words of \<open>fields_seen\<close>, the start of the extensions, the
  iterator and the position of the fixed-count field, if there is one. Its counter lies at \<open>cell\<close>.
\<close>

record decode_vars =
  fields_seen :: "u32 list"
  extension_range_start :: u32
  v_iter :: pb_field_iter_t
  fixed_count_field :: "nat option"

definition fixed_count_wrong :: "int \<Rightarrow> memory \<Rightarrow> decode_vars \<Rightarrow> bool" where
  "fixed_count_wrong cell m v =
     (case fixed_count_field v of
        None \<Rightarrow> False
      | Some i \<Rightarrow> get_u32 m cell \<noteq> array_size (iter_fields (v_iter v) ! i))"

text \<open>A field that is not in the message type: an extension or skipped.\<close>

definition decode_unknown ::
  "iter_decoder \<Rightarrow> pb_decode_env \<Rightarrow> u32 \<Rightarrow> pb_wire_type_t \<Rightarrow> decode_vars \<Rightarrow> memory \<Rightarrow> pb_istream_t \<Rightarrow> (memory pb_decoded \<times> decode_vars) option" where
  "decode_unknown decode env tag wire_type v m s =
     (let skip = (\<lambda>v m s. Some ((fst (pb_skip_field s wire_type) \<noteq> None, m, snd (pb_skip_field s wire_type)), v)) in
      if tag \<ge> extension_range_start v then
        do { (found, iter) \<leftarrow> find_extension_field (v_iter v);
             let start = (if found then fld_tag (iter_field iter) else - 1);
             let v = v\<lparr>extension_range_start := start, v_iter := iter\<rparr>;
             if tag \<ge> start then
               do { (ok, m, s') \<leftarrow> decode_extension decode env tag wire_type iter m s;
                    if \<not> ok then Some ((False, m, s'), v)
                    else if bytes_left s \<noteq> bytes_left s' then Some ((True, m, s'), v)
                    else skip v m s' }
             else skip v m s }
      else skip v m s)"

text \<open>
  A field that was found: a repeated field without a counter in the structure gets the local one, the
  bit of a required field is set.
\<close>

definition use_fixed_count :: "int \<Rightarrow> decode_vars \<Rightarrow> memory \<Rightarrow> (decode_vars \<times> memory) option" where
  "use_fixed_count cell v m =
     (let iter = v_iter v in
      if PB_HTYPE (fld_type (iter_field iter)) = PB_HTYPE_REPEATED \<and> pSize iter = pData iter then
        if fixed_count_field v \<noteq> Some (iter_pos iter) then
          if fixed_count_wrong cell m v then None
          else Some (v\<lparr>fixed_count_field := Some (iter_pos iter), v_iter := iter\<lparr>pSize := cell\<rparr>\<rparr>, put_u32 m cell 0)
        else Some (v\<lparr>v_iter := iter\<lparr>pSize := cell\<rparr>\<rparr>, m)
      else Some (v, m))"

definition mark_required :: "decode_vars \<Rightarrow> decode_vars" where
  "mark_required v =
     (let i = unat (required_field_index (v_iter v)) in
      if PB_HTYPE (fld_type (iter_field (v_iter v))) = PB_HTYPE_REQUIRED \<and> i < PB_MAX_REQUIRED_FIELDS
      then v\<lparr>fields_seen := (fields_seen v)[i div 32 := (fields_seen v ! (i div 32)) OR push_bit (i mod 32) 1]\<rparr> else v)"

definition decode_known ::
  "iter_decoder \<Rightarrow> int \<Rightarrow> pb_wire_type_t \<Rightarrow> decode_vars \<Rightarrow> memory \<Rightarrow> pb_istream_t \<Rightarrow> (memory pb_decoded \<times> decode_vars) option" where
  "decode_known decode cell wire_type v m s =
     (case use_fixed_count cell v m of
        None \<Rightarrow> Some ((False, m, is_error ''wrong size for fixed count field'' s), v)
      | Some (v, m) \<Rightarrow>
          (let v = mark_required v in
           do { (r, iter) \<leftarrow> decode wire_type (v_iter v) m s;
                Some (r, v\<lparr>v_iter := iter\<rparr>) }))"

text \<open>One round of the loop; \<open>None\<close> in the place of the result when the message has ended.\<close>

definition decode_step ::
  "iter_decoder \<Rightarrow> pb_decode_env \<Rightarrow> int \<Rightarrow> decode_vars \<Rightarrow> memory \<Rightarrow> pb_istream_t \<Rightarrow>
   (bool option \<times> decode_vars \<times> memory \<times> pb_istream_t) option" where
  "decode_step decode env cell v m s =
     (case pb_decode_tag s of
        (None, eof, s) \<Rightarrow> Some (if eof then None else Some False, v, m, s)
      | (Some (wire_type, tag), _, s) \<Rightarrow>
          do { (found, iter) \<leftarrow> pb_field_iter_find (v_iter v) tag;
               ((ok, m, s), v) \<leftarrow> (if found then decode_known decode cell wire_type (v\<lparr>v_iter := iter\<rparr>) m s
                                   else decode_unknown decode env tag wire_type (v\<lparr>v_iter := iter\<rparr>) m s);
               Some (Some ok, v, m, s) })"

primrec decode_loop ::
  "iter_decoder \<Rightarrow> pb_decode_env \<Rightarrow> int \<Rightarrow> nat \<Rightarrow> decode_vars \<Rightarrow> memory \<Rightarrow> pb_istream_t \<Rightarrow> (bool \<times> decode_vars \<times> memory \<times> pb_istream_t) option" where
  "decode_loop decode env cell 0 v m s = None"
| "decode_loop decode env cell (Suc k) v m s =
     (if bytes_left s = 0 then Some (True, v, m, s)
      else do { (r, v, m, s) \<leftarrow> decode_step decode env cell v m s;
                case r of
                  None \<Rightarrow> Some (True, v, m, s)
                | Some False \<Rightarrow> Some (False, v, m, s)
                | Some True \<Rightarrow> decode_loop decode env cell k v m s })"

text \<open>The number of required fields, by going on to the last one.\<close>

primrec count_required :: "nat \<Rightarrow> pb_field_iter_t \<Rightarrow> (nat \<times> pb_field_t \<times> pb_field_iter_t) option" where
  "count_required 0 iter = None"
| "count_required (Suc k) iter =
     (case pb_field_iter_next iter of
        (True, iter) \<Rightarrow> count_required k iter
      | (False, iter') \<Rightarrow> Some (unat (required_field_index iter), iter_field iter, iter'))"

definition required_seen :: "nat \<Rightarrow> u32 list \<Rightarrow> bool" where
  "required_seen n seen \<longleftrightarrow>
     (\<forall>i\<in>set [0..<n div 32]. seen ! i = - 1) \<and> (n mod 32 \<noteq> 0 \<longrightarrow> seen ! (n div 32) = drop_bit (32 - n mod 32) (- 1))"

definition required_fields_present :: "decode_vars \<Rightarrow> bool option" where
  "required_fields_present v =
     do { (n, last, iter) \<leftarrow> count_required (Suc (length (iter_fields (v_iter v)))) (v_iter v);
          let n = (if PB_HTYPE (fld_type last) = PB_HTYPE_REQUIRED \<and> fld_tag (iter_field iter) \<noteq> 0 then n + 1 else n);
          let n = min n PB_MAX_REQUIRED_FIELDS;
          Some (required_seen n (fields_seen v)) }"

text \<open>\<open>noinit\<close> and \<open>init\<close> decode nested messages.\<close>

definition decode_message ::
  "message_decoder \<Rightarrow> message_decoder \<Rightarrow> pb_decode_env \<Rightarrow> int \<Rightarrow> message_decoder" where
  "decode_message noinit init env cell fs dest m s =
     do { (ok, v, m, s) \<leftarrow> decode_loop (decode_field noinit init env) env cell (Suc (bytes_left s))
            \<lparr>fields_seen = [0, 0], extension_range_start = 0, v_iter = snd (pb_field_iter_begin fs dest), fixed_count_field = None\<rparr>
            (put_u32 m cell 0) s;
          if \<not> ok then Some (False, m, s)
          else if fixed_count_wrong cell m v then Some (False, m, is_error ''wrong size for fixed count field'' s)
          else do { present \<leftarrow> required_fields_present v;
                    if present then Some (True, m, s) else Some (False, m, is_error ''missing required field'' s) } }"

text \<open>\<open>pb_decode\<close> around \<open>pb_decode_noinit\<close>, and the recursion, at most \<open>n\<close> deep.\<close>

definition with_init :: "message_decoder \<Rightarrow> pb_decode_env \<Rightarrow> message_decoder" where
  "with_init noinit env fs dest m s =
     do { m \<leftarrow> pb_message_set_to_defaults env fs dest m;
          (status, m, s) \<leftarrow> noinit fs dest m s;
          m \<leftarrow> (if status then Some m else pb_release env fs dest m);
          Some (status, m, s) }"

primrec pb_decode_noinit :: "nat \<Rightarrow> pb_decode_env \<Rightarrow> message_decoder" where
  "pb_decode_noinit 0 env fs dest m s = None"
| "pb_decode_noinit (Suc n) env fs dest m s =
     decode_message (pb_decode_noinit n env) (with_init (pb_decode_noinit n env) env) env (d_stack env n) fs dest m s"

definition pb_decode :: "nat \<Rightarrow> pb_decode_env \<Rightarrow> message_decoder" where
  "pb_decode n env = with_init (pb_decode_noinit n env) env"

definition delimited :: "message_decoder \<Rightarrow> message_decoder" where
  "delimited decode fs dest m s =
     (case pb_make_string_substream s of
        (None, s) \<Rightarrow> Some (False, m, s)
      | (Some substream, s) \<Rightarrow> map_option (close_substream s) (decode fs dest m substream))"

definition pb_decode_delimited_noinit :: "nat \<Rightarrow> pb_decode_env \<Rightarrow> message_decoder" where
  "pb_decode_delimited_noinit n env = delimited (pb_decode_noinit n env)"

definition pb_decode_delimited :: "nat \<Rightarrow> pb_decode_env \<Rightarrow> message_decoder" where
  "pb_decode_delimited n env = delimited (pb_decode n env)"

definition pb_decode_nullterminated :: "nat \<Rightarrow> pb_decode_env \<Rightarrow> message_decoder" where
  "pb_decode_nullterminated n env = pb_decode n env"

section \<open>A sample\<close>

text \<open>
  A structure with a required integer and an optional 32-bit number behind its flag, an input of the
  values 300 and 7 for it, and a program without callbacks and without memory to allocate.
\<close>

definition pair_fields :: "pb_field_t list" where
  "pair_fields =
     [\<lparr>fld_tag = 1, fld_type = 0x01, data_offset = 0, size_offset = 0, data_size = 4, array_size = 0, fld_ptr = 0\<rparr>,
      \<lparr>fld_tag = 2, fld_type = 0x14, data_offset = 4, size_offset = - 4, data_size = 4, array_size = 0, fld_ptr = 0\<rparr>,
      \<lparr>fld_tag = 0, fld_type = 0, data_offset = 0, size_offset = 0, data_size = 0, array_size = 0, fld_ptr = 0\<rparr>]"

definition pair_world :: pb_world where
  "pair_world = sample_world\<lparr>w_mem := (\<lambda>a. if a = 1000 then 0x2c else if a = 1001 then 1 else if a = 1004 then 1 else if a = 1008 then 7 else 0)\<rparr>"

definition pair_env :: pb_decode_env where
  "pair_env =
     \<lparr>d_fields = (\<lambda>_. pair_fields), d_callback = (\<lambda>_ _ _. None), d_ext_decode = (\<lambda>_. None), d_ext_fields = (\<lambda>_. []),
      d_realloc = (\<lambda>m _ _. (0, m)), d_free = (\<lambda>m _. m), d_stack = (\<lambda>_. 500), d_depth = 2\<rparr>"

abbreviation pair_bytes :: "byte list" where
  "pair_bytes \<equiv> [0x08, 0xac, 0x02, 0x15, 0x07, 0, 0, 0]"

abbreviation pair_stream :: pb_istream_t where
  "pair_stream \<equiv> pb_istream_from_buffer pair_bytes 8"


section \<open>Decoding stays in the stream\<close>

text \<open>
  A substream takes its bytes away from its parent before it is read, so that a failure inside leaves
  the parent with less than it could have. What holds of every result is that the stream is within
  the range it had; a successful call has moved to a later position in it.
\<close>

definition is_within :: "pb_istream_t \<Rightarrow> pb_istream_t \<Rightarrow> bool" where
  "is_within s s' \<longleftrightarrow> is_mem s' = is_mem s \<and> is_pos s \<le> is_pos s' \<and> is_pos s' + bytes_left s' \<le> is_pos s + bytes_left s"

definition result_within :: "pb_istream_t \<Rightarrow> 'm pb_decoded \<Rightarrow> bool" where
  "result_within s r \<longleftrightarrow> (case r of (ok, _, s') \<Rightarrow> is_within s s' \<and> (ok \<longrightarrow> is_advances s s'))"

definition reads_within :: "(memory \<Rightarrow> pb_istream_t \<Rightarrow> memory pb_decoded option) \<Rightarrow> bool" where
  "reads_within decode \<longleftrightarrow> (\<forall>m s r. is_inv s \<longrightarrow> decode m s = Some r \<longrightarrow> result_within s r)"

lemma is_within_refl [simp]: "is_within s s"
  by (simp add: is_within_def)

lemma is_advances_within: "is_advances s s' \<Longrightarrow> is_within s s'"
  by (simp add: is_within_def is_advances_def)

lemma is_within_trans: "is_within s s' \<Longrightarrow> is_within s' s'' \<Longrightarrow> is_within s s''"
  by (auto simp: is_within_def)

lemma is_within_inv: "is_within s s' \<Longrightarrow> is_inv s \<Longrightarrow> is_inv s'"
  by (auto simp: is_within_def is_inv_def)

lemma is_within_error [simp]: "is_within s (is_error m s') = is_within s s'"
  by (simp add: is_within_def is_error_def)

lemma result_within_simps [simp]:
  "result_within s (True, m, s') = is_advances s s'" "result_within s (False, m, s') = is_within s s'"
  using is_advances_within by (auto simp: result_within_def)

lemma result_within_advances: "is_advances s s' \<Longrightarrow> result_within s (ok, m, s')"
  using is_advances_within by (simp add: result_within_def)

lemma result_within_trans: "is_advances s s1 \<Longrightarrow> result_within s1 r \<Longrightarrow> result_within s r"
  using is_advances_within is_within_trans is_advances_trans unfolding result_within_def by (fastforce split: prod.splits)

lemma reads_withinD: "reads_within decode \<Longrightarrow> is_inv s \<Longrightarrow> decode m s = Some r \<Longrightarrow> result_within s r"
  unfolding reads_within_def by blast

text \<open>The decoders of single values.\<close>

lemma advances_cases:
  "get s = (r, s') \<Longrightarrow> pb_reader get \<Longrightarrow> is_advances s s'"
  using pb_reader.advances [of get s] by simp

lemma integer_decoders_advance:
  "is_advances s (snd (snd (pb_dec_bool s field b)))" "is_advances s (snd (snd (pb_dec_varint s field b)))"
  "is_advances s (snd (snd (pb_dec_uvarint s field b)))" "is_advances s (snd (snd (pb_dec_svarint s field b)))"
  "is_advances s (snd (snd (pb_dec_fixed32 s field b)))" "is_advances s (snd (snd (pb_dec_fixed64 s field b)))"
  using rd_varint32.advances [of s] rd_varint.advances [of s] rd_svarint.advances [of s] rd_fixed32.advances [of s] rd_fixed64.advances [of s]
  by (auto simp: pb_dec_bool_def pb_dec_varint_def pb_dec_uvarint_def pb_dec_svarint_def pb_dec_fixed32_def pb_dec_fixed64_def Let_def
    split: prod.splits option.splits)

lemma allocate_field_stream: "is_advances s (snd (snd (allocate_field realloc s ptr d n)))"
  by (auto simp: allocate_field_def split: option.splits)

lemma pb_read_advances: "pb_read s n = (r, s') \<Longrightarrow> is_advances s s'"
  using pb_reader.advances [OF pb_reader_read, of s n] by simp

lemma array_decoders_advance:
  "is_advances s (snd (snd (pb_dec_bytes realloc s field b)))" "is_advances s (snd (snd (pb_dec_string realloc s field b)))"
  "is_advances s (snd (snd (pb_dec_fixed_length_bytes s field c)))"
proof -
  obtain r s1 where v: "pb_decode_varint32 s = (r, s1)" by fastforce
  then have a: "is_advances s s1" using rd_varint32.advances [of s] by simp
  have al: "allocate_field realloc s1 b d n = (ok, c, s2) \<Longrightarrow> is_advances s s2" for d n ok c s2
    using allocate_field_stream [of s1 realloc b d n] is_advances_trans [OF a] by simp
  show "is_advances s (snd (snd (pb_dec_bytes realloc s field b)))"
    using a by (auto simp: pb_dec_bytes_def v Let_def split: option.splits prod.splits bool.splits
      dest!: pb_read_advances al intro: is_advances_trans)
  show "is_advances s (snd (snd (pb_dec_string realloc s field b)))"
    using a by (auto simp: pb_dec_string_def v Let_def split: option.splits prod.splits bool.splits
      dest!: pb_read_advances al intro: is_advances_trans)
  show "is_advances s (snd (snd (pb_dec_fixed_length_bytes s field c)))"
    using a by (auto simp: pb_dec_fixed_length_bytes_def v split: option.splits prod.splits
      dest!: pb_read_advances intro: is_advances_trans)
qed

lemma in_place_advances:
  assumes "\<And>b. is_advances s (snd (snd (dec s field b)))"
  shows "is_advances s (snd (snd (in_place dec field dest m s)))"
  using assms [of "load_bytes (unat (data_size field)) (mem_at m dest)"] by (auto simp: in_place_def split: prod.splits)

lemma in_block_advances:
  assumes "\<And>realloc b. is_advances s (snd (snd (dec realloc s field b)))"
  shows "is_advances s (snd (snd (in_block dec env field dest m s)))"
  using assms [of "block_realloc env m (get_ptr m dest)" None]
    assms [of "block_realloc env m 0" "Some (load_bytes (unat (data_size field)) (mem_at m dest))"]
  by (auto simp: in_block_def Let_def split: prod.splits option.splits)

lemma allocate_at_stream: "allocate_at env m s data d n = (ok, m', s') \<Longrightarrow> is_advances s s'"
  using allocate_field_stream [of s "block_realloc env m (get_ptr m data)" None d n]
  by (auto simp: allocate_at_def Let_def split: prod.splits bool.splits)

lemma make_substream_within:
  assumes "pb_make_string_substream s = (r, s')"
  shows "is_within s s'"
  using rd_varint32.advances [of s] assms
  by (auto simp: pb_make_string_substream_def is_within_def is_advances_def is_error_def split: prod.splits option.splits if_splits)

lemma substream_inv:
  assumes "is_inv s" "pb_make_string_substream s = (Some sub, s1)"
  shows "is_inv sub"
  using substream_closes [OF assms is_advances_refl] by blast

text \<open>Whatever happened in a substream, after closing it the parent is behind it.\<close>

lemma close_substream_within:
  assumes "is_inv s" "pb_make_string_substream s = (Some sub, s1)" "result_within sub (ok, m, sub')"
  shows "result_within s (close_substream s1 (ok, m, sub'))"
proof (cases ok)
  case True
  then have "is_advances sub sub'" using assms(3) by simp
  from substream_closes [OF assms(1,2) this] obtain s2 where "pb_close_string_substream s1 sub' = (True, s2)" "is_advances s s2" by blast
  then show ?thesis by (simp add: close_substream_def result_within_advances)
next
  case False
  then have w: "is_within sub sub'" using assms(3) by simp
  obtain n p where p: "is_advances s p" "n \<le> bytes_left p" "sub = p\<lparr>bytes_left := n\<rparr>" "s1 = p\<lparr>bytes_left := bytes_left p - n\<rparr>"
    using assms(2) rd_varint32.advances [of s]
    by (auto simp: pb_make_string_substream_def not_less split: prod.splits option.splits if_splits)
  show ?thesis using w p False
    by (auto simp: close_substream_def pb_close_string_substream_def pb_read_def buf_read_def is_within_def is_advances_def)
qed

text \<open>
  What is asked of an application: its decoders read within the stream they get. The fields and the message
  follow, whatever the input, the memory and the descriptors are.
\<close>

definition app_reads_within :: "pb_decode_env \<Rightarrow> bool" where
  "app_reads_within env \<longleftrightarrow>
     (\<forall>field data m dec m1 s. d_callback env field data m = Some dec \<longrightarrow> is_inv s \<longrightarrow> result_within s (dec m1 s)) \<and>
     (\<forall>type dec ext tag wt m s. d_ext_decode env type = Some dec \<longrightarrow> is_inv s \<longrightarrow> result_within s (dec ext tag wt m s))"

definition messages_within :: "message_decoder \<Rightarrow> bool" where
  "messages_within decode \<longleftrightarrow> (\<forall>fs dest. reads_within (decode fs dest))"

lemma submessage_within:
  assumes "messages_within noinit" "messages_within init"
  shows "reads_within (pb_dec_submessage noinit init env field dest)"
  unfolding reads_within_def
proof (intro allI impI)
  fix m s r assume s: "is_inv s" and r: "pb_dec_submessage noinit init env field dest m s = Some r"
  let ?decode = "if PB_HTYPE (fld_type field) = PB_HTYPE_REPEATED then init else noinit"
  have d: "reads_within (?decode fs a)" for fs a using assms by (simp add: messages_within_def)
  obtain x s1 where x: "pb_make_string_substream s = (x, s1)" by fastforce
  show "result_within s r"
  proof (cases "x = None \<or> fld_ptr field = 0")
    case True
    then show ?thesis using r make_substream_within [OF x] by (auto simp: pb_dec_submessage_def x split: option.splits)
  next
    case False
    then obtain sub where sub: "x = Some sub" by auto
    with r x False obtain ok m' sub' where
      "?decode (d_fields env (fld_ptr field)) dest m sub = Some (ok, m', sub')" "r = close_substream s1 (ok, m', sub')"
      by (auto simp: pb_dec_submessage_def)
    then show ?thesis
      using close_substream_within [OF s x [unfolded sub]] reads_withinD [OF d substream_inv [OF s x [unfolded sub]]] by blast
  qed
qed

lemma decoders_within:
  assumes "messages_within noinit" "messages_within init"
  shows "reads_within (PB_DECODERS noinit init env field dest)"
  unfolding reads_within_def
proof (intro allI impI)
  fix m s r assume s: "is_inv s" and r: "PB_DECODERS noinit init env field dest m s = Some r"
  have place: "result_within s (in_place dec field dest m s)" if "\<And>b. is_advances s (snd (snd (dec s field b)))" for dec
    using in_place_advances [where dec = dec and dest = dest and m = m, OF that] by (cases "in_place dec field dest m s") (simp add: result_within_advances)
  have block: "result_within s (in_block dec env field dest m s)" if "\<And>realloc b. is_advances s (snd (snd (dec realloc s field b)))" for dec
    using in_block_advances [where dec = dec and env = env and dest = dest and m = m, OF that] by (cases "in_block dec env field dest m s") (simp add: result_within_advances)
  note adv = integer_decoders_advance array_decoders_advance
  show "result_within s r"
    using r reads_withinD [OF submessage_within [OF assms] s]
      place [of pb_dec_bool, OF adv(1)] place [of pb_dec_varint, OF adv(2)] place [of pb_dec_uvarint, OF adv(3)]
      place [of pb_dec_svarint, OF adv(4)] place [of pb_dec_fixed32, OF adv(5)] place [of pb_dec_fixed64, OF adv(6)]
      block [of pb_dec_bytes, OF adv(7)] block [of pb_dec_string, OF adv(8)] place [of pb_dec_fixed_length_bytes, OF adv(9)]
    unfolding PB_DECODERS_def Let_def by (auto split: if_split_asm)
qed

lemma packed_loop_within:
  assumes func: "\<And>a. reads_within (func a)"
  shows "is_inv s \<Longrightarrow> packed_loop func iter k m s = Some r \<Longrightarrow> result_within s r"
proof (induction k arbitrary: m s r)
  case (Suc k)
  show ?case
  proof (cases "bytes_left s > 0 \<and> get_u32 m (pSize iter) < array_size (iter_field iter)")
    case True
    then obtain ok m1 s1 where f: "func (item_at (iter_field iter) (pData iter) (get_u32 m (pSize iter))) m s = Some (ok, m1, s1)"
      using Suc.prems(2) by (auto simp: Let_def bind_eq_Some_conv)
    have w: "result_within s (ok, m1, s1)" by (rule reads_withinD [OF func Suc.prems(1) f])
    show ?thesis
    proof (cases ok)
      case True
      then have "is_advances s s1" using w by simp
      moreover have "packed_loop func iter k (put_u32 m1 (pSize iter) (get_u32 m1 (pSize iter) + 1)) s1 = Some r"
        using Suc.prems(2) f True \<open>bytes_left s > 0 \<and> _\<close> by (simp add: Let_def)
      ultimately show ?thesis using Suc.IH [OF is_advances_inv [OF _ Suc.prems(1)]] result_within_trans by blast
    next
      case False
      then show ?thesis using Suc.prems(2) f w \<open>bytes_left s > 0 \<and> _\<close> by (simp add: Let_def)
    qed
  next
    case False
    then show ?thesis using Suc.prems(2) by (auto simp: Let_def)
  qed
qed simp

lemma static_field_within:
  assumes "messages_within noinit" "messages_within init"
  shows "reads_within (decode_static_field noinit init env wt iter)"
  unfolding reads_within_def
proof (intro allI impI)
  fix m s r assume s: "is_inv s" and r: "decode_static_field noinit init env wt iter m s = Some r"
  note func = decoders_within [OF assms, where env = env and field = "iter_field iter"]
  let ?func = "PB_DECODERS noinit init env (iter_field iter)"
  have packed: "result_within s r"
    if c: "(case pb_make_string_substream s of (None, s) \<Rightarrow> Some (False, m, s)
      | (Some sub, s) \<Rightarrow> do { (status, m, sub) \<leftarrow> packed_loop ?func iter (Suc (bytes_left sub)) m sub;
          if bytes_left sub \<noteq> 0 then Some (False, m, is_error ''array overflow'' s) else Some (close_substream s (status, m, sub)) }) = Some r"
  proof -
    obtain x s1 where x: "pb_make_string_substream s = (x, s1)" by fastforce
    show ?thesis
    proof (cases x)
      case None
      then show ?thesis using c make_substream_within [OF x] by (auto simp: x)
    next
      case (Some sub)
      then obtain ok m1 sub1 where l: "packed_loop ?func iter (Suc (bytes_left sub)) m sub = Some (ok, m1, sub1)"
        "r = (if bytes_left sub1 \<noteq> 0 then (False, m1, is_error ''array overflow'' s1) else close_substream s1 (ok, m1, sub1))"
        using c by (auto simp: x bind_eq_Some_conv simp del: packed_loop.simps split: if_splits)
      from packed_loop_within [OF func substream_inv [OF s x [unfolded Some]] l(1)]
      show ?thesis using l(2) close_substream_within [OF s x [unfolded Some]] make_substream_within [OF x] by simp
    qed
  qed
  show "result_within s r"
    using r packed reads_withinD [OF func s] unfolding decode_static_field_def Let_def
    by (cases r) (auto simp: bind_eq_Some_conv simp del: packed_loop.simps split: if_split_asm)
qed

lemma grow_loop_within:
  assumes func: "\<And>a. reads_within (func a)"
  shows "is_inv s \<Longrightarrow> grow_loop func env iter k allocated m s = Some (err, r) \<Longrightarrow> result_within s r"
proof (induction k arbitrary: allocated m s err r)
  case (Suc k)
  let ?field = "iter_field iter"
  let ?more = "unat (get_u32 m (pSize iter)) + 1 > allocated"
  obtain alloc' where e: "grow_loop func env iter (Suc k) allocated m s =
     (if bytes_left s = 0 then Some (None, True, m, s)
      else if get_u32 m (pSize iter) = PB_SIZE_MAX then Some (Some ''too many array entries'', False, m, s)
      else (case (if ?more then allocate_at env m s (pData iter) (unat (data_size ?field)) alloc' else (True, m, s)) of
              (False, m, s) \<Rightarrow> Some (None, False, m, s)
            | (True, m, s) \<Rightarrow>
                (let item = item_at ?field (get_ptr m (pData iter)) (get_u32 m (pSize iter)) in
                 if item = 0 then Some (None, False, m, s)
                 else do { m \<leftarrow> initialize_pointer_field env ?field item m;
                           (ok, m, s) \<leftarrow> func item m s;
                           if ok then grow_loop func env iter k alloc' (put_u32 m (pSize iter) (get_u32 m (pSize iter) + 1)) s
                           else Some (None, False, m, s) })))"
    unfolding grow_loop.simps Let_def by blast
  obtain aok m1 s1 where a: "(if ?more then allocate_at env m s (pData iter) (unat (data_size ?field)) alloc' else (True, m, s)) = (aok, m1, s1)"
    by (metis prod_cases3)
  then have a1: "is_advances s s1" using allocate_at_stream by (auto split: if_split_asm)
  consider "bytes_left s = 0 \<or> get_u32 m (pSize iter) = PB_SIZE_MAX"
    | "aok = False \<or> item_at ?field (get_ptr m1 (pData iter)) (get_u32 m1 (pSize iter)) = 0"
      "\<not> (bytes_left s = 0 \<or> get_u32 m (pSize iter) = PB_SIZE_MAX)"
    | m2 ok m3 s3 where "func (item_at ?field (get_ptr m1 (pData iter)) (get_u32 m1 (pSize iter))) m2 s1 = Some (ok, m3, s3)"
      "(if ok then grow_loop func env iter k alloc' (put_u32 m3 (pSize iter) (get_u32 m3 (pSize iter) + 1)) s3
        else Some (None, False, m3, s3)) = Some (err, r)"
    using Suc.prems(2) unfolding e a by (cases aok) (auto simp: Let_def bind_eq_Some_conv split: if_split_asm)
  then show ?case
  proof cases
    case 1
    then show ?thesis using Suc.prems(2) unfolding e by (auto split: if_split_asm)
  next
    case 2
    then show ?thesis using Suc.prems(2) a1 is_advances_within unfolding e a by (cases aok) (auto simp: Let_def)
  next
    case (3 m2 ok m3 s3)
    have w: "result_within s1 (ok, m3, s3)" by (rule reads_withinD [OF func is_advances_inv [OF a1 Suc.prems(1)] 3(1)])
    then have w': "result_within s (ok, m3, s3)" by (rule result_within_trans [OF a1])
    show ?thesis
    proof (cases ok)
      case True
      then have "is_advances s s3" using w' by simp
      then show ?thesis using Suc.IH [OF is_advances_inv [OF _ Suc.prems(1)]] 3(2) True result_within_trans by fastforce
    next
      case False
      then show ?thesis using 3(2) w' by simp
    qed
  qed
qed simp

lemma pointer_field_within:
  assumes "messages_within noinit" "messages_within init"
  shows "reads_within (decode_pointer_field noinit init env wt iter)"
  unfolding reads_within_def
proof (intro allI impI)
  fix m s r assume s: "is_inv s" and r: "decode_pointer_field noinit init env wt iter m s = Some r"
  note func = decoders_within [OF assms, where env = env and field = "iter_field iter"]
  let ?func = "PB_DECODERS noinit init env (iter_field iter)"
  have packed: "result_within s r"
    if c: "(case pb_make_string_substream s of (None, s) \<Rightarrow> Some (False, m, s)
      | (Some sub, s) \<Rightarrow> do { (err, r) \<leftarrow> grow_loop ?func env iter (Suc (bytes_left sub)) (unat (get_u32 m (pSize iter))) m sub;
          Some (close_substream (if err = None then s else s\<lparr>is_errmsg := err\<rparr>) r) }) = Some r"
  proof -
    obtain x s1 where x: "pb_make_string_substream s = (x, s1)" by fastforce
    show ?thesis
    proof (cases x)
      case None
      then show ?thesis using c make_substream_within [OF x] by (auto simp: x)
    next
      case (Some sub)
      then obtain err ok m1 sub1 where l: "grow_loop ?func env iter (Suc (bytes_left sub)) (unat (get_u32 m (pSize iter))) m sub = Some (err, ok, m1, sub1)"
        "r = close_substream (if err = None then s1 else s1\<lparr>is_errmsg := err\<rparr>) (ok, m1, sub1)"
        using c by (auto simp: x bind_eq_Some_conv simp del: grow_loop.simps)
      have "close_substream (s1\<lparr>is_errmsg := err\<rparr>) (ok, m1, sub1) = close_substream s1 (ok, m1, sub1) \<or>
          (\<exists>s2. close_substream (s1\<lparr>is_errmsg := err\<rparr>) (ok, m1, sub1) = (False, m1, s1\<lparr>is_errmsg := err\<rparr>))"
        by (auto simp: close_substream_def pb_close_string_substream_def split: prod.splits option.splits)
      moreover have "is_within s (s1\<lparr>is_errmsg := err\<rparr>)" using make_substream_within [OF x] by (simp add: is_within_def)
      ultimately show ?thesis using grow_loop_within [OF func substream_inv [OF s x [unfolded Some]] l(1)]
        l(2) close_substream_within [OF s x [unfolded Some]] by (auto split: if_split_asm)
    qed
  qed
  have one: "result_within s r" if "allocate_at env m1 s a d n = (True, m2, s2)" "?func item m3 s2 = Some r" for m1 a d n m2 s2 item m3
    using result_within_trans [OF allocate_at_stream [OF that(1)] reads_withinD [OF func is_advances_inv [OF allocate_at_stream [OF that(1)] s] that(2)]] .
  have failed: "result_within s (False, m2, s2)" if "allocate_at env m1 s a d n = (False, m2, s2)" for m1 a d n m2 s2
    using is_advances_within [OF allocate_at_stream [OF that]] by simp
  show "result_within s r"
    using r packed reads_withinD [OF func s] one failed unfolding decode_pointer_field_def Let_def
    by (cases r) (auto simp: bind_eq_Some_conv simp del: grow_loop.simps split: if_split_asm prod.splits bool.splits)
qed

lemma callback_loop_within:
  assumes "\<And>m s. is_inv s \<Longrightarrow> result_within s (dec m s)"
  shows "is_inv s \<Longrightarrow> callback_loop dec k m s = Some r \<Longrightarrow> result_within s r"
proof (induction k arbitrary: m s)
  case (Suc k)
  obtain ok m1 s1 where d: "dec m s = (ok, m1, s1)" by (metis prod_cases3)
  then have w: "result_within s (ok, m1, s1)" using assms [OF Suc.prems(1), of m] by simp
  show ?case
  proof (cases "ok \<and> bytes_left s1 \<noteq> 0")
    case True
    then have "is_advances s s1" "callback_loop dec k m1 s1 = Some r" using w Suc.prems(2) d by auto
    then show ?thesis using Suc.IH [OF is_advances_inv [OF _ Suc.prems(1)]] result_within_trans by blast
  next
    case False
    then show ?thesis using Suc.prems(2) d w by (cases ok) auto
  qed
qed simp

lemma raw_varint_loop_advances: "is_advances s (snd (raw_varint_loop s limit acc))"
proof (induction s limit acc rule: raw_varint_loop.induct)
  case (1 s limit acc)
  obtain r s1 where p: "pb_read s 1 = (r, s1)" by fastforce
  then have "is_advances s s1" by (rule pb_read_advances)
  with 1 p show ?case by (subst raw_varint_loop.simps) (auto split: option.splits intro: is_advances_trans)
qed

lemma read_raw_value_advances: "read_raw_value s wt limit = (r, s') \<Longrightarrow> is_advances s s'"
  using raw_varint_loop_advances [of s limit "[]"] pb_read_advances
  by (auto simp: read_raw_value_def split: if_split_asm)

lemma callback_field_within:
  assumes "app_reads_within env"
  shows "reads_within (decode_callback_field env wt iter)"
  unfolding reads_within_def
proof (intro allI impI)
  fix m s r assume s: "is_inv s" and r: "decode_callback_field env wt iter m s = Some r"
  show "result_within s r"
  proof (cases "if pData iter = 0 then None else d_callback env (iter_field iter) (pData iter) m")
    case None
    then show ?thesis using r rd_skip_field.advances [of s wt]
      by (auto simp: decode_callback_field_def intro: result_within_advances split: prod.splits)
  next
    case (Some dec)
    then have dec: "is_inv s \<Longrightarrow> result_within s (dec m s)" for m s
      using assms by (auto simp: app_reads_within_def split: if_split_asm)
    obtain x s1 where x: "pb_make_string_substream s = (x, s1)" by fastforce
    show ?thesis
    proof (cases "wt = PB_WT_STRING")
      case str: True
      show ?thesis
      proof (cases x)
        case None
        then show ?thesis using r Some str make_substream_within [OF x] by (auto simp: decode_callback_field_def x)
      next
        case sub: (Some sub)
        then obtain ok m1 sub1 where l: "callback_loop dec (Suc (bytes_left sub)) m sub = Some (ok, m1, sub1)"
          "r = (if ok then close_substream s1 (True, m1, sub1) else (False, m1, is_error ''callback failed'' s1))"
          using r Some str by (auto simp: decode_callback_field_def x bind_eq_Some_conv simp del: callback_loop.simps split: if_split_asm)
        from callback_loop_within [OF dec substream_inv [OF s x [unfolded sub]] l(1)]
        show ?thesis using l(2) close_substream_within [OF s x [unfolded sub]] make_substream_within [OF x] by (cases ok) auto
      qed
    next
      case False
      then show ?thesis using r Some
        by (auto simp: decode_callback_field_def dest!: read_raw_value_advances intro: result_within_advances split: prod.splits option.splits)
    qed
  qed
qed

lemma release_union_stream:
  assumes "pb_release_union_field env m s iter = Some ((ok, m', s'), iter')"
  shows "is_advances s s'"
  using assms by (auto simp: pb_release_union_field_def Let_def bind_eq_Some_conv split: if_split_asm)

text \<open>The same for what decodes the field an iterator is on.\<close>

definition fields_within :: "iter_decoder \<Rightarrow> bool" where
  "fields_within decode \<longleftrightarrow>
     (\<forall>wt iter m s r iter'. is_inv s \<longrightarrow> decode wt iter m s = Some (r, iter') \<longrightarrow> result_within s r)"

lemma decode_field_within:
  assumes "messages_within noinit" "messages_within init" "app_reads_within env"
  shows "fields_within (decode_field noinit init env)"
  unfolding fields_within_def
proof (intro allI impI)
  fix wt iter m s r iter'
  assume s: "is_inv s" and r: "decode_field noinit init env wt iter m s = Some (r, iter')"
  let ?release = "if PB_HTYPE (fld_type (iter_field iter)) = PB_HTYPE_ONEOF then pb_release_union_field env m s iter else Some ((True, m, s), iter)"
  obtain ok m1 s1 iter1 where u: "?release = Some ((ok, m1, s1), iter1)"
    using r unfolding decode_field_def by (cases ?release) auto
  have a: "is_advances s s1" using u release_union_stream by (auto split: if_split_asm)
  show "result_within s r"
  proof (cases ok)
    case True
    then have "is_inv s1" using is_advances_inv [OF a s] by simp
    from reads_withinD [OF static_field_within [OF assms(1,2)] this] reads_withinD [OF pointer_field_within [OF assms(1,2)] this]
      reads_withinD [OF callback_field_within [OF assms(3)] this] r u True
    have "result_within s1 r" unfolding decode_field_def u Let_def by (cases r) (auto split: if_split_asm)
    then show ?thesis by (rule result_within_trans [OF a])
  next
    case False
    then show ?thesis using r is_advances_within [OF a] unfolding decode_field_def u by auto
  qed
qed

lemma extension_within:
  assumes dec: "fields_within decode" and app: "app_reads_within env"
  shows "is_inv s \<Longrightarrow> decode_extension_loop decode env tag wt pos k ext m s = Some r \<Longrightarrow> result_within s r"
proof (induction k arbitrary: ext m s)
  case (Suc k)
  let ?one = "case d_ext_decode env (get_ptr m ext) of Some ext_decode \<Rightarrow> Some (ext_decode ext tag wt m s)
    | None \<Rightarrow> default_extension_decoder decode env ext tag wt m s"
  show ?case
  proof (cases "ext \<noteq> 0 \<and> pos = bytes_left s")
    case True
    then obtain ok m1 s1 where o: "?one = Some (ok, m1, s1)"
      using Suc.prems(2) by (auto simp: bind_eq_Some_conv split: option.splits)
    have w: "result_within s (ok, m1, s1)"
    proof (cases "d_ext_decode env (get_ptr m ext)")
      case None
      then show ?thesis using o dec Suc.prems(1)
        by (auto simp: default_extension_decoder_def fields_within_def split: if_split_asm)
    next
      case (Some ext_decode)
      then show ?thesis using o app Suc.prems(1) by (auto simp: app_reads_within_def) (metis)
    qed
    show ?thesis
    proof (cases ok)
      case ok: True
      have "decode_extension_loop decode env tag wt pos k (get_ptr m1 (ext + 16)) m1 s1 = Some r"
        using Suc.prems(2) True o ok by simp
      moreover have a: "is_advances s s1" using w ok by simp
      ultimately show ?thesis using Suc.IH [OF is_advances_inv [OF a Suc.prems(1)]] result_within_trans [OF a] by blast
    next
      case False
      then show ?thesis using Suc.prems(2) True o w by simp
    qed
  next
    case False
    then show ?thesis using Suc.prems(2) by (auto split: if_split_asm)
  qed
qed simp

lemma unknown_within:
  assumes dec: "fields_within decode" and app: "app_reads_within env" and s: "is_inv s"
    and r: "decode_unknown decode env tag wt v m s = Some (r, v')"
  shows "result_within s r"
proof -
  have "(\<exists>m1 s1. (m1 = m \<and> s1 = s \<or> (\<exists>iter. decode_extension decode env tag wt iter m s = Some (True, m1, s1))) \<and>
      r = (fst (pb_skip_field s1 wt) \<noteq> None, m1, snd (pb_skip_field s1 wt))) \<or>
    (\<exists>iter. decode_extension decode env tag wt iter m s = Some r)"
    using r unfolding decode_unknown_def Let_def
    by (auto simp: bind_eq_Some_conv split: if_split_asm) metis+
  then consider (skip) m1 s1 where "m1 = m \<and> s1 = s \<or> (\<exists>iter. decode_extension decode env tag wt iter m s = Some (True, m1, s1))"
      "r = (fst (pb_skip_field s1 wt) \<noteq> None, m1, snd (pb_skip_field s1 wt))"
    | (ext) iter where "decode_extension decode env tag wt iter m s = Some r" by blast
  then show ?thesis
  proof cases
    case (skip m1 s1)
    then have "is_advances s s1" using extension_within [OF dec app s] by (fastforce simp: decode_extension_def simp del: decode_extension_loop.simps)
    from is_advances_trans [OF this rd_skip_field.advances] show ?thesis unfolding skip(2) by (rule result_within_advances)
  next
    case ext
    then show ?thesis using extension_within [OF dec app s] by (simp add: decode_extension_def del: decode_extension_loop.simps)
  qed
qed

lemma known_within:
  assumes dec: "fields_within decode" and s: "is_inv s" and r: "decode_known decode cell wt v m s = Some (r, v')"
  shows "result_within s r"
  using r dec s unfolding decode_known_def Let_def fields_within_def
  by (auto simp: bind_eq_Some_conv split: option.splits) blast

lemma tag_reader: "is_advances s (snd (snd (pb_decode_tag s)))"
  using rd_varint32.advances [of s] unfolding pb_decode_tag_def pb_decode_varint32_def by (auto split: prod.splits option.splits)

lemma step_within:
  assumes dec: "fields_within decode" and app: "app_reads_within env" and s: "is_inv s"
    and r: "decode_step decode env cell v m s = Some (x, v', m', s')"
  shows "result_within s (x \<noteq> Some False, m', s')"
proof -
  obtain t eof s1 where t: "pb_decode_tag s = (t, eof, s1)" by (metis prod_cases3)
  then have a: "is_advances s s1" using tag_reader [of s] by simp
  show ?thesis
  proof (cases t)
    case None
    then show ?thesis using r t a by (auto simp: decode_step_def intro: result_within_advances)
  next
    case (Some wt_tag)
    obtain wt tag where wt: "wt_tag = (wt, tag)" by fastforce
    obtain found iter ok where f: "pb_field_iter_find (v_iter v) tag = Some (found, iter)" "x = Some ok"
      "(if found then decode_known decode cell wt (v\<lparr>v_iter := iter\<rparr>) m s1
        else decode_unknown decode env tag wt (v\<lparr>v_iter := iter\<rparr>) m s1) = Some ((ok, m', s'), v')"
      using r t Some wt by (auto simp: decode_step_def bind_eq_Some_conv)
    have "result_within s1 (ok, m', s')"
      using f(3) unknown_within [OF dec app is_advances_inv [OF a s]] known_within [OF dec is_advances_inv [OF a s]]
      by (auto split: if_split_asm)
    from result_within_trans [OF a this] show ?thesis using f(2) by (cases ok) simp_all
  qed
qed

lemma loop_within:
  assumes dec: "fields_within decode" and app: "app_reads_within env"
  shows "is_inv s \<Longrightarrow> decode_loop decode env cell k v m s = Some (ok, v', m', s') \<Longrightarrow> result_within s (ok, m', s')"
proof (induction k arbitrary: v m s)
  case (Suc k)
  show ?case
  proof (cases "bytes_left s = 0")
    case True
    then show ?thesis using Suc.prems(2) by simp
  next
    case False
    then obtain x v1 m1 s1 where st: "decode_step decode env cell v m s = Some (x, v1, m1, s1)"
      using Suc.prems(2) by (auto simp: bind_eq_Some_conv)
    have w: "result_within s (x \<noteq> Some False, m1, s1)" by (rule step_within [OF dec app Suc.prems(1) st])
    show ?thesis
    proof (cases "x = Some True")
      case True
      then have a: "is_advances s s1" and l: "decode_loop decode env cell k v1 m1 s1 = Some (ok, v', m', s')"
        using w Suc.prems(2) st False by auto
      show ?thesis by (rule result_within_trans [OF a Suc.IH [OF is_advances_inv [OF a Suc.prems(1)] l]])
    next
      case nt: False
      then show ?thesis using Suc.prems(2) st False w by (cases x) auto
    qed
  qed
qed simp

lemma message_within:
  assumes "messages_within noinit" "messages_within init" "app_reads_within env"
  shows "messages_within (decode_message noinit init env cell)"
  unfolding messages_within_def reads_within_def
proof (intro allI impI)
  fix fs dest m s r assume s: "is_inv s" and r: "decode_message noinit init env cell fs dest m s = Some r"
  obtain ok v m1 s1 where l: "decode_loop (decode_field noinit init env) env cell (Suc (bytes_left s))
      \<lparr>fields_seen = [0, 0], extension_range_start = 0, v_iter = snd (pb_field_iter_begin fs dest), fixed_count_field = None\<rparr>
      (put_u32 m cell 0) s = Some (ok, v, m1, s1)"
    using r by (auto simp: decode_message_def bind_eq_Some_conv simp del: decode_loop.simps)
  have "result_within s (ok, m1, s1)" by (rule loop_within [OF decode_field_within [OF assms] assms(3) s l])
  then show "result_within s r" using r is_advances_within
    by (auto simp: decode_message_def l bind_eq_Some_conv simp del: decode_loop.simps split: if_split_asm)
qed

lemma init_within: "messages_within noinit \<Longrightarrow> messages_within (with_init noinit env)"
  by (auto simp: messages_within_def reads_within_def with_init_def bind_eq_Some_conv result_within_def split: if_split_asm)

lemma noinit_within: "app_reads_within env \<Longrightarrow> messages_within (pb_decode_noinit n env)"
proof (induction n)
  case 0
  then show ?case by (simp add: messages_within_def reads_within_def)
next
  case (Suc n)
  then have "messages_within (pb_decode_noinit n env)" by simp
  from message_within [OF this init_within [OF this] Suc.prems] show ?case
    by (simp add: messages_within_def reads_within_def)
qed

lemma delimited_within: "messages_within decode \<Longrightarrow> messages_within (delimited decode)"
  unfolding messages_within_def reads_within_def
proof (intro allI impI)
  fix fs dest m s r
  assume dec: "\<forall>fs dest m s r. is_inv s \<longrightarrow> decode fs dest m s = Some r \<longrightarrow> result_within s r"
    and s: "is_inv s" and r: "delimited decode fs dest m s = Some r"
  obtain x s1 where x: "pb_make_string_substream s = (x, s1)" by fastforce
  show "result_within s r"
  proof (cases x)
    case None
    then show ?thesis using r make_substream_within [OF x] by (auto simp: delimited_def x)
  next
    case (Some sub)
    then obtain ok m1 sub1 where d: "decode fs dest m sub = Some (ok, m1, sub1)" "r = close_substream s1 (ok, m1, sub1)"
      using r by (auto simp: delimited_def x)
    then show ?thesis using close_substream_within [OF s x [unfolded Some]] dec substream_inv [OF s x [unfolded Some]] by blast
  qed
qed

text \<open>
  Every result of these decoders stays in the stream, for any message type, recursive or with
  extensions, any memory and any bound on the nesting.
\<close>

lemma messages_stay:
  assumes "app_reads_within env"
  shows "messages_within (pb_decode_noinit n env)" "messages_within (pb_decode n env)" "messages_within (pb_decode_nullterminated n env)"
    "messages_within (pb_decode_delimited n env)" "messages_within (pb_decode_delimited_noinit n env)"
  using noinit_within [OF assms] init_within delimited_within
  by (simp_all add: pb_decode_def pb_decode_nullterminated_def pb_decode_delimited_def pb_decode_delimited_noinit_def)

lemma pair_decode_value:
  "map_option (\<lambda>(ok, m, s). (ok, bytes_left s, m 2000, m 2001, m 2004, m 2008))
     (pb_decode_noinit 1 pair_env pair_fields 2000 (\<lambda>_. 0) pair_stream) = Some (True, 0, 0x2c, 1, 1, 7)"
  by code_simp

text \<open>
  An empty message type is the terminator of the descriptors alone. The search for field number zero
  finds it, and the field is not skipped: the terminator reads as a required boolean at offset zero.
\<close>

definition empty_fields :: "pb_field_t list" where
  "empty_fields = [\<lparr>fld_tag = 0, fld_type = 0, data_offset = 0, size_offset = 0, data_size = 0, array_size = 0, fld_ptr = 0\<rparr>]"

lemma pb_decode_empty_message_writes:
  "map_option (\<lambda>(ok, m, s). (ok, bytes_left s, m 2000))
     (pb_decode_noinit 1 pair_env empty_fields 2000 (\<lambda>_. 7) (pb_istream_from_buffer [0x01, 0x05] 2)) = Some (True, 0, 1)"
  by code_simp

end
