(* ===== verification/Pb_Decode_Returns.thy ===== *)
theory Pb_Decode_Returns
  imports Pb_Message_Decode
begin

text \<open>
  Decoding a message returns on every input: the loops over fields, array entries and descriptors end
  and the recursion into submessages is bounded by the bytes that are left.
\<close>

unbundle bit_operations_syntax

section \<open>Decoding returns\<close>

text \<open>
  Message types whose fields have decoders and no extensions, and that do not contain themselves:
  \<open>rank\<close> falls from a message type to the types of its submessages, and \<open>d_depth\<close> is above all ranks.
\<close>

definition known_type :: "pb_field_t \<Rightarrow> bool" where
  "known_type f \<longleftrightarrow> PB_LTYPE (fld_type f) \<noteq> PB_LTYPE_EXTENSION \<and> PB_LTYPE (fld_type f) \<le> PB_LTYPE_FIXED_LENGTH_BYTES"

definition types_ok :: "pb_field_t list \<Rightarrow> bool" where
  "types_ok fs \<longleftrightarrow> wf_fields fs \<and> (\<forall>f\<in>set fs. known_type f)"

definition ranked :: "pb_decode_env \<Rightarrow> (int \<Rightarrow> nat) \<Rightarrow> bool" where
  "ranked env rank \<longleftrightarrow>
     (\<forall>p. types_ok (d_fields env p) \<and> Suc (rank p) < d_depth env \<and>
        (\<forall>f\<in>set (d_fields env p). PB_LTYPE (fld_type f) = PB_LTYPE_SUBMESSAGE \<longrightarrow> rank (fld_ptr f) < rank p))"

lemma returns_intros:
  "Some x \<noteq> None"
  "(c \<Longrightarrow> y \<noteq> None) \<Longrightarrow> (\<not> c \<Longrightarrow> z \<noteq> None) \<Longrightarrow> (if c then y else z) \<noteq> None"
  "u \<noteq> None \<Longrightarrow> (\<And>a. u = Some a \<Longrightarrow> g a \<noteq> None) \<Longrightarrow> Option.bind u g \<noteq> None"
  "u \<noteq> None \<Longrightarrow> map_option h u \<noteq> None"
  "(\<And>a b. p = (a, b) \<Longrightarrow> k a b \<noteq> None) \<Longrightarrow> (case p of (a, b) \<Rightarrow> k a b) \<noteq> None"
  "(b \<Longrightarrow> y \<noteq> None) \<Longrightarrow> (\<not> b \<Longrightarrow> z \<noteq> None) \<Longrightarrow> (case b of True \<Rightarrow> y | False \<Rightarrow> z) \<noteq> None"
  "(o' = None \<Longrightarrow> y \<noteq> None) \<Longrightarrow> (\<And>a. o' = Some a \<Longrightarrow> l a \<noteq> None) \<Longrightarrow> (case o' of None \<Rightarrow> y | Some a \<Rightarrow> l a) \<noteq> None"
  by (cases u; cases p; cases b; cases o'; auto)+

text \<open>An iterator over such a type, whatever addresses it holds.\<close>

definition iter_valid :: "pb_field_iter_t \<Rightarrow> bool" where
  "iter_valid iter \<longleftrightarrow> types_ok (iter_fields iter) \<and> iter_pos iter < max 1 (nfields (iter_fields iter))"

lemma begin_valid: "types_ok fs \<Longrightarrow> iter_valid (snd (pb_field_iter_begin fs dest)) \<and>
    fst (pb_field_iter_begin fs dest) = (0 < nfields fs) \<and> iter_pos (snd (pb_field_iter_begin fs dest)) = 0 \<and>
    iter_fields (snd (pb_field_iter_begin fs dest)) = fs"
  using field_tag_zero_iff [of fs 0] by (auto simp: iter_valid_def pb_field_iter_begin_def Let_def types_ok_def)

lemma next_valid:
  assumes "iter_valid iter"
  shows "iter_valid (snd (pb_field_iter_next iter)) \<and> iter_fields (snd (pb_field_iter_next iter)) = iter_fields iter \<and>
    (if Suc (iter_pos iter) < nfields (iter_fields iter)
     then fst (pb_field_iter_next iter) \<and> iter_pos (snd (pb_field_iter_next iter)) = Suc (iter_pos iter)
     else \<not> fst (pb_field_iter_next iter) \<and> iter_pos (snd (pb_field_iter_next iter)) = 0)"
proof (cases "nfields (iter_fields iter) = 0")
  case True
  then have "iter_pos iter = 0" using assms by (simp add: iter_valid_def)
  moreover then have "fld_tag (iter_field iter) = 0"
    using assms True field_tag_zero_iff [of "iter_fields iter" 0] by (simp add: iter_valid_def types_ok_def iter_field_def)
  ultimately show ?thesis using assms True by (simp add: pb_field_iter_next_def)
next
  case False
  let ?fs = "iter_fields iter" and ?i = "iter_pos iter"
  have wf: "wf_fields ?fs" "types_ok ?fs" and i: "?i < nfields ?fs" using assms False by (auto simp: iter_valid_def types_ok_def)
  have t: "fld_tag (?fs ! ?i) \<noteq> 0" "fld_tag (?fs ! Suc ?i) = 0 \<longleftrightarrow> \<not> Suc ?i < nfields ?fs"
    using field_tag_zero_iff [OF wf(1), of ?i] field_tag_zero_iff [OF wf(1), of "Suc ?i"] i by auto
  show ?thesis using pb_field_iter_next_eq [OF t(1) refl refl] t(2) begin_valid [OF wf(2)] wf(2)
    by (auto simp: iter_valid_def)
qed

lemma valid_field: "iter_valid iter \<Longrightarrow> iter_field iter \<in> set (iter_fields iter) \<and> known_type (iter_field iter)"
proof -
  assume v: "iter_valid iter"
  then have "iter_fields iter \<noteq> []" by (simp add: iter_valid_def types_ok_def wf_fields_def)
  then have "iter_pos iter < length (iter_fields iter)" using v by (cases "iter_fields iter") (auto simp: iter_valid_def nfields_def)
  then show ?thesis using v by (auto simp: iter_valid_def types_ok_def iter_field_def)
qed

text \<open>The loops that go around the fields once return.\<close>

lemma find_loop_returns:
  assumes "iter_valid iter" "start < max 1 (nfields (iter_fields iter))"
    "k = (if iter_pos iter < start then start - iter_pos iter else start + nfields (iter_fields iter) - iter_pos iter)"
  shows "\<exists>found iter'. iter_find_loop start tag iter = Some (found, iter') \<and> iter_valid iter' \<and> iter_fields iter' = iter_fields iter"
  using assms
proof (induction k arbitrary: iter rule: less_induct)
  case (less k)
  let ?next = "snd (pb_field_iter_next iter)" and ?n = "nfields (iter_fields iter)"
  note nx = next_valid [OF less.prems(1)]
  show ?case
  proof (cases "fld_tag (iter_field iter) = tag \<and> PB_LTYPE (fld_type (iter_field iter)) \<noteq> PB_LTYPE_EXTENSION")
    case True
    then show ?thesis using less.prems(1) by (subst iter_find_loop.simps) auto
  next
    case False
    then have e: "iter_find_loop start tag iter =
        (if iter_pos ?next \<noteq> start then iter_find_loop start tag ?next else Some (False, ?next))"
      by (subst iter_find_loop.simps) (auto simp: Let_def)
    show ?thesis
    proof (cases "iter_pos ?next = start")
      case True
      then show ?thesis using e nx by auto
    next
      case ns: False
      let ?k = "if iter_pos ?next < start then start - iter_pos ?next else start + ?n - iter_pos ?next"
      have "iter_pos iter < max 1 ?n" using less.prems(1) by (simp add: iter_valid_def)
      then have "?k < k" using ns nx less.prems(2,3) by (auto split: if_split_asm)
      moreover have f: "iter_fields ?next = iter_fields iter" "iter_valid ?next" using nx by simp_all
      ultimately show ?thesis using less.IH [of ?k ?next, unfolded f(1)] less.prems(2) ns unfolding e by simp
    qed
  qed
qed

lemma find_returns:
  assumes "iter_valid iter"
  shows "\<exists>found iter'. pb_field_iter_find iter tag = Some (found, iter') \<and> iter_valid iter' \<and> iter_fields iter' = iter_fields iter"
  using find_loop_returns [OF assms _ refl, of "iter_pos iter" tag] assms unfolding pb_field_iter_find_def by (simp add: iter_valid_def)

lemma find_extension_returns:
  assumes "iter_valid iter"
  shows "\<exists>iter'. find_extension_field iter = Some (False, iter') \<and> iter_valid iter'"
proof -
  have "\<exists>iter'. find_extension_loop start k iter = Some (False, iter') \<and> iter_valid iter'"
    if "iter_valid iter" "start < max 1 (nfields (iter_fields iter))"
      "(if iter_pos iter < start then start - iter_pos iter else start + max 1 (nfields (iter_fields iter)) - iter_pos iter) \<le> k" for start k iter
    using that
  proof (induction k arbitrary: iter)
    case 0
    then show ?case by (auto simp: iter_valid_def split: if_split_asm)
  next
    case (Suc k)
    let ?next = "snd (pb_field_iter_next iter)" and ?n = "nfields (iter_fields iter)"
    note nx = next_valid [OF Suc.prems(1)]
    have "PB_LTYPE (fld_type (iter_field iter)) \<noteq> PB_LTYPE_EXTENSION" using valid_field [OF Suc.prems(1)] by (simp add: known_type_def)
    then have e: "find_extension_loop start (Suc k) iter = (if iter_pos ?next \<noteq> start then find_extension_loop start k ?next else Some (False, ?next))"
      by (simp add: Let_def)
    show ?case
    proof (cases "iter_pos ?next = start")
      case True
      then show ?thesis using e nx by auto
    next
      case ns: False
      have "iter_pos iter < max 1 ?n" using Suc.prems(1) by (simp add: iter_valid_def)
      then have "(if iter_pos ?next < start then start - iter_pos ?next else start + max 1 ?n - iter_pos ?next) \<le> k"
        using ns nx Suc.prems(2,3) by (auto split: if_split_asm)
      moreover have f: "iter_fields ?next = iter_fields iter" "iter_valid ?next" using nx by simp_all
      ultimately show ?thesis using Suc.IH [of ?next, unfolded f(1)] Suc.prems(2) ns unfolding e by simp
    qed
  qed
  from this [OF assms, of "iter_pos iter" "length (iter_fields iter)"] show ?thesis
    using assms unfolding find_extension_field_def by (auto simp: iter_valid_def types_ok_def wf_fields_def nfields_def Suc_le_eq)
qed

lemma count_required_valid: "iter_valid iter \<Longrightarrow> nfields (iter_fields iter) - iter_pos iter < k \<Longrightarrow> count_required k iter \<noteq> None"
proof (induction k arbitrary: iter)
  case (Suc k)
  note nx = next_valid [OF Suc.prems(1)]
  show ?case
  proof (cases "Suc (iter_pos iter) < nfields (iter_fields iter)")
    case True
    then show ?thesis using nx Suc.IH [of "snd (pb_field_iter_next iter)"] Suc.prems(2) by (auto split: prod.splits bool.splits)
  next
    case False
    then show ?thesis using nx by (auto split: prod.splits bool.splits)
  qed
qed simp

lemma fields_loop_returns:
  assumes "\<And>m iter. iter_valid iter \<Longrightarrow> iter_fields iter = fs \<Longrightarrow> visit m iter \<noteq> None"
  shows "iter_valid iter \<Longrightarrow> iter_fields iter = fs \<Longrightarrow> nfields fs - iter_pos iter < k \<Longrightarrow> fields_loop visit k iter m \<noteq> None"
proof (induction k arbitrary: iter m)
  case (Suc k)
  note nx = next_valid [OF Suc.prems(1)]
  obtain m1 where "visit m iter = Some m1" using assms [OF Suc.prems(1,2), of m] by blast
  moreover obtain more iter' where "pb_field_iter_next iter = (more, iter')" by fastforce
  ultimately show ?case using nx Suc.IH [of iter' m1] Suc.prems(2,3) by (cases more) (auto split: if_split_asm)
qed simp

lemma each_field_returns:
  assumes "types_ok fs" "\<And>m iter. iter_valid iter \<Longrightarrow> iter_fields iter = fs \<Longrightarrow> visit m iter \<noteq> None"
  shows "each_field visit fs dest m \<noteq> None"
proof -
  have "nfields fs < length fs" using assms(1) by (simp add: types_ok_def wf_fields_def nfields_def)
  then show ?thesis using begin_valid [OF assms(1), of dest] fields_loop_returns [OF assms(2), where k = "length fs"]
    by (auto simp: each_field_def split: prod.splits bool.splits)
qed

text \<open>That the recursion into the submessages of a field has room.\<close>

definition room_for :: "(int \<Rightarrow> nat) \<Rightarrow> nat \<Rightarrow> pb_field_t \<Rightarrow> bool" where
  "room_for rank n f \<longleftrightarrow> 0 < n \<and> (PB_LTYPE (fld_type f) = PB_LTYPE_SUBMESSAGE \<longrightarrow> Suc (rank (fld_ptr f)) < n)"

lemma room_for_depth: "ranked env rank \<Longrightarrow> room_for rank (d_depth env) f"
  unfolding ranked_def room_for_def by (metis Suc_lessD gr_zeroI not_less0)

lemma room_for_inner:
  assumes "ranked env rank" "room_for rank (Suc n) f" "PB_LTYPE (fld_type f) = PB_LTYPE_SUBMESSAGE" "g \<in> set (d_fields env (fld_ptr f))"
  shows "room_for rank n g"
  using assms unfolding ranked_def room_for_def by fastforce

lemma set_to_default_returns:
  assumes r: "ranked env rank"
  shows "iter_valid iter \<Longrightarrow> room_for rank n (iter_field iter) \<Longrightarrow> pb_field_set_to_default n env m iter \<noteq> None"
proof (induction n arbitrary: iter m)
  case (Suc n)
  let ?f = "iter_field iter"
  have "each_field (pb_field_set_to_default n env) (d_fields env (fld_ptr ?f)) dest m' \<noteq> None" if "PB_LTYPE (fld_type ?f) = PB_LTYPE_SUBMESSAGE" for dest m'
  proof (rule each_field_returns)
    show "types_ok (d_fields env (fld_ptr ?f))" using r by (simp add: ranked_def)
    fix m iter' assume "iter_valid iter'" "iter_fields iter' = d_fields env (fld_ptr ?f)"
    then show "pb_field_set_to_default n env m iter' \<noteq> None"
      using Suc.IH room_for_inner [OF r Suc.prems(2) that] valid_field by metis
  qed
  moreover have "PB_LTYPE (fld_type ?f) \<noteq> PB_LTYPE_EXTENSION" using valid_field [OF Suc.prems(1)] by (simp add: known_type_def)
  ultimately show ?case by (auto simp: Let_def)
qed (simp add: room_for_def)

lemma release_items_returns: "(\<And>item m. release item m \<noteq> None) \<Longrightarrow> release_items release d n item m \<noteq> None"
proof (induction n arbitrary: item m)
  case (Suc n)
  obtain m1 where "release item m = Some m1" using Suc.prems by blast
  then show ?case using Suc by simp
qed simp

lemma bind_if_returns: "x \<noteq> None \<Longrightarrow> Option.bind x (\<lambda>m. if P then Some (g m) else Some m) \<noteq> None"
  by (cases x) auto

lemma release_returns:
  assumes r: "ranked env rank"
  shows "iter_valid iter \<Longrightarrow> room_for rank n (iter_field iter) \<Longrightarrow> pb_release_single_field n env m iter \<noteq> None"
proof (induction n arbitrary: iter m)
  case (Suc n)
  let ?f = "iter_field iter"
  have "release_fields (pb_release_single_field n env) (d_fields env (fld_ptr ?f)) dest m' \<noteq> None" if "PB_LTYPE (fld_type ?f) = PB_LTYPE_SUBMESSAGE" for dest m'
  proof -
    have "each_field (pb_release_single_field n env) (d_fields env (fld_ptr ?f)) dest m' \<noteq> None"
    proof (rule each_field_returns)
      show "types_ok (d_fields env (fld_ptr ?f))" using r by (simp add: ranked_def)
      fix m iter' assume "iter_valid iter'" "iter_fields iter' = d_fields env (fld_ptr ?f)"
      then show "pb_release_single_field n env m iter' \<noteq> None"
        using Suc.IH room_for_inner [OF r Suc.prems(2) that] valid_field by metis
    qed
    then show ?thesis by (simp add: release_fields_def)
  qed
  then have items: "release_items (release_fields (pb_release_single_field n env) (d_fields env (fld_ptr ?f))) d c item m' \<noteq> None"
    if "PB_LTYPE (fld_type ?f) = PB_LTYPE_SUBMESSAGE" for d c item m'
    using release_items_returns that by blast
  have "PB_LTYPE (fld_type ?f) \<noteq> PB_LTYPE_EXTENSION" using valid_field [OF Suc.prems(1)] by (simp add: known_type_def)
  with items show ?case unfolding pb_release_single_field.simps Let_def
    by (split if_split, intro conjI impI) (simp, rule bind_if_returns, simp)
qed (simp add: room_for_def)

lemma defaults_return:
  assumes "ranked env rank" "types_ok fs"
  shows "pb_message_set_to_defaults env fs dest m \<noteq> None"
  unfolding pb_message_set_to_defaults_def
  by (rule each_field_returns [OF assms(2)]) (rule set_to_default_returns [OF assms(1) _ room_for_depth [OF assms(1)]])

lemma pb_release_returns:
  assumes "ranked env rank" "types_ok fs"
  shows "pb_release env fs dest m \<noteq> None"
proof -
  have "each_field (pb_release_single_field (d_depth env) env) fs dest m \<noteq> None"
    by (rule each_field_returns [OF assms(2)]) (rule release_returns [OF assms(1) _ room_for_depth [OF assms(1)]])
  then show ?thesis by (simp add: pb_release_def release_fields_def)
qed

text \<open>Every value takes at least one byte.\<close>

lemma varint_progress: "varint_loop s r p = (Some v, s') \<Longrightarrow> bytes_left s' < bytes_left s"
proof (induction s r p rule: varint_loop.induct)
  case (1 s r p)
  have p: "\<not> 64 \<le> p" using 1(2) by (subst (asm) varint_loop.simps) (simp split: if_split_asm)
  obtain b s1 where b: "pb_readbyte s = (Some b, s1)"
    using 1(2) p by (subst (asm) varint_loop.simps) (auto split: prod.splits option.splits)
  show ?case
  proof (cases "b AND 0x80 \<noteq> 0")
    case True
    then show ?thesis using 1(1) [OF p b [symmetric] refl refl refl True] 1(2) p b pb_readbyte_less [OF b]
      by (subst (asm) (2) varint_loop.simps) (simp add: Let_def)
  next
    case False
    then show ?thesis using 1(2) p b pb_readbyte_less [OF b] by (subst (asm) varint_loop.simps) (simp add: Let_def)
  qed
qed

lemma varint32_progress: "varint32_loop s r p = (Some v, s') \<Longrightarrow> bytes_left s' < bytes_left s"
proof (induction s r p rule: varint32_loop.induct)
  case (1 s r p)
  obtain b s1 where b: "pb_readbyte s = (Some b, s1)"
    using 1(2) by (subst (asm) varint32_loop.simps) (auto split: prod.splits option.splits)
  have "(\<exists>r1 p1. varint32_loop s1 r1 p1 = (Some v, s') \<and> (varint32_loop s1 r1 p1 = (Some v, s') \<longrightarrow> bytes_left s' < bytes_left s1)) \<or> s' = s1"
    using 1 b by (subst (asm) (2) varint32_loop.simps) (auto simp: Let_def split: if_split_asm)
  then show ?case using pb_readbyte_less [OF b] by auto
qed

lemma varint32_eof_progress: "pb_decode_varint32_eof s = (Some v, eof, s') \<Longrightarrow> bytes_left s' < bytes_left s"
  unfolding pb_decode_varint32_eof_def
  by (auto dest!: pb_readbyte_less varint32_progress split: prod.splits option.splits if_split_asm)

lemma varint32_decode_progress: "pb_decode_varint32 s = (Some v, s') \<Longrightarrow> bytes_left s' < bytes_left s"
  unfolding pb_decode_varint32_def by (auto dest: varint32_eof_progress split: prod.splits)

lemma tag_progress: "pb_decode_tag s = (Some t, eof, s') \<Longrightarrow> bytes_left s' < bytes_left s \<and> snd t \<noteq> - 1"
proof -
  assume t: "pb_decode_tag s = (Some t, eof, s')"
  then obtain x e where x: "pb_decode_varint32_eof s = (Some x, e, s')" "t = (x AND 7, drop_bit 3 x)"
    by (auto simp: pb_decode_tag_def split: prod.splits option.splits if_split_asm)
  have "\<not> bit (drop_bit 3 x) 31" using bit_imp_le_length [of x 34] by (auto simp: bit_drop_bit_eq)
  then have "drop_bit 3 x \<noteq> - 1" by auto
  then show ?thesis using varint32_eof_progress [OF x(1)] x(2) by simp
qed

lemma substream_smaller:
  assumes "pb_make_string_substream s = (Some sub, s1)"
  shows "bytes_left sub < bytes_left s"
  using assms by (auto simp: pb_make_string_substream_def dest!: varint32_decode_progress split: prod.splits option.splits if_split_asm)

lemma read_progress: "pb_read s n = (Some bs, s') \<Longrightarrow> 0 < n \<Longrightarrow> bytes_left s' < bytes_left s"
  by (auto simp: pb_read_def buf_read_def split: if_split_asm)

lemma packable_progress:
  assumes "PB_DECODERS noinit init env f dest m s = Some (True, m', s')" "PB_LTYPE (fld_type f) \<le> PB_LTYPE_LAST_PACKABLE"
  shows "bytes_left s' < bytes_left s"
proof -
  have fx: "pb_decode_fixed32 s = (Some x, s') \<Longrightarrow> bytes_left s' < bytes_left s" "pb_decode_fixed64 s = (Some y, s') \<Longrightarrow> bytes_left s' < bytes_left s" for x y
    by (auto simp: pb_decode_fixed32_def pb_decode_fixed64_def dest: read_progress split: prod.splits option.splits)
  have sv: "pb_decode_svarint s = (Some x, s') \<Longrightarrow> bytes_left s' < bytes_left s" for x
    by (auto simp: pb_decode_svarint_def pb_decode_varint_def dest: varint_progress split: prod.splits option.splits)
  have dec: "bytes_left s' < bytes_left s" if "dec s f b = (True, x, s')"
      "dec = pb_dec_bool \<or> dec = pb_dec_varint \<or> dec = pb_dec_uvarint \<or> dec = pb_dec_svarint \<or> dec = pb_dec_fixed32 \<or> dec = pb_dec_fixed64" for dec b x
    using that(2,1)
    by (elim disjE) (auto simp: pb_dec_bool_def pb_dec_varint_def pb_dec_uvarint_def pb_dec_svarint_def pb_dec_fixed32_def pb_dec_fixed64_def
      pb_decode_varint_def Let_def dest: varint_progress varint32_decode_progress fx sv split: prod.splits option.splits if_split_asm)
  let ?t = "PB_LTYPE (fld_type f)"
  have "\<not> (?t = PB_LTYPE_BYTES \<or> ?t = PB_LTYPE_STRING \<or> ?t = PB_LTYPE_SUBMESSAGE \<or> ?t = PB_LTYPE_FIXED_LENGTH_BYTES)"
    using assms(2) by (auto simp: PB_LTYPE_LAST_PACKABLE_def ltypes)
  then obtain dec' where "in_place dec' f dest m s = (True, m', s')"
      "dec' = pb_dec_bool \<or> dec' = pb_dec_varint \<or> dec' = pb_dec_uvarint \<or> dec' = pb_dec_svarint \<or> dec' = pb_dec_fixed32 \<or> dec' = pb_dec_fixed64"
    using assms(1) unfolding PB_DECODERS_def Let_def by (auto split: if_split_asm)
  then show ?thesis using dec [of dec'] by (auto simp: in_place_def split: prod.splits)
qed

text \<open>\<open>b\<close> bounds the bytes of the messages for which a decoder is known to return.\<close>

definition returns_below :: "nat \<Rightarrow> message_decoder \<Rightarrow> bool" where
  "returns_below b decode \<longleftrightarrow> (\<forall>fs dest m s. types_ok fs \<longrightarrow> is_inv s \<longrightarrow> bytes_left s < b \<longrightarrow> decode fs dest m s \<noteq> None)"

lemma decoders_return:
  assumes r: "ranked env rank" and sub: "returns_below (bytes_left s) noinit" "returns_below (bytes_left s) init"
    and f: "known_type f" and s: "is_inv s"
  shows "PB_DECODERS noinit init env f dest m s \<noteq> None"
proof -
  have "pb_dec_submessage noinit init env f dest m s \<noteq> None"
  proof (cases "fst (pb_make_string_substream s)")
    case (Some sub)
    then obtain s1 where x: "pb_make_string_substream s = (Some sub, s1)" by (cases "pb_make_string_substream s") auto
    have "types_ok (d_fields env (fld_ptr f))" using r by (simp add: ranked_def)
    then have "noinit (d_fields env (fld_ptr f)) dest m sub \<noteq> None" "init (d_fields env (fld_ptr f)) dest m sub \<noteq> None"
      using assms(2,3) substream_inv [OF s x] substream_smaller [OF x] by (auto simp: returns_below_def)
    then show ?thesis by (simp add: pb_dec_submessage_def x del: not_None_eq)
  qed (auto simp: pb_dec_submessage_def split: prod.splits)
  moreover have "PB_LTYPE (fld_type f) = 0 \<or> PB_LTYPE (fld_type f) = 1 \<or> PB_LTYPE (fld_type f) = 2 \<or> PB_LTYPE (fld_type f) = 3 \<or>
      PB_LTYPE (fld_type f) = 4 \<or> PB_LTYPE (fld_type f) = 5 \<or> PB_LTYPE (fld_type f) = 6 \<or> PB_LTYPE (fld_type f) = 7 \<or>
      PB_LTYPE (fld_type f) = 8 \<or> PB_LTYPE (fld_type f) = 10"
  proof -
    let ?n = "unat (PB_LTYPE (fld_type f))"
    have t: "PB_LTYPE (fld_type f) = of_nat ?n" by simp
    have "?n \<le> 10" using f by (simp add: known_type_def ltypes word_le_nat_alt)
    moreover have "?n \<noteq> 9" using f t unfolding known_type_def PB_LTYPE_EXTENSION_def by (metis of_nat_numeral)
    ultimately have "?n = 0 \<or> ?n = 1 \<or> ?n = 2 \<or> ?n = 3 \<or> ?n = 4 \<or> ?n = 5 \<or> ?n = 6 \<or> ?n = 7 \<or> ?n = 8 \<or> ?n = 10" by presburger
    then show ?thesis using t by (elim disjE) simp_all
  qed
  ultimately show ?thesis unfolding PB_DECODERS_def Let_def by (elim disjE) (simp_all add: ltypes del: not_None_eq)
qed

text \<open>
  What is asked of the application here: a callback reads something, or there is nothing left.
\<close>

definition app_progress :: "pb_decode_env \<Rightarrow> bool" where
  "app_progress env \<longleftrightarrow>
     (\<forall>field data m dec m1 s m2 s2. d_callback env field data m = Some dec \<longrightarrow> dec m1 s = (True, m2, s2) \<longrightarrow>
        bytes_left s2 < bytes_left s \<or> bytes_left s2 = 0)"

lemma packed_loop_returns:
  assumes ret: "\<And>a m s'. is_inv s' \<Longrightarrow> bytes_left s' \<le> b \<Longrightarrow> func a m s' \<noteq> None"
    and within: "\<And>a. reads_within (func a)"
    and prog: "\<And>a m s' m2 s2. func a m s' = Some (True, m2, s2) \<Longrightarrow> bytes_left s2 < bytes_left s'"
  shows "is_inv s \<Longrightarrow> bytes_left s \<le> b \<Longrightarrow> bytes_left s < k \<Longrightarrow> packed_loop func iter k m s \<noteq> None"
proof (induction k arbitrary: m s)
  case (Suc k)
  let ?item = "item_at (iter_field iter) (pData iter) (get_u32 m (pSize iter))"
  obtain ok m1 s1 where f: "func ?item m s = Some (ok, m1, s1)" using ret [OF Suc.prems(1,2), of ?item m] by auto
  show ?case
  proof (cases "ok")
    case True
    then have "is_advances s s1" "bytes_left s1 < bytes_left s"
      using reads_withinD [OF within Suc.prems(1) f] prog f by auto
    then show ?thesis using Suc.IH [of s1] is_advances_inv [OF _ Suc.prems(1)] Suc.prems(2,3) f True by (simp add: Let_def del: not_None_eq)
  next
    case False
    then show ?thesis using f by (simp add: Let_def del: not_None_eq)
  qed
qed simp

lemma grow_loop_returns:
  assumes ret: "\<And>a m s'. is_inv s' \<Longrightarrow> bytes_left s' \<le> b \<Longrightarrow> func a m s' \<noteq> None"
    and within: "\<And>a. reads_within (func a)"
    and prog: "\<And>a m s' m2 s2. func a m s' = Some (True, m2, s2) \<Longrightarrow> bytes_left s2 < bytes_left s'"
    and init: "\<And>item m. initialize_pointer_field env (iter_field iter) item m \<noteq> None"
  shows "is_inv s \<Longrightarrow> bytes_left s \<le> b \<Longrightarrow> bytes_left s < k \<Longrightarrow> grow_loop func env iter k allocated m s \<noteq> None"
proof (induction k arbitrary: allocated m s)
  case (Suc k)
  let ?field = "iter_field iter"
  let ?more = "unat (get_u32 m (pSize iter)) + 1 > allocated"
  obtain alloc' where e: "grow_loop func env iter (Suc k) allocated m s =
     (if bytes_left s = 0 then Some (None, True, m, s)
      else if get_u32 m (pSize iter) = PB_SIZE_MAX then Some (Some ''too many array entries'', False, m, s)
      else (case (if ?more then allocate_at env m s (pData iter) (unat (data_size ?field)) alloc' else (True, m, s)) of
              (False, m, s) \<Rightarrow> Some (None, False, m, s)
            | (True, m, s) \<Rightarrow>
                (let item = item_at ?field (get_ptr m (pData iter)) (get_u32 m (pSize iter)) in
                 if item = 0 then Some (None, False, m, s)
                 else do { m \<leftarrow> initialize_pointer_field env ?field item m;
                           (ok, m, s) \<leftarrow> func item m s;
                           if ok then grow_loop func env iter k alloc' (put_u32 m (pSize iter) (get_u32 m (pSize iter) + 1)) s
                           else Some (None, False, m, s) })))"
    unfolding grow_loop.simps Let_def by blast
  obtain aok m1 s1 where a: "(if ?more then allocate_at env m s (pData iter) (unat (data_size ?field)) alloc' else (True, m, s)) = (aok, m1, s1)"
    by (metis prod_cases3)
  then have a1: "is_advances s s1" using allocate_at_stream by (auto split: if_split_asm)
  then have s1: "is_inv s1" "bytes_left s1 \<le> bytes_left s" using is_advances_inv [OF _ Suc.prems(1)] by (auto simp: is_advances_def)
  let ?item = "item_at ?field (get_ptr m1 (pData iter)) (get_u32 m1 (pSize iter))"
  obtain m2 where m2: "initialize_pointer_field env ?field ?item m1 = Some m2" using init by blast
  obtain ok m3 s3 where f: "func ?item m2 s1 = Some (ok, m3, s3)" using ret [OF s1(1), of ?item m2] s1(2) Suc.prems(2) by auto
  have "grow_loop func env iter k alloc' m' s3 \<noteq> None" if ok for m'
  proof -
    have "is_advances s1 s3" "bytes_left s3 < bytes_left s1" using reads_withinD [OF within s1(1) f] prog f that by auto
    then show ?thesis using Suc.IH [of s3] is_advances_inv [OF _ s1(1)] s1(2) Suc.prems(2,3) by simp
  qed
  then show ?case unfolding e a using m2 f by (cases aok; cases ok) (simp_all add: Let_def del: grow_loop.simps not_None_eq)
qed simp

lemma initialize_returns: "ranked env rank \<Longrightarrow> initialize_pointer_field env f item m \<noteq> None"
  using defaults_return [of env rank] by (auto simp: initialize_pointer_field_def Let_def ranked_def)

lemma callback_loop_returns:
  assumes within: "\<And>m s. is_inv s \<Longrightarrow> result_within s (dec m s)"
    and prog: "\<And>m s m2 s2. dec m s = (True, m2, s2) \<Longrightarrow> bytes_left s2 < bytes_left s \<or> bytes_left s2 = 0"
  shows "is_inv s \<Longrightarrow> bytes_left s < k \<Longrightarrow> callback_loop dec k m s \<noteq> None"
proof (induction k arbitrary: m s)
  case (Suc k)
  obtain ok m1 s1 where d: "dec m s = (ok, m1, s1)" by (metis prod_cases3)
  show ?case
  proof (cases "ok \<and> bytes_left s1 \<noteq> 0")
    case True
    then have "is_inv s1" "bytes_left s1 < bytes_left s"
      using within [OF Suc.prems(1), of m] prog [of m s] d is_advances_inv [OF _ Suc.prems(1)] by auto
    then show ?thesis using Suc.IH [of s1 m1] Suc.prems(2) d True by simp
  next
    case False
    then show ?thesis using d by (cases ok) auto
  qed
qed simp

lemma static_field_returns:
  assumes r: "ranked env rank" and sub: "returns_below (bytes_left s) noinit" "returns_below (bytes_left s) init"
    and within: "messages_within noinit" "messages_within init" and it: "iter_valid iter" and s: "is_inv s"
  shows "decode_static_field noinit init env wt iter m s \<noteq> None"
proof -
  let ?f = "iter_field iter"
  let ?func = "PB_DECODERS noinit init env ?f"
  have k: "known_type ?f" using valid_field [OF it] by simp
  have f: "?func a m' s' \<noteq> None" if "is_inv s'" "bytes_left s' \<le> bytes_left s" for a m' s'
    using decoders_return [OF r _ _ k that(1)] sub that(2) by (auto simp: returns_below_def)
  have fs: "?func a m' s \<noteq> None" for a m' by (rule f [OF s order_refl])
  have packed: "packed_loop ?func iter (Suc (bytes_left x)) m' x \<noteq> None"
    if "PB_LTYPE (fld_type ?f) \<le> PB_LTYPE_LAST_PACKABLE" "pb_make_string_substream s = (Some x, s1)" for m' x s1
    by (rule packed_loop_returns [where func = ?func, OF f decoders_within [OF within] packable_progress [OF _ that(1)]])
      (use substream_inv [OF s that(2)] less_imp_le [OF substream_smaller [OF that(2)]] in simp_all)
  have "types_ok (d_fields env (fld_ptr ?f))" using r by (simp add: ranked_def)
  note df = defaults_return [OF r this]
  show ?thesis
    unfolding decode_static_field_def Let_def
    by (intro returns_intros fs df) (simp_all add: packed del: packed_loop.simps not_None_eq)
qed

lemma pointer_field_returns:
  assumes r: "ranked env rank" and sub: "returns_below (bytes_left s) noinit" "returns_below (bytes_left s) init"
    and within: "messages_within noinit" "messages_within init" and it: "iter_valid iter" and s: "is_inv s"
  shows "decode_pointer_field noinit init env wt iter m s \<noteq> None"
proof -
  let ?f = "iter_field iter"
  let ?func = "PB_DECODERS noinit init env ?f"
  have k: "known_type ?f" using valid_field [OF it] by simp
  have f: "?func a m' s' \<noteq> None" if "is_inv s'" "bytes_left s' \<le> bytes_left s" for a m' s'
    using decoders_return [OF r _ _ k that(1)] sub that(2) by (auto simp: returns_below_def)
  have fs: "?func a m' s \<noteq> None" for a m' by (rule f [OF s order_refl])
  note init = initialize_returns [OF r]
  have packed: "grow_loop ?func env iter (Suc (bytes_left x)) al m' x \<noteq> None"
    if "PB_LTYPE (fld_type ?f) \<le> PB_LTYPE_LAST_PACKABLE" "pb_make_string_substream s = (Some x, s1)" for al m' x s1
    by (rule grow_loop_returns [where func = ?func, OF f decoders_within [OF within] packable_progress [OF _ that(1)] init])
      (use substream_inv [OF s that(2)] less_imp_le [OF substream_smaller [OF that(2)]] in simp_all)
  have al: "?func a m'' s' \<noteq> None" if "allocate_at env m1 s d x y = (True, m', s')" for m1 d x y m' s' a m''
  proof (rule f)
    have "is_advances s s'" by (rule allocate_at_stream [OF that])
    then show "is_inv s'" "bytes_left s' \<le> bytes_left s" using is_advances_inv [OF _ s] by (auto simp: is_advances_def)
  qed
  have rel: "pb_release_single_field (d_depth env) env m' iter \<noteq> None" for m' by (rule release_returns [OF r it room_for_depth [OF r]])
  show ?thesis
    unfolding decode_pointer_field_def Let_def
    by (intro returns_intros fs init rel) (simp_all add: al packed del: grow_loop.simps not_None_eq)
qed

lemma callback_field_returns:
  assumes "app_reads_within env" "app_progress env" "is_inv s"
  shows "decode_callback_field env wt iter m s \<noteq> None"
proof (cases "if pData iter = 0 then None else d_callback env (iter_field iter) (pData iter) m")
  case None
  then show ?thesis by (auto simp: decode_callback_field_def split: prod.splits)
next
  case (Some dec)
  then have dec: "is_inv s' \<Longrightarrow> result_within s' (dec m' s')" "dec m' s' = (True, m2, s2) \<Longrightarrow> bytes_left s2 < bytes_left s' \<or> bytes_left s2 = 0" for m' s' m2 s2
    using assms(1,2) by (auto simp: app_reads_within_def app_progress_def split: if_split_asm)
  have "callback_loop dec (Suc (bytes_left x)) m x \<noteq> None" if "pb_make_string_substream s = (Some x, s1)" for x s1
    by (rule callback_loop_returns [OF dec substream_inv [OF assms(3) that]]) simp_all
  then show ?thesis unfolding decode_callback_field_def Some
    by (intro returns_intros) (simp_all del: callback_loop.simps not_None_eq)
qed


text \<open>The search of the member of a union that was in use, and of the new one, keep the iterator valid.\<close>

lemma union_returns:
  assumes r: "ranked env rank" and it: "iter_valid iter"
  shows "\<exists>x iter'. pb_release_union_field env m s iter = Some (x, iter') \<and> iter_valid iter'"
proof -
  obtain f1 i1 where i1: "pb_field_iter_find iter (get_u32 m (pSize iter)) = Some (f1, i1)" "iter_valid i1" using find_returns [OF it] by blast
  obtain m1 where m1: "pb_release_single_field (d_depth env) env m i1 = Some m1"
    using release_returns [OF r i1(2) room_for_depth [OF r]] by blast
  obtain f2 i2 where i2: "pb_field_iter_find i1 (fld_tag (iter_field iter)) = Some (f2, i2)" "iter_valid i2" using find_returns [OF i1(2)] by blast
  show ?thesis using i1 m1 i2 it by (auto simp: pb_release_union_field_def Let_def)
qed

text \<open>The decoding of the field of a valid iterator returns, with a valid iterator.\<close>

definition fields_return :: "nat \<Rightarrow> iter_decoder \<Rightarrow> bool" where
  "fields_return b decode \<longleftrightarrow> (\<forall>wt iter m s. iter_valid iter \<longrightarrow> is_inv s \<longrightarrow> bytes_left s \<le> b \<longrightarrow>
     (\<exists>x iter'. decode wt iter m s = Some (x, iter') \<and> iter_valid iter'))"

lemma decode_field_returns:
  assumes r: "ranked env rank" and sub: "returns_below b noinit" "returns_below b init"
    and within: "messages_within noinit" "messages_within init" and app: "app_reads_within env" "app_progress env"
  shows "fields_return b (decode_field noinit init env)"
  unfolding fields_return_def
proof (intro allI impI)
  fix wt iter m s assume it: "iter_valid iter" and s: "is_inv s" "bytes_left s \<le> b"
  let ?release = "if PB_HTYPE (fld_type (iter_field iter)) = PB_HTYPE_ONEOF then pb_release_union_field env m s iter else Some ((True, m, s), iter)"
  obtain ok m1 s1 i1 where u: "?release = Some ((ok, m1, s1), i1)" "iter_valid i1"
    using union_returns [OF r it, of m s] it by (cases "PB_HTYPE (fld_type (iter_field iter)) = PB_HTYPE_ONEOF") auto
  have "is_advances s s1" using u(1) release_union_stream [of env m s iter ok m1 s1 i1] by (auto split: if_split_asm)
  then have s1: "is_inv s1" "bytes_left s1 \<le> b" using is_advances_inv [OF _ s(1)] s(2) by (auto simp: is_advances_def)
  then have b: "returns_below (bytes_left s1) noinit" "returns_below (bytes_left s1) init" using sub by (auto simp: returns_below_def)
  obtain y1 y2 y3 where "(if PB_ATYPE (fld_type (iter_field i1)) = PB_ATYPE_STATIC then decode_static_field noinit init env wt i1 m1 s1
      else if PB_ATYPE (fld_type (iter_field i1)) = PB_ATYPE_POINTER then decode_pointer_field noinit init env wt i1 m1 s1
      else if PB_ATYPE (fld_type (iter_field i1)) = PB_ATYPE_CALLBACK then decode_callback_field env wt i1 m1 s1
      else Some (False, m1, is_error ''invalid field type'' s1)) = Some (y1, y2, y3)"
    using static_field_returns [OF r b within u(2) s1(1)] pointer_field_returns [OF r b within u(2) s1(1)] callback_field_returns [OF app s1(1)]
    by (metis option.exhaust prod_cases3)
  then show "\<exists>x iter'. decode_field noinit init env wt iter m s = Some (x, iter') \<and> iter_valid iter'"
    using u by (cases ok) (auto simp: decode_field_def Let_def)
qed

lemma known_returns:
  assumes dec: "fields_return b decode" and "iter_valid (v_iter v)" "is_inv s" "bytes_left s \<le> b"
  shows "\<exists>x v'. decode_known decode cell wt v m s = Some (x, v') \<and> iter_valid (v_iter v')"
proof (cases "use_fixed_count cell v m")
  case None
  then show ?thesis using assms(2) by (auto simp: decode_known_def)
next
  case (Some vm)
  obtain v1 m1 where v1: "vm = (v1, m1)" by fastforce
  have "iter_valid (v_iter v1)" using Some v1 assms(2)
    by (auto simp: use_fixed_count_def Let_def iter_valid_def split: if_split_asm)
  then have "iter_valid (v_iter (mark_required v1))" by (simp add: mark_required_def Let_def)
  then obtain x i where "decode wt (v_iter (mark_required v1)) m1 s = Some (x, i)" "iter_valid i"
    using dec assms(3,4) unfolding fields_return_def by blast
  then show ?thesis using Some v1 by (cases x) (simp add: decode_known_def Let_def)
qed

lemma unknown_returns:
  assumes "iter_valid (v_iter v)" "tag \<noteq> - 1"
  shows "\<exists>x v'. decode_unknown decode env tag wt v m s = Some (x, v') \<and> iter_valid (v_iter v')"
proof -
  obtain i where "find_extension_field (v_iter v) = Some (False, i)" "iter_valid i" using find_extension_returns [OF assms(1)] by blast
  moreover have "\<not> tag \<ge> - 1" using assms(2) by (simp add: word_order.extremum_unique)
  ultimately show ?thesis using assms(1) by (simp add: decode_unknown_def Let_def)
qed

lemma step_returns:
  assumes dec: "fields_return b decode" and v: "iter_valid (v_iter v)" and s: "is_inv s" "bytes_left s \<le> b"
  shows "\<exists>x v' m' s'. decode_step decode env cell v m s = Some (x, v', m', s') \<and> iter_valid (v_iter v')"
proof (cases "fst (pb_decode_tag s)")
  case None
  then show ?thesis using v by (auto simp: decode_step_def split: prod.splits option.splits)
next
  case (Some t)
  then obtain wt tag eof s1 where t: "pb_decode_tag s = (Some (wt, tag), eof, s1)" by (metis prod.collapse)
  then have a: "is_advances s s1" using tag_reader [of s] by simp
  then have s1: "is_inv s1" "bytes_left s1 \<le> b" using is_advances_inv [OF _ s(1)] s(2) by (auto simp: is_advances_def)
  obtain found i where i: "pb_field_iter_find (v_iter v) tag = Some (found, i)" "iter_valid i" using find_returns [OF v] by blast
  let ?v = "v\<lparr>v_iter := i\<rparr>"
  have "\<exists>x v'. (if found then decode_known decode cell wt ?v m s1 else decode_unknown decode env tag wt ?v m s1) = Some (x, v') \<and> iter_valid (v_iter v')"
    using known_returns [OF dec, of ?v s1 cell wt m] unknown_returns [of ?v tag decode env wt m s1] i(2) s1 tag_progress [OF t] by simp
  then show ?thesis using t i(1) by (auto simp: decode_step_def)
qed

text \<open>A round that goes on has read at least its tag.\<close>

lemma step_progress:
  assumes dec: "fields_within decode" and app: "app_reads_within env" and s: "is_inv s"
    and r: "decode_step decode env cell v m s = Some (Some True, v', m', s')"
  shows "bytes_left s' < bytes_left s"
proof -
  obtain t eof s1 where t: "pb_decode_tag s = (Some t, eof, s1)"
    using r by (auto simp: decode_step_def split: prod.splits option.splits if_split_asm)
  have i: "is_inv s1" using tag_reader [of s] t is_advances_inv [OF _ s] by auto
  obtain wt tag where "t = (wt, tag)" by fastforce
  then obtain vi where "decode_known decode cell wt vi m s1 = Some ((True, m', s'), v') \<or> decode_unknown decode env tag wt vi m s1 = Some ((True, m', s'), v')"
    using r t by (auto simp: decode_step_def bind_eq_Some_conv split: if_split_asm) blast+
  then have "result_within s1 (True, m', s')" using known_within [OF dec i] unknown_within [OF dec app i] by blast
  then show ?thesis using tag_progress [OF t] by (simp add: is_advances_def)
qed


lemma decode_loop_returns:
  assumes dec: "fields_return b decode" "fields_within decode" and app: "app_reads_within env"
  shows "iter_valid (v_iter v) \<Longrightarrow> is_inv s \<Longrightarrow> bytes_left s \<le> b \<Longrightarrow> bytes_left s < k \<Longrightarrow>
    \<exists>ok v' m' s'. decode_loop decode env cell k v m s = Some (ok, v', m', s') \<and> iter_valid (v_iter v')"
proof (induction k arbitrary: v m s)
  case (Suc k)
  obtain x v1 m1 s1 where st: "decode_step decode env cell v m s = Some (x, v1, m1, s1)" "iter_valid (v_iter v1)"
    using step_returns [OF dec(1) Suc.prems(1-3)] by blast
  show ?case
  proof (cases "x = Some True \<and> bytes_left s \<noteq> 0")
    case True
    then have "is_advances s s1" using step_within [OF dec(2) app Suc.prems(2) st(1)] by simp
    then have "is_inv s1" "bytes_left s1 \<le> b" using is_advances_inv [OF _ Suc.prems(2)] Suc.prems(3) by (auto simp: is_advances_def)
    moreover have "bytes_left s1 < bytes_left s" using step_progress [OF dec(2) app Suc.prems(2)] st(1) True by blast
    ultimately show ?thesis using Suc.IH [OF st(2)] Suc.prems(4) st(1) True by simp
  next
    case False
    then show ?thesis using st Suc.prems(1) by (cases x) (auto split: bool.splits)
  qed
qed simp

lemma message_returns:
  assumes r: "ranked env rank" and sub: "returns_below b noinit" "returns_below b init"
    and within: "messages_within noinit" "messages_within init" and app: "app_reads_within env" "app_progress env"
  shows "returns_below (Suc b) (decode_message noinit init env cell)"
  unfolding returns_below_def
proof (intro allI impI)
  fix fs dest m s assume fs: "types_ok fs" and s: "is_inv s" "bytes_left s < Suc b"
  let ?v = "\<lparr>fields_seen = [0, 0], extension_range_start = 0, v_iter = snd (pb_field_iter_begin fs dest), fixed_count_field = None\<rparr>"
  obtain ok v m1 s1 where l: "decode_loop (decode_field noinit init env) env cell (Suc (bytes_left s)) ?v (put_u32 m cell 0) s = Some (ok, v, m1, s1)"
      "iter_valid (v_iter v)"
    using decode_loop_returns [OF decode_field_returns [OF r sub within app] decode_field_within [OF within app(1)] app(1),
        where v = ?v and s = s and k = "Suc (bytes_left s)" and cell = cell and m = "put_u32 m cell 0"] begin_valid [OF fs, of dest] s
    by (simp del: decode_loop.simps) blast
  have "nfields (iter_fields (v_iter v)) - iter_pos (v_iter v) < Suc (length (iter_fields (v_iter v)))"
    by (simp add: nfields_def)
  then obtain p where "required_fields_present v = Some p"
    using count_required_valid [OF l(2)] by (force simp: required_fields_present_def)
  then show "decode_message noinit init env cell fs dest m s \<noteq> None"
    using l(1) by (simp add: decode_message_def del: decode_loop.simps not_None_eq)
qed

lemma with_init_returns:
  assumes r: "ranked env rank" and "returns_below b noinit"
  shows "returns_below b (with_init noinit env)"
  unfolding returns_below_def
proof (intro allI impI)
  fix fs dest m s assume fs: "types_ok fs" and s: "is_inv s" "bytes_left s < b"
  have n: "noinit fs dest m1 s \<noteq> None" for m1 using assms(2) fs s by (simp add: returns_below_def)
  show "with_init noinit env fs dest m s \<noteq> None"
    unfolding with_init_def by (intro returns_intros defaults_return [OF r fs] pb_release_returns [OF r fs] n)
qed

lemma noinit_returns:
  assumes "ranked env rank" "app_reads_within env" "app_progress env"
  shows "returns_below n (pb_decode_noinit n env)"
proof (induction n)
  case (Suc n)
  note w = noinit_within [OF assms(2), of n]
  from message_returns [OF assms(1) Suc with_init_returns [OF assms(1) Suc] w init_within [OF w] assms(2,3)]
  show ?case by (simp add: returns_below_def)
qed (simp add: returns_below_def)

text \<open>
  C29: \<open>pb_decode\<close> returns on every input. The message types are closed under submessages, their fields have decoders,
  none is an extension, and no type contains itself by value or by pointer (\<open>rank\<close> falls); the stream is in its
  buffer; the callbacks of the application stay in the stream they are given and read something when they
  succeed, or leave nothing. Then a nesting bound above the number of bytes gives a result, whatever the bytes, the memory and
  what \<open>realloc\<close> serves: the loop over the fields, the loops over packed arrays, the searches in the
  descriptors and the recursion into submessages all end.
\<close>

theorem pb_decode_returns:
  assumes "ranked env rank" "types_ok fs" "app_reads_within env" "app_progress env" "is_inv s" "bytes_left s < n"
  shows "\<exists>ok m' s'. pb_decode n env fs dest m s = Some (ok, m', s')"
proof -
  have "pb_decode n env fs dest m s \<noteq> None"
    using with_init_returns [OF assms(1) noinit_returns [OF assms(1,3,4)]] assms(2,5,6) by (simp add: pb_decode_def returns_below_def)
  then show ?thesis by auto
qed

text \<open>The message type of \<open>sample_fields\<close>, whose submessages are pairs.\<close>

theorem pb_decode_returns_witness:
  "\<exists>ok m' s'. pb_decode 9 pair_env sample_fields 2000 (\<lambda>_. 3) pair_stream = Some (ok, m', s')"
proof (rule pb_decode_returns [where rank = "\<lambda>_. 0"])
  have "types_ok pair_fields" by (simp add: types_ok_def wf_fields_def known_type_def pair_fields_def ltypes PB_LTYPE_def PB_LTYPE_EXTENSION_def)
  then show "ranked pair_env (\<lambda>_. 0)" by (auto simp: ranked_def pair_env_def pair_fields_def ltypes PB_LTYPE_def)
  show "types_ok sample_fields" by (simp add: types_ok_def wf_fields_def known_type_def sample_fields_def ltypes PB_LTYPE_def PB_LTYPE_EXTENSION_def)
qed (simp_all add: app_reads_within_def app_progress_def pair_env_def is_inv_def pb_istream_from_buffer_def)

lemma delimited_returns:
  assumes "returns_below b decode"
  shows "returns_below b (delimited decode)"
  unfolding returns_below_def
proof (intro allI impI)
  fix fs dest m s assume fs: "types_ok fs" and s: "is_inv s" "bytes_left s < b"
  obtain x s1 where x: "pb_make_string_substream s = (x, s1)" by fastforce
  show "delimited decode fs dest m s \<noteq> None"
  proof (cases x)
    case (Some sub)
    have "decode fs dest m sub \<noteq> None"
      using assms fs substream_inv [OF s(1) x [unfolded Some]] substream_smaller [OF x [unfolded Some]] s(2) by (simp add: returns_below_def)
    then show ?thesis by (simp add: delimited_def x Some)
  qed (simp add: delimited_def x)
qed

lemma messages_return:
  assumes "ranked env rank" "app_reads_within env" "app_progress env"
  shows "returns_below n (pb_decode_noinit n env)" "returns_below n (pb_decode n env)" "returns_below n (pb_decode_nullterminated n env)"
    "returns_below n (pb_decode_delimited n env)" "returns_below n (pb_decode_delimited_noinit n env)"
  using noinit_returns [OF assms] with_init_returns [OF assms(1)] delimited_returns
  by (simp_all add: pb_decode_def pb_decode_nullterminated_def pb_decode_delimited_def pb_decode_delimited_noinit_def)

text \<open>
  C30: Decoding a message returns and reads only inside its stream. The stream keeps its object, its
  position only moves forward and what is left of it ends where it ended or earlier; after success
  it ends exactly where it ended, so the caller can go on behind the message. This holds of all five
  entry points, on any input and memory, for message types as in \<open>pb_decode_returns\<close> (without
  extensions, and no type contains itself), a nesting bound above the number of bytes, and
  decoders of the application that stay in the stream they are given and read something when they
  succeed, or leave nothing. (Without the conditions on the types and on progress every result, if
  there is one, still stays in the stream: \<open>messages_stay\<close>.)
\<close>

theorem pb_decode_stays_in_stream:
  assumes "ranked env rank" "types_ok fs" "app_reads_within env" "app_progress env" "is_inv s" "bytes_left s < n"
    and "decode \<in> {pb_decode n env, pb_decode_noinit n env, pb_decode_nullterminated n env,
      pb_decode_delimited n env, pb_decode_delimited_noinit n env}"
  shows "\<exists>ok m' s'. decode fs dest m s = Some (ok, m', s') \<and>
    is_inv s' \<and> is_mem s' = is_mem s \<and> is_pos s \<le> is_pos s' \<and> is_pos s' + bytes_left s' \<le> is_pos s + bytes_left s \<and>
    (ok \<longrightarrow> is_pos s' + bytes_left s' = is_pos s + bytes_left s)"
proof -
  have "decode fs dest m s \<noteq> None"
    using messages_return [OF assms(1,3,4), of n] assms(2,5-7) by (auto simp: returns_below_def)
  then obtain ok m' s' where r: "decode fs dest m s = Some (ok, m', s')" by auto
  have "messages_within decode" using messages_stay [OF assms(3)] assms(7) by auto
  then have "result_within s (ok, m', s')" using assms(5) r by (auto simp: messages_within_def reads_within_def)
  then have "is_within s s'" "ok \<longrightarrow> is_advances s s'" by (simp_all add: result_within_def)
  with r show ?thesis using is_within_inv [OF _ assms(5)] by (auto simp: is_within_def is_advances_def)
qed

lemma pair_decode_9:
  "map_option (\<lambda>(ok, m, s). (ok, m 2000, m 2001, m 2008)) (pb_decode_noinit 9 pair_env pair_fields 2000 (\<lambda>_. 0) pair_stream) =
     Some (True, 0x2c, 1, 7)"
  by code_simp

theorem pb_decode_stays_in_stream_witness:
  "\<exists>m' s'. pb_decode_noinit 9 pair_env pair_fields 2000 (\<lambda>_. 0) pair_stream = Some (True, m', s') \<and>
     is_mem s' = pair_bytes \<and> is_pos s' + bytes_left s' = 8"
proof -
  have t: "types_ok pair_fields" by (simp add: types_ok_def wf_fields_def known_type_def pair_fields_def ltypes PB_LTYPE_def PB_LTYPE_EXTENSION_def)
  then have "ranked pair_env (\<lambda>_. 0)" by (auto simp: ranked_def pair_env_def pair_fields_def ltypes PB_LTYPE_def)
  moreover have "app_reads_within pair_env" "app_progress pair_env" "is_inv pair_stream" "bytes_left pair_stream < 9"
    by (simp_all add: app_reads_within_def app_progress_def pair_env_def is_inv_def pb_istream_from_buffer_def)
  ultimately obtain ok m' s' where r: "pb_decode_noinit 9 pair_env pair_fields 2000 (\<lambda>_. 0) pair_stream = Some (ok, m', s')"
    "is_mem s' = is_mem pair_stream" "ok \<longrightarrow> is_pos s' + bytes_left s' = is_pos pair_stream + bytes_left pair_stream"
    using pb_decode_stays_in_stream [OF _ t, of pair_env "\<lambda>_. 0" pair_stream 9 "pb_decode_noinit 9 pair_env" 2000 "\<lambda>_. 0"] by blast
  moreover have ok using pair_decode_9 r(1) by simp
  ultimately show ?thesis by (simp add: pb_istream_from_buffer_def)
qed

end
