(* ===== verification/Pb_Decode_Roundtrip.thy ===== *)
theory Pb_Decode_Roundtrip
  imports Pb_Message_Decode
begin

text \<open>
  What a successful decoding means: every required field was on the wire, and a structure of numbers
  written by \<open>pb_encode\<close> is read back by \<open>pb_decode\<close>.
\<close>

unbundle bit_operations_syntax

section \<open>Required fields\<close>

text \<open>The number of required fields before field \<open>i\<close>, which is its index among them.\<close>

definition required_before :: "pb_field_t list \<Rightarrow> nat \<Rightarrow> nat" where
  "required_before fs i = length (filter (\<lambda>f. PB_HTYPE (fld_type f) = PB_HTYPE_REQUIRED) (take i fs))"

text \<open>The bits of \<open>fields_seen\<close>.\<close>

definition seen_bit :: "u32 list \<Rightarrow> nat \<Rightarrow> bool" where
  "seen_bit seen j \<longleftrightarrow> bit (seen ! (j div 32)) (j mod 32)"

lemma required_before_Suc:
  "i < length fs \<Longrightarrow> required_before fs (Suc i) = required_before fs i + (if PB_HTYPE (fld_type (fs ! i)) = PB_HTYPE_REQUIRED then 1 else 0)"
  by (simp add: required_before_def take_Suc_conv_app_nth)

lemma required_before_mono: "i \<le> j \<Longrightarrow> required_before fs i \<le> required_before fs j"
proof -
  assume "i \<le> j"
  then have "take j fs = take i fs @ take (j - i) (drop i fs)" by (metis le_add_diff_inverse take_add)
  then show ?thesis by (simp add: required_before_def)
qed

lemma required_before_inject:
  assumes "required_before fs i = required_before fs j" "i < length fs" "j < length fs"
    "PB_HTYPE (fld_type (fs ! i)) = PB_HTYPE_REQUIRED" "PB_HTYPE (fld_type (fs ! j)) = PB_HTYPE_REQUIRED"
  shows "i = j"
  using required_before_mono [of "Suc i" j fs] required_before_mono [of "Suc j" i fs] required_before_Suc [of i fs] required_before_Suc [of j fs] assms
  by (cases i j rule: linorder_cases) auto

lemma required_field_index_at: "required_field_index (iter_at fs dest i) = of_nat (required_before fs i)"
  by (simp add: iter_at_def required_before_def)

lemma required_before_less:
  assumes "length fs < 2 ^ 32"
  shows "unat (of_nat (required_before fs i) :: u32) = required_before fs i"
proof -
  have "required_before fs i \<le> length fs" unfolding required_before_def by (rule order_trans [OF length_filter_le]) simp
  with assms show ?thesis by (simp add: unat_of_nat take_bit_nat_eq_self)
qed

lemma all_bits: "bit (- 1 :: u32) k \<longleftrightarrow> k < 32"
  by simp

text \<open>The word-wise comparison is the conjunction over the bits.\<close>

lemma required_seen_bits:
  assumes "required_seen n seen" "j < n"
  shows "seen_bit seen j"
proof (cases "j div 32 < n div 32")
  case True
  then have "seen ! (j div 32) = - 1" using assms(1) by (simp add: required_seen_def)
  then show ?thesis by (simp add: seen_bit_def)
next
  case False
  then have "j div 32 = n div 32" using div_le_mono [of j n 32] assms(2) by simp
  moreover then have "j mod 32 < n mod 32" using assms(2) by (metis div_mult_mod_eq nat_add_left_cancel_less)
  ultimately show ?thesis using assms(1) by (simp add: required_seen_def seen_bit_def bit_simps)
qed

text \<open>
  The iterator between the rounds: at a field, with the layout's pointers, except that the counter
  of a fixed-count array is the local one.
\<close>

definition iter_on :: "pb_field_t list \<Rightarrow> int \<Rightarrow> int \<Rightarrow> pb_field_iter_t \<Rightarrow> bool" where
  "iter_on fs dest cell iter \<longleftrightarrow>
     (\<exists>i<nfields fs. iter = iter_at fs dest i \<or>
        PB_HTYPE (fld_type (fs ! i)) = PB_HTYPE_REPEATED \<and> iter = (iter_at fs dest i)\<lparr>pSize := cell\<rparr>)"

lemma iter_on_at: "i < nfields fs \<Longrightarrow> iter_on fs dest cell (iter_at fs dest i)"
  by (auto simp: iter_on_def)

lemma next_of_local:
  assumes "wf_fields fs" "dest \<noteq> 0" "i < nfields fs" "PB_HTYPE (fld_type (fs ! i)) = PB_HTYPE_REPEATED"
  shows "pb_field_iter_next ((iter_at fs dest i)\<lparr>pSize := cell\<rparr>) = pb_field_iter_next (iter_at fs dest i)"
proof -
  have "fld_tag (fs ! i) \<noteq> 0" using field_tag_zero_iff [OF assms(1), of i] assms(3) by simp
  moreover have "\<not> in_union (fs ! i) g" for g using assms(4) by (simp add: in_union_def PB_HTYPE_REPEATED_def PB_HTYPE_ONEOF_def)
  moreover have "iter_field ((iter_at fs dest i)\<lparr>pSize := cell\<rparr>) = fs ! i" by (simp add: iter_at_def iter_field_def)
  ultimately show ?thesis
    using pb_field_iter_next_eq [of "(iter_at fs dest i)\<lparr>pSize := cell\<rparr>", OF _ refl refl] pb_field_iter_next_eq [of "iter_at fs dest i", OF _ refl refl]
    by (simp add: iter_at_def)
qed

lemma iter_on_next:
  assumes "wf_fields fs" "dest \<noteq> 0" "iter_on fs dest cell iter"
  shows "\<exists>j<nfields fs. snd (pb_field_iter_next iter) = iter_at fs dest j"
proof -
  obtain i where "i < nfields fs" "pb_field_iter_next iter = pb_field_iter_next (iter_at fs dest i)"
    using assms(3) next_of_local [OF assms(1,2)] by (auto simp: iter_on_def)
  then show ?thesis using pb_field_iter_next_at [OF assms(1,2), of i] by (cases "Suc i < nfields fs") (auto intro: exI [of _ 0])
qed

lemma find_at:
  assumes wf: "wf_fields fs" "dest \<noteq> 0" and i: "i < nfields fs"
  shows "\<exists>found j. j < nfields fs \<and> pb_field_iter_find (iter_at fs dest i) tag = Some (found, iter_at fs dest j) \<and>
    (found \<longleftrightarrow> (\<exists>j<nfields fs. matches fs tag j)) \<and> (found \<longrightarrow> matches fs tag j)"
proof -
  let ?n = "nfields fs"
  have n: "0 < ?n" using i by simp
  have e: "pb_field_iter_find (iter_at fs dest i) tag = iter_find_loop i tag (iter_at fs dest ((i + 0) mod ?n))"
    using i by (simp add: pb_field_iter_find_def)
  have "\<forall>j<(0::nat). \<not> matches fs tag ((i + j) mod ?n)" by simp
  from iter_find_loop_at [OF wf i n this] show ?thesis
  proof (elim disjE exE conjE)
    fix j assume "matches fs tag ((i + j) mod ?n)"
      "iter_find_loop i tag (iter_at fs dest ((i + 0) mod ?n)) = Some (True, iter_at fs dest ((i + j) mod ?n))"
    moreover have "(i + j) mod ?n < ?n" using n by simp
    ultimately show ?thesis using e by (intro exI [of _ True] exI [of _ "(i + j) mod ?n"]) auto
  next
    assume none: "\<forall>j<?n. \<not> matches fs tag ((i + j) mod ?n)"
      and r: "iter_find_loop i tag (iter_at fs dest ((i + 0) mod ?n)) = Some (False, iter_at fs dest i)"
    have "\<not> matches fs tag j" if "j < ?n" for j using none cyclic_search [OF i that] by auto
    then show ?thesis using i r e by (intro exI [of _ False] exI [of _ i]) auto
  qed
qed

text \<open>The same for the local counter: the search starts with the field itself.\<close>

lemma iter_on_find:
  assumes wf: "wf_fields fs" "dest \<noteq> 0" and it: "iter_on fs dest cell iter"
  shows "\<exists>found iter'. pb_field_iter_find iter tag = Some (found, iter') \<and> iter_on fs dest cell iter' \<and>
    (found \<longleftrightarrow> (\<exists>j<nfields fs. matches fs tag j)) \<and> (found \<longrightarrow> (\<exists>j<nfields fs. matches fs tag j \<and>
      (iter' = iter_at fs dest j \<or> PB_HTYPE (fld_type (fs ! j)) = PB_HTYPE_REPEATED \<and> iter' = (iter_at fs dest j)\<lparr>pSize := cell\<rparr>)))"
proof -
  obtain i where i: "i < nfields fs" and c: "iter = iter_at fs dest i \<or>
      PB_HTYPE (fld_type (fs ! i)) = PB_HTYPE_REPEATED \<and> iter = (iter_at fs dest i)\<lparr>pSize := cell\<rparr>"
    using it by (auto simp: iter_on_def)
  show ?thesis
  proof (cases "iter = iter_at fs dest i")
    case True
    then show ?thesis using find_at [OF wf i, of tag] iter_on_at by metis
  next
    case False
    then have l: "PB_HTYPE (fld_type (fs ! i)) = PB_HTYPE_REPEATED" "iter = (iter_at fs dest i)\<lparr>pSize := cell\<rparr>" using c by auto
    then have f: "iter_field iter = fs ! i" "iter_pos iter = i" by (simp_all add: iter_at_def iter_field_def)
    show ?thesis
    proof (cases "matches fs tag i")
      case True
      then have "pb_field_iter_find iter tag = Some (True, iter)"
        unfolding pb_field_iter_find_def by (subst iter_find_loop.simps) (simp add: f matches_def)
      then show ?thesis using i True l it by auto
    next
      case nm: False
      have "pb_field_iter_next iter = pb_field_iter_next (iter_at fs dest i)" unfolding l(2) by (rule next_of_local [OF wf i l(1)])
      with nm have "pb_field_iter_find iter tag = pb_field_iter_find (iter_at fs dest i) tag"
        unfolding pb_field_iter_find_def iter_find_loop.simps [of _ _ iter] iter_find_loop.simps [of _ _ "iter_at fs dest i"]
        by (auto simp: f matches_def Let_def)
      then show ?thesis using find_at [OF wf i, of tag] iter_on_at by metis
    qed
  qed
qed

lemma iter_on_find_extension:
  assumes wf: "wf_fields fs" "dest \<noteq> 0"
  shows "iter_on fs dest cell iter \<Longrightarrow> find_extension_loop start k iter = Some (found, iter') \<Longrightarrow> iter_on fs dest cell iter'"
proof (induction k arbitrary: iter)
  case (Suc k)
  then show ?case using iter_on_next [OF wf Suc.prems(1)] Suc.IH iter_on_at by (fastforce simp: Let_def split: if_split_asm)
qed simp

text \<open>The fields whose bit is set, with the tags that have been read.\<close>

definition seen_ok :: "pb_field_t list \<Rightarrow> u32 list \<Rightarrow> u32 set \<Rightarrow> bool" where
  "seen_ok fs seen tags \<longleftrightarrow> length seen = 2 \<and>
     (\<forall>j<64. seen_bit seen j \<longrightarrow> (\<exists>i<nfields fs. PB_HTYPE (fld_type (fs ! i)) = PB_HTYPE_REQUIRED \<and>
        required_before fs i = j \<and> fld_tag (fs ! i) \<in> tags))"

lemma seen_ok_mono: "seen_ok fs seen tags \<Longrightarrow> tags \<subseteq> tags' \<Longrightarrow> seen_ok fs seen tags'"
  unfolding seen_ok_def by blast

lemma seen_bit_set:
  assumes "length seen = 2" "i < 64" "j < 64"
  shows "seen_bit (seen[i div 32 := (seen ! (i div 32)) OR push_bit (i mod 32) 1]) j \<longleftrightarrow> j = i \<or> seen_bit seen j"
proof (cases "j div 32 = i div 32")
  case True
  then have "j mod 32 = i mod 32 \<longleftrightarrow> j = i" by (metis div_mult_mod_eq)
  moreover have "i div 32 < length seen" using assms by simp
  ultimately show ?thesis using True by (auto simp: seen_bit_def bit_simps)
next
  case False
  then have "j \<noteq> i" by blast
  with False show ?thesis by (simp add: seen_bit_def)
qed

lemma use_fixed_count_vars:
  assumes "use_fixed_count cell v m = Some (v', m')"
  shows "fields_seen v' = fields_seen v" "v_iter v' = v_iter v \<or>
    PB_HTYPE (fld_type (iter_field (v_iter v))) = PB_HTYPE_REPEATED \<and> v_iter v' = (v_iter v)\<lparr>pSize := cell\<rparr>"
  using assms by (auto simp: use_fixed_count_def Let_def split: if_split_asm)

lemma mark_required_iter [simp]: "v_iter (mark_required v) = v_iter v"
  by (simp add: mark_required_def Let_def)

text \<open>Marking the field the iterator is on, when its tag has been read.\<close>

lemma mark_required_ok:
  assumes small: "length fs < 2 ^ 32" and ok: "seen_ok fs (fields_seen v) tags" and i: "i < nfields fs" "fld_tag (fs ! i) \<in> tags"
    and it: "iter_field (v_iter v) = fs ! i" "required_field_index (v_iter v) = of_nat (required_before fs i)"
  shows "seen_ok fs (fields_seen (mark_required v)) tags"
proof (cases "PB_HTYPE (fld_type (fs ! i)) = PB_HTYPE_REQUIRED \<and> required_before fs i < 64")
  case True
  let ?j = "required_before fs i"
  have "fields_seen (mark_required v) = (fields_seen v)[?j div 32 := (fields_seen v ! (?j div 32)) OR push_bit (?j mod 32) 1]"
    using True by (simp add: mark_required_def it required_before_less [OF small] Let_def PB_MAX_REQUIRED_FIELDS_def)
  then show ?thesis using ok True i seen_bit_set [of "fields_seen v" ?j] by (auto simp: seen_ok_def)
next
  case False
  then show ?thesis using ok by (auto simp: mark_required_def it required_before_less [OF small] Let_def PB_MAX_REQUIRED_FIELDS_def)
qed

lemma decode_field_iter:
  assumes wf: "wf_fields fs" "dest \<noteq> 0" and it: "iter_on fs dest cell iter"
    and d: "decode_field noinit init env wt iter m s = Some (r, iter')"
  shows "iter_on fs dest cell iter'"
proof -
  have find: "iter_on fs dest cell it2" if "iter_on fs dest cell it1" "pb_field_iter_find it1 tag = Some (found, it2)" for it1 it2 tag found
    using iter_on_find [OF wf that(1), of tag] that(2) by auto
  let ?release = "if PB_HTYPE (fld_type (iter_field iter)) = PB_HTYPE_ONEOF then pb_release_union_field env m s iter else Some ((True, m, s), iter)"
  obtain x where u: "?release = Some (x, iter')"
    using d unfolding decode_field_def Let_def by (cases ?release) (auto split: if_split_asm)
  have "pb_release_union_field env m s iter = Some (x, iter') \<Longrightarrow> iter_on fs dest cell iter'"
    using it unfolding pb_release_union_field_def Let_def by (auto simp: bind_eq_Some_conv split: if_split_asm) (blast intro: find)+
  then show ?thesis using u it by (auto split: if_split_asm)
qed

lemma iter_on_index:
  assumes "iter = iter_at fs dest i \<or> P \<and> iter = (iter_at fs dest i)\<lparr>pSize := cell\<rparr>"
  shows "iter_field iter = fs ! i" "required_field_index iter = of_nat (required_before fs i)"
  using assms by (auto simp: iter_field_def iter_at_def required_before_def)

text \<open>One round keeps the iterator on a field and marks only the field whose tag it has read.\<close>

lemma step_seen:
  assumes wf: "wf_fields fs" "dest \<noteq> 0" and small: "length fs < 2 ^ 32"
    and it: "iter_on fs dest cell (v_iter v)" and ok: "seen_ok fs (fields_seen v) tags"
    and dec: "decode = decode_field noinit init env" and d: "decode_step decode env cell v m s = Some (x, v', m', s')"
  shows "iter_on fs dest cell (v_iter v') \<and> seen_ok fs (fields_seen v') (tags \<union> (case fst (pb_decode_tag s) of None \<Rightarrow> {} | Some (wt, tag) \<Rightarrow> {tag}))"
proof -
  obtain t eof s1 where t: "pb_decode_tag s = (t, eof, s1)" by (metis prod_cases3)
  show ?thesis
  proof (cases t)
    case None
    then show ?thesis using d it ok t by (auto simp: decode_step_def)
  next
    case (Some wt_tag)
    obtain wt tag where wt: "t = Some (wt, tag)" using Some by (cases wt_tag) auto
    let ?tags = "tags \<union> {tag}"
    have ok': "seen_ok fs (fields_seen v) ?tags" by (rule seen_ok_mono [OF ok]) blast
    obtain found iter r where f: "pb_field_iter_find (v_iter v) tag = Some (found, iter)"
      "(if found then decode_known decode cell wt (v\<lparr>v_iter := iter\<rparr>) m s1
        else decode_unknown decode env tag wt (v\<lparr>v_iter := iter\<rparr>) m s1) = Some (r, v')"
      using d t wt by (auto simp: decode_step_def bind_eq_Some_conv)
    have on: "iter_on fs dest cell iter" using iter_on_find [OF wf it, of tag] f(1) by auto
    have "iter_on fs dest cell (v_iter v') \<and> seen_ok fs (fields_seen v') ?tags"
    proof (cases found)
      case True
      then obtain j where j: "j < nfields fs" "matches fs tag j"
        "iter = iter_at fs dest j \<or> PB_HTYPE (fld_type (fs ! j)) = PB_HTYPE_REPEATED \<and> iter = (iter_at fs dest j)\<lparr>pSize := cell\<rparr>"
        using iter_on_find [OF wf it, of tag] f(1) by auto
      show ?thesis
      proof (cases "use_fixed_count cell (v\<lparr>v_iter := iter\<rparr>) m")
        case None
        then show ?thesis using f(2) True on ok' by (auto simp: decode_known_def)
      next
        case (Some vm)
        obtain v1 m1 where v1: "use_fixed_count cell (v\<lparr>v_iter := iter\<rparr>) m = Some (v1, m1)" using Some by (cases vm) auto
        note uses = use_fixed_count_vars [OF v1]
        obtain iter' where i': "decode wt (v_iter v1) m1 s1 = Some (r, iter')" "v' = (mark_required v1)\<lparr>v_iter := iter'\<rparr>"
          using f(2) True v1 by (auto simp: decode_known_def Let_def bind_eq_Some_conv)
        have c: "v_iter v1 = iter_at fs dest j \<or> PB_HTYPE (fld_type (fs ! j)) = PB_HTYPE_REPEATED \<and> v_iter v1 = (iter_at fs dest j)\<lparr>pSize := cell\<rparr>"
          using uses(2) j(3) iter_on_index(1) [OF j(3)] by auto
        then have on1: "iter_on fs dest cell (v_iter v1)" using j(1) by (auto simp: iter_on_def)
        have "fld_tag (fs ! j) \<in> ?tags" using j(2) by (simp add: matches_def)
        from mark_required_ok [OF small _ j(1) this iter_on_index [OF c]] ok' uses(1)
        show ?thesis using decode_field_iter [OF wf on1 i'(1) [unfolded dec]] i'(2) by simp
      qed
    next
      case False
      then have un: "decode_unknown decode env tag wt (v\<lparr>v_iter := iter\<rparr>) m s1 = Some (r, v')" using f(2) by simp
      have "fields_seen v' = fields_seen v" "v_iter v' = iter \<or> (\<exists>e. find_extension_field iter = Some (e, v_iter v'))"
        using un unfolding decode_unknown_def Let_def by (auto simp: bind_eq_Some_conv split: if_split_asm)
      then show ?thesis using on ok' iter_on_find_extension [OF wf on] unfolding find_extension_field_def by auto
    qed
    then show ?thesis using t wt by simp
  qed
qed

text \<open>The tags the loop reads.\<close>

primrec decode_tags :: "iter_decoder \<Rightarrow> pb_decode_env \<Rightarrow> int \<Rightarrow> nat \<Rightarrow> decode_vars \<Rightarrow> memory \<Rightarrow> pb_istream_t \<Rightarrow> u32 list" where
  "decode_tags decode env cell 0 v m s = []"
| "decode_tags decode env cell (Suc k) v m s =
     (if bytes_left s = 0 then []
      else
        (case fst (pb_decode_tag s) of None \<Rightarrow> [] | Some (wire_type, tag) \<Rightarrow> [tag]) @
        (case decode_step decode env cell v m s of
           Some (Some True, v, m, s) \<Rightarrow> decode_tags decode env cell k v m s
         | _ \<Rightarrow> []))"

definition message_tags :: "nat \<Rightarrow> pb_decode_env \<Rightarrow> pb_field_t list \<Rightarrow> int \<Rightarrow> memory \<Rightarrow> pb_istream_t \<Rightarrow> u32 list" where
  "message_tags n env fs dest m s =
     decode_tags (decode_field (pb_decode_noinit n env) (with_init (pb_decode_noinit n env) env) env) env (d_stack env n) (Suc (bytes_left s))
       \<lparr>fields_seen = [0, 0], extension_range_start = 0, v_iter = snd (pb_field_iter_begin fs dest), fixed_count_field = None\<rparr>
       (put_u32 m (d_stack env n) 0) s"

lemma loop_seen:
  assumes wf: "wf_fields fs" "dest \<noteq> 0" and small: "length fs < 2 ^ 32" and dec: "decode = decode_field noinit init env"
  shows "iter_on fs dest cell (v_iter v) \<Longrightarrow> seen_ok fs (fields_seen v) tags \<Longrightarrow>
    decode_loop decode env cell k v m s = Some (ok, v', m', s') \<Longrightarrow>
    iter_on fs dest cell (v_iter v') \<and> seen_ok fs (fields_seen v') (tags \<union> set (decode_tags decode env cell k v m s))"
proof (induction k arbitrary: v m s tags)
  case (Suc k)
  show ?case
  proof (cases "bytes_left s = 0")
    case True
    then show ?thesis using Suc.prems by simp
  next
    case False
    then obtain x v1 m1 s1 where st: "decode_step decode env cell v m s = Some (x, v1, m1, s1)"
      using Suc.prems(3) by (auto simp: bind_eq_Some_conv)
    let ?new = "case fst (pb_decode_tag s) of None \<Rightarrow> {} | Some (wt, tag) \<Rightarrow> {tag}"
    have new: "set (case fst (pb_decode_tag s) of None \<Rightarrow> [] | Some (wt, tag) \<Rightarrow> [tag]) = ?new" by (auto split: option.splits)
    have on: "iter_on fs dest cell (v_iter v1)" "seen_ok fs (fields_seen v1) (tags \<union> ?new)"
      using step_seen [OF wf small Suc.prems(1,2) dec st] by simp_all
    show ?thesis
    proof (cases "x = Some True")
      case True
      then have l: "decode_loop decode env cell k v1 m1 s1 = Some (ok, v', m', s')" using Suc.prems(3) st False by auto
      have "set (decode_tags decode env cell (Suc k) v m s) = ?new \<union> set (decode_tags decode env cell k v1 m1 s1)"
        using False st True new by simp
      then show ?thesis using Suc.IH [OF on l] by (simp add: Un_assoc)
    next
      case nt: False
      then have "v' = v1" using Suc.prems(3) st False by (cases x) auto
      moreover have "tags \<union> ?new \<subseteq> tags \<union> set (decode_tags decode env cell (Suc k) v m s)" using False new by auto
      ultimately show ?thesis using on seen_ok_mono by blast
    qed
  qed
qed simp

lemma count_required_at:
  assumes wf: "wf_fields fs" "dest \<noteq> 0"
  shows "i < nfields fs \<Longrightarrow> count_required k (iter_at fs dest i) = Some (n, f, iter') \<Longrightarrow>
    n = unat (of_nat (required_before fs (nfields fs - 1)) :: u32) \<and> f = fs ! (nfields fs - 1) \<and> iter' = iter_at fs dest 0"
proof (induction k arbitrary: i)
  case (Suc k)
  show ?case
  proof (cases "Suc i < nfields fs")
    case True
    then show ?thesis using Suc pb_field_iter_next_at [OF wf Suc.prems(1)] by simp
  next
    case False
    then have "i = nfields fs - 1" using Suc.prems(1) by simp
    then show ?thesis using Suc.prems pb_field_iter_next_at [OF wf Suc.prems(1)] False by (auto simp: required_field_index_at)
  qed
qed simp

text \<open>The number of required fields that the final check uses.\<close>

lemma required_fields_present_bits:
  assumes wf: "wf_fields fs" "dest \<noteq> 0" and small: "length fs < 2 ^ 32" and it: "iter_on fs dest cell (v_iter v)"
    and p: "required_fields_present v = Some True" and i: "i < nfields fs" "PB_HTYPE (fld_type (fs ! i)) = PB_HTYPE_REQUIRED" "required_before fs i < 64"
  shows "seen_bit (fields_seen v) (required_before fs i)"
proof -
  let ?n = "required_before fs (nfields fs - 1)" and ?last = "fs ! (nfields fs - 1)"
  obtain j where j: "j < nfields fs" "pb_field_iter_next (v_iter v) = pb_field_iter_next (iter_at fs dest j)"
      "iter_field (v_iter v) = fs ! j" "required_field_index (v_iter v) = of_nat (required_before fs j)"
    using it next_of_local [OF wf] iter_on_index unfolding iter_on_def by metis
  have c: "count_required (Suc k) (v_iter v) = count_required (Suc k) (iter_at fs dest j)" for k
    using j by (simp add: required_field_index_at split: prod.splits bool.splits)
  obtain n f iter' where n: "count_required (Suc (length (iter_fields (v_iter v)))) (v_iter v) = Some (n, f, iter')"
    "required_seen (min (if PB_HTYPE (fld_type f) = PB_HTYPE_REQUIRED \<and> fld_tag (iter_field iter') \<noteq> 0 then n + 1 else n) 64) (fields_seen v)"
    using p by (auto simp: required_fields_present_def bind_eq_Some_conv PB_MAX_REQUIRED_FIELDS_def simp del: count_required.simps)
  have "n = ?n" "f = ?last" "iter' = iter_at fs dest 0"
    using count_required_at [OF wf j(1) n(1) [unfolded c]] unfolding required_before_less [OF small] by simp_all
  moreover have "fld_tag (fs ! 0) \<noteq> 0" using field_tag_zero_iff [OF wf(1), of 0] i(1) by simp
  moreover have "Suc (nfields fs - 1) = nfields fs" "nfields fs - 1 < length fs" using i(1) by (auto simp: nfields_def)
  ultimately have "required_seen (min (required_before fs (nfields fs)) 64) (fields_seen v)"
    using n(2) required_before_Suc [of "nfields fs - 1" fs] by (simp split: if_split_asm)
  moreover have "required_before fs i < required_before fs (nfields fs)"
    using required_before_Suc [of i fs] required_before_mono [of "Suc i" "nfields fs" fs] i(1,2) by (simp add: nfields_def)
  ultimately show ?thesis using required_seen_bits i(3) by (simp add: min_def split: if_split_asm)
qed

text \<open>C31: No message is accepted without its required fields: when \<open>pb_decode_noinit\<close> succeeds, it has read
  the tag of each of the first 64 required fields of the message type, whatever else the input
  held.\<close>

theorem pb_decode_requires_fields:
  assumes "wf_fields fs" "dest \<noteq> 0" "length fs < 2 ^ 32" "pb_decode_noinit (Suc n) env fs dest m s = Some (True, m', s')"
    "i < nfields fs" "PB_HTYPE (fld_type (fs ! i)) = PB_HTYPE_REQUIRED" "required_before fs i < 64"
  shows "fld_tag (fs ! i) \<in> set (message_tags n env fs dest m s)"
proof -
  let ?dec = "decode_field (pb_decode_noinit n env) (with_init (pb_decode_noinit n env) env) env"
  let ?v = "\<lparr>fields_seen = [0, 0], extension_range_start = 0, v_iter = snd (pb_field_iter_begin fs dest), fixed_count_field = None\<rparr>"
  obtain v m1 s1 where l: "decode_loop ?dec env (d_stack env n) (Suc (bytes_left s)) ?v (put_u32 m (d_stack env n) 0) s = Some (True, v, m1, s1)"
    and p: "required_fields_present v = Some True"
    using assms(4) by (auto simp: decode_message_def bind_eq_Some_conv simp del: decode_loop.simps split: if_split_asm)
  have "seen_bit [0, 0] j \<longleftrightarrow> False" if "j < 64" for j
  proof -
    have "j div 32 = 0 \<or> j div 32 = 1" using that by auto
    then show ?thesis by (auto simp: seen_bit_def)
  qed
  then have "seen_ok fs (fields_seen ?v) {}" by (simp add: seen_ok_def)
  moreover have "iter_on fs dest (d_stack env n) (v_iter ?v)" using assms(5) pb_field_iter_begin_at [OF assms(1,2)] by (simp add: iter_on_at)
  ultimately have "iter_on fs dest (d_stack env n) (v_iter v)" "seen_ok fs (fields_seen v) (set (message_tags n env fs dest m s))"
    using loop_seen [OF assms(1-3) refl _ _ l, of "{}"] unfolding message_tags_def by simp_all
  then obtain j where "j < nfields fs" "PB_HTYPE (fld_type (fs ! j)) = PB_HTYPE_REQUIRED" "required_before fs j = required_before fs i"
      "fld_tag (fs ! j) \<in> set (message_tags n env fs dest m s)"
    using required_fields_present_bits [OF assms(1-3) _ p assms(5-7)] assms(7) unfolding seen_ok_def by blast
  moreover then have "j = i" using required_before_inject [of fs j i] assms(5,6) by (simp add: nfields_def)
  ultimately show ?thesis by simp
qed

section \<open>Messages come back\<close>

lemma load_store_same: "length bs = n \<Longrightarrow> load_bytes n (mem_at (store_bytes m a bs) a) = bs"
  by (rule nth_equalityI) (simp_all add: load_bytes_def mem_at_def store_bytes_def)

lemma load_store_other:
  assumes "{a..<a + int (length bs)} \<inter> {b..<b + int n} = {}"
  shows "load_bytes n (mem_at (store_bytes m a bs) b) = load_bytes n (mem_at m b)"
proof -
  have "store_bytes m a bs (b + int i) = m (b + int i)" if "i < n" for i
    using assms that by (auto simp: store_bytes_def dest!: equalityD1 subsetD [of _ _ "b + int i"])
  then show ?thesis by (simp add: load_bytes_def mem_at_def)
qed

lemma store_other: "x \<notin> {a..<a + int (length bs)} \<Longrightarrow> store_bytes m a bs x = m x"
  by (auto simp: store_bytes_def)

lemma load_load [simp]: "load_int d ((!) (load_bytes d p)) = load_int d p" "load_uint d ((!) (load_bytes d p)) = load_uint d p"
  by (simp_all add: load_int_def load_uint_def)

text \<open>
  The fields for which the round trip is stated: numbers of every kind in the structure itself,
  required or with a flag.
\<close>

definition scalar_type :: "pb_field_t \<Rightarrow> bool" where
  "scalar_type f \<longleftrightarrow>
     (let t = PB_LTYPE (fld_type f) in
      t = PB_LTYPE_BOOL \<and> data_size f = 1 \<or>
      (t = PB_LTYPE_VARINT \<or> t = PB_LTYPE_UVARINT \<or> t = PB_LTYPE_SVARINT) \<and> int_size f \<or>
      t = PB_LTYPE_FIXED32 \<and> data_size f = 4 \<or> t = PB_LTYPE_FIXED64 \<and> data_size f = 8)"

definition scalar_field :: "pb_field_t \<Rightarrow> bool" where
  "scalar_field f \<longleftrightarrow> scalar_type f \<and> PB_ATYPE (fld_type f) = PB_ATYPE_STATIC \<and> 0 < unat (fld_tag f) \<and> unat (fld_tag f) < 2 ^ 29 \<and>
     (PB_HTYPE (fld_type f) = PB_HTYPE_REQUIRED \<or> PB_HTYPE (fld_type f) = PB_HTYPE_OPTIONAL \<and> size_offset f \<noteq> 0)"

text \<open>A value as the program stores it: a \<open>bool\<close> is zero or one.\<close>

definition clean_value :: "pb_world \<Rightarrow> pb_field_t \<Rightarrow> int \<Rightarrow> bool" where
  "clean_value w f a \<longleftrightarrow> (PB_LTYPE (fld_type f) = PB_LTYPE_BOOL \<longrightarrow> w_mem w a = 0 \<or> w_mem w a = 1)"

lemma fixed_reads:
  assumes "is_inv s" "is_bytes s = load_bytes 4 p @ rest"
  shows "\<exists>s'. pb_decode_fixed32 s = (Some (of_nat (load_uint 4 p)), s') \<and> is_bytes s' = rest \<and> is_advances s s'"
proof -
  have "unat (of_nat (load_uint 4 p) :: u32) = load_uint 4 p" using load_uint_less [of 4 p] by (simp add: unat_of_nat take_bit_nat_eq_self)
  then show ?thesis using co_fixed32.get_reads [of s "of_nat (load_uint 4 p)" rest] assms by (simp add: be_bytes_load)
qed

lemma fixed64_reads:
  assumes "is_inv s" "is_bytes s = load_bytes 8 p @ rest"
  shows "\<exists>s'. pb_decode_fixed64 s = (Some (of_nat (load_uint 8 p)), s') \<and> is_bytes s' = rest \<and> is_advances s s'"
proof -
  have "unat (of_nat (load_uint 8 p) :: u64) = load_uint 8 p" using load_uint_less [of 8 p] by (simp add: unat_of_nat take_bit_nat_eq_self)
  then show ?thesis using co_fixed64.get_reads [of s "of_nat (load_uint 8 p)" rest] assms by (simp add: be_bytes_load)
qed

lemma store_load: "length dest = d \<Longrightarrow> store_int d (int (load_uint d p)) dest = load_bytes d p"
  by (rule store_same) simp_all

text \<open>A scalar is decoded to the bytes it was encoded from.\<close>

lemma in_place_reads:
  assumes "\<And>dest. length dest = bytes_of f \<Longrightarrow> \<exists>s'. dec s f dest = (True, load_bytes (bytes_of f) p, s') \<and> is_bytes s' = rest \<and> is_advances s s'"
  shows "\<exists>s'. in_place dec f dest m s = (True, store_bytes m dest (load_bytes (bytes_of f) p), s') \<and> is_bytes s' = rest \<and> is_advances s s'"
  using assms [of "load_bytes (bytes_of f) (mem_at m dest)"] by (auto simp: in_place_def)

lemma codec_reads:
  assumes "pb_codec put (dec_value dec f dest) valid enc" "valid x" "is_inv s" "is_bytes s = enc x @ rest"
  shows "\<exists>s'. dec s f dest = (True, x, s') \<and> is_bytes s' = rest \<and> is_advances s s'"
  using pb_codec.get_reads [OF assms] by (auto dest: dec_value_SomeD)

lemma bool_reads:
  assumes "is_inv s" "is_bytes s = varint (if safe_read_bool p then 1 else 0) @ rest" "p 0 = 0 \<or> p 0 = 1" "data_size f = 1" "length dest = 1"
  shows "\<exists>s'. pb_dec_bool s f dest = (True, load_bytes (bytes_of f) p, s') \<and> is_bytes s' = rest \<and> is_advances s s'"
proof -
  have b: "safe_read_bool p \<longleftrightarrow> p 0 = 1" using assms(3) by (auto simp: safe_read_bool_def flag_set_def)
  obtain s' where "pb_decode_varint32 s = (Some (of_nat (if p 0 = 1 then 1 else 0)), s')" "is_bytes s' = rest" "is_advances s s'"
    by (rule pb_decode_varint32_reads [OF assms(1), of "if p 0 = 1 then 1 else 0" rest]) (use assms(2) b in \<open>auto split: if_split_asm\<close>)
  moreover have "store_int 1 (if p 0 = 1 then 1 else 0) dest = [p 0]"
    using assms(3,5) by (auto simp: store_int_def splice_def)
  ultimately show ?thesis using assms(3,4) by (auto simp: pb_dec_bool_def load_bytes_def)
qed

lemma scalar_reads:
  assumes f: "scalar_type f" and v: "value_bytes sub w f p = Some b" and c: "clean_value w f p"
    and s: "is_inv s" "is_bytes s = b @ rest"
  shows "\<exists>s'. PB_DECODERS noinit init env f dest m s = Some (True, store_bytes m dest (load_bytes (bytes_of f) (at w p)), s') \<and>
    is_bytes s' = rest \<and> is_advances s s'"
proof -
  let ?t = "PB_LTYPE (fld_type f)" and ?src = "load_bytes (bytes_of f) (at w p)"
  consider "?t = PB_LTYPE_BOOL" "data_size f = 1" | "?t = PB_LTYPE_VARINT" "int_size f" | "?t = PB_LTYPE_UVARINT" "int_size f"
    | "?t = PB_LTYPE_SVARINT" "int_size f" | "?t = PB_LTYPE_FIXED32" "data_size f = 4" | "?t = PB_LTYPE_FIXED64" "data_size f = 8"
    using f unfolding scalar_type_def Let_def by blast
  then show ?thesis
  proof cases
    case 1
    have "\<exists>s'. pb_dec_bool s f d = (True, ?src, s') \<and> is_bytes s' = rest \<and> is_advances s s'" if "length d = bytes_of f" for d
      using bool_reads [OF s(1), of "at w p" rest f d] v c 1 s(2) that by (simp add: value_bytes_def Let_def clean_value_def at_def)
    from in_place_reads [where dec = pb_dec_bool and dest = dest and m = m, OF this] show ?thesis using 1(1) by (simp add: PB_DECODERS_def Let_def)
  next
    case 2
    have "\<exists>s'. pb_dec_varint s f d = (True, ?src, s') \<and> is_bytes s' = rest \<and> is_advances s s'" if "length d = bytes_of f" for d
      by (rule codec_reads [OF co_enc_varint [OF 2(2) that] _ s(1)]) (use v 2 s(2) in \<open>simp_all add: value_bytes_def Let_def ltypes\<close>)
    from in_place_reads [where dec = pb_dec_varint and dest = dest and m = m, OF this] show ?thesis using 2(1) by (simp add: PB_DECODERS_def Let_def ltypes)
  next
    case 3
    have u: "unat (of_nat (load_uint (bytes_of f) (at w p)) :: u64) = load_uint (bytes_of f) (at w p)"
    proof -
      have "load_uint (bytes_of f) (at w p) < 256 ^ bytes_of f" by (rule load_uint_less)
      also have "\<dots> \<le> 256 ^ 8" using int_size_cases [OF 3(2)] by (intro power_increasing) simp_all
      finally show ?thesis by (simp add: unat_of_nat take_bit_nat_eq_self)
    qed
    have "\<exists>s'. pb_dec_uvarint s f d = (True, ?src, s') \<and> is_bytes s' = rest \<and> is_advances s s'" if "length d = bytes_of f" for d
      by (rule codec_reads [OF co_enc_uvarint [OF 3(2) that] _ s(1)]) (use v 3 s(2) u in \<open>simp_all add: value_bytes_def Let_def ltypes\<close>)
    from in_place_reads [where dec = pb_dec_uvarint and dest = dest and m = m, OF this] show ?thesis using 3(1) by (simp add: PB_DECODERS_def Let_def ltypes)
  next
    case 4
    have "\<exists>s'. pb_dec_svarint s f d = (True, ?src, s') \<and> is_bytes s' = rest \<and> is_advances s s'" if "length d = bytes_of f" for d
      by (rule codec_reads [OF co_enc_svarint [OF 4(2) that] _ s(1)]) (use v 4 s(2) in \<open>simp_all add: value_bytes_def Let_def ltypes\<close>)
    from in_place_reads [where dec = pb_dec_svarint and dest = dest and m = m, OF this] show ?thesis using 4(1) by (simp add: PB_DECODERS_def Let_def ltypes)
  next
    case 5
    have n: "uint (of_nat (load_uint 4 (at w p)) :: u32) = int (load_uint 4 (at w p))"
      using load_uint_less [of 4 "at w p"] by (simp add: unsigned_of_nat take_bit_nat_eq_self)
    have "\<exists>s'. pb_dec_fixed32 s f d = (True, ?src, s') \<and> is_bytes s' = rest \<and> is_advances s s'" if "length d = bytes_of f" for d
      using fixed_reads [OF s(1), of "at w p" rest] v s(2) that store_load [of d 4] n 5
      by (auto simp: pb_dec_fixed32_def value_bytes_def Let_def ltypes)
    from in_place_reads [where dec = pb_dec_fixed32 and dest = dest and m = m, OF this] show ?thesis using 5(1) by (simp add: PB_DECODERS_def Let_def ltypes)
  next
    case 6
    have n: "uint (of_nat (load_uint 8 (at w p)) :: u64) = int (load_uint 8 (at w p))"
      using load_uint_less [of 8 "at w p"] by (simp add: unsigned_of_nat take_bit_nat_eq_self)
    have "\<exists>s'. pb_dec_fixed64 s f d = (True, ?src, s') \<and> is_bytes s' = rest \<and> is_advances s s'" if "length d = bytes_of f" for d
      using fixed64_reads [OF s(1), of "at w p" rest] v s(2) that store_load [of d 8] n 6
      by (auto simp: pb_dec_fixed64_def value_bytes_def Let_def ltypes)
    from in_place_reads [where dec = pb_dec_fixed64 and dest = dest and m = m, OF this] show ?thesis using 6(1) by (simp add: PB_DECODERS_def Let_def ltypes)
  qed
qed

text \<open>
  Message types of such fields, each with its own tag, at most 64 of them required; and a structure
  whose fields do not overlap each other, their flags or the local counter of the decoder.
\<close>

definition scalar_message :: "pb_field_t list \<Rightarrow> bool" where
  "scalar_message fs \<longleftrightarrow> wf_fields fs \<and> 0 < nfields fs \<and> length fs < 2 ^ 32 \<and> required_before fs (nfields fs) \<le> 64 \<and>
     (\<forall>i<nfields fs. scalar_field (fs ! i) \<and> (\<forall>j<nfields fs. fld_tag (fs ! i) = fld_tag (fs ! j) \<longrightarrow> i = j))"

abbreviation optional :: "pb_field_t \<Rightarrow> bool" where
  "optional f \<equiv> PB_HTYPE (fld_type f) = PB_HTYPE_OPTIONAL"

definition data_span :: "pb_field_t list \<Rightarrow> int \<Rightarrow> nat \<Rightarrow> int set" where
  "data_span fs dest i = {data_at fs dest i..<data_at fs dest i + int (bytes_of (fs ! i))}"

definition flag_span :: "pb_field_t list \<Rightarrow> int \<Rightarrow> nat \<Rightarrow> int set" where
  "flag_span fs dest i = (if optional (fs ! i) then {data_at fs dest i + size_offset (fs ! i)} else {})"

definition separate :: "pb_field_t list \<Rightarrow> int \<Rightarrow> int \<Rightarrow> bool" where
  "separate fs dest cell \<longleftrightarrow>
     (\<forall>i<nfields fs. \<forall>j<nfields fs.
        (i \<noteq> j \<longrightarrow> data_span fs dest i \<inter> data_span fs dest j = {} \<and> flag_span fs dest i \<inter> flag_span fs dest j = {}) \<and>
        data_span fs dest i \<inter> flag_span fs dest j = {}) \<and>
     (\<forall>i<nfields fs. flag_span fs dest i \<inter> {cell..<cell + 4} = {})"

text \<open>That a field is in the destination as it is in the source.\<close>

definition present :: "pb_world \<Rightarrow> pb_field_t list \<Rightarrow> int \<Rightarrow> nat \<Rightarrow> bool" where
  "present w fs src i \<longleftrightarrow> \<not> optional (fs ! i) \<or> safe_read_bool (at w (data_at fs src i + size_offset (fs ! i)))"

definition copied :: "pb_world \<Rightarrow> pb_field_t list \<Rightarrow> int \<Rightarrow> int \<Rightarrow> memory \<Rightarrow> nat \<Rightarrow> bool" where
  "copied w fs src dest m i \<longleftrightarrow>
     (optional (fs ! i) \<longrightarrow> safe_read_bool (mem_at m (data_at fs dest i + size_offset (fs ! i))) = present w fs src i) \<and>
     (present w fs src i \<longrightarrow>
        load_bytes (bytes_of (fs ! i)) (mem_at m (data_at fs dest i)) = load_bytes (bytes_of (fs ! i)) (at w (data_at fs src i)))"

definition flag_clear :: "pb_field_t list \<Rightarrow> int \<Rightarrow> memory \<Rightarrow> nat \<Rightarrow> bool" where
  "flag_clear fs dest m i \<longleftrightarrow> (optional (fs ! i) \<longrightarrow> m (data_at fs dest i + size_offset (fs ! i)) = 0)"

lemmas htypes = PB_HTYPE_REQUIRED_def PB_HTYPE_OPTIONAL_def PB_HTYPE_REPEATED_def PB_HTYPE_ONEOF_def
lemmas atypes = PB_ATYPE_STATIC_def PB_ATYPE_POINTER_def PB_ATYPE_CALLBACK_def

lemma scalar_cases:
  assumes "scalar_field f"
  shows "PB_HTYPE (fld_type f) = PB_HTYPE_REQUIRED \<or> optional f \<and> PB_HTYPE (fld_type f) \<noteq> PB_HTYPE_REQUIRED \<and> size_offset f \<noteq> 0"
    "PB_ATYPE (fld_type f) = PB_ATYPE_STATIC" "PB_HTYPE (fld_type f) \<noteq> PB_HTYPE_REPEATED" "PB_HTYPE (fld_type f) \<noteq> PB_HTYPE_ONEOF"
    "PB_LTYPE (fld_type f) \<noteq> PB_LTYPE_EXTENSION" "PB_LTYPE (fld_type f) \<noteq> PB_LTYPE_SUBMESSAGE"
  using assms unfolding scalar_field_def scalar_type_def Let_def by (auto simp: htypes ltypes PB_LTYPE_EXTENSION_def)

lemma scalar_size_at:
  assumes "scalar_message fs" "i < nfields fs"
  shows "size_at fs dest i = data_at fs dest i + size_offset (fs ! i)"
proof (cases i)
  case (Suc k)
  then have "\<not> in_union (fs ! k) (fs ! i)"
    using assms scalar_cases(4) [of "fs ! i"] by (auto simp: scalar_message_def in_union_def)
  then show ?thesis using Suc by simp
qed simp

text \<open>The bytes of one field.\<close>

lemma scalar_field_bytes:
  assumes f: "scalar_field (fs ! i)" and b: "any_field_bytes app check sub w (fs ! i) (data_at fs src i) = Some b"
  shows "if present w fs src i
    then \<exists>wt v. wire_type_for (fs ! i) = Some wt \<and> value_bytes sub w (fs ! i) (data_at fs src i) = Some v \<and>
      b = varint (tag_number (wt, fld_tag (fs ! i))) @ v
    else b = []"
proof -
  have np: "PB_ATYPE (fld_type (fs ! i)) \<noteq> PB_ATYPE_POINTER" using scalar_cases(2) [OF f] by (simp add: atypes)
  have one: "\<exists>wt v. wire_type_for (fs ! i) = Some wt \<and> value_bytes sub w (fs ! i) (data_at fs src i) = Some v \<and>
      b = varint (tag_number (wt, fld_tag (fs ! i))) @ v"
    if "app2 (tag_bytes (fs ! i)) (value_bytes sub w (fs ! i) (data_at fs src i)) = Some b"
    using app2_SomeD [OF that] by (auto simp: tag_bytes_def)
  show ?thesis
    using b scalar_cases(1,2) [OF f] np one
    by (auto simp: any_field_bytes_def basic_field_bytes_def Let_def present_def htypes split: if_split_asm)
qed

lemma scalar_tag_valid:
  assumes "scalar_field f" "wire_type_for f = Some wt"
  shows "valid_tag (wt, fld_tag f)"
  using assms by (auto simp: scalar_field_def valid_tag_def wire_type_for_def wire_types Let_def split: if_split_asm)

text \<open>One round of the loop decodes one field that is present.\<close>

definition put_scalar :: "pb_world \<Rightarrow> pb_field_t list \<Rightarrow> int \<Rightarrow> int \<Rightarrow> nat \<Rightarrow> memory \<Rightarrow> memory" where
  "put_scalar w fs src dest k m =
     store_bytes (if optional (fs ! k) then store_bytes m (data_at fs dest k + size_offset (fs ! k)) [1] else m)
       (data_at fs dest k) (load_bytes (bytes_of (fs ! k)) (at w (data_at fs src k)))"

lemma scalar_find:
  assumes "scalar_message fs" "dest \<noteq> 0" "i < nfields fs" "k < nfields fs"
  shows "pb_field_iter_find (iter_at fs dest i) (fld_tag (fs ! k)) = Some (True, iter_at fs dest k)"
proof -
  have "matches fs (fld_tag (fs ! k)) k" using scalar_cases(5) [of "fs ! k"] assms by (simp add: matches_def scalar_message_def)
  moreover have "j = k" if "j < nfields fs" "matches fs (fld_tag (fs ! k)) j" for j
    using that assms(1,4) by (auto simp: matches_def scalar_message_def)
  moreover have "wf_fields fs" using assms(1) by (simp add: scalar_message_def)
  from find_at [OF this assms(2,3), of "fld_tag (fs ! k)"] obtain found j where "j < nfields fs"
      "pb_field_iter_find (iter_at fs dest i) (fld_tag (fs ! k)) = Some (found, iter_at fs dest j)"
      "found \<longleftrightarrow> (\<exists>j<nfields fs. matches fs (fld_tag (fs ! k)) j)" "found \<longrightarrow> matches fs (fld_tag (fs ! k)) j" by blast
  ultimately show ?thesis using assms(4) by auto
qed

lemma scalar_step:
  assumes fs: "scalar_message fs" "dest \<noteq> 0" and k: "k < nfields fs"
    and i: "i < nfields fs" "v_iter v = iter_at fs dest i"
    and wt: "wire_type_for (fs ! k) = Some wt" and b: "value_bytes sub w (fs ! k) (data_at fs src k) = Some b"
    and c: "clean_value w (fs ! k) (data_at fs src k)"
    and s: "is_inv s" "is_bytes s = (varint (tag_number (wt, fld_tag (fs ! k))) @ b) @ rest"
  shows "\<exists>s'. decode_step (decode_field noinit init env) env cell v m s =
      Some (Some True, mark_required (v\<lparr>v_iter := iter_at fs dest k\<rparr>), put_scalar w fs src dest k m, s') \<and>
    is_bytes s' = rest \<and> is_inv s'"
proof -
  let ?f = "fs ! k" and ?it = "iter_at fs dest k"
  let ?m = "if optional ?f then store_bytes m (data_at fs dest k + size_offset ?f) [1] else m"
  have f: "scalar_field ?f" using fs(1) k by (simp add: scalar_message_def)
  note cs = scalar_cases [OF f]
  have "is_bytes s = varint (tag_number (wt, fld_tag ?f)) @ b @ rest" using s(2) by simp
  from co_tag.get_reads [OF scalar_tag_valid [OF f wt] s(1) this]
  obtain s1 eof where t: "pb_decode_tag s = (Some (wt, fld_tag ?f), eof, s1)" and s1: "is_bytes s1 = b @ rest" "is_advances s s1"
    by (auto simp: read_tag_def split: prod.splits)
  have inv1: "is_inv s1" by (rule is_advances_inv [OF s1(2) s(1)])
  have "scalar_type ?f" using f by (simp add: scalar_field_def)
  from scalar_reads [OF this b c inv1 s1(1), of noinit init env "data_at fs dest k" ?m]
  obtain s2 where d: "PB_DECODERS noinit init env ?f (data_at fs dest k) ?m s1 = Some (True, put_scalar w fs src dest k m, s2)"
    and s2: "is_bytes s2 = rest" "is_advances s1 s2" by (auto simp: put_scalar_def)
  have p: "pData ?it = data_at fs dest k" "pSize ?it = data_at fs dest k + size_offset ?f"
    using scalar_size_at [OF fs(1) k] by (simp_all add: iter_at_def)
  have "decode_static_field noinit init env wt ?it m s1 = Some (True, put_scalar w fs src dest k m, s2)"
    using d cs(1) p by (cases "optional ?f") (auto simp: decode_static_field_def Let_def htypes)
  then have "decode_field noinit init env wt ?it m s1 = Some ((True, put_scalar w fs src dest k m, s2), ?it)"
    using cs(2,4) by (simp add: decode_field_def Let_def)
  moreover have "use_fixed_count cell (v\<lparr>v_iter := ?it\<rparr>) m = Some (v\<lparr>v_iter := ?it\<rparr>, m)"
    using cs(3) by (simp add: use_fixed_count_def Let_def)
  moreover have "(mark_required (v\<lparr>v_iter := ?it\<rparr>))\<lparr>v_iter := ?it\<rparr> = mark_required (v\<lparr>v_iter := ?it\<rparr>)"
    by (simp add: mark_required_def Let_def)
  ultimately have "decode_step (decode_field noinit init env) env cell v m s =
      Some (Some True, mark_required (v\<lparr>v_iter := ?it\<rparr>), put_scalar w fs src dest k m, s2)"
    using scalar_find [OF fs i(1) k] i(2) by (simp add: decode_step_def t decode_known_def Let_def)
  then show ?thesis using s2 is_advances_inv [OF s2(2) inv1] by blast
qed

text \<open>What the round leaves of the fields.\<close>

lemma put_scalar_copies:
  assumes sep: "separate fs dest cell" and k: "k < nfields fs" and pr: "present w fs src k"
  shows "copied w fs src dest (put_scalar w fs src dest k m) k"
proof -
  let ?d = "data_at fs dest k" and ?o = "data_at fs dest k + size_offset (fs ! k)"
  let ?b = "load_bytes (bytes_of (fs ! k)) (at w (data_at fs src k))"
  have "store_bytes (store_bytes m ?o [1]) ?d ?b ?o = 1" if "optional (fs ! k)"
  proof -
    have "data_span fs dest k \<inter> flag_span fs dest k = {}" using sep k by (simp add: separate_def)
    then have "?o \<notin> {?d..<?d + int (length ?b)}" using that by (simp add: data_span_def flag_span_def)
    then show ?thesis using store_other [of ?o ?d ?b] by (simp add: store_bytes_def [of m])
  qed
  then show ?thesis using pr by (simp add: copied_def put_scalar_def load_store_same safe_read_bool_def flag_set_def mem_at_def [of _ "_ + _"])
qed

lemma put_scalar_keeps:
  assumes sep: "separate fs dest cell" and k: "k < nfields fs" "i < nfields fs" "i \<noteq> k"
  shows "copied w fs src dest (put_scalar w fs src dest k m) i = copied w fs src dest m i"
    "flag_clear fs dest (put_scalar w fs src dest k m) i = flag_clear fs dest m i"
proof -
  let ?b = "load_bytes (bytes_of (fs ! k)) (at w (data_at fs src k))"
  have dd: "data_span fs dest k \<inter> data_span fs dest i = {}" and ff: "flag_span fs dest k \<inter> flag_span fs dest i = {}"
    and df: "data_span fs dest k \<inter> flag_span fs dest i = {}" and fd: "data_span fs dest i \<inter> flag_span fs dest k = {}"
    using sep k unfolding separate_def by blast+
  have "load_bytes (bytes_of (fs ! i)) (mem_at (put_scalar w fs src dest k m) (data_at fs dest i)) =
      load_bytes (bytes_of (fs ! i)) (mem_at m (data_at fs dest i))"
  proof -
    have 1: "{data_at fs dest k..<data_at fs dest k + int (length ?b)} \<inter> {data_at fs dest i..<data_at fs dest i + int (bytes_of (fs ! i))} = {}"
      using dd by (simp add: data_span_def)
    have 2: "{data_at fs dest k + size_offset (fs ! k)..<data_at fs dest k + size_offset (fs ! k) + int (length [1 :: byte])} \<inter>
        {data_at fs dest i..<data_at fs dest i + int (bytes_of (fs ! i))} = {}" if "optional (fs ! k)"
      using fd that by (auto simp: data_span_def flag_span_def)
    show ?thesis unfolding put_scalar_def load_store_other [OF 1] using load_store_other [OF 2] by simp
  qed
  moreover have "put_scalar w fs src dest k m (data_at fs dest i + size_offset (fs ! i)) = m (data_at fs dest i + size_offset (fs ! i))"
    if "optional (fs ! i)"
  proof -
    let ?o = "data_at fs dest i + size_offset (fs ! i)"
    have "?o \<notin> {data_at fs dest k..<data_at fs dest k + int (length ?b)}" using df that by (auto simp: data_span_def flag_span_def)
    moreover have "?o \<noteq> data_at fs dest k + size_offset (fs ! k)" if "optional (fs ! k)" using ff that \<open>optional (fs ! i)\<close> by (auto simp: flag_span_def)
    ultimately show ?thesis using store_other unfolding put_scalar_def by (simp add: store_other)
  qed
  ultimately show "copied w fs src dest (put_scalar w fs src dest k m) i = copied w fs src dest m i"
    "flag_clear fs dest (put_scalar w fs src dest k m) i = flag_clear fs dest m i"
    by (auto simp: copied_def flag_clear_def safe_read_bool_def flag_set_def mem_at_def [of _ "_ + _"])
qed

definition seen_upto :: "pb_field_t list \<Rightarrow> u32 list \<Rightarrow> nat \<Rightarrow> bool" where
  "seen_upto fs seen k \<longleftrightarrow> length seen = 2 \<and> (\<forall>j<64. seen_bit seen j \<longleftrightarrow> j < required_before fs k)"

lemma seen_upto_mark:
  assumes fs: "scalar_message fs" and k: "k < nfields fs" and v: "seen_upto fs (fields_seen v) k" "v_iter v = iter_at fs dest k"
  shows "seen_upto fs (fields_seen (mark_required v)) (Suc k)"
proof -
  let ?j = "required_before fs k"
  have len: "length fs < 2 ^ 32" "k < length fs" using fs k by (auto simp: scalar_message_def nfields_def)
  note Suc = required_before_Suc [OF len(2)]
  show ?thesis
  proof (cases "PB_HTYPE (fld_type (fs ! k)) = PB_HTYPE_REQUIRED")
    case True
    have "required_before fs (Suc k) \<le> 64"
      using required_before_mono [of "Suc k" "nfields fs" fs] k fs by (simp add: scalar_message_def)
    then have j: "?j < 64" using Suc True by simp
    have "fields_seen (mark_required v) = (fields_seen v)[?j div 32 := (fields_seen v ! (?j div 32)) OR push_bit (?j mod 32) 1]"
      using True j by (simp add: mark_required_def v(2) required_field_index_at required_before_less [OF len(1)] Let_def PB_MAX_REQUIRED_FIELDS_def)
    then show ?thesis using v(1) seen_bit_set [of "fields_seen v" ?j, OF _ j] Suc True by (auto simp: seen_upto_def)
  next
    case False
    then show ?thesis using v Suc by (simp add: mark_required_def Let_def seen_upto_def)
  qed
qed

lemma seen_upto_absent:
  assumes fs: "scalar_message fs" and k: "k < nfields fs" "\<not> present w fs src k" and v: "seen_upto fs seen k"
  shows "seen_upto fs seen (Suc k)"
proof -
  have "PB_HTYPE (fld_type (fs ! k)) \<noteq> PB_HTYPE_REQUIRED" using k(2) by (auto simp: present_def htypes)
  then show ?thesis using v required_before_Suc [of k fs] k(1) by (simp add: seen_upto_def nfields_def)
qed

lemma mark_required_fixed [simp]: "fixed_count_field (mark_required v) = fixed_count_field v"
  by (simp add: mark_required_def Let_def)

text \<open>The loop decodes the fields in the order in which they were encoded.\<close>

lemma scalar_loop:
  assumes fs: "scalar_message fs" "dest \<noteq> 0" and sep: "separate fs dest cell"
    and bytes: "\<And>i. i < nfields fs \<Longrightarrow> bytes i = any_field_bytes app check sub w (fs ! i) (data_at fs src i)"
    and clean: "\<And>i. i < nfields fs \<Longrightarrow> clean_value w (fs ! i) (data_at fs src i)"
  shows "k + r = nfields fs \<Longrightarrow> concat_upto bytes k r = Some bs \<Longrightarrow> is_inv s \<Longrightarrow> is_bytes s = bs \<Longrightarrow> length bs < K \<Longrightarrow>
    i0 < nfields fs \<Longrightarrow> v_iter v = iter_at fs dest i0 \<Longrightarrow> seen_upto fs (fields_seen v) k \<Longrightarrow> fixed_count_field v = None \<Longrightarrow>
    (\<forall>i<k. copied w fs src dest m i) \<Longrightarrow> (\<forall>i<nfields fs. k \<le> i \<longrightarrow> flag_clear fs dest m i) \<Longrightarrow>
    \<exists>v' m' s' i'. decode_loop (decode_field noinit init env) env cell K v m s = Some (True, v', m', s') \<and> bytes_left s' = 0 \<and>
      i' < nfields fs \<and> v_iter v' = iter_at fs dest i' \<and> seen_upto fs (fields_seen v') (nfields fs) \<and> fixed_count_field v' = None \<and>
      (\<forall>i<nfields fs. copied w fs src dest m' i)"
proof (induction r arbitrary: k bs s K i0 v m)
  case 0
  then have "bytes_left s = 0" using length_is_bytes [of s] by simp
  moreover obtain K' where "K = Suc K'" using "0.prems"(5) by (cases K) auto
  ultimately show ?case using 0 by auto
next
  case (Suc r)
  have k: "k < nfields fs" using Suc.prems(1) by simp
  obtain b1 b2 where b: "bytes k = Some b1" "concat_upto bytes (Suc k) r = Some b2" "bs = b1 @ b2"
    using Suc.prems(2) by (auto dest: app2_SomeD)
  have f: "scalar_field (fs ! k)" using fs(1) k by (simp add: scalar_message_def)
  note fb = scalar_field_bytes [OF f, of app check sub w src b1]
  show ?case
  proof (cases "present w fs src k")
    case True
    then obtain wt x where x: "wire_type_for (fs ! k) = Some wt" "value_bytes sub w (fs ! k) (data_at fs src k) = Some x"
        "b1 = varint (tag_number (wt, fld_tag (fs ! k))) @ x"
      using fb b(1) bytes [OF k] by auto
    let ?v = "mark_required (v\<lparr>v_iter := iter_at fs dest k\<rparr>)" and ?m = "put_scalar w fs src dest k m"
    have "is_bytes s = (varint (tag_number (wt, fld_tag (fs ! k))) @ x) @ b2" using Suc.prems(4) b(3) x(3) by simp
    from scalar_step [OF fs k Suc.prems(6,7) x(1,2) clean [OF k] Suc.prems(3) this]
    obtain s2 where st: "decode_step (decode_field noinit init env) env cell v m s = Some (Some True, ?v, ?m, s2)"
      and s2: "is_bytes s2 = b2" "is_inv s2" by blast
    have ne: "b1 \<noteq> []" using x(3) by simp
    obtain K' where K: "K = Suc K'" using Suc.prems(5) by (cases K) auto
    have K': "length b2 < K'" using Suc.prems(5) b(3) K ne by (cases b1) auto
    have "bytes_left s \<noteq> 0" using length_is_bytes [OF Suc.prems(3)] Suc.prems(4) b(3) ne by (cases b1) auto
    then have l: "decode_loop (decode_field noinit init env) env cell K v m s = decode_loop (decode_field noinit init env) env cell K' ?v ?m s2"
      using st K by simp
    have seen: "seen_upto fs (fields_seen ?v) (Suc k)" by (rule seen_upto_mark [OF fs(1) k]) (use Suc.prems(8) in simp_all)
    have "\<forall>i<Suc k. copied w fs src dest ?m i"
      using Suc.prems(10) put_scalar_copies [OF sep k True] put_scalar_keeps(1) [OF sep k] k by (auto simp: less_Suc_eq)
    moreover have "\<forall>i<nfields fs. Suc k \<le> i \<longrightarrow> flag_clear fs dest ?m i"
      using Suc.prems(11) put_scalar_keeps(2) [OF sep k] by auto
    ultimately show ?thesis unfolding l
      using Suc.IH [OF _ b(2) s2(2,1) K' k _ seen] Suc.prems(1,9) by simp
  next
    case False
    then have e: "b1 = []" using fb b(1) bytes [OF k] by auto
    have "copied w fs src dest m k"
      using False Suc.prems(11) k by (auto simp: copied_def flag_clear_def present_def safe_read_bool_def flag_set_def mem_at_def)
    then have "\<forall>i<Suc k. copied w fs src dest m i" using Suc.prems(10) by (auto simp: less_Suc_eq)
    then show ?thesis
      using Suc.IH [OF _ b(2) Suc.prems(3) _ _ Suc.prems(6,7) seen_upto_absent [OF fs(1) k False Suc.prems(8)] Suc.prems(9)]
        Suc.prems(1,4,5,11) b(3) e by simp
  qed
qed

text \<open>Then the check for required fields passes.\<close>

lemma required_seen_upto:
  assumes v: "seen_upto fs seen k" and n: "required_before fs k = n" "n \<le> 64"
  shows "required_seen n seen"
proof -
  have b: "bit (seen ! i) j \<longleftrightarrow> 32 * i + j < n" if "i < 2" "j < 32" for i j
    using v that n(1) unfolding seen_upto_def seen_bit_def by (auto dest!: spec [of _ "32 * i + j"])
  have "seen ! i = - 1" if "i < n div 32" for i
  proof (rule bit_word_eqI)
    fix j assume "j < LENGTH(32)"
    moreover then have "32 * i + j < n" using that by simp
    moreover have "i < 2" using that n(2) by simp
    ultimately show "bit (seen ! i) j \<longleftrightarrow> bit (- 1 :: u32) j" using b [of i j] by simp
  qed
  moreover have "seen ! (n div 32) = drop_bit (32 - n mod 32) (- 1)" if "n mod 32 \<noteq> 0"
  proof (rule bit_word_eqI)
    fix j assume j: "j < LENGTH(32)"
    have "n \<noteq> 64" using that by auto
    then have "n div 32 < 2" using n(2) by simp
    then have "bit (seen ! (n div 32)) j \<longleftrightarrow> 32 * (n div 32) + j < n" using b j by simp
    also have "\<dots> \<longleftrightarrow> j < n mod 32" using div_mult_mod_eq [of n 32] by linarith
    finally show "bit (seen ! (n div 32)) j \<longleftrightarrow> bit (drop_bit (32 - n mod 32) (- 1 :: u32)) j" using j that by (auto simp: bit_simps)
  qed
  ultimately show ?thesis by (simp add: required_seen_def)
qed

lemma count_required_returns:
  assumes wf: "wf_fields fs" "dest \<noteq> 0"
  shows "i < nfields fs \<Longrightarrow> nfields fs - i \<le> k \<Longrightarrow> count_required k (iter_at fs dest i) \<noteq> None"
proof (induction k arbitrary: i)
  case (Suc k)
  show ?case
  proof (cases "Suc i < nfields fs")
    case True
    moreover then have "nfields fs - Suc i \<le> k" using Suc.prems by linarith
    ultimately show ?thesis using Suc.IH [of "Suc i"] pb_field_iter_next_at [OF wf Suc.prems(1)] by simp
  next
    case False
    then show ?thesis using pb_field_iter_next_at [OF wf Suc.prems(1)] by simp
  qed
qed simp

lemma scalar_required_present:
  assumes fs: "scalar_message fs" "dest \<noteq> 0" and i: "i < nfields fs" "v_iter v = iter_at fs dest i"
    and v: "seen_upto fs (fields_seen v) (nfields fs)"
  shows "required_fields_present v = Some True"
proof -
  have wf: "wf_fields fs" and small: "length fs < 2 ^ 32" and n: "required_before fs (nfields fs) \<le> 64" using fs(1) by (simp_all add: scalar_message_def)
  have "nfields fs - i \<le> Suc (length fs)" by (simp add: nfields_def)
  then obtain x where "count_required (Suc (length fs)) (iter_at fs dest i) = Some x" using count_required_returns [OF wf fs(2) i(1)] by blast
  then have c: "count_required (Suc (length fs)) (iter_at fs dest i) = Some (required_before fs (nfields fs - 1), fs ! (nfields fs - 1), iter_at fs dest 0)"
    using count_required_at [OF wf fs(2) i(1)] required_before_less [OF small] by (cases x) fastforce
  have "fld_tag (fs ! 0) \<noteq> 0" using field_tag_zero_iff [OF wf, of 0] i(1) by simp
  moreover have "Suc (nfields fs - 1) = nfields fs" "nfields fs - 1 < length fs" using i(1) by (auto simp: nfields_def)
  ultimately have "(if PB_HTYPE (fld_type (fs ! (nfields fs - 1))) = PB_HTYPE_REQUIRED \<and> fld_tag (fs ! 0) \<noteq> 0
      then required_before fs (nfields fs - 1) + 1 else required_before fs (nfields fs - 1)) = required_before fs (nfields fs)"
    using required_before_Suc [of "nfields fs - 1" fs] by simp
  then show ?thesis using required_seen_upto [OF v refl n]
    unfolding required_fields_present_def i(2) iter_at_simps c PB_MAX_REQUIRED_FIELDS_def Let_def
    by (simp only: bind.simps prod.case iter_at_simps min_absorb1 [OF n] simp_thms)
qed

text \<open>The default values clear the flags.\<close>

lemma scalar_default:
  assumes fs: "scalar_message fs" and sep: "separate fs dest cell" and k: "k < nfields fs"
  shows "\<exists>m'. pb_field_set_to_default (Suc d) env m (iter_at fs dest k) = Some m' \<and> flag_clear fs dest m' k \<and>
    (\<forall>i<nfields fs. flag_clear fs dest m i \<longrightarrow> flag_clear fs dest m' i)"
proof -
  let ?f = "fs ! k" and ?d = "data_at fs dest k" and ?o = "data_at fs dest k + size_offset (fs ! k)"
  let ?m = "if optional ?f then store_bytes m ?o [0] else m"
  have f: "scalar_field ?f" using fs k by (simp add: scalar_message_def)
  have p: "pData (iter_at fs dest k) = ?d" "pSize (iter_at fs dest k) = ?o"
    using scalar_size_at [OF fs k] by (simp_all add: iter_at_def)
  let ?x = "if fld_ptr ?f \<noteq> 0 then load_bytes (bytes_of ?f) (mem_at ?m (fld_ptr ?f)) else replicate (bytes_of ?f) 0"
  have x: "pb_field_set_to_default (Suc d) env m (iter_at fs dest k) = Some (store_bytes ?m ?d ?x)" "length ?x = bytes_of ?f"
    using scalar_cases [OF f] by (auto simp: p Let_def htypes)
  have "flag_clear fs dest (store_bytes ?m ?d ?x) i" if "i < nfields fs" "flag_clear fs dest m i \<or> i = k" for i
  proof (cases "optional (fs ! i)")
    case True
    let ?p = "data_at fs dest i + size_offset (fs ! i)"
    have "data_span fs dest k \<inter> flag_span fs dest i = {}" using sep k that(1) by (simp add: separate_def)
    then have "store_bytes ?m ?d ?x ?p = ?m ?p" using True x(2) by (intro store_other) (auto simp: data_span_def flag_span_def)
    moreover have "?m ?p = 0" using that(2) True by (auto simp: flag_clear_def store_bytes_def)
    ultimately show ?thesis by (simp add: flag_clear_def)
  qed (simp add: flag_clear_def)
  then show ?thesis using x(1) k by blast
qed

lemma scalar_defaults:
  assumes fs: "scalar_message fs" "dest \<noteq> 0" and sep: "separate fs dest cell"
  shows "k + r = nfields fs \<Longrightarrow> 0 < r \<Longrightarrow> r \<le> K \<Longrightarrow> (\<forall>i<k. flag_clear fs dest m i) \<Longrightarrow>
    \<exists>m'. fields_loop (pb_field_set_to_default (Suc d) env) K (iter_at fs dest k) m = Some m' \<and> (\<forall>i<nfields fs. flag_clear fs dest m' i)"
proof (induction r arbitrary: k K m)
  case (Suc r)
  have k: "k < nfields fs" using Suc.prems(1) by simp
  obtain K' where K: "K = Suc K'" using Suc.prems(3) by (cases K) auto
  have wf: "wf_fields fs" using fs(1) by (simp add: scalar_message_def)
  obtain m1 where m1: "pb_field_set_to_default (Suc d) env m (iter_at fs dest k) = Some m1" "flag_clear fs dest m1 k"
      "\<forall>i<nfields fs. flag_clear fs dest m i \<longrightarrow> flag_clear fs dest m1 i"
    using scalar_default [OF fs(1) sep k] by blast
  have up: "\<forall>i<Suc k. flag_clear fs dest m1 i" using m1 Suc.prems(4) k by (auto simp: less_Suc_eq)
  note nx = pb_field_iter_next_at [OF wf fs(2) k]
  show ?case
  proof (cases "Suc k < nfields fs")
    case True
    then show ?thesis using Suc.IH [OF _ _ _ up, of K'] Suc.prems(1,3) K nx m1(1) by (simp del: pb_field_set_to_default.simps)
  next
    case False
    then have "Suc k = nfields fs" using k by simp
    then show ?thesis using False K nx m1(1) up by (simp del: pb_field_set_to_default.simps)
  qed
qed simp

lemma scalar_message_defaults:
  assumes fs: "scalar_message fs" "dest \<noteq> 0" and sep: "separate fs dest cell" and d: "0 < d_depth env"
  shows "\<exists>m'. pb_message_set_to_defaults env fs dest m = Some m' \<and> (\<forall>i<nfields fs. flag_clear fs dest m' i)"
proof -
  have wf: "wf_fields fs" "0 < nfields fs" using fs(1) by (simp_all add: scalar_message_def)
  obtain d' where "d_depth env = Suc d'" using d by (cases "d_depth env") auto
  moreover have "nfields fs \<le> length fs" by (simp add: nfields_def)
  ultimately show ?thesis
    using scalar_defaults [OF fs sep, of 0 "nfields fs" "length fs" m d' env] pb_field_iter_begin_at [OF wf(1) fs(2)] wf(2)
    by (simp add: pb_message_set_to_defaults_def each_field_def del: pb_field_set_to_default.simps)
qed

text \<open>The bytes of a scalar message are decoded into a structure with the same fields.\<close>

lemma scalar_decode_noinit:
  assumes fs: "scalar_message fs" "dest \<noteq> 0" and sep: "separate fs dest (d_stack env j)"
    and b: "message_bytes n app w fs src = Some bs" and clean: "\<And>i. i < nfields fs \<Longrightarrow> clean_value w (fs ! i) (data_at fs src i)"
    and s: "is_inv s" "is_bytes s = bs" and flags: "\<forall>i<nfields fs. flag_clear fs dest m i"
  shows "\<exists>m' s'. pb_decode_noinit (Suc j) env fs dest m s = Some (True, m', s') \<and> bytes_left s' = 0 \<and>
    (\<forall>i<nfields fs. copied w fs src dest m' i)"
proof -
  let ?cell = "d_stack env j"
  let ?v = "\<lparr>fields_seen = [0, 0], extension_range_start = 0, v_iter = snd (pb_field_iter_begin fs dest), fixed_count_field = None\<rparr>"
  let ?dec = "decode_field (pb_decode_noinit j env) (with_init (pb_decode_noinit j env) env) env"
  have wf: "wf_fields fs" "0 < nfields fs" using fs(1) by (simp_all add: scalar_message_def)
  obtain n' where n: "n = Suc n'" using b by (cases n) auto
  let ?check = "field_absent n' w" and ?sub = "message_bytes n' app w"
  let ?bytes = "\<lambda>i. if PB_LTYPE (fld_type (fs ! i)) = PB_LTYPE_EXTENSION
    then extension_bytes app ?check ?sub w (Suc n') (load_ptr w (data_at fs src i))
    else any_field_bytes app ?check ?sub w (fs ! i) (data_at fs src i)"
  have c: "concat_upto ?bytes 0 (nfields fs) = Some bs" using b by (simp add: n fields_bytes_def Let_def split: if_split_asm)
  have bytes: "?bytes i = any_field_bytes app ?check ?sub w (fs ! i) (data_at fs src i)" if "i < nfields fs" for i
    using scalar_cases(5) [of "fs ! i"] fs(1) that by (simp add: scalar_message_def)
  have it: "v_iter ?v = iter_at fs dest 0" using pb_field_iter_begin_at [OF wf(1) fs(2)] by simp
  have seen: "seen_upto fs (fields_seen ?v) 0"
  proof -
    have "\<not> seen_bit [0, 0] j" if "j < 64" for j
    proof -
      have "j div 32 = 0 \<or> j div 32 = 1" using that by auto
      then show ?thesis by (auto simp: seen_bit_def)
    qed
    then show ?thesis by (simp add: seen_upto_def required_before_def)
  qed
  have "flag_clear fs dest (put_u32 m ?cell 0) i" if "i < nfields fs" for i
  proof (cases "optional (fs ! i)")
    case True
    have "flag_span fs dest i \<inter> {?cell..<?cell + 4} = {}" using sep that by (simp add: separate_def)
    then have "put_u32 m ?cell 0 (data_at fs dest i + size_offset (fs ! i)) = m (data_at fs dest i + size_offset (fs ! i))"
      unfolding put_u32_def using True by (intro store_other) (auto simp: flag_span_def)
    then show ?thesis using flags that by (simp add: flag_clear_def)
  qed (simp add: flag_clear_def)
  then have fl: "\<forall>i<nfields fs. 0 \<le> i \<longrightarrow> flag_clear fs dest (put_u32 m ?cell 0) i" by blast
  have len: "length bs < Suc (bytes_left s)" using length_is_bytes [OF s(1)] s(2) by simp
  from scalar_loop [where bytes = ?bytes and m = "put_u32 m ?cell 0" and v = ?v and noinit = "pb_decode_noinit j env"
      and init = "with_init (pb_decode_noinit j env) env" and env = env, OF fs sep bytes clean _ c s len wf(2) it seen _ _ fl]
  obtain v' m' s' i' where l: "decode_loop ?dec env ?cell (Suc (bytes_left s)) ?v (put_u32 m ?cell 0) s = Some (True, v', m', s')"
    "bytes_left s' = 0" "i' < nfields fs" "v_iter v' = iter_at fs dest i'" "seen_upto fs (fields_seen v') (nfields fs)"
    "fixed_count_field v' = None" "\<forall>i<nfields fs. copied w fs src dest m' i"
    by (auto simp del: decode_loop.simps)
  have "required_fields_present v' = Some True" by (rule scalar_required_present [OF fs l(3-5)])
  then have "pb_decode_noinit (Suc j) env fs dest m s = Some (True, m', s')"
    unfolding pb_decode_noinit.simps decode_message_def l(1) by (simp add: fixed_count_wrong_def l(6))
  then show ?thesis using l(2,7) by blast
qed

text \<open>C28: Numbers in a structure come back from the wire. For a message type of required and optional
  numbers of every kind, \<open>pb_encode\<close> succeeds into a buffer that is large enough, and \<open>pb_decode\<close> of
  what it wrote succeeds, consumes all of it, and leaves in the destination the flags of the source
  and the very bytes of every field that is present, for any contents the destination had.\<close>

theorem pb_message_roundtrip:
  assumes "scalar_message fs" "dest \<noteq> 0" "separate fs dest (d_stack env j)" "0 < d_depth env"
    "app_law app w" "message_bytes n app w fs src = Some bs" "\<forall>i<nfields fs. clean_value w (fs ! i) (data_at fs src i)"
    "length bs \<le> length mem" "length mem \<le> PTRDIFF_MAX"
  shows "\<exists>out m' s'. pb_encode n w fs src (pb_ostream_from_buffer mem (length mem)) = (True, out) \<and>
    pb_decode (Suc j) env fs dest m (pb_istream_from_buffer (os_mem out) (bytes_written out)) = Some (True, m', s') \<and>
    bytes_left s' = 0 \<and> (\<forall>i<nfields fs. copied w fs src dest m' i)"
proof -
  obtain out where out: "pb_encode n w fs src (pb_ostream_from_buffer mem (length mem)) = (True, out)" "bytes_written out = length bs"
      "take (length bs) (os_mem out) = bs"
    using pb_writer.to_buffer [OF pb_encode_writer [OF assms(5,6)] assms(8,9)] by blast
  let ?i = "pb_istream_from_buffer (os_mem out) (bytes_written out)"
  have "length bs \<le> length (os_mem out)" using out(3) by (metis nat_le_linear take_all order_refl)
  then have i: "is_inv ?i" "is_bytes ?i = bs"
    using out(2,3) by (simp_all add: is_inv_def is_bytes_def pb_istream_from_buffer_def slice_def)
  obtain m1 where m1: "pb_message_set_to_defaults env fs dest m = Some m1" "\<forall>i<nfields fs. flag_clear fs dest m1 i"
    using scalar_message_defaults [OF assms(1-4)] by blast
  have clean: "clean_value w (fs ! i) (data_at fs src i)" if "i < nfields fs" for i using assms(7) that by blast
  obtain m' s' where "pb_decode_noinit (Suc j) env fs dest m1 ?i = Some (True, m', s')" "bytes_left s' = 0"
      "\<forall>i<nfields fs. copied w fs src dest m' i"
    using scalar_decode_noinit [OF assms(1-3,6) clean i m1(2)] by blast
  then show ?thesis using out(1) m1(1) by (simp add: pb_decode_def with_init_def del: pb_decode_noinit.simps)
qed

lemma pair_app_law: "app_law no_app pair_world"
  by (simp add: app_law_def no_app_def)

lemmas pair_eval = pair_fields_def pair_world_def sample_eval htypes atypes

lemma pair_nfields: "nfields pair_fields = 2"
  by (simp add: pair_fields_def nfields_def)

lemma pair_message_bytes: "message_bytes 1 no_app pair_world pair_fields 1000 = Some pair_bytes"
  unfolding One_nat_def
  by (simp add: fields_bytes_def pair_eval any_field_bytes_def basic_field_bytes_def value_bytes_def tag_bytes_def safe_read_bool_def flag_set_def PTRDIFF_MAX_def
    wire_type_for_def wire_types app2_def Let_def load_int_def load_uint_def load_bytes_4 at_def be_value_def tag_number_def varint_small varint_large)

lemma pair_scalar: "scalar_message pair_fields"
  unfolding scalar_message_def pair_nfields
  by (auto simp: less_2_cases_iff pair_eval scalar_field_def scalar_type_def Let_def required_before_def)

lemma pair_data_at: "data_at pair_fields a 0 = a" "data_at pair_fields a (Suc 0) = a + 8"
  by (simp_all add: pair_eval)

lemma pair_separate: "separate pair_fields 2000 500"
  unfolding separate_def pair_nfields
  by (auto simp: less_2_cases_iff data_span_def flag_span_def pair_data_at) (auto simp: pair_eval)

lemma pair_clean: "i < nfields pair_fields \<Longrightarrow> clean_value pair_world (pair_fields ! i) a"
  unfolding pair_nfields by (auto simp: less_2_cases_iff clean_value_def pair_eval)

lemma pair_stream_inv: "is_inv pair_stream" "is_bytes pair_stream = pair_bytes"
  by (simp_all add: is_inv_def is_bytes_def pb_istream_from_buffer_def slice_def)

theorem pb_message_roundtrip_witness:
  "\<exists>out m' s'. pb_encode 1 pair_world pair_fields 1000 (pb_ostream_from_buffer [9, 9, 9, 9, 9, 9, 9, 9, 9] 9) = (True, out) \<and>
     pb_decode 1 pair_env pair_fields 2000 (\<lambda>_. 5) (pb_istream_from_buffer (os_mem out) (bytes_written out)) = Some (True, m', s') \<and>
     bytes_left s' = 0 \<and> copied pair_world pair_fields 1000 2000 m' 0 \<and> copied pair_world pair_fields 1000 2000 m' 1"
proof -
  have "separate pair_fields 2000 (d_stack pair_env 0)" "0 < d_depth pair_env" using pair_separate by (simp_all add: pair_env_def)
  moreover have "\<forall>i<nfields pair_fields. clean_value pair_world (pair_fields ! i) (data_at pair_fields 1000 i)" using pair_clean by blast
  moreover have "length pair_bytes \<le> length [9, 9, 9, 9, 9, 9, 9, 9, 9 :: byte]" "length [9, 9, 9, 9, 9, 9, 9, 9, 9 :: byte] \<le> PTRDIFF_MAX"
    by (simp_all add: PTRDIFF_MAX_def)
  moreover have "(2000 :: int) \<noteq> 0" by simp
  ultimately obtain out m' s' where r:
      "pb_encode 1 pair_world pair_fields 1000 (pb_ostream_from_buffer [9, 9, 9, 9, 9, 9, 9, 9, 9] (length [9, 9, 9, 9, 9, 9, 9, 9, 9 :: byte])) = (True, out)"
      "pb_decode (Suc 0) pair_env pair_fields 2000 (\<lambda>_. 5) (pb_istream_from_buffer (os_mem out) (bytes_written out)) = Some (True, m', s')"
      "bytes_left s' = 0" "\<forall>i<nfields pair_fields. copied pair_world pair_fields 1000 2000 m' i"
    using pb_message_roundtrip [where dest = 2000 and env = pair_env and j = 0 and mem = "[9, 9, 9, 9, 9, 9, 9, 9, 9]" and m = "\<lambda>_. 5",
        OF pair_scalar _ _ _ pair_app_law pair_message_bytes]
    by blast
  have len: "length [9, 9, 9, 9, 9, 9, 9, 9, 9 :: byte] = 9" by simp
  have c: "copied pair_world pair_fields 1000 2000 m' 0" "copied pair_world pair_fields 1000 2000 m' 1"
    using r(4) by (simp_all add: pair_nfields)
  show ?thesis using r(1-3) [unfolded len] c unfolding One_nat_def by blast
qed

theorem pb_decode_requires_fields_witness:
  "1 \<in> set (message_tags 0 pair_env pair_fields 2000 (\<lambda>_. 0) pair_stream)"
proof -
  obtain m' s' where "pb_decode_noinit (Suc 0) pair_env pair_fields 2000 (\<lambda>_. 0) pair_stream = Some (True, m', s')"
    using pair_decode_value by (auto simp del: pb_decode_noinit.simps)
  from pb_decode_requires_fields [OF _ _ _ this, of 0] show ?thesis
    by (simp add: pair_nfields) (simp add: pair_eval required_before_def)
qed

end
