(* ===== verification/Spec2Isabelle.thy ===== *)
theory Spec2Isabelle
  imports Set_Of Cbb_Error Unicode Oid Base64 Stack Lhash Bio_Pair Pb_Decode_Returns Pb_Decode_Roundtrip
begin

text \<open>
  A verification of the C core that ships with this application.

  \<^bold>\<open>The program.\<close> The repository is a Flutter administration panel for a shop. Its own Dart code
  (\<open>lib/\<close>) is user interface over Firebase; the C implementation it is delivered with is the
  committed CocoaPods tree \<open>ios/Pods\<close>: BoringSSL (\<open>BoringSSL-GRPC\<close>), which carries the TLS and
  certificate handling under Firestore's gRPC channel, and nanopb (\<open>nanopb\<close>), the protocol buffers
  library that Firestore encodes its documents with. The development models the parts of BoringSSL
  that every message and certificate goes through: the byte-string parser and builder, the DER and
  BER codecs above them, the text encodings, the containers, and the in-memory transport pair; and
  of nanopb the streams, the wire format, the field iterator, the codecs of single fields and the
  encoder and decoder of whole messages. File names below are relative to \<open>ios/Pods/BoringSSL-GRPC/src\<close> and, for nanopb, to \<open>ios/Pods/nanopb\<close>.

  \<^bold>\<open>Parts and how they interact.\<close> \<open>CBS\<close> reads a range of memory from the front, \<open>CBB\<close> appends to a
  growing buffer and nests children whose length prefix is filled in when they are closed. The ASN.1
  readers and writers, the BER converter, the object-identifier and character codecs are clients of
  these two. All of them allocate through \<open>OPENSSL_malloc\<close>. Base64, the pointer stack, the hash table
  and the BIO pair are containers and transports of their own, on the same memory helpers. nanopb is
  independent of BoringSSL: its encoders write through an output stream over a caller's buffer (or
  one that only counts), its decoders read through an input stream, and the field codecs sit between
  these and the bytes of a message structure that the iterator locates.

  \<^bold>\<open>Theories.\<close>
    \<^item> \<open>Prelude\<close>: machine types, big-endian values, slices and splices of byte lists, word lemmas.
    \<^item> \<open>Mem\<close> (\<open>crypto/mem.c\<close>, \<open>crypto/internal.h\<close>): allocation with the size header, string copying
      and concatenation, comparison, hashing. The C library's \<open>malloc\<close> is an argument, known
      by \<open>malloc_law\<close>; so is \<open>qsort\<close>, known by \<open>qsort_law\<close> of \<open>Libc_Sort\<close>.
    \<^item> \<open>Cbs\<close>, \<open>Cbs_Asn1\<close>, \<open>Cbs_Values\<close> (\<open>crypto/bytestring/cbs.c\<close>): a reader is the memory, an offset
      and a length; a call returns an optional result and the advanced reader. The locale
      \<open>cbs_reader\<close> states what every reader promises (it only advances, and it computes a function of
      the bytes in its range); each reader is an interpretation, on the specifications of \<open>Der\<close> and
      \<open>Der_Int\<close> (DER identifier, length and INTEGER octets as functions on numbers).
    \<^item> \<open>Cbb\<close>, \<open>Cbb_Correct\<close>, \<open>Cbb_Asn1\<close>, \<open>Cbb_Int\<close>, \<open>Cbb_Total\<close>, \<open>Cbb_Error\<close> (\<open>crypto/bytestring/cbb.c\<close>):
      a builder is the shared buffer and the chain of open children; a pointer to a child is its depth
      in the chain. The locales \<open>cbb_writer\<close> (what a call writes when it succeeds), \<open>cbb_total_writer\<close>
      (that it succeeds when memory is served), \<open>cbb_opener\<close> and \<open>cbb_sticky\<close> (what a failed call
      leaves) are interpreted for every operation; \<open>collapse\<close> is the abstract operation of closing the
      children.
    \<^item> \<open>Ber\<close> (\<open>crypto/bytestring/ber.c\<close>): detection of BER, the recursive conversion to DER, implicit
      strings.
    \<^item> \<open>Unicode\<close> (\<open>unicode.c\<close>): four character encodings under one locale \<open>char_encoding\<close>.
    \<^item> \<open>Oid\<close> (\<open>cbb.c\<close>, \<open>cbs.c\<close>): object identifiers as dotted-decimal text.
    \<^item> \<open>Set_Of\<close> (\<open>cbb.c\<close>, \<open>asn1_compat.c\<close>): the DER order of SET OF, and finishing a builder
      into the memory of an i2d caller.
    \<^item> \<open>Const_Time\<close> (\<open>crypto/internal.h\<close>) and \<open>Base64\<close> (\<open>crypto/base64/base64.c\<close>): the branch-free
      comparisons, and the block and streaming codec built from them.
    \<^item> \<open>Stack\<close> (\<open>crypto/stack/stack.c\<close>) with the locale \<open>lifo\<close>, \<open>Lhash\<close> (\<open>crypto/lhash/lhash.c\<close>) with
      \<open>keyed_table\<close>, \<open>Bio_Pair\<close> (\<open>crypto/bio/pair.c\<close>, \<open>bio.c\<close>) with \<open>byte_pipe\<close>: the array, hash table
      and ring buffers as the list, map and queues they stand for.
    \<^item> \<open>Pb_Stream\<close> (\<open>pb_encode.c\<close>, \<open>pb_decode.c\<close>): output and input streams, the primitive encoders
      and decoders, and the contracts \<open>pb_writer\<close> (the bytes written, and nothing outside the limit)
      and \<open>pb_reader\<close> (only forward, inside the stream, errors reported). \<open>Pb_Encode\<close> interprets
      \<open>pb_writer\<close> for every encoder on the bytes of the wire format, \<open>Pb_Decode\<close> \<open>pb_reader\<close> for every
      decoder and determines what varints are accepted, \<open>Pb_Wire\<close> puts them together as
      \<open>pb_codec\<close>, the round-trip contract, up to whole fields.
    \<^item> \<open>Pb_Iter\<close> (\<open>pb_common.c\<close>): the iterator over the fields of a message against the layout the
      descriptors define; \<open>iter_reach\<close> are the iterators a program can hold.
    \<^item> \<open>Pb_Field\<close> (\<open>pb_encode.c\<close>, \<open>pb_decode.c\<close>): the encoders and decoders of single fields between
      the bytes of a structure and a stream, again as \<open>pb_codec\<close>. The C library's \<open>realloc\<close> is an
      argument, known by \<open>realloc_law\<close>.
    \<^item> \<open>Pb_Message\<close> (\<open>pb_encode.c\<close>): the encoder of whole messages, from the memory and the descriptor
      arrays (\<open>pb_world\<close>, which also holds the functions of the application as parameters) to a
      stream. \<open>message_bytes\<close> says, without the functions of the encoder, what a structure stands for
      on the wire, and \<open>field_absent\<close> which proto3 fields are left out.
    \<^item> \<open>Pb_Message_Decode\<close> (\<open>pb_decode.c\<close>): the decoder of whole messages into a memory of bytes, with
      default values, release, unions, arrays, extensions and the check of required fields, and that it
      stays in its stream. \<open>Pb_Decode_Returns\<close> shows that it returns, \<open>Pb_Decode_Roundtrip\<close> what its
      success means: required fields were read, and messages of numbers come back. \<open>pb_decode_env\<close>
      holds \<open>realloc\<close>, \<open>free\<close> and the functions of the application as parameters; of these
      functions \<open>app_reads_within\<close> (they stay in the stream they are given) and \<open>app_progress\<close> (they
      read something, or leave nothing) are used where a theorem says so.
    \<^item> this theory: properties of the builder and the reader together.

  \<^bold>\<open>What is shown.\<close> Readers accept exactly the encodings of their format and return the value;
  writers produce them and succeed when memory allows; values survive writing and reading; errors in
  a builder are sticky; the BER converter returns on every input and puts out the elements of its
  input with the lengths of DER and constructed strings joined (\<open>der_of\<close>); the containers
  refine a list, a map and a pair of queues under every history of calls; the constant-time helpers
  equal the conditionals they replace; the nanopb encoders write the wire format within their buffer,
  up to whole messages, its decoders read it back, return, stay inside stream and destination on any
  input and accept no message without its required fields, and skipping agrees with decoding; the
  field iterator finds every field at its place. Four lemmas record where the code falls short of
  its comments or its own checks: \<open>cbs_find_ber_forgets_nested_ber\<close>, \<open>sk_set_leaves_sorted_flag\<close>,
  \<open>pb_decode_varint32_overflow_missed\<close> and \<open>pb_decode_empty_message_writes\<close>.

  \<^bold>\<open>Representation.\<close> Fixed-width integers are words of their width; \<open>size_t\<close> is a natural number
  with the reduction modulo \<open>2 ^ 64\<close> written out where the code adds or multiplies unchecked, and
  pointers' target ranges are at most \<open>PTRDIFF_MAX\<close> long. Failure is \<open>None\<close> or \<open>False\<close> with the state
  the failing call leaves. Loops are recursive functions with a termination proof, except the search
  of the field iterator, a partial function that is shown to return, and four with fuel: the BER
  converter's counter, for which the length of the input plus one is shown to be enough; the two-step
  read and write loops of the BIO pair, for which two steps are; the message encoder's bound on
  nesting and on extension chains, which the data in memory determine: a bound that is enough to
  define the bytes of the message is enough for the code, and so is every larger one; and the message
  decoder's bound on nesting, for which the number of bytes plus one is enough (\<open>pb_decode_returns\<close>), with
  \<open>d_depth\<close> for the nesting of message types when defaults are set or a structure is released. The loops
  over the fields of a message are bounded by its descriptor array, those of the decoder by the bytes
  of its stream.

  \<^bold>\<open>Not modelled.\<close> The Dart application, the platform runners, the Objective-C and C++ pods (Firebase,
  gRPC, abseil, leveldb, BoringSSL's \<open>ssl/\<close>): other languages, and mostly calls into services. Within
  BoringSSL's C code: the ciphers, digests, big numbers, elliptic curves and everything above them
  (\<open>evp\<close>, \<open>x509\<close>, \<open>asn1\<close> templates, \<open>pem\<close>), which this library can be extended to; the file, socket
  and connection BIOs, threads and CPU detection, which are calls to the operating system; releasing
  and wiping memory, which has no effect on the values modelled; timing. Of nanopb: streams over
  callbacks instead of memory, and the variants for platforms without 64-bit integers. What the
  decoder leaves in memory is shown for messages of numbers; for the other fields the model has the
  whole code, and the theorems are about the stream, termination and the required fields. Recursive
  message types are decoded by the model but are outside of the theorem that decoding returns, since
  releasing them follows the pointers of the data.
\<close>

section \<open>The builder and the reader together\<close>

lemma small_element_length:
  "length body \<le> 9 \<Longrightarrow> length (der_element CBS_ASN1_INTEGER body) \<le> 11"
  by (simp add: der_element_def der_tag_def CBS_ASN1_INTEGER_def der_length_def Let_def)

lemma der_int_64_length: "- (2 ^ 63) \<le> v \<Longrightarrow> v < 2 ^ 64 \<Longrightarrow> length (der_int v) \<le> 9"
  by (simp add: length_der_int)

text \<open>
  C3: an unsigned 64-bit integer written with \<open>CBB_add_asn1_uint64\<close> into a fresh builder and
  finished is read back by \<open>CBS_get_asn1_uint64\<close> as the same integer, whatever follows it.
\<close>

theorem asn1_uint64_roundtrip:
  assumes "malloc_law malloc" "serves malloc (c + 64)" "length rest + 64 \<le> PTRDIFF_MAX"
  shows "\<exists>cbb cbb1 out r. CBB_init malloc c = (True, cbb) \<and> CBB_add_asn1_uint64 malloc cbb 0 v = (True, cbb1) \<and>
    CBB_finish malloc cbb1 0 True True = (Some out, CBB_zero) \<and>
    CBS_get_asn1_uint64 (CBS_init (out @ rest)) = (Some v, r) \<and> cbs_bytes r = rest"
proof -
  have range: "0 \<le> uint v" "uint v < 2 ^ 64" using uint_lt2p [of v] by simp_all
  have sp: "spec_asn1_int 0 (2 ^ 64) (der_element CBS_ASN1_INTEGER (der_int (uint v)) @ rest) = Some (uint v, rest)"
    using range by (subst spec_asn1_int_iff) simp_all
  have "length (der_int (uint v)) \<le> 9"
    using range(2) by (intro der_int_64_length order_trans [OF _ range(1)]) simp_all
  then have len: "length (der_element CBS_ASN1_INTEGER (der_int (uint v)) @ rest) \<le> PTRDIFF_MAX"
    using small_element_length [of "der_int (uint v)"] assms(3) by simp
  have tag: "length (der_tag CBS_ASN1_INTEGER) = 1" by (simp add: der_tag_def CBS_ASN1_INTEGER_def)
  have "serves malloc (length (der_tag CBS_ASN1_INTEGER) + 5 + 9 + c + 16)"
    using assms(2) by (rule serves_mono) (simp add: tag)
  from build_and_read [OF tw_uint64.cbb_total_writer_axioms rd_uint64.cbs_reader_axioms sp assms(1) this len]
  show ?thesis by (auto simp: word_uint_eq_iff)
qed

theorem asn1_uint64_roundtrip_witness:
  "malloc_law (bounded_malloc 1000) \<and> serves (bounded_malloc 1000) (0 + 64) \<and> length [1 :: byte] + 64 \<le> PTRDIFF_MAX \<and>
   (\<exists>cbb cbb1 out r. CBB_init (bounded_malloc 1000) 0 = (True, cbb) \<and>
      CBB_add_asn1_uint64 (bounded_malloc 1000) cbb 0 300 = (True, cbb1) \<and>
      CBB_finish (bounded_malloc 1000) cbb1 0 True True = (Some out, CBB_zero) \<and>
      CBS_get_asn1_uint64 (CBS_init (out @ [1])) = (Some 300, r) \<and> cbs_bytes r = [1])"
proof -
  have h: "malloc_law (bounded_malloc 1000)" "serves (bounded_malloc 1000) (0 + 64)" "length [1 :: byte] + 64 \<le> PTRDIFF_MAX"
    by (simp_all add: bounded_malloc_law bounded_serves SIZE_MOD_def PTRDIFF_MAX_def)
  with asn1_uint64_roundtrip [OF h, of 300] show ?thesis by blast
qed

text \<open>The same for signed 64-bit integers, negative ones included.\<close>

lemma asn1_int64_roundtrip:
  assumes "malloc_law malloc" "serves malloc (c + 64)" "length rest + 64 \<le> PTRDIFF_MAX"
  shows "\<exists>cbb cbb1 out r. CBB_init malloc c = (True, cbb) \<and> CBB_add_asn1_int64 malloc cbb 0 v = (True, cbb1) \<and>
    CBB_finish malloc cbb1 0 True True = (Some out, CBB_zero) \<and>
    CBS_get_asn1_int64 (CBS_init (out @ rest)) = (Some v, r) \<and> cbs_bytes r = rest"
proof -
  have range: "- (2 ^ 63) \<le> sint v" "sint v < 2 ^ 63" using sint_ge [of v] sint_lt [of v] by simp_all
  have sp: "spec_asn1_int (- (2 ^ 63)) (2 ^ 63) (der_element CBS_ASN1_INTEGER (der_int (sint v)) @ rest) = Some (sint v, rest)"
    using range by (subst spec_asn1_int_iff) simp_all
  have "length (der_int (sint v)) \<le> 9" using range by (intro der_int_64_length) auto
  then have len: "length (der_element CBS_ASN1_INTEGER (der_int (sint v)) @ rest) \<le> PTRDIFF_MAX"
    using small_element_length [of "der_int (sint v)"] assms(3) by simp
  have tag: "length (der_tag CBS_ASN1_INTEGER) = 1" by (simp add: der_tag_def CBS_ASN1_INTEGER_def)
  have "serves malloc (length (der_tag CBS_ASN1_INTEGER) + 5 + 9 + c + 16)"
    using assms(2) by (rule serves_mono) (simp add: tag)
  from build_and_read [OF tw_int64.cbb_total_writer_axioms rd_int64.cbs_reader_axioms sp assms(1) this len]
  show ?thesis by (auto simp: signed_word_eqI)
qed

text \<open>An octet string of up to \<open>2^32 - 2\<close> bytes written with \<open>CBB_add_asn1_octet_string\<close> is read
  back by \<open>CBS_get_asn1\<close>: the contents are the bytes written.
\<close>

lemma asn1_octet_string_roundtrip:
  assumes "malloc_law malloc" "serves malloc (length body + c + 64)" "length body \<le> 0xfffffffe"
    "length body + length rest + 64 \<le> PTRDIFF_MAX"
  shows "\<exists>cbb cbb1 out a r. CBB_init malloc c = (True, cbb) \<and>
    CBB_add_asn1_octet_string malloc cbb 0 body = (True, cbb1) \<and>
    CBB_finish malloc cbb1 0 True True = (Some out, CBB_zero) \<and>
    CBS_get_asn1 (CBS_init (out @ rest)) CBS_ASN1_OCTETSTRING = (Some a, r) \<and> cbs_bytes a = body \<and> cbs_bytes r = rest"
proof -
  have sp: "spec_asn1 CBS_ASN1_OCTETSTRING (der_element CBS_ASN1_OCTETSTRING body @ rest) = Some (body, rest)"
    using assms(3) by (subst spec_asn1_iff) simp
  have tag: "length (der_tag CBS_ASN1_OCTETSTRING) = 1" by (simp add: der_tag_def CBS_ASN1_OCTETSTRING_def)
  have "octets (length body) \<le> 4" using assms(3) by (intro octets_le_4) simp
  then have "length (der_length (length body)) \<le> 5" by (simp add: der_length_def)
  then have len: "length (der_element CBS_ASN1_OCTETSTRING body @ rest) \<le> PTRDIFF_MAX"
    using assms(4) tag by (simp add: der_element_def)
  have "serves malloc (length (der_tag CBS_ASN1_OCTETSTRING) + 5 + length body + c + 16)"
    using assms(2) by (rule serves_mono) (simp add: tag)
  from build_and_read [OF octet_string_total [OF assms(3)] rd_asn1.cbs_reader_axioms sp assms(1) this len]
  show ?thesis by blast
qed
text \<open>Bytes written into a child opened with a one- to three-byte length prefix, and closed by
  flushing the parent, are read back by the length-prefixed reader.
\<close>

definition add_prefixed_bytes :: "nat \<Rightarrow> byte list \<Rightarrow> libc_malloc \<Rightarrow> CBB \<Rightarrow> nat \<Rightarrow> bool \<times> CBB" where
  "add_prefixed_bytes k body malloc cbb d =
     (case cbb_add_length_prefixed malloc cbb d k of
        (False, c1) \<Rightarrow> (False, c1)
      | (True, c1) \<Rightarrow>
          (case CBB_add_bytes malloc c1 (Suc d) body of
             (False, c2) \<Rightarrow> (False, c2)
           | (True, c2) \<Rightarrow> CBB_flush malloc c2 d))"

lemma length_prefixed_roundtrip:
  assumes "malloc_law malloc" "serves malloc (length body + c + 64)" "1 \<le> k" "k \<le> 3" "length body < 256 ^ k"
    "length body + length rest + 64 \<le> PTRDIFF_MAX"
  shows "\<exists>cbb cbb1 out a r. CBB_init malloc c = (True, cbb) \<and> add_prefixed_bytes k body malloc cbb 0 = (True, cbb1) \<and>
    CBB_finish malloc cbb1 0 True True = (Some out, CBB_zero) \<and>
    cbs_get_length_prefixed (CBS_init (out @ rest)) k = (Some a, r) \<and> cbs_bytes a = body \<and> cbs_bytes r = rest"
proof -
  have ds: "length body < SIZE_MOD" using assms(6) PTRDIFF_MAX_less by linarith
  have w: "cbb_total_writer (add_prefixed_bytes k body) (be_bytes k (length body) @ body) (k + 4 + length body)"
    using assms by (intro prefixed_total [OF CBB_add_bytes_total [OF ds]]) (auto simp: add_prefixed_bytes_def)
  have len: "length ((be_bytes k (length body) @ body) @ rest) \<le> PTRDIFF_MAX" using assms by simp
  have "cbs_inv (CBS_init ((be_bytes k (length body) @ body) @ rest))" using len by (rule cbs_init_inv)
  from length_prefixed_exact [OF this assms(4)]
  have sp: "spec_prefixed k ((be_bytes k (length body) @ body) @ rest) = Some (body, rest)"
    using assms(5) by simp
  have "serves malloc (k + 4 + length body + c + 16)"
    using assms(2) by (rule serves_mono) (use assms(4) in simp)
  from build_and_read [OF w prefixed_reader [OF assms(4)] sp assms(1) this len] show ?thesis by blast
qed
end
